(* ===== verification/Sim_Prelude.thy ===== *)
theory Sim_Prelude
  imports Main "HOL-Library.Word" "HOL-Library.Multiset"
begin

text \<open>
  Shared vocabulary of the development: the width-exact integer types of the C++ code, the
  result type in which every abort, exception and undefined access of the code is a value, checked
  vector accesses, and the list lemmas the component theories share.
\<close>

section \<open>Machine integers\<close>

text \<open>
  A \<open>uint64_t\<close> (addresses, cycle counters) is a 64-bit word: its arithmetic wraps around as the
  code's does. A C++ \<open>int\<close> is modelled by \<open>int\<close>: signed overflow is undefined behaviour in C++,
  so no wrap-around is defined for it, and the values the code computes in it are sizes, indices and
  counters bounded by the sizes of the input files.
\<close>

type_synonym u64 = "64 word"

section \<open>Results: aborts, exceptions and undefined accesses as values\<close>

text \<open>
  \<open>OutOfRange\<close> is a vector access outside the vector, \<open>Uninit\<close> the use of an uninitialised
  variable, \<open>EmptyPop\<close> a \<open>front\<close> or \<open>pop\<close> on an empty container, \<open>DivByZero\<close> an integer
  division by zero, \<open>BadConv\<close> a conversion with no defined value, \<open>Abrupt\<close> a call of
  \<open>AbruptExit\<close>, \<open>ExitCall\<close> a call of \<open>exit(1)\<close>, \<open>AssertFail\<close> a failed \<open>assert\<close>,
  \<open>Thrown\<close> a thrown exception with its message, and \<open>NoReturn\<close> a call that never returns, where a
  component with such a loop is used through a record of operations.
\<close>

datatype cpp_error =
    OutOfRange | Uninit | EmptyPop | DivByZero | BadConv | Abrupt | ExitCall | AssertFail
  | Thrown string | NoReturn

type_synonym 'a res = "cpp_error + 'a"

definition res_bind :: "'a res \<Rightarrow> ('a \<Rightarrow> 'b res) \<Rightarrow> 'b res" where
  "res_bind m f = (case m of Inl e \<Rightarrow> Inl e | Inr x \<Rightarrow> f x)"

declare res_bind_def [code_unfold]

named_theorems res_simps \<open>equations of the result monad and of checked accesses\<close>

lemma res_bind_Inr [simp]: "res_bind (Inr x) f = f x"
  by (simp add: res_bind_def)

lemma res_bind_Inl [simp]: "res_bind (Inl e) f = Inl e"
  by (simp add: res_bind_def)

lemma res_bind_eq_Inr [simp]:
  "res_bind m f = Inr y \<longleftrightarrow> (\<exists>x. m = Inr x \<and> f x = Inr y)"
  by (cases m) auto

lemma Inr_eq_res_bind [simp]:
  "Inr y = res_bind m f \<longleftrightarrow> (\<exists>x. m = Inr x \<and> f x = Inr y)"
  by (cases m) auto

lemma res_bind_eq_Inl:
  "res_bind m f = Inl e \<longleftrightarrow> m = Inl e \<or> (\<exists>x. m = Inr x \<and> f x = Inl e)"
  by (cases m) auto

lemma res_bind_assoc: "res_bind (res_bind m f) g = res_bind m (\<lambda>x. res_bind (f x) g)"
  by (cases m) auto

lemma res_bind_cong [fundef_cong]:
  "m = m' \<Longrightarrow> (\<And>x. m' = Inr x \<Longrightarrow> f x = f' x) \<Longrightarrow> res_bind m f = res_bind m' f'"
  by (cases m') auto

section \<open>Checked accesses\<close>

text \<open>\<open>v[i]\<close> and \<open>v[i] = x\<close> on a \<open>std::vector\<close>: outside the vector the access is undefined.\<close>

definition vget :: "'a list \<Rightarrow> nat \<Rightarrow> 'a res" where
  "vget xs i = (if i < length xs then Inr (xs ! i) else Inl OutOfRange)"

definition vset :: "'a list \<Rightarrow> nat \<Rightarrow> 'a \<Rightarrow> 'a list res" where
  "vset xs i v = (if i < length xs then Inr (xs[i := v]) else Inl OutOfRange)"

definition vgeti :: "'a list \<Rightarrow> int \<Rightarrow> 'a res" where
  "vgeti xs i = (if 0 \<le> i then vget xs (nat i) else Inl OutOfRange)"

definition vseti :: "'a list \<Rightarrow> int \<Rightarrow> 'a \<Rightarrow> 'a list res" where
  "vseti xs i v = (if 0 \<le> i then vset xs (nat i) v else Inl OutOfRange)"

lemma vget_Inr [simp]: "vget xs i = Inr x \<longleftrightarrow> i < length xs \<and> x = xs ! i"
  by (auto simp: vget_def)

lemma vset_Inr [simp]: "vset xs i v = Inr ys \<longleftrightarrow> i < length xs \<and> ys = xs[i := v]"
  by (auto simp: vset_def)

lemma vget_in [simp]: "i < length xs \<Longrightarrow> vget xs i = Inr (xs ! i)"
  by simp

lemma vset_in [simp]: "i < length xs \<Longrightarrow> vset xs i v = Inr (xs[i := v])"
  by simp

lemma vgeti_Inr [simp]: "vgeti xs i = Inr x \<longleftrightarrow> 0 \<le> i \<and> nat i < length xs \<and> x = xs ! nat i"
  by (auto simp: vgeti_def)

lemma vseti_Inr [simp]:
  "vseti xs i v = Inr ys \<longleftrightarrow> 0 \<le> i \<and> nat i < length xs \<and> ys = xs[nat i := v]"
  by (auto simp: vseti_def)

lemma vgeti_in [simp]: "0 \<le> i \<Longrightarrow> nat i < length xs \<Longrightarrow> vgeti xs i = Inr (xs ! nat i)"
  by simp

lemma vgeti_of_nat [simp]: "vgeti xs (int i) = vget xs i"
  by (simp add: vgeti_def)

lemma vseti_of_nat [simp]: "vseti xs (int i) v = vset xs i v"
  by (simp add: vseti_def)

text \<open>\<open>push_back\<close> on the \<open>i\<close>-th vector of a vector of vectors.\<close>

definition vpush :: "'a list list \<Rightarrow> nat \<Rightarrow> 'a \<Rightarrow> 'a list list res" where
  "vpush xss i x = res_bind (vget xss i) (\<lambda>xs. Inr (xss[i := xs @ [x]]))"

lemma vpush_Inr [simp]:
  "vpush xss i x = Inr yss \<longleftrightarrow> i < length xss \<and> yss = xss[i := xss ! i @ [x]]"
  by (auto simp: vpush_def)

lemma vpush_in [simp]: "i < length xss \<Longrightarrow> vpush xss i x = Inr (xss[i := xss ! i @ [x]])"
  by simp

lemmas access_defs = vget_def vset_def vgeti_def vseti_def vpush_def

section \<open>Loops over a list in the result monad\<close>

text \<open>A \<open>for\<close> loop that threads a state through a list of indices and stops at the first error.\<close>

fun res_fold :: "('a \<Rightarrow> 's \<Rightarrow> 's res) \<Rightarrow> 'a list \<Rightarrow> 's \<Rightarrow> 's res" where
  "res_fold f [] s = Inr s"
| "res_fold f (x # xs) s = res_bind (f x s) (res_fold f xs)"

lemma res_fold_append:
  "res_fold f (xs @ ys) s = res_bind (res_fold f xs s) (res_fold f ys)"
proof (induction xs arbitrary: s)
  case Nil
  then show ?case by simp
next
  case (Cons x xs)
  then show ?case by (simp add: res_bind_assoc) (metis res_bind_cong)
qed

lemma res_fold_cong [fundef_cong]:
  "xs = ys \<Longrightarrow> s = t \<Longrightarrow> (\<And>x u. x \<in> set ys \<Longrightarrow> f x u = g x u) \<Longrightarrow> res_fold f xs s = res_fold g ys t"
proof (induction ys arbitrary: xs s t)
  case Nil
  then show ?case by simp
next
  case (Cons y ys)
  then show ?case by (auto intro: res_bind_cong)
qed

text \<open>The loop rule: an invariant every iteration establishes (and that rules errors out) holds.\<close>

lemma res_fold_inv:
  assumes "P s" and "\<And>x s. x \<in> set xs \<Longrightarrow> P s \<Longrightarrow> \<exists>t. f x s = Inr t \<and> P t"
  shows "\<exists>t. res_fold f xs s = Inr t \<and> P t"
  using assms
proof (induction xs arbitrary: s)
  case Nil
  then show ?case by simp
next
  case (Cons x xs)
  from Cons.prems(2) [of x s] Cons.prems(1) obtain t where "f x s = Inr t" "P t" by auto
  with Cons.IH [of t] Cons.prems(2) show ?case by auto
qed

lemma res_fold_pres:
  assumes "res_fold f xs s = Inr t" and "P s"
    and "\<And>x s t. x \<in> set xs \<Longrightarrow> P s \<Longrightarrow> f x s = Inr t \<Longrightarrow> P t"
  shows "P t"
  using assms
proof (induction xs arbitrary: s)
  case Nil
  then show ?case by simp
next
  case (Cons x xs)
  then show ?case by auto
qed

section \<open>List lemmas\<close>

lemma nth_upd_eq [simp]: "i < length xs \<Longrightarrow> xs[i := v] ! i = v"
  by simp

lemma sum_list_upd:
  fixes f :: "'a \<Rightarrow> int"
  shows "i < length xs \<Longrightarrow> (\<Sum>x\<leftarrow>xs[i := v]. f x) = (\<Sum>x\<leftarrow>xs. f x) - f (xs ! i) + f v"
proof (induction xs arbitrary: i)
  case Nil
  then show ?case by simp
next
  case (Cons a xs)
  then show ?case by (cases i) auto
qed

lemma concat_upd_mset:
  "i < length xss \<Longrightarrow> mset (concat (xss[i := xss ! i @ ys])) = mset (concat xss) + mset ys"
proof (induction xss arbitrary: i)
  case Nil
  then show ?case by simp
next
  case (Cons a xss)
  then show ?case by (cases i) auto
qed

lemma sorted_nth_le: "sorted (xs :: int list) \<Longrightarrow> i \<le> j \<Longrightarrow> j < length xs \<Longrightarrow> xs ! i \<le> xs ! j"
  by (rule sorted_nth_mono)

end
