(* ===== verification/Sim_Types.thy ===== *)
theory Sim_Types
  imports Sim_Prelude
begin

text \<open>
  The data types of \<open>src/src/common.h\<close> and the process-wide variables of
  \<open>src/src/preprocessor.cc\<close> that the simulation only reads. The structs become records with the
  fields of the code; a field whose name two structs share carries a short prefix.
\<close>

section \<open>Constants and enumerations\<close>

definition CACHE_LINE_COUNT :: int where "CACHE_LINE_COUNT = 16"

definition CACHE_LINE_BYTE :: u64 where "CACHE_LINE_BYTE = 64"

definition REQUEST_LIMIT :: nat where "REQUEST_LIMIT = 10240"

lemmas sim_consts = CACHE_LINE_COUNT_def CACHE_LINE_BYTE_def REQUEST_LIMIT_def

datatype R_TYPE = Row | Column | Value | Empty

datatype F_MODE = X_CMP | MAT | CSR | X_FULL_CMP

datatype GNN_MODE = GCN | OTHER

section \<open>Structs\<close>

record F_PATH =
  ini :: string
  a_data :: string
  xw_data :: string
  csv_path :: string
  davc_path :: string

record ArchInfo =
  n_of_engine :: int
  cache_size :: int
  cache_way :: int
  cache_set :: int
  urb :: int
  bf :: int
  lac_width :: int
  x_unit :: int
  mode :: F_MODE
  gnn_mode :: GNN_MODE
  d_value_addr_start :: u64
  a_row_addr_start :: u64
  a_col_addr_start :: u64
  xw_ele_addr_start :: u64
  axw_addr_start :: u64
  mem_type :: string
  mem_output :: string

record LogInfo =
  log_mode :: int
  log_x_unit :: int
  engine_n :: int
  log_mem_type :: string
  log_cache_size :: int
  dataset :: string
  log_lac_width :: int
  feature_length :: int
  log_urb :: int
  log_bf :: int
  tiling_info :: string
  log_cycle :: u64
  log_f_frag_access :: u64
  log_f_ele_access :: u64
  log_o_access :: u64
  log_g_access :: u64

record DataInfo =
  a_h :: int
  a_w :: int
  x_h :: int
  x_w :: int
  w_h :: int
  w_w :: int
  n_tiles :: int
  total_urb :: int
  num_e :: int
  num_v :: int

record DataIndex =
  value_addr_start :: u64
  value_addr_end :: u64
  row_addr_start :: u64
  row_addr_end :: u64
  col_addr_start :: u64
  col_addr_end :: u64
  di_row :: int
  zero_row :: int
  di_total_write :: int

record EdgeInfo =
  ei_id :: nat
  is_last :: bool
  dst :: int
  v_fold :: int

record Transaction =
  address :: u64
  is_write :: bool

section \<open>The variables fixed by preprocessing\<close>

text \<open>
  \<open>arch_info\<close>, \<open>data_info\<close>, \<open>row_ptr\<close>, \<open>col_idx\<close>, \<open>x_to_addr\<close>, \<open>data_index\<close> and
  \<open>davc_list\<close>: written by the preprocessor, only read once the simulation runs. The CSR arrays are
  per engine.
\<close>

record sim_env =
  arch_info :: ArchInfo
  data_info :: DataInfo
  row_ptr :: "int list list"
  col_idx :: "int list list"
  x_to_addr :: "u64 list list"
  data_index :: "DataIndex list"
  davc_list :: "int list"

abbreviation engines :: "sim_env \<Rightarrow> nat" where
  "engines G \<equiv> nat (n_of_engine (arch_info G))"

text \<open>The number of cache lines of an array of 4-byte elements.\<close>

definition lines_for :: "'a list \<Rightarrow> nat" where
  "lines_for xs = (length xs + 15) div 16"

section \<open>A small configuration for the examples\<close>

definition arch_small :: ArchInfo where
  "arch_small = \<lparr>n_of_engine = 2, cache_size = 256, cache_way = 2, cache_set = 2, urb = 2, bf = 2,
     lac_width = 1, x_unit = 32, mode = MAT, gnn_mode = GCN, d_value_addr_start = 0,
     a_row_addr_start = 128, a_col_addr_start = 256, xw_ele_addr_start = 384,
     axw_addr_start = 1152,
     mem_type = ''HBM2'', mem_output = ''results''\<rparr>"

text \<open>
  A graph of three vertices with four edges, distributed over two engines, with features of 64
  columns in two folds of two cache lines.
\<close>

definition env_small :: sim_env where
  "env_small = \<lparr>arch_info = arch_small,
     data_info = \<lparr>a_h = 3, a_w = 3, x_h = 3, x_w = 64, w_h = 64, w_w = 64, n_tiles = 1,
       total_urb = 4, num_e = 4, num_v = 3\<rparr>,
     row_ptr = [[0, 2, 3], [0, 1]], col_idx = [[1, 2, 1], [0]],
     x_to_addr = [[384, 448, 768, 832], [512, 576, 896, 960], [640, 704, 1024, 1088]],
     data_index =
       [\<lparr>value_addr_start = 0, value_addr_end = 64, row_addr_start = 128, row_addr_end = 192,
         col_addr_start = 256, col_addr_end = 320, di_row = 2, zero_row = 0, di_total_write = 8\<rparr>,
        \<lparr>value_addr_start = 64, value_addr_end = 128, row_addr_start = 192, row_addr_end = 256,
         col_addr_start = 320, col_addr_end = 384, di_row = 1, zero_row = 0, di_total_write = 4\<rparr>],
     davc_list = []\<rparr>"

end
