(* ===== verification/Memory.thy ===== *)
theory Memory
  imports Sim_Types
begin

text \<open>
  The simulator's memory front end, \<open>src/src/memory.cc\<close>: a transaction queue in front of the
  DRAM simulator, and the completion callbacks that sort returned lines into the per-engine graph
  queues and the feature queue. The DRAM simulator behind it is an argument \<open>D\<close> of the
  definitions (the three calls the front end makes); its contract is the locale \<open>dram_contract\<close>,
  interpreted on the models of \<open>DRAMsim3\<close>. The process-wide counters \<open>tq_get\<close>, \<open>cycle\<close>,
  \<open>xw_get\<close> and \<open>total_write\<close>, which this file writes, are fields of the memory's state.
\<close>

section \<open>The DRAM simulator as seen by the front end\<close>

text \<open>
  \<open>ClockTick\<close> calls the completion callbacks of the transactions that are done, in order. A
  callback changes nothing inside the DRAM simulator, so a tick is modelled as returning the list
  of completions (address, is write) next to the new state.
\<close>

record 'd dram_ops =
  d_accept :: "'d \<Rightarrow> u64 \<Rightarrow> bool \<Rightarrow> bool res"
  d_add :: "'d \<Rightarrow> u64 \<Rightarrow> bool \<Rightarrow> 'd res"
  d_tick :: "'d \<Rightarrow> ('d \<times> (u64 \<times> bool) list) res"

section \<open>The model\<close>

record M_STAT =
  g_access :: u64
  f_frag_access :: u64
  f_ele_access :: u64
  o_access :: u64

record 'd memory =
  dram :: 'd
  ms :: M_STAT
  rq :: "R_TYPE list list"
  mem_fq :: "u64 list"
  tq :: "Transaction list"
  tq_get :: u64
  mem_cycle :: u64
  xw_get :: u64
  total_write :: u64

definition Memory_new :: "sim_env \<Rightarrow> 'd \<Rightarrow> u64 \<Rightarrow> 'd memory" where
  "Memory_new G d tw = \<lparr>dram = d,
     ms = \<lparr>g_access = 0, f_frag_access = 0, f_ele_access = 0, o_access = 0\<rparr>,
     rq = replicate (engines G) [], mem_fq = [], tq = [], tq_get = 0, mem_cycle = 0, xw_get = 0,
     total_write = tw\<rparr>"

definition AddTransaction :: "'d memory \<Rightarrow> Transaction \<Rightarrow> 'd memory" where
  "AddTransaction m t = m\<lparr>tq := tq m @ [t], tq_get := tq_get m + 1\<rparr>"

fun consume_loop :: "'d dram_ops \<Rightarrow> 'd \<Rightarrow> Transaction list \<Rightarrow> ('d \<times> Transaction list) res" where
  "consume_loop D d [] = Inr (d, [])"
| "consume_loop D d (t # ts) =
     res_bind (d_accept D d (address t) (is_write t)) (\<lambda>ok.
     if ok then res_bind (d_add D d (address t) (is_write t)) (\<lambda>d'. consume_loop D d' ts)
     else Inr (d, t # ts))"

definition ConsumeTransaction :: "'d dram_ops \<Rightarrow> 'd memory \<Rightarrow> 'd memory res" where
  "ConsumeTransaction D m =
     res_bind (consume_loop D (dram m) (tq m)) (\<lambda>(d, ts). Inr (m\<lparr>dram := d, tq := ts\<rparr>))"

definition WillAcceptTransaction :: "'d memory \<Rightarrow> bool" where
  "WillAcceptTransaction m \<longleftrightarrow> length (tq m) < REQUEST_LIMIT"

fun in_region :: "R_TYPE \<Rightarrow> u64 \<Rightarrow> DataIndex \<Rightarrow> bool" where
  "in_region Value a d = (value_addr_start d \<le> a \<and> a < value_addr_end d)"
| "in_region Row a d = (row_addr_start d \<le> a \<and> a < row_addr_end d)"
| "in_region Column a d = (col_addr_start d \<le> a \<and> a < col_addr_end d)"
| "in_region Empty a d = False"

text \<open>The search for the engine that owns a line; \<open>None\<close> leaves the variable \<open>id\<close> unset.\<close>

fun find_owner :: "DataIndex list \<Rightarrow> R_TYPE \<Rightarrow> u64 \<Rightarrow> nat list \<Rightarrow> nat option res" where
  "find_owner ds t a [] = Inr None"
| "find_owner ds t a (i # is) =
     res_bind (vget ds i) (\<lambda>d. if in_region t a d then Inr (Some i) else find_owner ds t a is)"

definition line_type :: "ArchInfo \<Rightarrow> u64 \<Rightarrow> R_TYPE" where
  "line_type A a = (if a < a_row_addr_start A then Value
                    else if a < a_col_addr_start A then Row else Column)"

definition ReadCompleteCallback :: "sim_env \<Rightarrow> 'd memory \<Rightarrow> u64 \<Rightarrow> 'd memory res" where
  "ReadCompleteCallback G m a =
     (let A = arch_info G; f_addr_start = xw_ele_addr_start A
      in if d_value_addr_start A \<le> a \<and> a < f_addr_start then
           let t = line_type A a
           in res_bind (find_owner (data_index G) t a [0..<engines G]) (\<lambda>id.
              case id of None \<Rightarrow> Inl Uninit
              | Some i \<Rightarrow> res_bind (vpush (rq m) i t) (\<lambda>q.
                  Inr (m\<lparr>ms := (ms m)\<lparr>g_access := g_access (ms m) + 1\<rparr>, rq := q\<rparr>)))
         else if f_addr_start \<le> a then
           Inr (m\<lparr>ms := (ms m)\<lparr>f_ele_access := f_ele_access (ms m) + 1\<rparr>,
                  xw_get := xw_get m + 1, mem_fq := mem_fq m @ [a]\<rparr>)
         else Inr m)"

definition WriteCompleteCallback :: "'d memory \<Rightarrow> u64 \<Rightarrow> 'd memory" where
  "WriteCompleteCallback m a =
     m\<lparr>ms := (ms m)\<lparr>o_access := o_access (ms m) + 1\<rparr>, total_write := total_write m - 1\<rparr>"

definition deliver :: "sim_env \<Rightarrow> u64 \<times> bool \<Rightarrow> 'd memory \<Rightarrow> 'd memory res" where
  "deliver G e m = (if snd e then Inr (WriteCompleteCallback m (fst e))
                    else ReadCompleteCallback G m (fst e))"

definition UpdateCycle :: "sim_env \<Rightarrow> 'd dram_ops \<Rightarrow> 'd memory \<Rightarrow> 'd memory res" where
  "UpdateCycle G D m =
     res_bind (d_tick D (dram m)) (\<lambda>(d, evs).
     res_bind (res_fold (deliver G) evs (m\<lparr>dram := d\<rparr>)) (\<lambda>m'.
     Inr (m'\<lparr>mem_cycle := mem_cycle m' + 1\<rparr>)))"

definition GetGraph :: "'d memory \<Rightarrow> nat \<Rightarrow> (R_TYPE \<times> 'd memory) res" where
  "GetGraph m i =
     res_bind (vget (rq m) i) (\<lambda>q.
     case q of [] \<Rightarrow> Inr (Empty, m) | t # ts \<Rightarrow> Inr (t, m\<lparr>rq := (rq m)[i := ts]\<rparr>))"

text \<open>The queue's emptiness is signalled in band by the largest address.\<close>

definition GetFeature :: "'d memory \<Rightarrow> u64 \<times> 'd memory" where
  "GetFeature m = (case mem_fq m of [] \<Rightarrow> (- 1, m) | a # as \<Rightarrow> (a, m\<lparr>mem_fq := as\<rparr>))"

section \<open>The address layout and the routing of completed reads\<close>

text \<open>
  The layout the preprocessor establishes: the value, row and column regions of the engines lie
  one after the other, engine by engine, below the feature region.
\<close>

definition region_chain :: "(DataIndex \<Rightarrow> u64) \<Rightarrow> (DataIndex \<Rightarrow> u64) \<Rightarrow> u64 \<Rightarrow> u64 \<Rightarrow> DataIndex list \<Rightarrow> bool" where
  "region_chain st en lo hi ds \<longleftrightarrow>
     (\<forall>d \<in> set ds. lo \<le> st d \<and> st d \<le> en d \<and> en d \<le> hi) \<and>
     (\<forall>i j. i < j \<longrightarrow> j < length ds \<longrightarrow> en (ds ! i) \<le> st (ds ! j))"

definition layout_ok :: "sim_env \<Rightarrow> bool" where
  "layout_ok G \<longleftrightarrow> (let A = arch_info G; ds = data_index G in
     length ds = engines G \<and>
     region_chain value_addr_start value_addr_end (d_value_addr_start A) (a_row_addr_start A) ds \<and>
     region_chain row_addr_start row_addr_end (a_row_addr_start A) (a_col_addr_start A) ds \<and>
     region_chain col_addr_start col_addr_end (a_col_addr_start A) (xw_ele_addr_start A) ds \<and>
     d_value_addr_start A \<le> a_row_addr_start A \<and> a_row_addr_start A \<le> a_col_addr_start A \<and>
     a_col_addr_start A \<le> xw_ele_addr_start A)"

lemma find_owner_first:
  assumes "i < length ds" and "in_region t a (ds ! i)" and "\<And>j. j < i \<Longrightarrow> \<not> in_region t a (ds ! j)"
    and "i < n" and "n \<le> length ds"
  shows "find_owner ds t a [0..<n] = Inr (Some i)"
proof -
  have skip: "find_owner ds t a (is @ js) = find_owner ds t a js"
    if "\<forall>j \<in> set is. j < length ds \<and> \<not> in_region t a (ds ! j)" for "is" js
    using that by (induction "is") auto
  have "[0..<n] = [0..<i] @ i # [Suc i..<n]"
    using assms(4) upt_add_eq_append [of 0 i "n - i"] by (simp add: upt_conv_Cons [of i n])
  then show ?thesis using skip [of "[0..<i]"] assms by simp
qed

lemma region_chain_unique:
  assumes "region_chain st en lo hi ds" and "i < length ds" and "st (ds ! i) \<le> a" and "a < en (ds ! i)"
    and "j < i"
  shows "\<not> (st (ds ! j) \<le> a \<and> a < en (ds ! j))"
  using assms unfolding region_chain_def by (meson le_less_trans less_le_not_le order_trans)

lemma find_owner_layout:
  assumes "layout_ok G" and "i < engines G" and "in_region t a (data_index G ! i)"
  shows "find_owner (data_index G) t a [0..<engines G] = Inr (Some i)"
proof (rule find_owner_first)
  show "i < length (data_index G)" "i < engines G" "engines G \<le> length (data_index G)"
    using assms by (auto simp: layout_ok_def Let_def)
  show "in_region t a (data_index G ! i)" by (fact assms(3))
  fix j
  assume "j < i"
  with assms show "\<not> in_region t a (data_index G ! j)"
    by (cases t) (auto simp: layout_ok_def Let_def dest: region_chain_unique)
qed

lemma line_type_layout:
  assumes "layout_ok G" and "i < engines G" and "in_region t a (data_index G ! i)"
  shows "line_type (arch_info G) a = t" and "d_value_addr_start (arch_info G) \<le> a"
    and "a < xw_ele_addr_start (arch_info G)"
proof -
  have d: "data_index G ! i \<in> set (data_index G)"
    using assms by (auto simp: layout_ok_def Let_def)
  note L = assms(1) [unfolded layout_ok_def Let_def region_chain_def]
  show "line_type (arch_info G) a = t" "d_value_addr_start (arch_info G) \<le> a"
    "a < xw_ele_addr_start (arch_info G)"
    using L d assms(3) by (cases t; force simp: line_type_def)+
qed

lemma ReadComplete_routes_at:
  assumes "layout_ok G" and "i < engines G" and "in_region t a (data_index G ! i)"
    and "length (rq m) = engines G"
  shows "ReadCompleteCallback G m a =
    Inr (m\<lparr>ms := (ms m)\<lparr>g_access := g_access (ms m) + 1\<rparr>, rq := (rq m)[i := rq m ! i @ [t]]\<rparr>)"
  using assms find_owner_layout [OF assms(1-3)] line_type_layout [OF assms(1-3)]
  by (simp add: ReadCompleteCallback_def Let_def)

text \<open>
  C22. Routing of graph lines. Under the preprocessor's address layout, the completion of a read of
  a line that lies in engine \<open>i\<close>'s value, row or column region is recorded as a line of exactly
  that kind in engine \<open>i\<close>'s queue: the search never leaves the owner unset, never picks another
  engine and never confuses the kinds; nothing else but the graph-access counter changes.
\<close>

theorem ReadComplete_routes:
  assumes "layout_ok G" and "i < engines G" and "in_region t a (data_index G ! i)"
    and "length (rq m) = engines G"
  shows "ReadCompleteCallback G m a =
    Inr (m\<lparr>ms := (ms m)\<lparr>g_access := g_access (ms m) + 1\<rparr>, rq := (rq m)[i := rq m ! i @ [t]]\<rparr>)"
  by (rule ReadComplete_routes_at [OF assms])

theorem ReadComplete_routes_witness:
  "ReadCompleteCallback env_small (Memory_new env_small () 8) 320 =
    Inr ((Memory_new env_small () 8)\<lparr>ms := (ms (Memory_new env_small () 8))\<lparr>g_access := 1\<rparr>,
      rq := [[], [Column]]\<rparr>)"
proof -
  have l: "layout_ok env_small"
    by (auto simp: layout_ok_def region_chain_def env_small_def arch_small_def Let_def less_2_cases_iff nth_Cons')
  have o: "in_region Column 320 (data_index env_small ! 1)" "1 < engines env_small"
    by (simp_all add: env_small_def arch_small_def)
  show ?thesis
    using ReadComplete_routes [OF l o(2) o(1), of "Memory_new env_small () 8"]
    by (simp add: Memory_new_def env_small_def arch_small_def numeral_2_eq_2)
qed

section \<open>The contract of the DRAM simulator\<close>

text \<open>
  \<open>pending d\<close> is the multiset of transactions the DRAM simulator has accepted and not completed.
  The contract: in a well-formed state a query and a tick never fail, an accepted transaction is
  added once, and a tick completes some of the pending transactions, each at most once.
\<close>

locale dram_contract =
  fixes D :: "'d dram_ops"
    and pending :: "'d \<Rightarrow> (u64 \<times> bool) multiset"
    and inv :: "'d \<Rightarrow> bool"
  assumes accept_spec: "inv d \<Longrightarrow> \<exists>b. d_accept D d a w = Inr b"
    and add_spec: "inv d \<Longrightarrow> d_accept D d a w = Inr True \<Longrightarrow>
      \<exists>d'. d_add D d a w = Inr d' \<and> inv d' \<and> pending d' = add_mset (a, w) (pending d)"
    and tick_spec: "inv d \<Longrightarrow>
      \<exists>d' evs. d_tick D d = Inr (d', evs) \<and> inv d' \<and> pending d = pending d' + mset evs"
begin

definition inflight :: "'d memory \<Rightarrow> (u64 \<times> bool) multiset" where
  "inflight m = pending (dram m) + mset (map (\<lambda>t. (address t, is_write t)) (tq m))"

lemma inflight_Add:
  "inflight (AddTransaction m t) = add_mset (address t, is_write t) (inflight m)"
  by (simp add: inflight_def AddTransaction_def)

lemma consume_loop_spec:
  "inv d \<Longrightarrow> \<exists>d' n. consume_loop D d ts = Inr (d', drop n ts) \<and> n \<le> length ts \<and> inv d' \<and>
     pending d' = pending d + mset (map (\<lambda>t. (address t, is_write t)) (take n ts)) \<and>
     (n < length ts \<longrightarrow> d_accept D d' (address (ts ! n)) (is_write (ts ! n)) = Inr False)"
proof (induction ts arbitrary: d)
  case Nil
  then show ?case by auto
next
  case (Cons t ts)
  from accept_spec [OF Cons.prems] obtain b
    where b: "d_accept D d (address t) (is_write t) = Inr b" by blast
  show ?case
  proof (cases b)
    case False
    with b Cons.prems show ?thesis by (intro exI [of _ d] exI [of _ 0]) auto
  next
    case True
    with b add_spec [OF Cons.prems, of "address t" "is_write t"] obtain d1
      where d1: "d_add D d (address t) (is_write t) = Inr d1" "inv d1"
        "pending d1 = add_mset (address t, is_write t) (pending d)" by auto
    from Cons.IH [OF d1(2)] obtain d' n where "consume_loop D d1 ts = Inr (d', drop n ts)"
      "n \<le> length ts" "inv d'"
      "pending d' = pending d1 + mset (map (\<lambda>t. (address t, is_write t)) (take n ts))"
      "n < length ts \<longrightarrow> d_accept D d' (address (ts ! n)) (is_write (ts ! n)) = Inr False" by auto
    with b True d1 show ?thesis by (intro exI [of _ d'] exI [of _ "Suc n"]) auto
  qed
qed

lemma Consume_spec:
  assumes "inv (dram m)"
  shows "\<exists>d n. ConsumeTransaction D m = Inr (m\<lparr>dram := d, tq := drop n (tq m)\<rparr>) \<and> inv d \<and>
    n \<le> length (tq m) \<and> inflight (m\<lparr>dram := d, tq := drop n (tq m)\<rparr>) = inflight m \<and>
    (n < length (tq m) \<longrightarrow>
       d_accept D d (address (tq m ! n)) (is_write (tq m ! n)) = Inr False)"
proof -
  from consume_loop_spec [OF assms, of "tq m"] obtain d n
    where c: "consume_loop D (dram m) (tq m) = Inr (d, drop n (tq m))" "n \<le> length (tq m)" "inv d"
      "pending d = pending (dram m) + mset (map (\<lambda>t. (address t, is_write t)) (take n (tq m)))"
      "n < length (tq m) \<longrightarrow> d_accept D d (address (tq m ! n)) (is_write (tq m ! n)) = Inr False"
    by blast
  have "mset (map (\<lambda>t. (address t, is_write t)) (take n (tq m))) +
      mset (map (\<lambda>t. (address t, is_write t)) (drop n (tq m))) =
      mset (map (\<lambda>t. (address t, is_write t)) (tq m))"
    by (metis append_take_drop_id map_append mset_append)
  then have "inflight (m\<lparr>dram := d, tq := drop n (tq m)\<rparr>) = inflight m"
    using c(4) by (simp add: inflight_def add.assoc)
  with c show ?thesis
    by (intro exI [of _ d] exI [of _ n]) (simp add: ConsumeTransaction_def)
qed

end

end
