(* ===== verification/Graph_Reader.thy ===== *)
theory Graph_Reader
  imports Memory
begin

text \<open>
  The graph reader of one engine, \<open>src/src/g_reader.cc\<close>: it requests the engine's CSR arrays line
  by line, once per fold, counts the lines that come back, and passes one edge per cycle to the
  feature reader. The theory models every operation, states the stream of edges an engine has to
  pass, and shows that every operation keeps the invariant that ties the reader to its position in
  that stream.
\<close>

section \<open>The model\<close>

record GR_STAT =
  row_end_idx :: int
  col_end_idx :: int
  val_end_idx :: int
  cur_row_idx :: int
  cur_col_idx :: int
  cur_val_idx :: int
  row_overflow :: int
  col_overflow :: int
  val_overflow :: int
  remain_edge :: int
  next_v_addr :: u64
  next_e_addr :: u64
  next_val_addr :: u64

record GR_FLAG = GR_STAT +
  v_req_over :: bool
  e_req_over :: bool
  v_reci_over :: bool
  e_reci_over :: bool
  val_reci_over :: bool
  reci_over :: bool
  pass_over :: bool

record graph_reader = GR_FLAG +
  gr_id :: nat
  v_req_count :: int
  e_req_count :: int
  v_reci_count :: int
  e_reci_count :: int
  val_reci_count :: int
  g_pass_count :: int

definition GraphReader_new :: "sim_env \<Rightarrow> nat \<Rightarrow> graph_reader res" where
  "GraphReader_new G i =
     res_bind (vget (data_index G) i) (\<lambda>d.
     let r = \<lparr>row_end_idx = 0, col_end_idx = 0, val_end_idx = 0,
              cur_row_idx = 1, cur_col_idx = 0, cur_val_idx = 0,
              row_overflow = 0, col_overflow = 0, val_overflow = 0, remain_edge = 0,
              next_v_addr = row_addr_start d, next_e_addr = col_addr_start d,
              next_val_addr = value_addr_start d,
              v_req_over = False, e_req_over = False, v_reci_over = False, e_reci_over = False,
              val_reci_over = False, reci_over = False, pass_over = False,
              gr_id = i, v_req_count = 0, e_req_count = 0, v_reci_count = 0, e_reci_count = 0,
              val_reci_count = 0, g_pass_count = 0\<rparr>
     in if gnn_mode (arch_info G) = OTHER
        then res_bind (vget (col_idx G) i) (\<lambda>ci.
             Inr (r\<lparr>val_overflow := bf (arch_info G), val_reci_over := True,
                    val_end_idx := int (length ci)\<rparr>))
        else Inr r)"

definition read_tr :: "u64 \<Rightarrow> Transaction" where
  "read_tr a = \<lparr>address = a, is_write = False\<rparr>"

definition VertexRequest ::
  "sim_env \<Rightarrow> graph_reader \<Rightarrow> 'd memory \<Rightarrow> (graph_reader \<times> 'd memory) res" where
  "VertexRequest G r m =
     (if WillAcceptTransaction m then
        res_bind (vget (data_index G) (gr_id r)) (\<lambda>d.
        let m1 = AddTransaction m (read_tr (next_v_addr r));
            r1 = r\<lparr>next_v_addr := next_v_addr r + CACHE_LINE_BYTE\<rparr>
        in if next_v_addr r1 = row_addr_end d then
             let r2 = r1\<lparr>v_req_count := v_req_count r1 + 1, next_v_addr := row_addr_start d\<rparr>
             in Inr (if v_req_count r2 = bf (arch_info G) then r2\<lparr>v_req_over := True\<rparr> else r2, m1)
           else Inr (r1, m1))
      else Inr (r, m))"

definition EdgeRequest ::
  "sim_env \<Rightarrow> graph_reader \<Rightarrow> 'd memory \<Rightarrow> (graph_reader \<times> 'd memory) res" where
  "EdgeRequest G r m =
     (if WillAcceptTransaction m then
        res_bind (vget (data_index G) (gr_id r)) (\<lambda>d.
        let gcn = (gnn_mode (arch_info G) = GCN);
            m1 = AddTransaction m (read_tr (next_e_addr r));
            m2 = (if gcn then AddTransaction m1 (read_tr (next_val_addr r)) else m1);
            r1 = (if gcn then r\<lparr>next_val_addr := next_val_addr r + CACHE_LINE_BYTE\<rparr> else r);
            r2 = r1\<lparr>next_e_addr := next_e_addr r1 + CACHE_LINE_BYTE\<rparr>
        in if next_e_addr r2 = col_addr_end d then
             let r3 = r2\<lparr>e_req_count := e_req_count r2 + 1, next_e_addr := col_addr_start d\<rparr>;
                 r4 = (if gcn then r3\<lparr>next_val_addr := value_addr_start d\<rparr> else r3)
             in Inr (if e_req_count r4 = bf (arch_info G) then r4\<lparr>e_req_over := True\<rparr> else r4, m2)
           else Inr (r2, m2))
      else Inr (r, m))"

text \<open>The three branches of \<open>GraphReceive\<close>, one per kind of line.\<close>

definition receive_row :: "sim_env \<Rightarrow> int \<Rightarrow> graph_reader \<Rightarrow> graph_reader" where
  "receive_row G n r =
     (let r1 = (if row_end_idx r = n
                then r\<lparr>row_overflow := row_overflow r + 1, row_end_idx := 0\<rparr> else r);
          r2 = r1\<lparr>row_end_idx := row_end_idx r1 + CACHE_LINE_COUNT\<rparr>
      in if n \<le> row_end_idx r2 then
           let r3 = r2\<lparr>row_end_idx := n, v_reci_count := v_reci_count r2 + 1\<rparr>
           in if v_reci_count r3 = bf (arch_info G) then r3\<lparr>v_reci_over := True\<rparr> else r3
         else r2)"

definition receive_col :: "sim_env \<Rightarrow> int \<Rightarrow> graph_reader \<Rightarrow> graph_reader" where
  "receive_col G n r =
     (let r1 = (if col_end_idx r = n
                then r\<lparr>col_overflow := col_overflow r + 1, col_end_idx := 0\<rparr> else r);
          r2 = r1\<lparr>col_end_idx := col_end_idx r1 + CACHE_LINE_COUNT\<rparr>
      in if n \<le> col_end_idx r2 then
           let r3 = r2\<lparr>col_end_idx := n, e_reci_count := e_reci_count r2 + 1\<rparr>
           in if e_reci_count r3 = bf (arch_info G) then r3\<lparr>e_reci_over := True\<rparr> else r3
         else r2)"

definition receive_val :: "sim_env \<Rightarrow> int \<Rightarrow> graph_reader \<Rightarrow> graph_reader" where
  "receive_val G n r =
     (let r1 = (if val_end_idx r = n
                then r\<lparr>val_overflow := val_overflow r + 1, val_end_idx := 0\<rparr> else r);
          r2 = r1\<lparr>val_end_idx := val_end_idx r1 + CACHE_LINE_COUNT\<rparr>
      in if n \<le> val_end_idx r2 then
           let r3 = r2\<lparr>val_end_idx := n, val_reci_count := val_reci_count r2 + 1\<rparr>
           in if val_reci_count r3 = bf (arch_info G) then r3\<lparr>val_reci_over := True\<rparr> else r3
         else r2)"

fun receive_line :: "sim_env \<Rightarrow> R_TYPE \<Rightarrow> graph_reader \<Rightarrow> graph_reader res" where
  "receive_line G Row r =
     res_bind (vget (row_ptr G) (gr_id r)) (\<lambda>rp. Inr (receive_row G (int (length rp)) r))"
| "receive_line G Column r =
     res_bind (vget (col_idx G) (gr_id r)) (\<lambda>ci. Inr (receive_col G (int (length ci)) r))"
| "receive_line G Value r =
     res_bind (vget (col_idx G) (gr_id r)) (\<lambda>ci. Inr (receive_val G (int (length ci)) r))"
| "receive_line G Empty r = Inr r"

definition GraphReceive ::
  "sim_env \<Rightarrow> graph_reader \<Rightarrow> 'd memory \<Rightarrow> (graph_reader \<times> 'd memory) res" where
  "GraphReceive G r m =
     res_bind (GetGraph m (gr_id r)) (\<lambda>(reci, m').
     res_bind (receive_line G reci r) (\<lambda>r'.
     Inr (if v_reci_over r' \<and> e_reci_over r' \<and> val_reci_over r'
          then r'\<lparr>reci_over := True\<rparr> else r', m')))"

text \<open>The loop of \<open>NextFeature\<close> that moves to the next row with an edge.\<close>

function next_row :: "int list \<Rightarrow> graph_reader \<Rightarrow> graph_reader res" where
  "next_row rp r =
     (if remain_edge r = 0 then
        let n = int (length rp)
        in if cur_row_idx r = n \<and> row_overflow r = 0 then Inr r
           else let r1 = (if cur_row_idx r = n \<and> row_overflow r > 0
                          then r\<lparr>cur_row_idx := 1, row_overflow := row_overflow r - 1\<rparr> else r)
                in res_bind (vgeti rp (cur_row_idx r1)) (\<lambda>hi.
                   res_bind (vgeti rp (cur_row_idx r1 - 1)) (\<lambda>lo.
                   let r2 = r1\<lparr>remain_edge := hi - lo, cur_row_idx := cur_row_idx r1 + 1\<rparr>
                   in if cur_row_idx r2 = row_end_idx r2 \<and> row_overflow r2 = 0 then Inr r2
                      else next_row rp r2))
      else Inr r)"
  by pat_completeness auto
termination
  by (relation "measures [\<lambda>(rp, r). nat (row_overflow r), \<lambda>(rp, r). nat (int (length rp) - cur_row_idx r)]")
    (auto split: if_splits)

declare next_row.simps [simp del]

definition no_edge :: "nat \<Rightarrow> EdgeInfo" where
  "no_edge i = \<lparr>ei_id = i, is_last = False, dst = -1, v_fold = -1\<rparr>"

definition pass_edge :: "sim_env \<Rightarrow> int list \<Rightarrow> graph_reader \<Rightarrow> (EdgeInfo \<times> graph_reader) res" where
  "pass_edge G ci r =
     (let n = int (length ci);
          r1 = (if cur_col_idx r = n \<and> col_overflow r > 0
                then r\<lparr>cur_col_idx := 0, cur_val_idx := 0, col_overflow := col_overflow r - 1,
                       val_overflow := val_overflow r - 1, g_pass_count := g_pass_count r + 1\<rparr>
                else r)
      in if cur_col_idx r = n \<and> g_pass_count r1 = bf (arch_info G)
         then Inr (no_edge (gr_id r), r1\<lparr>pass_over := True\<rparr>)
         else res_bind (vgeti ci (cur_col_idx r1)) (\<lambda>c.
              let r2 = r1\<lparr>cur_col_idx := cur_col_idx r1 + 1, cur_val_idx := cur_val_idx r1 + 1,
                          remain_edge := remain_edge r1 - 1\<rparr>
              in Inr (\<lparr>ei_id = gr_id r, is_last = (remain_edge r2 = 0), dst = c,
                       v_fold = g_pass_count r2\<rparr>, r2)))"

definition NextFeature :: "sim_env \<Rightarrow> graph_reader \<Rightarrow> (EdgeInfo \<times> graph_reader) res" where
  "NextFeature G r =
     res_bind (vget (col_idx G) (gr_id r)) (\<lambda>ci.
     res_bind (vget (row_ptr G) (gr_id r)) (\<lambda>rp.
     if cur_col_idx r = int (length ci) \<and> g_pass_count r = bf (arch_info G) - 1
     then Inr (no_edge (gr_id r), r\<lparr>pass_over := True\<rparr>)
     else res_bind (if cur_row_idx r < row_end_idx r \<or> row_overflow r > 0
                    then next_row rp r else Inr r) (\<lambda>r1.
          if remain_edge r1 > 0 \<and>
             (cur_col_idx r1 < col_end_idx r1 \<or> col_overflow r1 > 0) \<and>
             (cur_val_idx r1 < val_end_idx r1 \<or> val_overflow r1 > 0)
          then pass_edge G ci r1
          else Inr (no_edge (gr_id r), r1))))"

section \<open>The stream of edges\<close>

text \<open>
  The specification of what an engine passes: position \<open>p\<close> of the stream is edge \<open>p mod E\<close> of
  the CSR arrays in fold \<open>p div E\<close>, flagged when the edge ends its row.
\<close>

definition csr_ok :: "int list \<Rightarrow> int list \<Rightarrow> bool" where
  "csr_ok rp ci \<longleftrightarrow> rp \<noteq> [] \<and> rp ! 0 = 0 \<and> sorted rp \<and> rp ! (length rp - 1) = int (length ci) \<and> ci \<noteq> []"

definition edge_at :: "int list \<Rightarrow> int list \<Rightarrow> nat \<Rightarrow> nat \<Rightarrow> EdgeInfo" where
  "edge_at rp ci i p = (let E = length ci in
     \<lparr>ei_id = i, is_last = (int (p mod E) + 1 \<in> set rp), dst = ci ! (p mod E), v_fold = int (p div E)\<rparr>)"

definition gr_pos :: "int list \<Rightarrow> graph_reader \<Rightarrow> nat" where
  "gr_pos ci r = nat (g_pass_count r) * length ci + nat (cur_col_idx r)"

text \<open>
  The invariant of the passing side. \<open>base\<close> is the column index the row counter has been aligned
  with: the current one, or 0 when the row counter has already moved to the next fold and the
  column counter still stands at the end of the last one.
\<close>

definition row_aligned :: "int list \<Rightarrow> int list \<Rightarrow> int \<Rightarrow> graph_reader \<Rightarrow> bool" where
  "row_aligned rp ci base r \<longleftrightarrow>
     (base = cur_col_idx r \<or> cur_col_idx r = int (length ci) \<and> base = 0) \<and>
     1 \<le> cur_row_idx r \<and> cur_row_idx r \<le> int (length rp) \<and>
     remain_edge r = rp ! nat (cur_row_idx r - 1) - base \<and> 0 \<le> remain_edge r \<and>
     (remain_edge r > 0 \<longrightarrow> 2 \<le> cur_row_idx r \<and> rp ! nat (cur_row_idx r - 2) \<le> base)"

definition gr_inv :: "int list \<Rightarrow> int list \<Rightarrow> int \<Rightarrow> graph_reader \<Rightarrow> bool" where
  "gr_inv rp ci B r \<longleftrightarrow>
     0 \<le> cur_col_idx r \<and> cur_col_idx r \<le> int (length ci) \<and> cur_val_idx r = cur_col_idx r \<and>
     0 \<le> g_pass_count r \<and> g_pass_count r < B \<and>
     0 \<le> row_overflow r \<and> 0 \<le> col_overflow r \<and> 0 \<le> val_overflow r \<and>
     col_end_idx r \<le> int (length ci) \<and> val_end_idx r \<le> int (length ci) \<and>
     (\<exists>base. row_aligned rp ci base r)"

text \<open>The part of the state the row loop leaves alone.\<close>

definition col_view :: "graph_reader \<Rightarrow> _" where
  "col_view r = (cur_col_idx r, cur_val_idx r, g_pass_count r, col_overflow r, val_overflow r,
     col_end_idx r, val_end_idx r, gr_id r, row_end_idx r, pass_over r, v_reci_count r, e_reci_count r)"

lemma csr_ok_len: "csr_ok rp ci \<Longrightarrow> 2 \<le> length rp"
proof (rule ccontr)
  assume ok: "csr_ok rp ci" and "\<not> 2 \<le> length rp"
  then have z: "length rp - 1 = 0" by simp
  from ok have "rp ! (length rp - 1) = int (length ci)" "rp ! 0 = 0" "ci \<noteq> []"
    unfolding csr_ok_def by blast+
  then show False unfolding z by simp
qed

lemma csr_ok_le:
  assumes "csr_ok rp ci" and "i < length rp"
  shows "0 \<le> rp ! i" and "rp ! i \<le> int (length ci)"
  using assms sorted_nth_le [of rp 0 i] sorted_nth_le [of rp i "length rp - 1"]
  by (auto simp: csr_ok_def)

text \<open>One iteration of the row loop.\<close>

lemma row_step:
  assumes ok: "csr_ok rp ci" and al: "row_aligned rp ci base r" and z: "remain_edge r = 0"
    and c: "0 \<le> cur_col_idx r" and lt: "cur_row_idx r < int (length rp)"
  shows "row_aligned rp ci base (r\<lparr>remain_edge := rp ! nat (cur_row_idx r) - rp ! nat (cur_row_idx r - 1),
            cur_row_idx := cur_row_idx r + 1\<rparr>)"
proof -
  let ?c = "cur_row_idx r"
  have b: "rp ! nat (?c - 1) = base" "1 \<le> ?c" using al z by (auto simp: row_aligned_def)
  moreover have "rp ! nat (?c - 1) \<le> rp ! nat ?c"
    using ok lt b(2) by (intro sorted_nth_le) (auto simp: csr_ok_def)
  ultimately show ?thesis
    using al lt by (auto simp: row_aligned_def)
qed

lemma row_wrap:
  assumes ok: "csr_ok rp ci" and al: "row_aligned rp ci base r" and z: "remain_edge r = 0"
    and e: "cur_row_idx r = int (length rp)"
  shows "row_aligned rp ci 0 (r\<lparr>cur_row_idx := 1, row_overflow := x\<rparr>)" and "base = cur_col_idx r"
    and "cur_col_idx r = int (length ci)"
proof -
  have "rp ! nat (int (length rp) - 1) = int (length ci)"
    using ok by (simp add: csr_ok_def nat_diff_distrib')
  then have "base = int (length ci)" using al z e by (simp add: row_aligned_def)
  moreover have "int (length ci) \<noteq> 0" using ok by (simp add: csr_ok_def)
  ultimately show "base = cur_col_idx r" and cc: "cur_col_idx r = int (length ci)"
    using al by (auto simp: row_aligned_def)
  show "row_aligned rp ci 0 (r\<lparr>cur_row_idx := 1, row_overflow := x\<rparr>)"
    using cc z ok csr_ok_len [OF ok] by (auto simp: row_aligned_def csr_ok_def)
qed

text \<open>
  The row loop never reads outside the row pointers, keeps the alignment, and stops at a row with
  an edge or where no further row has been received.
\<close>

lemma next_row_spec:
  assumes "csr_ok rp ci" and "row_aligned rp ci base r" and "0 \<le> cur_col_idx r" and "0 \<le> row_overflow r"
  shows "\<exists>r' base'. next_row rp r = Inr r' \<and> row_aligned rp ci base' r' \<and> col_view r' = col_view r \<and>
    0 \<le> row_overflow r' \<and>
    row_overflow r' + (if base' = cur_col_idx r' then 0 else 1) =
      row_overflow r + (if base = cur_col_idx r then 0 else 1) \<and>
    (remain_edge r' > 0 \<or> row_overflow r' = 0 \<and> (cur_row_idx r' = int (length rp) \<or> cur_row_idx r' = row_end_idx r'))"
  using assms
proof (induction rp r arbitrary: base rule: next_row.induct)
  case (1 rp r)
  note ok = "1.prems"(1) and al = "1.prems"(2) and c0 = "1.prems"(3) and o0 = "1.prems"(4)
  show ?case
  proof (cases "remain_edge r = 0")
    case False
    then have "0 < remain_edge r" using al by (auto simp: row_aligned_def)
    with False al o0 show ?thesis
      by (intro exI [of _ r] exI [of _ base]) (simp add: next_row.simps [of rp r])
  next
    case z: True
    let ?n = "int (length rp)"
    show ?thesis
    proof (cases "cur_row_idx r = ?n \<and> row_overflow r = 0")
      case True
      with z al show ?thesis
        by (intro exI [of _ r] exI [of _ base]) (simp add: next_row.simps [of rp r])
    next
      case go: False
      define r1 where "r1 = (if cur_row_idx r = ?n \<and> row_overflow r > 0
        then r\<lparr>cur_row_idx := 1, row_overflow := row_overflow r - 1\<rparr> else r)"
      define b1 where "b1 = (if cur_row_idx r = ?n then 0 else base)"
      have a1: "row_aligned rp ci b1 r1" "remain_edge r1 = 0" "col_view r1 = col_view r"
        "cur_row_idx r1 < ?n" "0 \<le> row_overflow r1" "cur_col_idx r1 = cur_col_idx r"
        and ov: "row_overflow r1 + (if b1 = cur_col_idx r1 then 0 else 1) =
          row_overflow r + (if base = cur_col_idx r then 0 else 1)"
        using go z al o0 row_wrap [OF ok al z] csr_ok_len [OF ok] ok
        by (auto simp: r1_def b1_def row_aligned_def col_view_def csr_ok_def)
      have ge: "1 \<le> cur_row_idx r1" using a1(1) by (simp add: row_aligned_def)
      define r2 where "r2 = r1\<lparr>remain_edge := rp ! nat (cur_row_idx r1) - rp ! nat (cur_row_idx r1 - 1),
        cur_row_idx := cur_row_idx r1 + 1\<rparr>"
      have a2: "row_aligned rp ci b1 r2"
        unfolding r2_def using row_step [OF ok a1(1,2)] c0 a1(4,6) by simp
      have f2: "col_view r2 = col_view r" "row_overflow r2 = row_overflow r1"
        "cur_col_idx r2 = cur_col_idx r"
        using a1(3,6) by (auto simp: r2_def col_view_def)
      have eq: "next_row rp r = (if cur_row_idx r2 = row_end_idx r2 \<and> row_overflow r2 = 0 then Inr r2
                                 else next_row rp r2)"
        using z go a1(4) ge
        by (auto simp add: next_row.simps [of rp r] r1_def [symmetric] r2_def Let_def)
      show ?thesis
      proof (cases "cur_row_idx r2 = row_end_idx r2 \<and> row_overflow r2 = 0")
        case True
        with eq a2 f2 ov a1 show ?thesis
          by (intro exI [of _ r2] exI [of _ b1]) (auto simp: row_aligned_def)
      next
        case False
        have "\<exists>r' base'. next_row rp r2 = Inr r' \<and> row_aligned rp ci base' r' \<and> col_view r' = col_view r2 \<and>
          0 \<le> row_overflow r' \<and>
          row_overflow r' + (if base' = cur_col_idx r' then 0 else 1) =
            row_overflow r2 + (if b1 = cur_col_idx r2 then 0 else 1) \<and>
          (remain_edge r' > 0 \<or> row_overflow r' = 0 \<and> (cur_row_idx r' = int (length rp) \<or> cur_row_idx r' = row_end_idx r'))"
        proof (rule "1.IH" [OF z refl go r1_def _ _ r2_def False ok a2])
          show "vgeti rp (cur_row_idx r1) = Inr (rp ! nat (cur_row_idx r1))"
            "vgeti rp (cur_row_idx r1 - 1) = Inr (rp ! nat (cur_row_idx r1 - 1))"
            using a1(4) ge by auto
          show "0 \<le> cur_col_idx r2" "0 \<le> row_overflow r2" using c0 f2 a1 by auto
        qed
        moreover have "next_row rp r = next_row rp r2" using eq False by (simp only: if_False)
        moreover have "row_overflow r2 + (if b1 = cur_col_idx r2 then 0 else 1) =
            row_overflow r + (if base = cur_col_idx r then 0 else 1)"
          using ov f2 a1(6) by simp
        ultimately show ?thesis using f2(1) by (simp only:)
      qed
    qed
  qed
qed

section \<open>Passing edges\<close>

lemma is_last_iff:
  assumes ok: "csr_ok rp ci" and al: "row_aligned rp ci base r" and pos: "0 < remain_edge r"
  shows "remain_edge r - 1 = 0 \<longleftrightarrow> base + 1 \<in> set rp"
proof -
  let ?c = "nat (cur_row_idx r)"
  have c: "2 \<le> ?c" "?c \<le> length rp" "rp ! (?c - 2) \<le> base" "remain_edge r = rp ! (?c - 1) - base"
    using al pos by (auto simp: row_aligned_def nat_diff_distrib')
  show ?thesis
  proof
    assume "remain_edge r - 1 = 0"
    then have "base + 1 = rp ! (?c - 1)" using c by simp
    moreover have "rp ! (?c - 1) \<in> set rp" using c by (intro nth_mem) simp
    ultimately show "base + 1 \<in> set rp" by simp
  next
    assume "base + 1 \<in> set rp"
    then obtain i where i: "i < length rp" "rp ! i = base + 1" by (auto simp: in_set_conv_nth)
    have lt: "?c - 2 < length rp" using c by linarith
    have "\<not> i \<le> ?c - 2"
      using sorted_nth_le [of rp i "?c - 2", OF _ _ lt] ok c i by (auto simp: csr_ok_def)
    then have "rp ! (?c - 1) \<le> rp ! i"
      using ok i by (intro sorted_nth_le) (auto simp: csr_ok_def)
    with c i pos show "remain_edge r - 1 = 0" by simp
  qed
qed

lemma pass_edge_spec:
  assumes ok: "csr_ok rp ci" and inv: "gr_inv rp ci B r" and B: "bf (arch_info G) = B"
    and pos: "0 < remain_edge r"
    and col: "cur_col_idx r < col_end_idx r \<or> col_overflow r > 0"
    and val: "cur_val_idx r < val_end_idx r \<or> val_overflow r > 0"
    and last: "\<not> (cur_col_idx r = int (length ci) \<and> g_pass_count r = B - 1)"
  shows "\<exists>r'. pass_edge G ci r = Inr (edge_at rp ci (gr_id r) (gr_pos ci r), r') \<and> gr_inv rp ci B r' \<and>
    gr_pos ci r' = Suc (gr_pos ci r) \<and> gr_id r' = gr_id r \<and> pass_over r' = pass_over r \<and>
    row_overflow r' = row_overflow r \<and> row_end_idx r' = row_end_idx r \<and> col_end_idx r' = col_end_idx r \<and>
    v_reci_count r' = v_reci_count r \<and> e_reci_count r' = e_reci_count r \<and>
    col_overflow r' + g_pass_count r' = col_overflow r + g_pass_count r \<and>
    row_aligned rp ci (cur_col_idx r') r' \<and>
    g_pass_count r' = g_pass_count r + (if cur_col_idx r = int (length ci) then 1 else 0)"
proof -
  let ?n = "int (length ci)"
  obtain base where al: "row_aligned rp ci base r" using inv by (auto simp: gr_inv_def)
  have n: "0 < length ci" using ok by (auto simp: csr_ok_def)
  define r1 where "r1 = (if cur_col_idx r = ?n then r\<lparr>cur_col_idx := 0, cur_val_idx := 0,
    col_overflow := col_overflow r - 1, val_overflow := val_overflow r - 1,
    g_pass_count := g_pass_count r + 1\<rparr> else r)"
  have ovf: "cur_col_idx r = ?n \<Longrightarrow> 0 < col_overflow r \<and> 0 < val_overflow r"
    using inv col val by (auto simp: gr_inv_def)
  have le: "rp ! nat (cur_row_idx r - 1) \<le> ?n"
    using al by (intro csr_ok_le(2) [OF ok]) (auto simp: row_aligned_def)
  have b: "base = cur_col_idx r1" "base < ?n" "0 \<le> base"
    using al le pos inv n by (auto simp: row_aligned_def r1_def gr_inv_def)
  have al1: "row_aligned rp ci base r1" and rem: "remain_edge r1 = remain_edge r"
    using al b by (auto simp: row_aligned_def r1_def)
  have inv1: "0 \<le> g_pass_count r1" "g_pass_count r1 < B" "0 \<le> col_overflow r1" "0 \<le> val_overflow r1"
    "cur_val_idx r1 = cur_col_idx r1"
    using inv last ovf by (auto simp: r1_def gr_inv_def)
  have p1: "gr_pos ci r1 = gr_pos ci r"
    using inv by (auto simp: r1_def gr_pos_def gr_inv_def nat_add_distrib algebra_simps)
  define r2 where "r2 = r1\<lparr>cur_col_idx := cur_col_idx r1 + 1, cur_val_idx := cur_val_idx r1 + 1,
    remain_edge := remain_edge r1 - 1\<rparr>"
  have gp: "gr_pos ci r = nat (g_pass_count r1) * length ci + nat base"
    using p1 b by (simp add: gr_pos_def)
  then have pm: "gr_pos ci r mod length ci = nat base" "gr_pos ci r div length ci = nat (g_pass_count r1)"
    using b n by (auto simp: nat_less_iff)
  have e: "edge_at rp ci (gr_id r) (gr_pos ci r) =
      \<lparr>ei_id = gr_id r, is_last = (remain_edge r2 = 0), dst = ci ! nat base, v_fold = g_pass_count r2\<rparr>"
    using is_last_iff [OF ok al1] pos rem pm b inv1 by (simp add: edge_at_def Let_def r2_def)
  have r1': "(if cur_col_idx r = ?n \<and> col_overflow r > 0 then r\<lparr>cur_col_idx := 0, cur_val_idx := 0,
    col_overflow := col_overflow r - 1, val_overflow := val_overflow r - 1,
    g_pass_count := g_pass_count r + 1\<rparr> else r) = r1"
    using ovf by (auto simp: r1_def)
  have "vgeti ci (cur_col_idx r1) = Inr (ci ! nat base)"
    using b by (simp add: nat_less_iff)
  moreover have "g_pass_count r1 \<noteq> bf (arch_info G)" using inv1(2) B by simp
  ultimately have "pass_edge G ci r = Inr (edge_at rp ci (gr_id r) (gr_pos ci r), r2)"
    unfolding pass_edge_def Let_def r1' e r2_def by simp
  moreover have al2: "row_aligned rp ci (cur_col_idx r2) r2"
    using al1 b rem pos by (auto simp: row_aligned_def r2_def)
  moreover have "gr_inv rp ci B r2"
    using al2 inv inv1 b unfolding gr_inv_def by (auto simp: r2_def r1_def)
  moreover have "gr_pos ci r2 = Suc (gr_pos ci r)"
    using gp b by (simp add: gr_pos_def r2_def Suc_nat_eq_nat_zadd1)
  moreover have "gr_id r2 = gr_id r" "pass_over r2 = pass_over r" "row_overflow r2 = row_overflow r"
    "row_end_idx r2 = row_end_idx r" "col_end_idx r2 = col_end_idx r"
    "v_reci_count r2 = v_reci_count r" "e_reci_count r2 = e_reci_count r"
    "col_overflow r2 + g_pass_count r2 = col_overflow r + g_pass_count r"
    "g_pass_count r2 = g_pass_count r + (if cur_col_idx r = ?n then 1 else 0)"
    by (auto simp: r2_def r1_def)
  ultimately show ?thesis by blast
qed

section \<open>The reader's invariant and its preservation\<close>

text \<open>
  The receiving side: the overflow counters and the fold counters account for the passes that have
  been received completely. \<open>passes e n\<close> is 1 when the end index stands at the end of a pass.
\<close>

definition at_end :: "int \<Rightarrow> int \<Rightarrow> int" where
  "at_end e n = (if e = n then 1 else 0)"

definition recv_inv :: "int list \<Rightarrow> int list \<Rightarrow> graph_reader \<Rightarrow> bool" where
  "recv_inv rp ci r \<longleftrightarrow>
     0 \<le> row_end_idx r \<and> row_end_idx r \<le> int (length rp) \<and> 0 \<le> col_end_idx r \<and>
     (0 < col_overflow r \<longrightarrow> 0 < col_end_idx r) \<and>
     col_overflow r + g_pass_count r + at_end (col_end_idx r) (int (length ci)) = e_reci_count r \<and>
     (\<exists>base. row_aligned rp ci base r \<and>
        row_overflow r + g_pass_count r + (if base = cur_col_idx r then 0 else 1) +
          at_end (row_end_idx r) (int (length rp)) = v_reci_count r)"

text \<open>How many edges of the stream have had their column indices received.\<close>

definition recv_edges :: "int list \<Rightarrow> graph_reader \<Rightarrow> int" where
  "recv_edges ci r = (g_pass_count r + col_overflow r) * int (length ci) + col_end_idx r"

definition reader_inv :: "sim_env \<Rightarrow> nat \<Rightarrow> graph_reader \<Rightarrow> bool" where
  "reader_inv G i r \<longleftrightarrow> (let rp = row_ptr G ! i; ci = col_idx G ! i; B = bf (arch_info G) in
     gr_id r = i \<and> gr_inv rp ci B r \<and> recv_inv rp ci r \<and>
     int (gr_pos ci r) \<le> recv_edges ci r \<and>
     (pass_over r \<longrightarrow> gr_pos ci r = nat B * length ci))"

definition engine_ok :: "sim_env \<Rightarrow> nat \<Rightarrow> bool" where
  "engine_ok G i \<longleftrightarrow> i < length (row_ptr G) \<and> i < length (col_idx G) \<and> i < length (data_index G) \<and>
     csr_ok (row_ptr G ! i) (col_idx G ! i) \<and> (\<forall>c \<in> set (col_idx G ! i). c \<noteq> -1) \<and>
     0 < bf (arch_info G)"

lemma row_aligned_cong:
  "cur_col_idx r' = cur_col_idx r \<Longrightarrow> cur_row_idx r' = cur_row_idx r \<Longrightarrow> remain_edge r' = remain_edge r \<Longrightarrow>
   row_aligned rp ci base r' = row_aligned rp ci base r"
  by (simp add: row_aligned_def)

lemma reader_new_inv:
  assumes "engine_ok G i"
  shows "\<exists>r. GraphReader_new G i = Inr r \<and> reader_inv G i r \<and> gr_pos (col_idx G ! i) r = 0"
proof -
  let ?rp = "row_ptr G ! i" and ?ci = "col_idx G ! i"
  have ok: "csr_ok ?rp ?ci" using assms by (simp add: engine_ok_def)
  obtain r where r: "GraphReader_new G i = Inr r"
    using assms by (cases "gnn_mode (arch_info G)") (auto simp: GraphReader_new_def engine_ok_def Let_def)
  have f: "cur_row_idx r = 1" "cur_col_idx r = 0" "cur_val_idx r = 0" "remain_edge r = 0" "row_overflow r = 0"
    "col_overflow r = 0" "0 \<le> val_overflow r" "row_end_idx r = 0" "col_end_idx r = 0"
    "val_end_idx r \<le> int (length ?ci)" "g_pass_count r = 0" "gr_id r = i" "\<not> pass_over r"
    "v_reci_count r = 0" "e_reci_count r = 0"
    using r assms by (auto simp: GraphReader_new_def engine_ok_def Let_def split: if_splits)
  have "row_aligned ?rp ?ci 0 r"
    using f ok csr_ok_len [OF ok] by (auto simp: row_aligned_def csr_ok_def)
  then have "reader_inv G i r" "gr_pos ?ci r = 0"
    using f assms ok csr_ok_len [OF ok]
    by (auto simp: reader_inv_def gr_inv_def recv_inv_def at_end_def gr_pos_def recv_edges_def
        engine_ok_def Let_def csr_ok_def)
  with r show ?thesis by blast
qed

text \<open>Requests change only the request counters.\<close>

definition pass_view :: "graph_reader \<Rightarrow> _" where
  "pass_view r = (col_view r, cur_row_idx r, remain_edge r, row_overflow r, v_reci_count r, e_reci_count r)"

lemma reader_inv_view:
  assumes "pass_view r' = pass_view r"
  shows "reader_inv G i r' = reader_inv G i r" and "gr_pos ci r' = gr_pos ci r"
  using assms
  by (auto simp: pass_view_def col_view_def reader_inv_def gr_inv_def recv_inv_def gr_pos_def
      recv_edges_def row_aligned_def Let_def)

lemma VertexRequest_view:
  "VertexRequest G r m = Inr (r', m') \<Longrightarrow> pass_view r' = pass_view r"
  by (auto simp: VertexRequest_def pass_view_def col_view_def Let_def split: if_splits)

lemma EdgeRequest_view:
  "EdgeRequest G r m = Inr (r', m') \<Longrightarrow> pass_view r' = pass_view r"
  by (auto simp: EdgeRequest_def pass_view_def col_view_def Let_def split: if_splits)

text \<open>The effect of receiving one line on the end index, the overflow and the pass counter.\<close>

definition recv_step :: "int \<Rightarrow> int \<times> int \<times> int \<Rightarrow> int \<times> int \<times> int" where
  "recv_step n = (\<lambda>(e, ov, cnt).
     let e1 = (if e = n then 0 else e); ov1 = (if e = n then ov + 1 else ov); e2 = e1 + CACHE_LINE_COUNT
     in if n \<le> e2 then (n, ov1, cnt + 1) else (e2, ov1, cnt))"

lemma recv_step_inv:
  assumes "recv_step n (e, ov, cnt) = (e', ov', cnt')" and "0 \<le> e" and "e \<le> n" and "0 < n"
  shows "0 < e'" and "e' \<le> n" and "ov \<le> ov'" and "ov' + at_end e' n - cnt' = ov + at_end e n - cnt"
    and "ov * n + e < ov' * n + e'"
  using assms
  by (auto simp: recv_step_def at_end_def CACHE_LINE_COUNT_def Let_def algebra_simps split: if_splits)

lemma receive_row_eq:
  "recv_step n (row_end_idx r, row_overflow r, v_reci_count r) = (e, ov, cnt) \<Longrightarrow>
   \<exists>f. receive_row G n r = r\<lparr>row_end_idx := e, row_overflow := ov, v_reci_count := cnt, v_reci_over := f\<rparr>"
  by (rule exI [of _ "v_reci_over (receive_row G n r)"])
    (auto simp: receive_row_def recv_step_def Let_def split: if_splits)

lemma receive_col_eq:
  "recv_step n (col_end_idx r, col_overflow r, e_reci_count r) = (e, ov, cnt) \<Longrightarrow>
   \<exists>f. receive_col G n r = r\<lparr>col_end_idx := e, col_overflow := ov, e_reci_count := cnt, e_reci_over := f\<rparr>"
  by (rule exI [of _ "e_reci_over (receive_col G n r)"])
    (auto simp: receive_col_def recv_step_def Let_def split: if_splits)

lemma receive_val_eq:
  "recv_step n (val_end_idx r, val_overflow r, val_reci_count r) = (e, ov, cnt) \<Longrightarrow>
   \<exists>f. receive_val G n r = r\<lparr>val_end_idx := e, val_overflow := ov, val_reci_count := cnt, val_reci_over := f\<rparr>"
  by (rule exI [of _ "val_reci_over (receive_val G n r)"])
    (auto simp: receive_val_def recv_step_def Let_def split: if_splits)

lemma recv_step_val:
  "recv_step n (e, ov, cnt) = (e', ov', cnt') \<Longrightarrow> e \<le> n \<Longrightarrow> e' \<le> n \<and> ov \<le> ov'"
  by (auto simp: recv_step_def Let_def split: if_splits)

lemma row_aligned_upd [simp]:
  "row_aligned rp ci b (r\<lparr>row_end_idx := x\<rparr>) = row_aligned rp ci b r"
  "row_aligned rp ci b (r\<lparr>row_overflow := x\<rparr>) = row_aligned rp ci b r"
  "row_aligned rp ci b (r\<lparr>v_reci_count := x\<rparr>) = row_aligned rp ci b r"
  "row_aligned rp ci b (r\<lparr>v_reci_over := f\<rparr>) = row_aligned rp ci b r"
  "row_aligned rp ci b (r\<lparr>col_end_idx := x\<rparr>) = row_aligned rp ci b r"
  "row_aligned rp ci b (r\<lparr>col_overflow := x\<rparr>) = row_aligned rp ci b r"
  "row_aligned rp ci b (r\<lparr>e_reci_count := x\<rparr>) = row_aligned rp ci b r"
  "row_aligned rp ci b (r\<lparr>e_reci_over := f\<rparr>) = row_aligned rp ci b r"
  "row_aligned rp ci b (r\<lparr>val_end_idx := x\<rparr>) = row_aligned rp ci b r"
  "row_aligned rp ci b (r\<lparr>val_overflow := x\<rparr>) = row_aligned rp ci b r"
  "row_aligned rp ci b (r\<lparr>val_reci_count := x\<rparr>) = row_aligned rp ci b r"
  "row_aligned rp ci b (r\<lparr>val_reci_over := f\<rparr>) = row_aligned rp ci b r"
  by (simp_all add: row_aligned_def)

lemma gr_pos_upd [simp]:
  "gr_pos ci (r\<lparr>row_end_idx := x\<rparr>) = gr_pos ci r"
  "gr_pos ci (r\<lparr>row_overflow := x\<rparr>) = gr_pos ci r"
  "gr_pos ci (r\<lparr>v_reci_count := x\<rparr>) = gr_pos ci r"
  "gr_pos ci (r\<lparr>v_reci_over := f\<rparr>) = gr_pos ci r"
  "gr_pos ci (r\<lparr>col_end_idx := x\<rparr>) = gr_pos ci r"
  "gr_pos ci (r\<lparr>col_overflow := x\<rparr>) = gr_pos ci r"
  "gr_pos ci (r\<lparr>e_reci_count := x\<rparr>) = gr_pos ci r"
  "gr_pos ci (r\<lparr>e_reci_over := f\<rparr>) = gr_pos ci r"
  "gr_pos ci (r\<lparr>val_end_idx := x\<rparr>) = gr_pos ci r"
  "gr_pos ci (r\<lparr>val_overflow := x\<rparr>) = gr_pos ci r"
  "gr_pos ci (r\<lparr>val_reci_count := x\<rparr>) = gr_pos ci r"
  "gr_pos ci (r\<lparr>val_reci_over := f\<rparr>) = gr_pos ci r"
  by (simp_all add: gr_pos_def)

lemma receive_row_inv:
  assumes "engine_ok G i" and "reader_inv G i r"
  shows "reader_inv G i (receive_row G (int (length (row_ptr G ! i))) r)"
    and "gr_pos ci (receive_row G (int (length (row_ptr G ! i))) r) = gr_pos ci r"
proof -
  let ?n = "int (length (row_ptr G ! i))"
  obtain e ov cnt where st: "recv_step ?n (row_end_idx r, row_overflow r, v_reci_count r) = (e, ov, cnt)"
    by (metis prod_cases3)
  then obtain f where eq: "receive_row G ?n r =
      r\<lparr>row_end_idx := e, row_overflow := ov, v_reci_count := cnt, v_reci_over := f\<rparr>"
    using receive_row_eq by blast
  have "0 < ?n" using assms(1) csr_ok_len by (fastforce simp: engine_ok_def)
  then have S: "0 < e" "e \<le> ?n" "row_overflow r \<le> ov"
    "ov + at_end e ?n - cnt = row_overflow r + at_end (row_end_idx r) ?n - v_reci_count r"
    using recv_step_inv [OF st] assms(2) by (auto simp: reader_inv_def recv_inv_def Let_def)
  obtain base where al: "row_aligned (row_ptr G ! i) (col_idx G ! i) base r"
    "row_overflow r + g_pass_count r + (if base = cur_col_idx r then 0 else 1) +
       at_end (row_end_idx r) ?n = v_reci_count r"
    using assms(2) by (auto simp: reader_inv_def recv_inv_def Let_def)
  then have "ov + g_pass_count r + (if base = cur_col_idx r then 0 else 1) + at_end e ?n = cnt"
    using S by simp
  then have "recv_inv (row_ptr G ! i) (col_idx G ! i) (receive_row G ?n r)"
    using assms(2) al S unfolding eq recv_inv_def reader_inv_def Let_def
    by (intro conjI exI [of _ base]) simp_all
  then show "reader_inv G i (receive_row G ?n r)"
    using assms(2) S unfolding eq
    by (simp add: reader_inv_def gr_inv_def recv_edges_def Let_def)
  show "gr_pos ci (receive_row G ?n r) = gr_pos ci r" unfolding eq by (simp add: gr_pos_def)
qed

lemma receive_col_inv:
  assumes "engine_ok G i" and "reader_inv G i r"
  shows "reader_inv G i (receive_col G (int (length (col_idx G ! i))) r)"
    and "gr_pos ci (receive_col G (int (length (col_idx G ! i))) r) = gr_pos ci r"
proof -
  let ?n = "int (length (col_idx G ! i))"
  obtain e ov cnt where st: "recv_step ?n (col_end_idx r, col_overflow r, e_reci_count r) = (e, ov, cnt)"
    by (metis prod_cases3)
  then obtain f where eq: "receive_col G ?n r =
      r\<lparr>col_end_idx := e, col_overflow := ov, e_reci_count := cnt, e_reci_over := f\<rparr>"
    using receive_col_eq by blast
  have "0 < ?n" using assms(1) by (auto simp: engine_ok_def csr_ok_def)
  then have S: "0 < e" "e \<le> ?n" "col_overflow r \<le> ov"
    "ov + at_end e ?n - cnt = col_overflow r + at_end (col_end_idx r) ?n - e_reci_count r"
    "col_overflow r * ?n + col_end_idx r < ov * ?n + e"
    using recv_step_inv [OF st] assms(2) by (auto simp: reader_inv_def recv_inv_def gr_inv_def Let_def)
  then have "int (gr_pos (col_idx G ! i) r) \<le> (g_pass_count r + ov) * ?n + e"
    using assms(2) by (simp add: reader_inv_def recv_edges_def Let_def algebra_simps)
  with S show "reader_inv G i (receive_col G ?n r)"
    using assms(2) unfolding eq
    by (simp add: reader_inv_def recv_inv_def gr_inv_def recv_edges_def Let_def)
  show "gr_pos ci (receive_col G ?n r) = gr_pos ci r" unfolding eq by (simp add: gr_pos_def)
qed

lemma receive_val_inv:
  assumes "reader_inv G i r"
  shows "reader_inv G i (receive_val G (int (length (col_idx G ! i))) r)"
    and "gr_pos ci (receive_val G (int (length (col_idx G ! i))) r) = gr_pos ci r"
proof -
  let ?n = "int (length (col_idx G ! i))"
  obtain e ov cnt where st: "recv_step ?n (val_end_idx r, val_overflow r, val_reci_count r) = (e, ov, cnt)"
    by (metis prod_cases3)
  then obtain f where eq: "receive_val G ?n r =
      r\<lparr>val_end_idx := e, val_overflow := ov, val_reci_count := cnt, val_reci_over := f\<rparr>"
    using receive_val_eq by blast
  have "e \<le> ?n" "val_overflow r \<le> ov"
    using recv_step_val [OF st] assms by (auto simp: reader_inv_def gr_inv_def Let_def)
  then show "reader_inv G i (receive_val G ?n r)"
    using assms unfolding eq
    by (simp add: reader_inv_def recv_inv_def gr_inv_def recv_edges_def Let_def)
  show "gr_pos ci (receive_val G ?n r) = gr_pos ci r" unfolding eq by (simp add: gr_pos_def)
qed

lemma GraphReceive_inv:
  assumes "engine_ok G i" and "reader_inv G i r" and "GraphReceive G r m = Inr (r', m')"
  shows "reader_inv G i r' \<and> gr_pos (col_idx G ! i) r' = gr_pos (col_idx G ! i) r"
proof -
  have id: "gr_id r = i" using assms(2) by (simp add: reader_inv_def Let_def)
  have v: "pass_view (s\<lparr>reci_over := b\<rparr>) = pass_view s" for s b
    by (simp add: pass_view_def col_view_def)
  from assms(3) obtain t s where s: "receive_line G t r = Inr s"
    and r': "r' = s \<or> r' = s\<lparr>reci_over := True\<rparr>"
    by (auto simp: GraphReceive_def split: if_splits)
  have "reader_inv G i s \<and> gr_pos (col_idx G ! i) s = gr_pos (col_idx G ! i) r"
    using s id receive_row_inv [OF assms(1,2)] receive_col_inv [OF assms(1,2)] receive_val_inv [OF assms(2)]
      assms(2) by (cases t) auto
  then show ?thesis using reader_inv_view [OF v] r' by auto
qed

lemma gr_pos_le:
  assumes "gr_inv rp ci B r"
  shows "gr_pos ci r \<le> nat B * length ci"
proof -
  have "nat (g_pass_count r) + 1 \<le> nat B" "nat (cur_col_idx r) \<le> length ci"
    using assms by (auto simp: gr_inv_def)
  then have "(nat (g_pass_count r) + 1) * length ci \<le> nat B * length ci" by (intro mult_le_mono1)
  then show ?thesis using \<open>nat (cur_col_idx r) \<le> length ci\<close> by (simp add: gr_pos_def)
qed

lemma gr_pos_end:
  assumes "gr_inv rp ci B r" and "ci \<noteq> []"
  shows "gr_pos ci r = nat B * length ci \<longleftrightarrow> cur_col_idx r = int (length ci) \<and> g_pass_count r = B - 1"
proof
  have l: "0 < length ci" using assms(2) by simp
  have g: "nat (g_pass_count r) + 1 \<le> nat B" "nat (cur_col_idx r) \<le> length ci" "0 \<le> g_pass_count r"
    "0 \<le> cur_col_idx r"
    using assms by (auto simp: gr_inv_def)
  assume e: "gr_pos ci r = nat B * length ci"
  have m: "(nat (g_pass_count r) + 1) * length ci \<le> nat B * length ci" using g(1) by (rule mult_le_mono1)
  have c: "nat (cur_col_idx r) = length ci" using e m g(2) by (simp add: gr_pos_def)
  then have "(nat (g_pass_count r) + 1) * length ci = nat B * length ci" using e by (simp add: gr_pos_def)
  then have "nat (g_pass_count r) + 1 = nat B" using l by (simp only: mult_cancel2 neq0_conv [symmetric]) blast
  with c g show "cur_col_idx r = int (length ci) \<and> g_pass_count r = B - 1" by linarith
next
  assume "cur_col_idx r = int (length ci) \<and> g_pass_count r = B - 1"
  moreover have "nat B = nat (B - 1) + 1" using assms by (auto simp: gr_inv_def)
  ultimately show "gr_pos ci r = nat B * length ci" by (simp add: gr_pos_def)
qed

lemma view_upd:
  assumes "col_view r' = col_view r"
  shows "cur_col_idx r' = cur_col_idx r" "cur_val_idx r' = cur_val_idx r" "g_pass_count r' = g_pass_count r"
    "col_overflow r' = col_overflow r" "val_overflow r' = val_overflow r" "col_end_idx r' = col_end_idx r"
    "val_end_idx r' = val_end_idx r" "gr_id r' = gr_id r" "row_end_idx r' = row_end_idx r"
    "pass_over r' = pass_over r" "v_reci_count r' = v_reci_count r" "e_reci_count r' = e_reci_count r"
    "gr_pos ci r' = gr_pos ci r" "recv_edges ci r' = recv_edges ci r"
  using assms by (simp_all add: col_view_def gr_pos_def recv_edges_def)

text \<open>The row part of \<open>NextFeature\<close> keeps the invariant and leaves a row with an edge, or no row.\<close>

definition row_phase :: "int list \<Rightarrow> graph_reader \<Rightarrow> graph_reader res" where
  "row_phase rp r = (if cur_row_idx r < row_end_idx r \<or> row_overflow r > 0 then next_row rp r else Inr r)"

lemma row_phase_spec:
  assumes ok: "csr_ok rp ci" and inv: "gr_inv rp ci B r" and rec: "recv_inv rp ci r"
  shows "\<exists>r1. row_phase rp r = Inr r1 \<and> gr_inv rp ci B r1 \<and> recv_inv rp ci r1 \<and> col_view r1 = col_view r \<and>
    (remain_edge r1 > 0 \<or> remain_edge r1 = 0 \<and> row_overflow r1 = 0 \<and>
       (row_end_idx r = int (length rp) \<longrightarrow> cur_row_idx r1 = int (length rp)))"
proof (cases "cur_row_idx r < row_end_idx r \<or> row_overflow r > 0")
  case False
  have "0 \<le> row_overflow r" using inv by (simp add: gr_inv_def)
  moreover have "cur_row_idx r \<le> int (length rp)" "0 \<le> remain_edge r"
    using inv by (auto simp: gr_inv_def row_aligned_def)
  ultimately show ?thesis using False inv rec by (intro exI [of _ r]) (auto simp: row_phase_def)
next
  case True
  obtain base where al: "row_aligned rp ci base r"
    "row_overflow r + g_pass_count r + (if base = cur_col_idx r then 0 else 1) +
       at_end (row_end_idx r) (int (length rp)) = v_reci_count r"
    using rec by (auto simp: recv_inv_def)
  have nn: "0 \<le> cur_col_idx r" "0 \<le> row_overflow r" using inv by (auto simp: gr_inv_def)
  from next_row_spec [OF ok al(1) nn] obtain r1 base' where
    r1: "next_row rp r = Inr r1" "row_aligned rp ci base' r1" "col_view r1 = col_view r" "0 \<le> row_overflow r1"
      "row_overflow r1 + (if base' = cur_col_idx r1 then 0 else 1) =
         row_overflow r + (if base = cur_col_idx r then 0 else 1)"
      "remain_edge r1 > 0 \<or> row_overflow r1 = 0 \<and> (cur_row_idx r1 = int (length rp) \<or> cur_row_idx r1 = row_end_idx r1)"
    by blast
  note v = view_upd [OF r1(3)]
  have "gr_inv rp ci B r1" using inv r1(2,4) v unfolding gr_inv_def by auto
  moreover have "recv_inv rp ci r1"
    unfolding recv_inv_def using rec r1(2,5) al(2) v
    by (intro conjI exI [of _ base']) (auto simp: recv_inv_def)
  moreover have "0 \<le> remain_edge r1" using r1(2) by (simp add: row_aligned_def)
  ultimately show ?thesis using True r1 v by (auto simp: row_phase_def)
qed

lemma pass_over_upd [simp]:
  "row_aligned rp ci base (r\<lparr>pass_over := b\<rparr>) = row_aligned rp ci base r"
  "gr_inv rp ci B (r\<lparr>pass_over := b\<rparr>) = gr_inv rp ci B r"
  "recv_inv rp ci (r\<lparr>pass_over := b\<rparr>) = recv_inv rp ci r"
  "gr_pos ci (r\<lparr>pass_over := b\<rparr>) = gr_pos ci r"
  "recv_edges ci (r\<lparr>pass_over := b\<rparr>) = recv_edges ci r"
  by (simp_all add: row_aligned_def gr_inv_def recv_inv_def gr_pos_def recv_edges_def)

lemma NextFeature_inv:
  assumes ok: "engine_ok G i" and inv: "reader_inv G i r"
  shows "\<exists>ei r'. NextFeature G r = Inr (ei, r') \<and> reader_inv G i r' \<and>
    (ei = no_edge i \<and> gr_pos (col_idx G ! i) r' = gr_pos (col_idx G ! i) r \<or>
     ei = edge_at (row_ptr G ! i) (col_idx G ! i) i (gr_pos (col_idx G ! i) r) \<and>
     gr_pos (col_idx G ! i) r' = Suc (gr_pos (col_idx G ! i) r))"
proof -
  define rp ci B where "rp = row_ptr G ! i" and "ci = col_idx G ! i" and "B = bf (arch_info G)"
  have csr: "csr_ok rp ci" and len: "i < length (row_ptr G)" "i < length (col_idx G)"
    using ok by (auto simp: engine_ok_def rp_def ci_def)
  have I: "gr_id r = i" "gr_inv rp ci B r" "recv_inv rp ci r" "int (gr_pos ci r) \<le> recv_edges ci r"
    "pass_over r \<longrightarrow> gr_pos ci r = nat B * length ci"
    using inv by (auto simp: reader_inv_def Let_def rp_def ci_def B_def)
  have ne: "ci \<noteq> []" using csr by (simp add: csr_ok_def)
  have R: "reader_inv G i s" if "gr_id s = i" "gr_inv rp ci B s" "recv_inv rp ci s"
      "int (gr_pos ci s) \<le> recv_edges ci s" "pass_over s \<longrightarrow> gr_pos ci s = nat B * length ci" for s
    using that by (simp add: reader_inv_def Let_def rp_def ci_def B_def)
  show ?thesis
  proof (cases "cur_col_idx r = int (length ci) \<and> g_pass_count r = B - 1")
    case True
    have "NextFeature G r = Inr (no_edge i, r\<lparr>pass_over := True\<rparr>)"
      using True len I(1) by (simp add: NextFeature_def ci_def B_def)
    moreover have "reader_inv G i (r\<lparr>pass_over := True\<rparr>)"
      using gr_pos_end [OF I(2) ne] True I by (intro R) simp_all
    ultimately show ?thesis by (auto simp: ci_def)
  next
    case go: False
    from row_phase_spec [OF csr I(2,3)] obtain r1 where
      r1: "row_phase rp r = Inr r1" "gr_inv rp ci B r1" "recv_inv rp ci r1" "col_view r1 = col_view r" by blast
    note v = view_upd [OF r1(4)]
    define avail where "avail = (remain_edge r1 > 0 \<and>
      (cur_col_idx r1 < col_end_idx r1 \<or> col_overflow r1 > 0) \<and>
      (cur_val_idx r1 < val_end_idx r1 \<or> val_overflow r1 > 0))"
    have eq: "NextFeature G r = (if avail then pass_edge G ci r1 else Inr (no_edge i, r1))"
    proof -
      have c: "(cur_col_idx r = int (length ci) \<and> g_pass_count r = bf (arch_info G) - 1) = False"
        using go by (simp add: B_def)
      have "vget (col_idx G) i = Inr ci" "vget (row_ptr G) i = Inr rp"
        using len by (simp_all add: vget_def ci_def rp_def)
      then show ?thesis
        unfolding NextFeature_def avail_def I(1)
        by (simp only: res_bind_Inr c if_False r1(1) [unfolded row_phase_def])
    qed
    show ?thesis
    proof (cases avail)
      case False
      have "reader_inv G i r1" using I r1 v by (intro R) auto
      with eq False v show ?thesis by (auto simp: ci_def)
    next
      case True
      have go1: "\<not> (cur_col_idx r1 = int (length ci) \<and> g_pass_count r1 = B - 1)" using go v by simp
      from pass_edge_spec [OF csr r1(2) B_def [symmetric] _ _ _ go1] True obtain r2 where
        r2: "pass_edge G ci r1 = Inr (edge_at rp ci (gr_id r1) (gr_pos ci r1), r2)" "gr_inv rp ci B r2"
          "gr_pos ci r2 = Suc (gr_pos ci r1)" "gr_id r2 = gr_id r1" "pass_over r2 = pass_over r1"
          "row_overflow r2 = row_overflow r1" "row_end_idx r2 = row_end_idx r1" "col_end_idx r2 = col_end_idx r1"
          "v_reci_count r2 = v_reci_count r1" "e_reci_count r2 = e_reci_count r1"
          "col_overflow r2 + g_pass_count r2 = col_overflow r1 + g_pass_count r1"
          "row_aligned rp ci (cur_col_idx r2) r2"
          "g_pass_count r2 = g_pass_count r1 + (if cur_col_idx r1 = int (length ci) then 1 else 0)"
        by (auto simp: avail_def)
      have re: "recv_edges ci r2 = recv_edges ci r"
        using r2(8,11) v by (simp add: recv_edges_def add.commute)
      have lt: "int (gr_pos ci r1) < recv_edges ci r1"
      proof -
        let ?L = "int (length ci)"
        have x: "0 \<le> cur_col_idx r1" "cur_col_idx r1 \<le> ?L" "0 \<le> g_pass_count r1" "0 \<le> col_overflow r1"
          using r1(2) by (auto simp: gr_inv_def)
        have y: "0 \<le> col_end_idx r1" "0 < col_overflow r1 \<longrightarrow> 0 < col_end_idx r1"
          using r1(3) by (auto simp: recv_inv_def)
        have "cur_col_idx r1 < col_overflow r1 * ?L + col_end_idx r1"
        proof (cases "0 < col_overflow r1")
          case True
          then have "1 * ?L \<le> col_overflow r1 * ?L" by (intro mult_right_mono) auto
          with True x y show ?thesis by linarith
        next
          case False
          with x(4) \<open>avail\<close> show ?thesis by (auto simp: avail_def)
        qed
        then show ?thesis using x by (simp add: gr_pos_def recv_edges_def distrib_right)
      qed
      have po: "\<not> pass_over r" using I(5) gr_pos_end [OF I(2) ne] go by blast
      obtain base where b: "row_aligned rp ci base r1"
        "row_overflow r1 + g_pass_count r1 + (if base = cur_col_idx r1 then 0 else 1) +
           at_end (row_end_idx r1) (int (length rp)) = v_reci_count r1"
        using r1(3) by (auto simp: recv_inv_def)
      have "base \<noteq> cur_col_idx r1 \<longleftrightarrow> cur_col_idx r1 = int (length ci)"
      proof -
        have "nat (cur_row_idx r1 - 1) < length rp" using b(1) by (auto simp: row_aligned_def)
        from csr_ok_le(2) [OF csr this] show ?thesis
          using b(1) True ne by (auto simp: row_aligned_def avail_def)
      qed
      then have "recv_inv rp ci r2"
        unfolding recv_inv_def using r1(3) b(2) r2(6-13)
        by (intro conjI exI [of _ "cur_col_idx r2"]) (auto simp: recv_inv_def split: if_splits)
      then have "reader_inv G i r2"
        using I r2 v re lt po by (intro R) auto
      then show ?thesis using eq True r2(1,3) v I(1) by (auto simp: rp_def ci_def)
    qed
  qed
qed

end
