(* ===== verification/Graph_Stream.thy ===== *)
theory Graph_Stream
  imports Graph_Reader
begin

text \<open>
  Runs of a graph reader: the calls the controller makes on it, in any order and with any memory.
  The edges passed are exactly the CSR edges in order, fold after fold, none before its data has been
  received; once everything is received every call passes the next edge; the requests enumerate the
  lines of the engine's arrays, once per fold.
\<close>

section \<open>Runs of a reader\<close>

text \<open>
  The calls the controller makes on the reader of engine \<open>i\<close>, each under the controller's guard, in
  any order, with arbitrary changes of the memory in between. The trace records the addresses
  requested for row lines and for edge lines, and the edges passed on.
\<close>

record gr_trace =
  rows :: "u64 list"
  cols :: "u64 list"
  edges :: "EdgeInfo list"

definition new_reqs :: "'d memory \<Rightarrow> 'd memory \<Rightarrow> u64 list" where
  "new_reqs m m' = map address (drop (length (tq m)) (tq m'))"

inductive gr_run :: "sim_env \<Rightarrow> nat \<Rightarrow> graph_reader \<Rightarrow> 'd memory \<Rightarrow> gr_trace \<Rightarrow> bool" for G i where
  start: "GraphReader_new G i = Inr r \<Longrightarrow> gr_run G i r m \<lparr>rows = [], cols = [], edges = []\<rparr>"
| env: "gr_run G i r m tr \<Longrightarrow> gr_run G i r m' tr"
| vreq: "gr_run G i r m tr \<Longrightarrow> \<not> v_req_over r \<Longrightarrow> VertexRequest G r m = Inr (r', m') \<Longrightarrow>
    gr_run G i r' m' (tr\<lparr>rows := rows tr @ new_reqs m m'\<rparr>)"
| ereq: "gr_run G i r m tr \<Longrightarrow> \<not> e_req_over r \<Longrightarrow> EdgeRequest G r m = Inr (r', m') \<Longrightarrow>
    gr_run G i r' m' (tr\<lparr>cols := cols tr @ new_reqs m m'\<rparr>)"
| recv: "gr_run G i r m tr \<Longrightarrow> \<not> reci_over r \<Longrightarrow> GraphReceive G r m = Inr (r', m') \<Longrightarrow>
    gr_run G i r' m' tr"
| pass: "gr_run G i r m tr \<Longrightarrow> \<not> pass_over r \<Longrightarrow> NextFeature G r = Inr (ei, r') \<Longrightarrow>
    gr_run G i r' m (if dst ei = -1 then tr else tr\<lparr>edges := edges tr @ [ei]\<rparr>)"

lemma edge_at_dst:
  assumes "engine_ok G i"
  shows "dst (edge_at rp (col_idx G ! i) i p) \<noteq> -1"
proof -
  have "p mod length (col_idx G ! i) < length (col_idx G ! i)"
    using assms by (simp add: engine_ok_def csr_ok_def)
  then have "col_idx G ! i ! (p mod length (col_idx G ! i)) \<in> set (col_idx G ! i)" by (rule nth_mem)
  with assms show ?thesis by (auto simp: edge_at_def Let_def engine_ok_def)
qed

lemma gr_run_inv:
  assumes run: "gr_run G i r m tr" and ok: "engine_ok G i"
  shows "reader_inv G i r \<and>
    edges tr = map (edge_at (row_ptr G ! i) (col_idx G ! i) i) [0..<gr_pos (col_idx G ! i) r]"
  using run
proof induction
  case (start r m)
  with reader_new_inv [OF ok] show ?case by auto
next
  case (vreq r m tr r' m')
  then show ?case using reader_inv_view [OF VertexRequest_view [OF vreq(3)]] by auto
next
  case (ereq r m tr r' m')
  then show ?case using reader_inv_view [OF EdgeRequest_view [OF ereq(3)]] by auto
next
  case (recv r m tr r' m')
  then show ?case using GraphReceive_inv [OF ok] by auto
next
  case (pass r m tr ei r')
  then show ?case using NextFeature_inv [OF ok, of r] edge_at_dst [OF ok]
    by (auto simp: no_edge_def)
qed auto

text \<open>
  C5. The edges an engine passes to the feature reader are the CSR edges of the engine in order,
  fold after fold, each marked with its fold and with whether it is the last of its row: after any
  run they are a prefix of that stream, never longer than the columns received, and once the reader
  reports that it is done they are the whole stream of all the folds.
\<close>

theorem edge_stream:
  assumes "engine_ok G i" and "gr_run G i r m tr"
  shows "edges tr = map (edge_at (row_ptr G ! i) (col_idx G ! i) i) [0..<length (edges tr)] \<and>
    length (edges tr) \<le> nat (bf (arch_info G)) * length (col_idx G ! i) \<and>
    int (length (edges tr)) \<le> recv_edges (col_idx G ! i) r \<and>
    (pass_over r \<longrightarrow> length (edges tr) = nat (bf (arch_info G)) * length (col_idx G ! i))"
proof -
  from gr_run_inv [OF assms(2,1)] have I: "reader_inv G i r"
    and e: "edges tr = map (edge_at (row_ptr G ! i) (col_idx G ! i) i) [0..<gr_pos (col_idx G ! i) r]"
    by auto
  have l: "length (edges tr) = gr_pos (col_idx G ! i) r" by (simp add: e)
  show ?thesis unfolding l using I e gr_pos_le by (auto simp: reader_inv_def Let_def)
qed

section \<open>Progress\<close>

text \<open>What the three receive flags say about the counters.\<close>

definition live_inv :: "sim_env \<Rightarrow> nat \<Rightarrow> graph_reader \<Rightarrow> bool" where
  "live_inv G i r \<longleftrightarrow> (let B = bf (arch_info G); n = int (length (col_idx G ! i)) in
     (v_reci_over r \<longrightarrow> B \<le> v_reci_count r) \<and> (e_reci_over r \<longrightarrow> B \<le> e_reci_count r) \<and>
     (val_reci_over r \<longrightarrow> B \<le> val_overflow r + g_pass_count r + at_end (val_end_idx r) n) \<and>
     (gnn_mode (arch_info G) \<noteq> OTHER \<longrightarrow>
        val_overflow r + g_pass_count r + at_end (val_end_idx r) n = val_reci_count r) \<and>
     (gnn_mode (arch_info G) = OTHER \<longrightarrow> val_reci_over r) \<and>
     (reci_over r \<longrightarrow> v_reci_over r \<and> e_reci_over r \<and> val_reci_over r))"

definition live_view :: "graph_reader \<Rightarrow> _" where
  "live_view r = (v_reci_over r, v_reci_count r, e_reci_over r, e_reci_count r, val_reci_over r,
     val_overflow r + g_pass_count r, val_end_idx r, val_reci_count r, reci_over r, row_end_idx r, col_end_idx r)"

lemma live_inv_view: "live_view r' = live_view r \<Longrightarrow> live_inv G i r' = live_inv G i r"
  by (simp add: live_view_def live_inv_def Let_def)

lemma new_live:
  assumes "GraphReader_new G i = Inr r" and "engine_ok G i"
  shows "live_inv G i r"
  using assms
  by (auto simp: GraphReader_new_def live_inv_def at_end_def engine_ok_def csr_ok_def Let_def split: if_splits)

lemma request_live:
  "VertexRequest G r m = Inr (r', m') \<Longrightarrow> live_view r' = live_view r"
  "EdgeRequest G r m = Inr (r', m') \<Longrightarrow> live_view r' = live_view r"
  by (auto simp: VertexRequest_def EdgeRequest_def live_view_def Let_def split: if_splits)

lemma receive_row_live: "live_inv G i r \<Longrightarrow> live_inv G i (receive_row G n r)"
  by (auto simp: receive_row_def live_inv_def Let_def)

lemma receive_col_live: "live_inv G i r \<Longrightarrow> live_inv G i (receive_col G n r)"
  by (auto simp: receive_col_def live_inv_def Let_def)

lemma recv_step_at_end:
  "recv_step n (e, ov, cnt) = (e', ov', cnt') \<Longrightarrow> 0 < n \<Longrightarrow>
   ov' + at_end e' n = ov + at_end e n + (cnt' - cnt) \<and> cnt \<le> cnt'"
  by (auto simp: recv_step_def at_end_def Let_def CACHE_LINE_COUNT_def split: if_splits)

lemma receive_val_flag:
  assumes "recv_step n (val_end_idx r, val_overflow r, val_reci_count r) = (e, ov, cnt)"
    and "val_reci_over (receive_val G n r)"
  shows "val_reci_over r \<or> cnt = bf (arch_info G)"
  using assms by (auto simp: receive_val_def recv_step_def Let_def split: if_splits)

lemma receive_val_live:
  assumes "live_inv G i r" and n: "n = int (length (col_idx G ! i))" "0 < n"
  shows "live_inv G i (receive_val G n r)"
proof -
  obtain e ov cnt where st: "recv_step n (val_end_idx r, val_overflow r, val_reci_count r) = (e, ov, cnt)"
    by (metis prod_cases3)
  then obtain f where eq: "receive_val G n r =
      r\<lparr>val_end_idx := e, val_overflow := ov, val_reci_count := cnt, val_reci_over := f\<rparr>"
    using receive_val_eq by blast
  have k: "val_reci_over r \<Longrightarrow> val_reci_over (receive_val G n r)"
    by (simp add: receive_val_def Let_def)
  have fl: "f \<Longrightarrow> val_reci_over r \<or> cnt = bf (arch_info G)" "val_reci_over r \<Longrightarrow> f"
    using receive_val_flag [OF st, of G] k unfolding eq by auto
  show ?thesis
    using assms(1) recv_step_at_end [OF st n(2)] fl unfolding eq live_inv_def Let_def n(1)[symmetric]
    by auto
qed

lemma GraphReceive_live:
  assumes "live_inv G i r" and "GraphReceive G r m = Inr (r', m')" and "gr_id r = i" and "engine_ok G i"
  shows "live_inv G i r'"
proof -
  from assms(2) obtain t s where s: "receive_line G t r = Inr s"
    and r': "r' = (if v_reci_over s \<and> e_reci_over s \<and> val_reci_over s then s\<lparr>reci_over := True\<rparr> else s)"
    by (auto simp: GraphReceive_def)
  have n: "0 < int (length (col_idx G ! i))" using assms(4) by (simp add: engine_ok_def csr_ok_def)
  have "live_inv G i s"
    using s assms(1,3) receive_row_live receive_col_live receive_val_live [OF assms(1) refl n]
    by (cases t) auto
  then show ?thesis unfolding r' by (auto simp: live_inv_def Let_def)
qed

text \<open>The request side, which receiving and passing leave alone.\<close>

definition req_view :: "graph_reader \<Rightarrow> _" where
  "req_view r = (gr_id r, next_v_addr r, v_req_count r, v_req_over r,
     next_e_addr r, next_val_addr r, e_req_count r, e_req_over r)"

lemma next_row_live: "next_row rp r = Inr r' \<Longrightarrow> live_view r' = live_view r \<and> req_view r' = req_view r"
proof (induction rp r rule: next_row.induct)
  case (1 rp r)
  note eq = "1.prems" [unfolded next_row.simps [of rp r] Let_def]
  show ?case
  proof (cases "remain_edge r = 0 \<and> \<not> (cur_row_idx r = int (length rp) \<and> row_overflow r = 0)")
    case False
    with eq show ?thesis by (auto split: if_splits)
  next
    case True
    define r1 where "r1 = (if cur_row_idx r = int (length rp) \<and> row_overflow r > 0
      then r\<lparr>cur_row_idx := 1, row_overflow := row_overflow r - 1\<rparr> else r)"
    obtain hi lo where v: "vgeti rp (cur_row_idx r1) = Inr hi" "vgeti rp (cur_row_idx r1 - 1) = Inr lo"
      using eq True unfolding r1_def [symmetric] by (auto simp del: vgeti_Inr)
    define r2 where "r2 = r1\<lparr>remain_edge := hi - lo, cur_row_idx := cur_row_idx r1 + 1\<rparr>"
    have l: "live_view r2 = live_view r" "req_view r2 = req_view r"
      by (simp_all add: r2_def r1_def live_view_def req_view_def)
    have "(if cur_row_idx r2 = row_end_idx r2 \<and> row_overflow r2 = 0 then Inr r2 else next_row rp r2) = Inr r'"
      using eq True unfolding r1_def [symmetric] v res_bind_Inr r2_def [symmetric] by simp
    then show ?thesis
      using l "1.IH" [OF _ refl _ r1_def v r2_def] True by (auto split: if_splits)
  qed
qed

lemma pass_edge_live: "pass_edge G ci r = Inr (ei, r') \<Longrightarrow> live_view r' = live_view r \<and> req_view r' = req_view r"
  by (auto simp: pass_edge_def Let_def live_view_def req_view_def split: if_splits)

lemma NextFeature_live:
  assumes "NextFeature G r = Inr (ei, r')"
  shows "live_view r' = live_view r \<and> req_view r' = req_view r"
proof -
  from assms consider "r' = r\<lparr>pass_over := True\<rparr>"
    | r1 ci rp where "row_phase rp r = Inr r1" "r' = r1 \<or> pass_edge G ci r1 = Inr (ei, r')"
    unfolding NextFeature_def row_phase_def by (auto simp del: vget_Inr split: if_splits)
  then show ?thesis
  proof cases
    case 1
    then show ?thesis by (simp add: live_view_def req_view_def)
  next
    case 2
    have "live_view r1 = live_view r \<and> req_view r1 = req_view r"
      using 2(1) next_row_live by (auto simp: row_phase_def split: if_splits)
    with 2(2) show ?thesis using pass_edge_live by metis
  qed
qed

lemma gr_run_live:
  assumes run: "gr_run G i r m tr" and ok: "engine_ok G i"
  shows "live_inv G i r"
  using run
proof induction
  case (recv r m tr r' m')
  have "gr_id r = i" using gr_run_inv [OF recv(1) ok] by (simp add: reader_inv_def Let_def)
  with recv ok show ?case using GraphReceive_live by blast
next
  case (vreq r m tr r' m')
  then show ?case using live_inv_view [OF request_live(1)] by metis
next
  case (ereq r m tr r' m')
  then show ?case using live_inv_view [OF request_live(2)] by metis
next
  case (pass r m tr ei r')
  then show ?case using live_inv_view NextFeature_live by metis
qed (use ok new_live in blast)+

text \<open>With everything received the row phase finds a row with an edge.\<close>

lemma row_phase_live:
  assumes csr: "csr_ok rp ci" and inv: "gr_inv rp ci B r" and rec: "recv_inv rp ci r"
    and cnt: "B \<le> v_reci_count r" and go: "\<not> (cur_col_idx r = int (length ci) \<and> g_pass_count r = B - 1)"
  shows "\<exists>r1. row_phase rp r = Inr r1 \<and> 0 < remain_edge r1 \<and> gr_inv rp ci B r1 \<and> col_view r1 = col_view r"
proof -
  from row_phase_spec [OF csr inv rec] obtain r1 where
    r1: "row_phase rp r = Inr r1" "gr_inv rp ci B r1" "recv_inv rp ci r1" "col_view r1 = col_view r"
      "remain_edge r1 > 0 \<or> remain_edge r1 = 0 \<and> row_overflow r1 = 0 \<and>
        (row_end_idx r = int (length rp) \<longrightarrow> cur_row_idx r1 = int (length rp))" by blast
  note v = view_upd [OF r1(4)]
  have False if z: "remain_edge r1 = 0" "row_overflow r1 = 0"
    "row_end_idx r = int (length rp) \<longrightarrow> cur_row_idx r1 = int (length rp)"
  proof -
    obtain base where b: "row_aligned rp ci base r1"
      "g_pass_count r1 + (if base = cur_col_idx r1 then 0 else 1) + at_end (row_end_idx r1) (int (length rp)) =
         v_reci_count r1"
      using r1(3) z(2) by (auto simp: recv_inv_def)
    have g: "g_pass_count r1 < B" using r1(2) by (simp add: gr_inv_def)
    have bc: "base \<noteq> cur_col_idx r1 \<Longrightarrow> cur_col_idx r1 = int (length ci)"
      using b(1) by (auto simp: row_aligned_def)
    have e: "row_end_idx r1 = int (length rp)"
      using b(2) cnt g go bc v by (auto simp: at_end_def split: if_splits)
    then have "cur_row_idx r1 = int (length rp)" using z(3) v by simp
    note w = row_wrap(2,3) [OF csr b(1) z(1) this]
    with b(2) cnt g go v show False by (auto simp: at_end_def split: if_splits)
  qed
  with r1 show ?thesis by blast
qed

lemma next_edge:
  assumes "engine_ok G i" and "gr_run G i r m tr" and "reci_over r"
    and "length (edges tr) < nat (bf (arch_info G)) * length (col_idx G ! i)"
  shows "\<exists>r'. NextFeature G r =
    Inr (edge_at (row_ptr G ! i) (col_idx G ! i) i (length (edges tr)), r')"
proof -
  define rp ci B where "rp = row_ptr G ! i" and "ci = col_idx G ! i" and "B = bf (arch_info G)"
  from gr_run_inv [OF assms(2,1)] have I: "reader_inv G i r"
    and e: "length (edges tr) = gr_pos ci r" by (auto simp: ci_def)
  have J: "gr_id r = i" "gr_inv rp ci B r" "recv_inv rp ci r"
    using I by (auto simp: reader_inv_def Let_def rp_def ci_def B_def)
  have csr: "csr_ok rp ci" and len: "i < length (row_ptr G)" "i < length (col_idx G)"
    using assms(1) by (auto simp: engine_ok_def rp_def ci_def)
  have ne: "ci \<noteq> []" using csr by (simp add: csr_ok_def)
  have go: "\<not> (cur_col_idx r = int (length ci) \<and> g_pass_count r = B - 1)"
    using gr_pos_end [OF J(2) ne] e assms(4) by (auto simp: ci_def B_def)
  have live: "B \<le> v_reci_count r" "B \<le> e_reci_count r"
    "B \<le> val_overflow r + g_pass_count r + at_end (val_end_idx r) (int (length ci))"
    using gr_run_live [OF assms(2,1)] assms(3) by (auto simp: live_inv_def Let_def B_def ci_def)
  from row_phase_live [OF csr J(2,3) live(1) go] obtain r1 where
    r1: "row_phase rp r = Inr r1" "0 < remain_edge r1" "gr_inv rp ci B r1" "col_view r1 = col_view r" by blast
  note v = view_upd [OF r1(4)]
  have g: "g_pass_count r < B" "cur_col_idx r \<le> int (length ci)" "cur_val_idx r = cur_col_idx r"
    using J(2) by (auto simp: gr_inv_def)
  have col: "cur_col_idx r1 < col_end_idx r1 \<or> col_overflow r1 > 0"
    using J(3) live(2) go g v by (auto simp: recv_inv_def at_end_def split: if_splits)
  have val: "cur_val_idx r1 < val_end_idx r1 \<or> val_overflow r1 > 0"
    using live(3) go g v by (auto simp: at_end_def split: if_splits)
  from pass_edge_spec [OF csr r1(3) B_def [symmetric] r1(2) col val] go v obtain r2 where
    "pass_edge G ci r1 = Inr (edge_at rp ci (gr_id r1) (gr_pos ci r1), r2)" by auto
  moreover have "NextFeature G r = pass_edge G ci r1"
    using go len J(1) r1(1,2) col val unfolding NextFeature_def
    by (simp add: rp_def [symmetric] ci_def [symmetric] B_def [symmetric] row_phase_def [symmetric]) auto
  ultimately show ?thesis using v J(1) e by (auto simp: rp_def ci_def)
qed

text \<open>
  C19. Progress: once the reader has reported that its graph data is received, every call passes the
  next edge of the stream until the last edge of the last fold has been passed.
\<close>

theorem edge_progress:
  assumes "engine_ok G i" and "gr_run G i r m tr" and "reci_over r"
    and "length (edges tr) < nat (bf (arch_info G)) * length (col_idx G ! i)"
  shows "\<exists>r'. NextFeature G r =
    Inr (edge_at (row_ptr G ! i) (col_idx G ! i) i (length (edges tr)), r')"
  by (rule next_edge [OF assms])

section \<open>The requests\<close>

lemma receive_req:
  "req_view (receive_row G n r) = req_view r"
  "req_view (receive_col G n r) = req_view r"
  "req_view (receive_val G n r) = req_view r"
  by (simp_all add: receive_row_def receive_col_def receive_val_def req_view_def Let_def)

lemma GraphReceive_req:
  assumes "GraphReceive G r m = Inr (r', m')"
  shows "req_view r' = req_view r"
proof -
  from assms obtain t s where s: "receive_line G t r = Inr s"
    and r': "r' = (if v_reci_over s \<and> e_reci_over s \<and> val_reci_over s then s\<lparr>reci_over := True\<rparr> else s)"
    by (auto simp: GraphReceive_def)
  have "req_view s = req_view r"
    using s by (cases t) (auto simp: receive_req)
  then show ?thesis unfolding r' by (simp add: req_view_def)
qed

text \<open>
  The address counter, the fold counter and the flag of one array after \<open>k\<close> requests for its
  \<open>n\<close> lines.
\<close>

definition req_at :: "u64 \<Rightarrow> nat \<Rightarrow> int \<Rightarrow> nat \<Rightarrow> u64 \<times> int \<times> bool" where
  "req_at start n B k = (start + CACHE_LINE_BYTE * of_nat (k mod n), int (k div n), int k = B * int n)"

lemma req_line_end:
  assumes "0 < n" and "64 * n < 2 ^ 64" and "end = (start :: u64) + CACHE_LINE_BYTE * of_nat n"
  shows "start + CACHE_LINE_BYTE * of_nat (k mod n) + CACHE_LINE_BYTE = end \<longleftrightarrow> Suc (k mod n) = n"
proof -
  have m: "k mod n < n" using assms(1) by simp
  have a: "start + CACHE_LINE_BYTE * of_nat (k mod n) + CACHE_LINE_BYTE =
      start + CACHE_LINE_BYTE * of_nat (Suc (k mod n))"
    by (simp add: CACHE_LINE_BYTE_def algebra_simps)
  have w: "CACHE_LINE_BYTE * of_nat x = (of_nat (64 * x) :: u64)" for x
    by (simp add: CACHE_LINE_BYTE_def)
  have "(of_nat (64 * Suc (k mod n)) :: u64) = of_nat (64 * n) \<longleftrightarrow> 64 * Suc (k mod n) = 64 * n"
    using m assms(2) by (simp only: word_of_nat_eq_iff) (simp add: take_bit_nat_eq_self)
  then have "start + of_nat (64 * Suc (k mod n)) = end \<longleftrightarrow> Suc (k mod n) = n"
    unfolding assms(3) w by (simp only: add_left_cancel mult_cancel1) simp
  then show ?thesis by (simp only: a) (simp only: w)
qed

lemma req_next:
  assumes "0 < n" and "64 * n < 2 ^ 64" and "end = start + CACHE_LINE_BYTE * of_nat n" and "int k < B * int n"
  defines "a \<equiv> start + CACHE_LINE_BYTE * of_nat (k mod n) + CACHE_LINE_BYTE"
  shows "(if a = end then (start, int (k div n) + 1, int (k div n) + 1 = B) else (a, int (k div n), False)) =
    req_at start n B (Suc k)"
proof -
  have m: "k mod n < n" using assms(1) by simp
  have a: "a = start + CACHE_LINE_BYTE * of_nat (Suc (k mod n))"
    by (simp add: a_def CACHE_LINE_BYTE_def algebra_simps)
  have eq: "a = end \<longleftrightarrow> Suc (k mod n) = n"
    unfolding a_def by (rule req_line_end [OF assms(1-3)])
  have sk: "Suc k = k div n * n + Suc (k mod n)" by simp
  have k: "int (Suc k) = B * int n \<longleftrightarrow> Suc (k mod n) = n \<and> int (k div n) + 1 = B"
  proof
    assume e: "int (Suc k) = B * int n"
    then have "int n dvd int (Suc k)" by simp
    then have "Suc k mod n = 0" by (simp only: of_nat_dvd_iff mod_0_imp_dvd dvd_imp_mod_0)
    then have s: "Suc (k mod n) = n" using m by (simp add: mod_Suc split: if_splits)
    then have "Suc k = (k div n + 1) * n" using sk by simp
    then have "(int (k div n) + 1) * int n = B * int n" using e by (simp only: of_nat_mult of_nat_add of_nat_1)
    with s assms(1) show "Suc (k mod n) = n \<and> int (k div n) + 1 = B" by simp
  next
    assume s: "Suc (k mod n) = n \<and> int (k div n) + 1 = B"
    then have "Suc k = (k div n + 1) * n" using sk by simp
    then have "int (Suc k) = int ((k div n + 1) * n)" by (simp only:)
    with s show "int (Suc k) = B * int n" by (auto simp: algebra_simps)
  qed
  show ?thesis
  proof (cases "Suc (k mod n) = n")
    case True
    then show ?thesis using eq k by (simp add: req_at_def mod_Suc div_Suc)
  next
    case False
    then show ?thesis using eq k a by (simp add: req_at_def mod_Suc div_Suc)
  qed
qed

lemma row_requests_inv:
  assumes "engine_ok G i" and "gr_run G i r m tr"
    and "0 < n" and "64 * n < 2 ^ 64"
    and "row_addr_end (data_index G ! i) = row_addr_start (data_index G ! i) + CACHE_LINE_BYTE * of_nat n"
  shows "gr_id r = i \<and> rows tr = map (\<lambda>j. row_addr_start (data_index G ! i) + CACHE_LINE_BYTE * of_nat (j mod n))
      [0..<length (rows tr)] \<and> int (length (rows tr)) \<le> bf (arch_info G) * int n \<and>
    (next_v_addr r, v_req_count r, v_req_over r) =
      req_at (row_addr_start (data_index G ! i)) n (bf (arch_info G)) (length (rows tr))"
proof -
  have pos: "0 < bf (arch_info G)" using assms(1) by (simp add: engine_ok_def)
  show ?thesis
    using assms(2)
  proof induction
    case (start r m)
    then show ?case using pos assms(1,3)
      by (auto simp: GraphReader_new_def req_at_def engine_ok_def Let_def split: if_splits)
  next
    case (vreq r m tr r' m')
    let ?d = "data_index G ! i" and ?B = "bf (arch_info G)" and ?k = "length (rows tr)"
    show ?case
    proof (cases "WillAcceptTransaction m")
      case False
      then have "r' = r" "new_reqs m m' = []"
        using vreq.hyps by (auto simp: VertexRequest_def new_reqs_def)
      with vreq.IH show ?thesis by simp
    next
      case True
      have IH: "gr_id r = i" "next_v_addr r = row_addr_start ?d + CACHE_LINE_BYTE * of_nat (?k mod n)"
        "v_req_count r = int (?k div n)" "int ?k \<noteq> ?B * int n" "int ?k \<le> ?B * int n"
        using vreq.IH vreq.hyps by (auto simp: req_at_def)
      then have lt: "int ?k < ?B * int n" by simp
      have n: "new_reqs m m' = [next_v_addr r]" "gr_id r' = i"
        using True vreq.hyps IH(1)
        by (auto simp: VertexRequest_def new_reqs_def AddTransaction_def read_tr_def Let_def split: if_splits)
      have "(next_v_addr r', v_req_count r', v_req_over r') = req_at (row_addr_start ?d) n ?B (Suc ?k)"
        using True vreq.hyps IH assms(1)
        unfolding req_next [OF assms(3-5) lt, symmetric]
        by (auto simp: VertexRequest_def engine_ok_def Let_def split: if_splits)
      with n vreq.IH IH lt show ?thesis by simp
    qed
  next
    case (ereq r m tr r' m')
    then show ?case by (auto simp: EdgeRequest_def Let_def split: if_splits)
  next
    case (recv r m tr r' m')
    then show ?case using GraphReceive_req [OF recv(3)] by (auto simp: req_view_def)
  next
    case (pass r m tr ei r')
    then show ?case using NextFeature_live [OF pass(3)] by (auto simp: req_view_def)
  qed auto
qed

text \<open>
  C20. The row requests of an engine whose row array occupies \<open>n\<close> cache lines enumerate these
  lines in order, once per fold and no more: the \<open>j\<close>-th request is for line \<open>j mod n\<close>, there are
  at most \<open>bf\<close> times \<open>n\<close> of them, and the flag that stops the requests is set exactly then.
\<close>

theorem row_requests:
  assumes "engine_ok G i" and "gr_run G i r m tr"
    and "0 < n" and "64 * n < 2 ^ 64"
    and "row_addr_end (data_index G ! i) = row_addr_start (data_index G ! i) + CACHE_LINE_BYTE * of_nat n"
  shows "rows tr = map (\<lambda>j. row_addr_start (data_index G ! i) + CACHE_LINE_BYTE * of_nat (j mod n))
      [0..<length (rows tr)] \<and>
    int (length (rows tr)) \<le> bf (arch_info G) * int n \<and>
    (v_req_over r \<longleftrightarrow> int (length (rows tr)) = bf (arch_info G) * int n)"
  using row_requests_inv [OF assms] by (simp add: req_at_def)

text \<open>The addresses of the \<open>j\<close>-th edge request.\<close>

definition edge_req :: "sim_env \<Rightarrow> nat \<Rightarrow> nat \<Rightarrow> nat \<Rightarrow> u64 list" where
  "edge_req G i n j = (let d = data_index G ! i; off = CACHE_LINE_BYTE * of_nat (j mod n) in
     (col_addr_start d + off) #
     (if gnn_mode (arch_info G) = GCN then [value_addr_start d + off] else []))"

lemma edge_requests_inv:
  assumes "engine_ok G i" and "gr_run G i r m tr"
    and "0 < n" and "64 * n < 2 ^ 64"
    and "col_addr_end (data_index G ! i) = col_addr_start (data_index G ! i) + CACHE_LINE_BYTE * of_nat n"
  shows "gr_id r = i \<and> (\<exists>k. cols tr = concat (map (edge_req G i n) [0..<k]) \<and> int k \<le> bf (arch_info G) * int n \<and>
    (gnn_mode (arch_info G) = GCN \<longrightarrow> next_val_addr r = value_addr_start (data_index G ! i) + CACHE_LINE_BYTE * of_nat (k mod n)) \<and>
    (next_e_addr r, e_req_count r, e_req_over r) = req_at (col_addr_start (data_index G ! i)) n (bf (arch_info G)) k)"
proof -
  let ?d = "data_index G ! i" and ?B = "bf (arch_info G)" and ?gcn = "gnn_mode (arch_info G) = GCN"
  have pos: "0 < ?B" using assms(1) by (simp add: engine_ok_def)
  show ?thesis
    using assms(2)
  proof induction
    case (start r m)
    then show ?case using pos assms(1,3)
      by (intro conjI exI [of _ 0])
        (auto simp: GraphReader_new_def req_at_def engine_ok_def Let_def split: if_splits)
  next
    case (ereq r m tr r' m')
    show ?case
    proof (cases "WillAcceptTransaction m")
      case False
      then have "r' = r" "new_reqs m m' = []"
        using ereq.hyps by (auto simp: EdgeRequest_def new_reqs_def)
      with ereq.IH show ?thesis by simp
    next
      case True
      from ereq.IH ereq.hyps obtain k where
        IH: "gr_id r = i" "next_e_addr r = col_addr_start ?d + CACHE_LINE_BYTE * of_nat (k mod n)"
          "e_req_count r = int (k div n)" "int k \<noteq> ?B * int n" "int k \<le> ?B * int n"
          "?gcn \<Longrightarrow> next_val_addr r = value_addr_start ?d + CACHE_LINE_BYTE * of_nat (k mod n)"
        and tr: "cols tr = concat (map (edge_req G i n) [0..<k])"
        by (auto simp: req_at_def)
      then have lt: "int k < ?B * int n" by simp
      have n: "new_reqs m m' = edge_req G i n k" "gr_id r' = i"
        using True ereq.hyps IH(1,2,6)
        by (auto simp: EdgeRequest_def new_reqs_def AddTransaction_def read_tr_def edge_req_def Let_def
            split: if_splits)
      have r': "(next_e_addr r', e_req_count r', e_req_over r') = req_at (col_addr_start ?d) n ?B (Suc k)"
        using True ereq.hyps IH assms(1)
        unfolding req_next [OF assms(3-5) lt, symmetric]
        by (auto simp: EdgeRequest_def engine_ok_def Let_def split: if_splits)
      have e: "next_e_addr r + CACHE_LINE_BYTE = col_addr_end ?d \<longleftrightarrow> Suc k mod n = 0"
        using req_line_end [OF assms(3-5), of k] IH(2) by (simp add: mod_Suc)
      have "?gcn \<longrightarrow> next_val_addr r' = value_addr_start ?d + CACHE_LINE_BYTE * of_nat (Suc k mod n)"
        using True ereq.hyps IH(1,6) e assms(1)
        by (auto simp: EdgeRequest_def engine_ok_def Let_def mod_Suc CACHE_LINE_BYTE_def algebra_simps
            split: if_splits)
      with n r' tr lt show ?thesis by (intro conjI exI [of _ "Suc k"]) simp_all
    qed
  next
    case (vreq r m tr r' m')
    then show ?case by (auto simp: VertexRequest_def Let_def split: if_splits)
  next
    case (recv r m tr r' m')
    then show ?case using GraphReceive_req [OF recv(3)] by (auto simp: req_view_def)
  next
    case (pass r m tr ei r')
    then show ?case using NextFeature_live [OF pass(3)] by (auto simp: req_view_def)
  qed auto
qed

text \<open>
  C21. The edge requests of an engine whose column array occupies \<open>n\<close> cache lines enumerate these
  lines in order, once per fold and no more, each followed by the request for the line of edge values
  at the same offset when the network is a GCN.
\<close>

theorem edge_requests:
  assumes "engine_ok G i" and "gr_run G i r m tr"
    and "0 < n" and "64 * n < 2 ^ 64"
    and "col_addr_end (data_index G ! i) = col_addr_start (data_index G ! i) + CACHE_LINE_BYTE * of_nat n"
  shows "\<exists>k. cols tr = concat (map (edge_req G i n) [0..<k]) \<and> int k \<le> bf (arch_info G) * int n \<and>
    (e_req_over r \<longleftrightarrow> int k = bf (arch_info G) * int n)"
  using edge_requests_inv [OF assms] by (auto simp: req_at_def)

section \<open>Executing runs\<close>

text \<open>A script of controller calls, executed; every execution is a run.\<close>

datatype gr_call = CVReq | CEReq | CRecv | CPass

fun gr_call1 :: "sim_env \<Rightarrow> gr_call \<Rightarrow> graph_reader \<times> 'd memory \<times> gr_trace \<Rightarrow>
    (graph_reader \<times> 'd memory \<times> gr_trace) res" where
  "gr_call1 G CVReq (r, m, tr) = (if v_req_over r then Inr (r, m, tr)
     else res_bind (VertexRequest G r m) (\<lambda>(r', m'). Inr (r', m', tr\<lparr>rows := rows tr @ new_reqs m m'\<rparr>)))"
| "gr_call1 G CEReq (r, m, tr) = (if e_req_over r then Inr (r, m, tr)
     else res_bind (EdgeRequest G r m) (\<lambda>(r', m'). Inr (r', m', tr\<lparr>cols := cols tr @ new_reqs m m'\<rparr>)))"
| "gr_call1 G CRecv (r, m, tr) = (if reci_over r then Inr (r, m, tr)
     else res_bind (GraphReceive G r m) (\<lambda>(r', m'). Inr (r', m', tr)))"
| "gr_call1 G CPass (r, m, tr) = (if pass_over r then Inr (r, m, tr)
     else res_bind (NextFeature G r) (\<lambda>(ei, r').
       Inr (r', m, if dst ei = -1 then tr else tr\<lparr>edges := edges tr @ [ei]\<rparr>)))"

definition gr_exec :: "sim_env \<Rightarrow> nat \<Rightarrow> 'd memory \<Rightarrow> gr_call list \<Rightarrow>
    (graph_reader \<times> 'd memory \<times> gr_trace) res" where
  "gr_exec G i m cs = res_bind (GraphReader_new G i) (\<lambda>r.
     res_fold (gr_call1 G) cs (r, m, \<lparr>rows = [], cols = [], edges = []\<rparr>))"

lemma gr_call1_run:
  "gr_call1 G c (r, m, tr) = Inr (r', m', tr') \<Longrightarrow> gr_run G i r m tr \<Longrightarrow> gr_run G i r' m' tr'"
  by (cases c) (auto split: if_splits prod.splits dest: gr_run.intros)

lemma gr_fold_run:
  "res_fold (gr_call1 G) cs (r, m, tr) = Inr (r', m', tr') \<Longrightarrow> gr_run G i r m tr \<Longrightarrow> gr_run G i r' m' tr'"
proof (induction cs arbitrary: r m tr)
  case (Cons c cs)
  then show ?case using gr_call1_run by (fastforce simp del: gr_call1.simps)
qed simp

lemma gr_exec_run: "gr_exec G i m cs = Inr (r', m', tr') \<Longrightarrow> gr_run G i r' m' tr'"
  by (auto simp: gr_exec_def intro: gr_fold_run gr_run.start)

definition mem_lines :: "unit memory" where
  "mem_lines = (Memory_new env_small () 12)\<lparr>rq := [[Row, Column, Value, Row, Column, Value], []]\<rparr>"

definition demo_calls :: "gr_call list" where
  "demo_calls = [CVReq, CEReq, CPass, CRecv, CRecv, CRecv, CPass, CVReq, CEReq, CPass, CRecv, CRecv, CRecv, CPass]"

lemma demo_run:
  "\<exists>r m tr. gr_run env_small 0 r (m :: unit memory) tr \<and> length (edges tr) = 3 \<and> reci_over r \<and>
     v_req_over r \<and> e_req_over r \<and> length (rows tr) = 2"
proof -
  have "case gr_exec env_small 0 mem_lines demo_calls of Inl e \<Rightarrow> False
    | Inr (r, m, tr) \<Rightarrow> length (edges tr) = 3 \<and> reci_over r \<and> v_req_over r \<and> e_req_over r \<and> length (rows tr) = 2"
    by code_simp
  then show ?thesis by (auto split: sum.splits prod.splits dest: gr_exec_run)
qed

lemma env_small_ok: "engine_ok env_small 0"
  by (simp add: engine_ok_def csr_ok_def env_small_def arch_small_def)

theorem edge_stream_witness:
  "\<exists>r m tr. gr_run env_small 0 r (m :: unit memory) tr \<and>
     edges tr = map (edge_at [0, 2, 3] [1, 2, 1] 0) [0, 1, 2] \<and> \<not> pass_over r"
proof -
  obtain r tr and m :: "unit memory" where d: "gr_run env_small 0 r m tr" "length (edges tr) = 3"
    using demo_run by blast
  from edge_stream [OF env_small_ok d(1)] d show ?thesis
    by (intro exI [of _ r] exI [of _ m] exI [of _ tr])
      (auto simp: env_small_def arch_small_def upt_conv_Cons numeral_2_eq_2)
qed

theorem edge_progress_witness:
  "\<exists>r m tr r'. gr_run env_small 0 r (m :: unit memory) tr \<and>
     NextFeature env_small r = Inr (\<lparr>ei_id = 0, is_last = False, dst = 1, v_fold = 1\<rparr>, r')"
proof -
  obtain r tr and m :: "unit memory" where d: "gr_run env_small 0 r m tr" "length (edges tr) = 3" "reci_over r"
    using demo_run by blast
  have "length (edges tr) < nat (bf (arch_info env_small)) * length (col_idx env_small ! 0)"
    by (simp add: d(2) env_small_def arch_small_def)
  from edge_progress [OF env_small_ok d(1,3) this] obtain r' where
    "NextFeature env_small r = Inr (edge_at [0, 2, 3] [1, 2, 1] 0 3, r')"
    by (auto simp: d(2) env_small_def)
  moreover have "edge_at [0, 2, 3] [1, 2, 1] 0 3 = \<lparr>ei_id = 0, is_last = False, dst = 1, v_fold = 1\<rparr>"
    by code_simp
  ultimately show ?thesis using d(1) by auto
qed

theorem row_requests_witness:
  "\<exists>r m tr. gr_run env_small 0 r (m :: unit memory) tr \<and> rows tr = [128, 128] \<and> v_req_over r"
proof -
  obtain r tr and m :: "unit memory" where d: "gr_run env_small 0 r m tr" "length (rows tr) = 2" "v_req_over r"
    using demo_run by blast
  from row_requests [OF env_small_ok d(1), of 1] d show ?thesis
    by (intro exI [of _ r] exI [of _ m] exI [of _ tr])
      (auto simp: env_small_def arch_small_def CACHE_LINE_BYTE_def upt_conv_Cons)
qed

theorem edge_requests_witness:
  "\<exists>r m tr. gr_run env_small 0 r (m :: unit memory) tr \<and> cols tr = [256, 0, 256, 0]"
proof -
  obtain r tr and m :: "unit memory" where d: "gr_run env_small 0 r m tr" "e_req_over r"
    using demo_run by blast
  from edge_requests [OF env_small_ok d(1), of 1] d(2) obtain k where
    "cols tr = concat (map (edge_req env_small 0 1) [0..<k])" "k = 2"
    by (auto simp: env_small_def arch_small_def CACHE_LINE_BYTE_def)
  with d(1) show ?thesis
    by (intro exI [of _ r] exI [of _ m] exI [of _ tr])
      (auto simp: edge_req_def env_small_def arch_small_def upt_conv_Cons)
qed

end
