(* ===== verification/Cache.thy ===== *)
theory Cache
  imports Sim_Types
begin

text \<open>
  The set-associative feature cache of \<open>src/src/cache.cc\<close>: \<open>sa_cache[set]\<close> holds the cached
  line addresses of a set, most recently used first. The theory shows that the operations keep the
  cache's shape (no set above its associativity, no address in a foreign set, no duplicates), that
  \<open>Access\<close> answers membership and that a full set evicts exactly its least recently used line.
  The last section states this as the contract \<open>line_cache\<close> that the feature reader relies on.
\<close>

section \<open>The model\<close>

record cache =
  sa_cache :: "u64 list list"

definition Cache_new :: "ArchInfo \<Rightarrow> cache" where
  "Cache_new A = \<lparr>sa_cache = replicate (nat (cache_set A)) []\<rparr>"

text \<open>The \<open>int\<close> divisor is converted to \<open>uint64_t\<close>, as in the code's mixed expression.\<close>

definition FindSet :: "ArchInfo \<Rightarrow> u64 \<Rightarrow> nat res" where
  "FindSet A a =
     (let addr_normalized = a - xw_ele_addr_start A
      in if cache_set A = 0 then Inl DivByZero
         else Inr (unat ((addr_normalized div CACHE_LINE_BYTE) mod word_of_int (cache_set A))))"

fun FindWay_from :: "nat \<Rightarrow> u64 list \<Rightarrow> u64 \<Rightarrow> int" where
  "FindWay_from i [] a = -1"
| "FindWay_from i (x # xs) a = (if x = a then int i else FindWay_from (Suc i) xs a)"

definition FindWay :: "cache \<Rightarrow> u64 \<Rightarrow> nat \<Rightarrow> int res" where
  "FindWay c a s = res_bind (vget (sa_cache c) s) (\<lambda>ws. Inr (FindWay_from 0 ws a))"

text \<open>\<open>pop_back\<close> on an empty set (a cache of zero ways) is undefined.\<close>

definition Insert :: "ArchInfo \<Rightarrow> cache \<Rightarrow> u64 \<Rightarrow> cache res" where
  "Insert A c a =
     res_bind (FindSet A a) (\<lambda>s.
     res_bind (vget (sa_cache c) s) (\<lambda>ws.
     res_bind (if int (length ws) = cache_way A
               then (if ws = [] then Inl EmptyPop else Inr (butlast ws))
               else Inr ws) (\<lambda>ws'.
     Inr (c\<lparr>sa_cache := (sa_cache c)[s := a # ws']\<rparr>))))"

definition erase_at :: "nat \<Rightarrow> 'a list \<Rightarrow> 'a list" where
  "erase_at i xs = take i xs @ drop (Suc i) xs"

definition Access :: "ArchInfo \<Rightarrow> cache \<Rightarrow> u64 \<Rightarrow> (bool \<times> cache) res" where
  "Access A c a =
     res_bind (FindSet A a) (\<lambda>s.
     res_bind (FindWay c a s) (\<lambda>way.
     if way = -1 then Inr (False, c)
     else res_bind (vget (sa_cache c) s) (\<lambda>ws.
          Inr (True, c\<lparr>sa_cache := (sa_cache c)[s := a # erase_at (nat way) ws]\<rparr>))))"

section \<open>Lookup\<close>

lemma FindWay_from_miss: "a \<notin> set ws \<Longrightarrow> FindWay_from i ws a = -1"
  by (induction ws arbitrary: i) auto

lemma FindWay_from_hit:
  "a \<in> set ws \<Longrightarrow> \<exists>j < length ws. FindWay_from i ws a = int (i + j) \<and> ws ! j = a \<and> a \<notin> set (take j ws)"
proof (induction ws arbitrary: i)
  case Nil
  then show ?case by simp
next
  case (Cons x ws)
  show ?case
  proof (cases "x = a")
    case True
    then show ?thesis by (intro exI [of _ 0]) simp
  next
    case False
    with Cons.prems Cons.IH [of "Suc i"] obtain j
      where "j < length ws" "FindWay_from (Suc i) ws a = int (Suc i + j)" "ws ! j = a"
        "a \<notin> set (take j ws)" by auto
    with False show ?thesis by (intro exI [of _ "Suc j"]) auto
  qed
qed

lemma FindWay_from_iff: "FindWay_from i ws a = -1 \<longleftrightarrow> a \<notin> set ws"
  using FindWay_from_hit [of a ws i] FindWay_from_miss [of a ws i] by auto

lemma erase_first_eq_remove1:
  "j < length ws \<Longrightarrow> ws ! j = a \<Longrightarrow> a \<notin> set (take j ws) \<Longrightarrow> erase_at j ws = remove1 a ws"
proof (induction ws arbitrary: j)
  case Nil
  then show ?case by simp
next
  case (Cons x ws)
  then show ?case by (cases j) (auto simp: erase_at_def)
qed

lemma erase_FindWay: "a \<in> set ws \<Longrightarrow> erase_at (nat (FindWay_from 0 ws a)) ws = remove1 a ws"
  using FindWay_from_hit [of a ws 0] by (auto simp: erase_first_eq_remove1)

section \<open>The invariant\<close>

text \<open>The set an address belongs to, for a cache with a positive number of sets.\<close>

definition set_of :: "ArchInfo \<Rightarrow> u64 \<Rightarrow> nat" where
  "set_of A a = unat (((a - xw_ele_addr_start A) div CACHE_LINE_BYTE) mod word_of_int (cache_set A))"

definition cache_ok :: "ArchInfo \<Rightarrow> bool" where
  "cache_ok A \<longleftrightarrow> 0 < cache_set A \<and> cache_set A < 2 ^ 31 \<and> 0 < cache_way A"

definition cache_inv :: "ArchInfo \<Rightarrow> cache \<Rightarrow> bool" where
  "cache_inv A c \<longleftrightarrow> length (sa_cache c) = nat (cache_set A) \<and>
     (\<forall>s < length (sa_cache c). distinct (sa_cache c ! s) \<and>
        int (length (sa_cache c ! s)) \<le> cache_way A \<and>
        (\<forall>a \<in> set (sa_cache c ! s). set_of A a = s))"

definition cached :: "cache \<Rightarrow> u64 set" where
  "cached c = \<Union> (set ` set (sa_cache c))"

lemma cached_nth: "a \<in> cached c \<longleftrightarrow> (\<exists>s < length (sa_cache c). a \<in> set (sa_cache c ! s))"
  by (simp add: cached_def) (metis in_set_conv_nth)

lemma FindSet_ok: "cache_ok A \<Longrightarrow> FindSet A a = Inr (set_of A a)"
  by (simp add: FindSet_def set_of_def cache_ok_def Let_def)

lemma set_of_less:
  assumes "cache_ok A"
  shows "set_of A a < nat (cache_set A)"
proof -
  let ?w = "word_of_int (cache_set A) :: u64"
  have u: "unat ?w = nat (cache_set A)"
    using assms by (simp add: cache_ok_def unat_eq_nat_uint uint_word_of_int take_bit_int_eq_self)
  with assms have "?w \<noteq> 0" by (auto simp: cache_ok_def unat_0_iff [symmetric] simp del: unat_0_iff)
  then show ?thesis
    using u by (simp add: set_of_def unat_mod_distrib unat_gt_0 [symmetric])
qed

lemma set_of_in [simp]: "cache_ok A \<Longrightarrow> cache_inv A c \<Longrightarrow> set_of A a < length (sa_cache c)"
  by (simp add: cache_inv_def set_of_less)

lemma cached_iff:
  assumes "cache_ok A" and "cache_inv A c"
  shows "a \<in> cached c \<longleftrightarrow> a \<in> set (sa_cache c ! set_of A a)"
proof
  assume "a \<in> cached c"
  then obtain s where "s < length (sa_cache c)" "a \<in> set (sa_cache c ! s)"
    by (auto simp: cached_nth)
  then show "a \<in> set (sa_cache c ! set_of A a)" using assms by (auto simp: cache_inv_def)
next
  assume "a \<in> set (sa_cache c ! set_of A a)"
  then show "a \<in> cached c" using assms by (auto simp: cached_def)
qed

lemma Cache_new_inv: "cache_ok A \<Longrightarrow> cache_inv A (Cache_new A)"
  by (simp add: cache_inv_def Cache_new_def cache_ok_def)

lemma cached_new [simp]: "cached (Cache_new A) = {}"
  by (auto simp: cached_def Cache_new_def)

text \<open>Writing one set of a well-formed cache.\<close>

lemma cache_inv_upd:
  assumes "cache_inv A c" and "s < length (sa_cache c)" and "distinct ws"
    and "int (length ws) \<le> cache_way A" and "\<forall>a \<in> set ws. set_of A a = s"
  shows "cache_inv A (c\<lparr>sa_cache := (sa_cache c)[s := ws]\<rparr>)"
  using assms by (auto simp: cache_inv_def nth_list_update)

lemma cached_upd:
  assumes "cache_ok A" and "cache_inv A c" and "\<forall>a \<in> set ws. set_of A a = s"
    and "s < length (sa_cache c)"
  shows "cached (c\<lparr>sa_cache := (sa_cache c)[s := ws]\<rparr>) = cached c - set (sa_cache c ! s) \<union> set ws"
proof (rule set_eqI)
  fix a
  have own: "set_of A a = t" if "t < length (sa_cache c)" "a \<in> set (sa_cache c ! t)" for t
    using assms(2) that by (auto simp: cache_inv_def)
  show "a \<in> cached (c\<lparr>sa_cache := (sa_cache c)[s := ws]\<rparr>) \<longleftrightarrow>
      a \<in> cached c - set (sa_cache c ! s) \<union> set ws"
    using assms(4) own by (auto simp: cached_nth nth_list_update) metis
qed

lemma sub_cached: "s < length (sa_cache c) \<Longrightarrow> set (sa_cache c ! s) \<subseteq> cached c"
  by (auto simp: cached_nth)

section \<open>The operations\<close>

definition touch_set :: "u64 \<Rightarrow> u64 list \<Rightarrow> u64 list" where
  "touch_set a ws = a # remove1 a ws"

lemma Access_eq:
  assumes "cache_ok A" and "cache_inv A c"
  shows "Access A c a =
    (if a \<in> cached c
     then Inr (True, c\<lparr>sa_cache := (sa_cache c)[set_of A a := touch_set a (sa_cache c ! set_of A a)]\<rparr>)
     else Inr (False, c))"
  using assms
  by (simp add: Access_def FindSet_ok FindWay_def FindWay_from_iff cached_iff erase_FindWay touch_set_def)

definition evict :: "ArchInfo \<Rightarrow> u64 list \<Rightarrow> u64 list" where
  "evict A ws = (if int (length ws) = cache_way A then butlast ws else ws)"

lemma Insert_eq:
  assumes "cache_ok A" and "cache_inv A c"
  shows "Insert A c a = Inr (c\<lparr>sa_cache :=
    (sa_cache c)[set_of A a := a # evict A (sa_cache c ! set_of A a)]\<rparr>)"
  using assms by (auto simp: Insert_def FindSet_ok evict_def cache_ok_def)

lemma inv_nth:
  assumes "cache_inv A c" and "s < length (sa_cache c)"
  shows "distinct (sa_cache c ! s)" and "int (length (sa_cache c ! s)) \<le> cache_way A"
    and "a \<in> set (sa_cache c ! s) \<Longrightarrow> set_of A a = s"
  using assms by (auto simp: cache_inv_def)

lemma distinct_evict: "distinct ws \<Longrightarrow> distinct (evict A ws)"
  by (simp add: evict_def distinct_butlast)

lemma set_evict: "set (evict A ws) \<subseteq> set ws"
  by (auto simp: evict_def dest: in_set_butlastD)

lemma length_evict:
  "int (length ws) \<le> cache_way A \<Longrightarrow> 0 < cache_way A \<Longrightarrow> int (length (evict A ws)) < cache_way A"
  by (auto simp: evict_def)

lemma Access_inv:
  assumes "cache_ok A" and "cache_inv A c" and "Access A c a = Inr (h, c')"
  shows "cache_inv A c'" and "cached c' = cached c" and "h = (a \<in> cached c)"
proof -
  let ?s = "set_of A a" and ?ws = "sa_cache c ! set_of A a"
  have own: "\<forall>x \<in> set (touch_set a ?ws). set_of A x = ?s"
    using inv_nth(3) [OF assms(2)] assms(1,2) set_remove1_subset [of a ?ws]
    by (auto simp: touch_set_def)
  have hit: "distinct (touch_set a ?ws)" "length (touch_set a ?ws) = length ?ws"
    "set (touch_set a ?ws) = set ?ws" if "a \<in> cached c"
    using that inv_nth(1) [OF assms(2), of ?s] assms(1,2) length_pos_if_in_set [of a ?ws]
    by (auto simp: cached_iff [OF assms(1,2)] touch_set_def length_remove1)
  show "cache_inv A c'"
  proof (cases "a \<in> cached c")
    case True
    have "cache_inv A (c\<lparr>sa_cache := (sa_cache c)[?s := touch_set a ?ws]\<rparr>)"
      by (rule cache_inv_upd [OF assms(2) set_of_in [OF assms(1,2)] hit(1) [OF True] _ own])
        (simp add: hit(2) [OF True] inv_nth(2) [OF assms(2) set_of_in [OF assms(1,2)]])
    with True assms show ?thesis by (simp add: Access_eq)
  next
    case False
    then show ?thesis using assms by (simp add: Access_eq)
  qed
  show "cached c' = cached c"
  proof (cases "a \<in> cached c")
    case True
    have "cached c' = cached c - set ?ws \<union> set ?ws"
      using assms cached_upd [OF assms(1,2) own set_of_in [OF assms(1,2)]]
      by (simp only: Access_eq True hit(3) [OF True] if_True) simp
    then show ?thesis using sub_cached [of ?s c] assms(1,2) by auto
  next
    case False
    then show ?thesis using assms by (simp add: Access_eq)
  qed
  show "h = (a \<in> cached c)" using assms by (auto simp: Access_eq split: if_splits)
qed

lemma Insert_inv:
  assumes "cache_ok A" and "cache_inv A c" and "a \<notin> cached c" and "Insert A c a = Inr c'"
  shows "cache_inv A c'" and "a \<in> cached c'" and "cached c' \<subseteq> insert a (cached c)"
    and "cached c' = insert a (cached c - (set (sa_cache c ! set_of A a) -
           set (evict A (sa_cache c ! set_of A a))))"
proof -
  let ?s = "set_of A a" and ?ws = "sa_cache c ! set_of A a"
  have c': "c' = c\<lparr>sa_cache := (sa_cache c)[?s := a # evict A ?ws]\<rparr>"
    using assms by (simp add: Insert_eq)
  have own: "\<forall>x \<in> set (a # evict A ?ws). set_of A x = ?s"
    using inv_nth(3) [OF assms(2)] set_evict [of A ?ws] assms(1,2) by auto
  have d: "distinct (a # evict A ?ws)"
    using assms set_evict [of A ?ws] inv_nth(1) [OF assms(2), of ?s]
    by (auto simp: cached_iff distinct_evict)
  have l: "int (length (a # evict A ?ws)) \<le> cache_way A"
    using length_evict [of ?ws A] inv_nth(2) [OF assms(2), of ?s] assms(1,2)
    by (auto simp: cache_ok_def)
  show "cache_inv A c'"
    unfolding c' using cache_inv_upd [OF assms(2) _ d l own] assms(1,2) by simp
  have eq: "cached c' = cached c - set ?ws \<union> set (a # evict A ?ws)"
    unfolding c' using cached_upd [OF assms(1,2) own] assms(1,2) by simp
  then show "a \<in> cached c'" by simp
  show "cached c' \<subseteq> insert a (cached c)"
    using eq set_evict [of A ?ws] sub_cached [of ?s c] assms(1,2) by auto
  show "cached c' = insert a (cached c - (set ?ws - set (evict A ?ws)))"
    using eq set_evict [of A ?ws] sub_cached [of ?s c] assms(1,2) by auto
qed

section \<open>Least-recently-used replacement\<close>

text \<open>
  The reference definition: the recency list of a history of uses (newest first), each address at
  its latest use. A cache set holds the first \<open>cache_way\<close> addresses of the recency list of the uses
  that fall into it.
\<close>

fun recency :: "u64 list \<Rightarrow> u64 list" where
  "recency [] = []"
| "recency (a # h) = a # removeAll a (recency h)"

definition set_hist :: "ArchInfo \<Rightarrow> nat \<Rightarrow> u64 list \<Rightarrow> u64 list" where
  "set_hist A s h = recency (filter (\<lambda>a. set_of A a = s) h)"

text \<open>A use of a line: a hit by \<open>Access\<close>, or the \<open>Insert\<close> of a line that missed.\<close>

definition use_line :: "ArchInfo \<Rightarrow> cache \<Rightarrow> u64 \<Rightarrow> cache res" where
  "use_line A c a = res_bind (Access A c a) (\<lambda>(hit, c'). if hit then Inr c' else Insert A c' a)"

lemma distinct_recency: "distinct (recency h)"
  by (induction h) (auto simp: distinct_removeAll)

lemma removeAll_eq_remove1: "distinct xs \<Longrightarrow> removeAll a xs = remove1 a xs"
  by (simp add: distinct_remove1_removeAll)

lemma take_remove1_in:
  "a \<in> set (take n xs) \<Longrightarrow> take (n - 1) (remove1 a xs) = remove1 a (take n xs)"
proof (induction xs arbitrary: n)
  case Nil
  then show ?case by simp
next
  case (Cons x xs)
  then obtain m where n: "n = Suc m" by (cases n) auto
  show ?case
  proof (cases "x = a")
    case True
    with n show ?thesis by simp
  next
    case False
    with Cons.prems n have in_m: "a \<in> set (take m xs)" by auto
    then obtain k where "m = Suc k" by (cases m) auto
    with Cons.IH [OF in_m] False n show ?thesis by simp
  qed
qed

lemma take_remove1_notin: "a \<notin> set (take m xs) \<Longrightarrow> take m (remove1 a xs) = take m xs"
proof (induction xs arbitrary: m)
  case Nil
  then show ?case by simp
next
  case (Cons x xs)
  then show ?case by (cases m) auto
qed

lemma set_hist_Cons:
  "set_hist A s (a # h) =
     (if set_of A a = s then a # remove1 a (set_hist A s h) else set_hist A s h)"
  by (simp add: set_hist_def removeAll_eq_remove1 distinct_recency)

definition lru_state :: "ArchInfo \<Rightarrow> u64 list \<Rightarrow> cache \<Rightarrow> bool" where
  "lru_state A h c \<longleftrightarrow> (\<forall>s < nat (cache_set A).
     sa_cache c ! s = take (nat (cache_way A)) (set_hist A s h))"

lemma use_line_step:
  assumes ok: "cache_ok A" and inv: "cache_inv A c" and lru: "lru_state A h c"
  shows "\<exists>c'. use_line A c a = Inr c' \<and> cache_inv A c' \<and> lru_state A (a # h) c'"
proof -
  define s where "s = set_of A a"
  define n where "n = nat (cache_way A)"
  have len: "length (sa_cache c) = nat (cache_set A)" using inv by (simp add: cache_inv_def)
  have s: "s < nat (cache_set A)" using set_of_less [OF ok] by (simp add: s_def)
  have n: "0 < n" using ok by (simp add: n_def cache_ok_def)
  have ws: "sa_cache c ! s = take n (set_hist A s h)" using lru s by (simp add: lru_state_def n_def)
  have upd: "lru_state A (a # h) (c\<lparr>sa_cache := (sa_cache c)[s := take n (a # remove1 a (set_hist A s h))]\<rparr>)"
    using lru len by (auto simp: lru_state_def nth_list_update set_hist_Cons s_def n_def)
  show ?thesis
  proof (cases "a \<in> cached c")
    case True
    then have "a \<in> set (take n (set_hist A s h))"
      using cached_iff [OF ok inv] ws by (simp add: s_def)
    then have "touch_set a (sa_cache c ! s) = take n (a # remove1 a (set_hist A s h))"
      using ws n by (cases n) (simp_all add: touch_set_def take_remove1_in [symmetric])
    then have "Access A c a = Inr (True, c\<lparr>sa_cache := (sa_cache c)[s := take n (a # remove1 a (set_hist A s h))]\<rparr>)"
      using True by (simp add: Access_eq [OF ok inv] s_def)
    then show ?thesis using upd Access_inv(1) [OF ok inv] by (auto simp: use_line_def)
  next
    case False
    then have out: "a \<notin> set (take n (set_hist A s h))"
      using cached_iff [OF ok inv] ws by (simp add: s_def)
    then have rm: "take (n - 1) (remove1 a (set_hist A s h)) = take (n - 1) (set_hist A s h)"
      by (intro take_remove1_notin) (meson diff_le_self set_take_subset_set_take subsetD)
    have "evict A (sa_cache c ! s) = take (n - 1) (set_hist A s h)"
    proof (cases "int (length (sa_cache c ! s)) = cache_way A")
      case True
      then have "length (take n (set_hist A s h)) = n" using ws by (simp add: n_def)
      then show ?thesis
        using True ws by (simp add: evict_def butlast_conv_take min_def split: if_splits)
    next
      case False
      then have "length (set_hist A s h) < n" using ws ok by (auto simp: n_def cache_ok_def)
      with False show ?thesis using ws by (simp add: evict_def)
    qed
    then have "a # evict A (sa_cache c ! s) = take n (a # remove1 a (set_hist A s h))"
      using rm n by (cases n) auto
    then have "Insert A c a = Inr (c\<lparr>sa_cache := (sa_cache c)[s := take n (a # remove1 a (set_hist A s h))]\<rparr>)"
      by (simp add: Insert_eq [OF ok inv] s_def)
    moreover have "Access A c a = Inr (False, c)" using False by (simp add: Access_eq [OF ok inv])
    ultimately show ?thesis using upd Insert_inv(1) [OF ok inv False] by (auto simp: use_line_def)
  qed
qed

lemma lru_state_new: "lru_state A [] (Cache_new A)"
  by (simp add: lru_state_def Cache_new_def set_hist_def)

lemma uses_run:
  assumes "cache_ok A" and "cache_inv A c" and "lru_state A h c"
  shows "\<exists>c'. res_fold (\<lambda>a c. use_line A c a) as c = Inr c' \<and> cache_inv A c' \<and> lru_state A (rev as @ h) c'"
  using assms(2,3)
proof (induction as arbitrary: c h)
  case Nil
  then show ?case by simp
next
  case (Cons a as)
  from use_line_step [OF assms(1) Cons.prems] obtain c1
    where "use_line A c a = Inr c1" "cache_inv A c1" "lru_state A (a # h) c1" by auto
  with Cons.IH [of c1 "a # h"] show ?case by auto
qed

text \<open>
  C13. LRU replacement. Starting from the empty cache, any sequence of line uses (hits, and inserts
  after a miss) runs without error, and afterwards every set holds exactly the \<open>cache_way\<close> most
  recently used distinct lines that map to it, most recent first: \<open>Access\<close> and \<open>Insert\<close> implement
  least-recently-used replacement per set.
\<close>

theorem cache_lru_refinement:
  assumes "cache_ok A"
  shows "\<exists>c. res_fold (\<lambda>a c. use_line A c a) as (Cache_new A) = Inr c \<and>
    (\<forall>s < nat (cache_set A). sa_cache c ! s = take (nat (cache_way A)) (set_hist A s (rev as)))"
  using uses_run [OF assms Cache_new_inv [OF assms] lru_state_new, of as]
  by (auto simp: lru_state_def)

theorem cache_lru_refinement_witness:
  "cache_ok arch_small \<and>
   (\<exists>c. res_fold (\<lambda>a c. use_line arch_small c a) [0, 128, 0, 256, 64] (Cache_new arch_small) = Inr c \<and>
    (\<forall>s < nat (cache_set arch_small). sa_cache c ! s =
        take (nat (cache_way arch_small)) (set_hist arch_small s (rev [0, 128, 0, 256, 64]))))"
proof -
  have ok: "cache_ok arch_small" by (simp add: cache_ok_def arch_small_def)
  show ?thesis using ok cache_lru_refinement [OF ok, of "[0, 128, 0, 256, 64]"] by blast
qed

section \<open>The contract of the cache\<close>

text \<open>
  What the feature reader relies on: a lookup answers membership and changes no membership, an
  insert of an absent line makes it present and adds no other line. \<open>insert_all\<close> is the reader's
  receive loop: distinct absent lines can all be inserted.
\<close>

locale line_cache =
  fixes access :: "'c \<Rightarrow> u64 \<Rightarrow> (bool \<times> 'c) res"
    and insert_line :: "'c \<Rightarrow> u64 \<Rightarrow> 'c res"
    and lines :: "'c \<Rightarrow> u64 set"
    and inv :: "'c \<Rightarrow> bool"
  assumes access_spec: "inv c \<Longrightarrow>
      \<exists>c'. access c a = Inr (a \<in> lines c, c') \<and> inv c' \<and> lines c' = lines c"
    and insert_spec: "inv c \<Longrightarrow> a \<notin> lines c \<Longrightarrow>
      \<exists>c'. insert_line c a = Inr c' \<and> inv c' \<and> a \<in> lines c' \<and> lines c' \<subseteq> insert a (lines c)"
begin

lemma access_twice:
  assumes "inv c" and "access c a = Inr (h, c1)"
  shows "\<exists>c2. access c1 a = Inr (h, c2) \<and> inv c2 \<and> lines c2 = lines c"
  using access_spec [OF assms(1), of a] assms(2) access_spec [of c1 a] by auto

lemma insert_all:
  assumes "inv c" and "distinct as" and "set as \<inter> lines c = {}"
  shows "\<exists>c'. res_fold (\<lambda>a c. insert_line c a) as c = Inr c' \<and> inv c' \<and> lines c' \<subseteq> set as \<union> lines c"
  using assms
proof (induction as arbitrary: c)
  case Nil
  then show ?case by simp
next
  case (Cons a as)
  then obtain c1 where c1: "insert_line c a = Inr c1" "inv c1" "lines c1 \<subseteq> insert a (lines c)"
    using insert_spec [of c a] by auto
  with Cons.prems have "distinct as" "set as \<inter> lines c1 = {}" by auto
  with Cons.IH [OF c1(2)] c1 show ?case by fastforce
qed

end

interpretation lru: line_cache "Access A" "Insert A" cached "\<lambda>c. cache_ok A \<and> cache_inv A c" for A
proof unfold_locales
  fix c a
  assume inv: "cache_ok A \<and> cache_inv A c"
  then obtain h c' where "Access A c a = Inr (h, c')"
    using Access_eq [of A c a] by (cases "a \<in> cached c") auto
  with inv show "\<exists>c'. Access A c a = Inr (a \<in> cached c, c') \<and> (cache_ok A \<and> cache_inv A c') \<and> cached c' = cached c"
    using Access_inv [of A c a h c'] by auto
next
  fix c a
  assume inv: "cache_ok A \<and> cache_inv A c" and a: "a \<notin> cached c"
  then obtain c' where "Insert A c a = Inr c'" by (auto simp: Insert_eq)
  with inv a show "\<exists>c'. Insert A c a = Inr c' \<and> (cache_ok A \<and> cache_inv A c') \<and> a \<in> cached c' \<and> cached c' \<subseteq> insert a (cached c)"
    using Insert_inv [of A c a c'] by auto
qed

end
