(* ===== verification/Feature_Reader.thy ===== *)
theory Feature_Reader
  imports Cache Graph_Reader
begin

text \<open>
  The feature reader shared by all engines, \<open>src/src/f_reader.cc\<close>: per engine it keeps a queue of
  edges, the edge whose feature lines it is fetching and a queue of lines to be passed to the SIMD
  core; it owns the set of lines requested from memory and not yet received. The theory models every
  operation in its four modes and shows which signals the SIMD core gets for a sequence of edges, that
  a line is never requested while it is cached or outstanding, and that no operation fails.
\<close>

section \<open>The model\<close>

record F_STAT =
  f_is_last :: bool
  f_dst :: int
  f_v_fold :: int
  f_col :: int

record FR_STAT =
  cur_f :: F_STAT
  pq_read_need :: bool
  on_off :: bool

record feature_reader =
  fr_mode :: F_MODE
  frs :: "FR_STAT list"
  pq :: "EdgeInfo list list"
  requested :: "u64 set"
  fq :: "u64 list list"
  f_pass_end :: bool
  f_pass_cnt :: int
  p_get_cnt :: int
  f_pass :: int

definition FeatureReader_new :: "sim_env \<Rightarrow> feature_reader" where
  "FeatureReader_new G = \<lparr>fr_mode = X_CMP,
     frs = replicate (engines G) \<lparr>cur_f = \<lparr>f_is_last = False, f_dst = -1, f_v_fold = 0, f_col = 0\<rparr>,
       pq_read_need = True, on_off = False\<rparr>,
     pq = replicate (engines G) [], requested = {}, fq = replicate (engines G) [],
     f_pass_end = False, f_pass_cnt = 0, p_get_cnt = 0, f_pass = 0\<rparr>"

definition ModeChange :: "feature_reader \<Rightarrow> F_MODE \<Rightarrow> feature_reader" where
  "ModeChange fr md = fr\<lparr>fr_mode := md\<rparr>"

definition EnterFtoList :: "feature_reader \<Rightarrow> EdgeInfo \<Rightarrow> feature_reader res" where
  "EnterFtoList fr ei = res_bind (vpush (pq fr) (ei_id ei) ei) (\<lambda>q. Inr (fr\<lparr>pq := q\<rparr>))"

definition set_stat :: "feature_reader \<Rightarrow> nat \<Rightarrow> FR_STAT \<Rightarrow> feature_reader" where
  "set_stat fr i s = fr\<lparr>frs := (frs fr)[i := s]\<rparr>"

definition push_fq :: "feature_reader \<Rightarrow> nat \<Rightarrow> u64 \<Rightarrow> feature_reader res" where
  "push_fq fr i a = res_bind (vpush (fq fr) i a) (\<lambda>q. Inr (fr\<lparr>fq := q\<rparr>))"

definition ConsumePendingQ :: "feature_reader \<Rightarrow> nat \<Rightarrow> feature_reader res" where
  "ConsumePendingQ fr i =
     res_bind (vget (pq fr) i) (\<lambda>q. case q of [] \<Rightarrow> Inl EmptyPop | ei # es \<Rightarrow>
     res_bind (vget (frs fr) i) (\<lambda>s.
     Inr ((set_stat fr i (s\<lparr>cur_f := \<lparr>f_is_last = is_last ei, f_dst = dst ei, f_v_fold = v_fold ei,
            f_col = 0\<rparr>, pq_read_need := False\<rparr>))
          \<lparr>pq := (pq fr)[i := es], f_pass := f_pass fr + 1\<rparr>)))"

definition ReturnAddress :: "sim_env \<Rightarrow> int \<Rightarrow> int \<Rightarrow> int \<Rightarrow> u64 res" where
  "ReturnAddress G row col fld =
     res_bind (vgeti (x_to_addr G) row) (\<lambda>xs. vgeti xs (fld * urb (arch_info G) + col))"

text \<open>Looking a line up, and requesting it when it is neither cached nor outstanding.\<close>

definition fetch_line ::
  "sim_env \<Rightarrow> u64 \<Rightarrow> feature_reader \<times> cache \<times> 'd memory \<Rightarrow>
   (bool \<times> feature_reader \<times> cache \<times> 'd memory) res" where
  "fetch_line G a = (\<lambda>(fr, c, m).
     res_bind (Access (arch_info G) c a) (\<lambda>(hit, c').
     if \<not> hit \<and> a \<notin> requested fr
     then Inr (hit, fr\<lparr>requested := insert a (requested fr)\<rparr>, c', AddTransaction m (read_tr a))
     else Inr (hit, fr, c', m)))"

text \<open>The edge is done: ask for the next one, and mark the end of a row.\<close>

definition end_edge :: "feature_reader \<Rightarrow> nat \<Rightarrow> feature_reader res" where
  "end_edge fr i = res_bind (vget (frs fr) i) (\<lambda>s.
     let fr1 = set_stat fr i (s\<lparr>pq_read_need := True\<rparr>)
     in if f_is_last (cur_f s) then push_fq fr1 i 0 else Inr fr1)"

definition set_col :: "feature_reader \<Rightarrow> nat \<Rightarrow> int \<Rightarrow> feature_reader res" where
  "set_col fr i v = res_bind (vget (frs fr) i) (\<lambda>s.
     Inr (set_stat fr i (s\<lparr>cur_f := (cur_f s)\<lparr>f_col := v\<rparr>\<rparr>)))"

definition last_col :: "sim_env \<Rightarrow> F_STAT \<Rightarrow> bool" where
  "last_col G f \<longleftrightarrow> f_v_fold f * urb (arch_info G) + f_col f = total_urb (data_info G) - 1 \<or>
     f_col f = urb (arch_info G) - 1"

definition x_cmp_next :: "sim_env \<Rightarrow> nat \<Rightarrow> F_STAT \<Rightarrow> feature_reader \<Rightarrow> feature_reader res" where
  "x_cmp_next G i f fr =
     (if \<not> last_col G f then
        res_bind (set_col fr i (f_col f + 1)) (\<lambda>fr1.
        res_bind (ReturnAddress G (f_dst f) (f_col f + 1) (f_v_fold f)) (\<lambda>next_f_addr.
        if next_f_addr = 0 then
          res_bind (set_col fr1 i (urb (arch_info G) - 1)) (\<lambda>fr2. end_edge fr2 i)
        else Inr fr1))
      else end_edge fr i)"

definition read_x_cmp ::
  "sim_env \<Rightarrow> nat \<Rightarrow> feature_reader \<times> cache \<times> 'd memory \<Rightarrow> (feature_reader \<times> cache \<times> 'd memory) res" where
  "read_x_cmp G i = (\<lambda>(fr, c, m).
     res_bind (vget (frs fr) i) (\<lambda>s. let f = cur_f s in
     res_bind (ReturnAddress G (f_dst f) (f_col f) (f_v_fold f)) (\<lambda>f_addr.
     res_bind (fetch_line G f_addr (fr, c, m)) (\<lambda>(_, fr1, c1, m1).
     res_bind (Access (arch_info G) c1 f_addr) (\<lambda>(hit, c2).
     res_bind (push_fq fr1 i (if hit then 1 else f_addr)) (\<lambda>fr2.
     res_bind (x_cmp_next G i f fr2) (\<lambda>fr3. Inr (fr3, c2, m1))))))))"

definition read_mat ::
  "sim_env \<Rightarrow> nat \<Rightarrow> feature_reader \<times> cache \<times> 'd memory \<Rightarrow> (feature_reader \<times> cache \<times> 'd memory) res" where
  "read_mat G i = (\<lambda>(fr, c, m).
     res_bind (vget (frs fr) i) (\<lambda>s. let f = cur_f s in
     res_bind (ReturnAddress G (f_dst f) (f_col f) (f_v_fold f)) (\<lambda>f_addr.
     res_bind (fetch_line G f_addr (fr, c, m)) (\<lambda>(_, fr1, c1, m1).
     res_bind (push_fq fr1 i f_addr) (\<lambda>fr2.
     if \<not> last_col G f then res_bind (set_col fr2 i (f_col f + 1)) (\<lambda>fr3. Inr (fr3, c1, m1))
     else res_bind (end_edge fr2 i) (\<lambda>fr3. Inr (fr3, c1, m1)))))))"

text \<open>
  \<open>CSR\<close> and \<open>X_FULL_CMP\<close> have the same code: line 0 of a vertex is its header, which must be
  cached before the data lines are read.
\<close>

definition read_csr_line ::
  "sim_env \<Rightarrow> nat \<Rightarrow> feature_reader \<times> cache \<times> 'd memory \<Rightarrow> (feature_reader \<times> cache \<times> 'd memory) res" where
  "read_csr_line G i = (\<lambda>(fr, c, m).
     res_bind (vget (frs fr) i) (\<lambda>s. let f = cur_f s in
     res_bind (vgeti (x_to_addr G) (f_dst f)) (\<lambda>xs.
     res_bind (vgeti xs (f_col f)) (\<lambda>f_addr.
     res_bind (fetch_line G f_addr (fr, c, m)) (\<lambda>(_, fr1, c1, m1).
     res_bind (push_fq fr1 i f_addr) (\<lambda>fr2.
     if f_col f \<noteq> int (length xs) - 1
     then res_bind (set_col fr2 i (f_col f + 1)) (\<lambda>fr3. Inr (fr3, c1, m1))
     else res_bind (end_edge fr2 i) (\<lambda>fr3. Inr (fr3, c1, m1))))))))"

definition read_csr ::
  "sim_env \<Rightarrow> nat \<Rightarrow> feature_reader \<times> cache \<times> 'd memory \<Rightarrow> (feature_reader \<times> cache \<times> 'd memory) res" where
  "read_csr G i = (\<lambda>(fr, c, m).
     res_bind (vget (frs fr) i) (\<lambda>s. let f = cur_f s in
     if f_col f = 0 then
       res_bind (vgeti (x_to_addr G) (f_dst f)) (\<lambda>xs.
       res_bind (vgeti xs 0) (\<lambda>f_addr.
       res_bind (fetch_line G f_addr (fr, c, m)) (\<lambda>(hit, fr1, c1, m1).
       if \<not> hit then Inr (fr1, c1, m1)
       else res_bind (set_col fr1 i (f_col f + 1)) (\<lambda>fr2. read_csr_line G i (fr2, c1, m1)))))
     else read_csr_line G i (fr, c, m)))"

definition read_x_full_cmp ::
  "sim_env \<Rightarrow> nat \<Rightarrow> feature_reader \<times> cache \<times> 'd memory \<Rightarrow> (feature_reader \<times> cache \<times> 'd memory) res" where
  "read_x_full_cmp = read_csr"

fun read_mode ::
  "F_MODE \<Rightarrow> sim_env \<Rightarrow> nat \<Rightarrow> feature_reader \<times> cache \<times> 'd memory \<Rightarrow>
   (feature_reader \<times> cache \<times> 'd memory) res" where
  "read_mode X_CMP = read_x_cmp"
| "read_mode MAT = read_mat"
| "read_mode CSR = read_csr"
| "read_mode X_FULL_CMP = read_x_full_cmp"

definition ReadNext ::
  "sim_env \<Rightarrow> nat \<Rightarrow> feature_reader \<times> cache \<times> 'd memory \<Rightarrow> (feature_reader \<times> cache \<times> 'd memory) res" where
  "ReadNext G i = (\<lambda>(fr, c, m).
     res_bind (vget (fq fr) i) (\<lambda>q.
     if 256 \<le> length q \<or> \<not> WillAcceptTransaction m then Inr (fr, c, m)
     else res_bind (vget (frs fr) i) (\<lambda>s.
          res_bind (vget (pq fr) i) (\<lambda>p.
          if pq_read_need s \<and> p \<noteq> [] then
            res_bind (ConsumePendingQ fr i) (\<lambda>fr1. read_mode (fr_mode fr) G i (fr1, c, m))
          else if pq_read_need s then Inr (fr, c, m)
          else read_mode (fr_mode fr) G i (fr, c, m)))))"

text \<open>
  The loop of \<open>FeatureReceive\<close> takes lines from the queue of received features until \<open>GetFeature\<close>
  answers with the largest address: the queue is empty, or a line of that address was received.
\<close>

fun receive_features :: "sim_env \<Rightarrow> u64 list \<Rightarrow> feature_reader \<times> cache \<Rightarrow>
    (u64 list \<times> feature_reader \<times> cache) res" where
  "receive_features G [] s = Inr ([], s)"
| "receive_features G (a # as) (fr, c) =
     (if a = - 1 then Inr (as, fr, c)
      else res_bind (Insert (arch_info G) c a) (\<lambda>c'.
           receive_features G as
             (fr\<lparr>requested := requested fr - {a}, f_pass_cnt := f_pass_cnt fr + 1\<rparr>, c')))"

definition FeatureReceive ::
  "sim_env \<Rightarrow> feature_reader \<times> cache \<times> 'd memory \<Rightarrow> (feature_reader \<times> cache \<times> 'd memory) res" where
  "FeatureReceive G = (\<lambda>(fr, c, m).
     res_bind (receive_features G (mem_fq m) (fr, c)) (\<lambda>(as, fr', c').
     Inr (fr', c', m\<lparr>mem_fq := as\<rparr>)))"

text \<open>Removing the line at the front of the queue, and the end marker behind it.\<close>

definition pop_line :: "feature_reader \<Rightarrow> nat \<Rightarrow> u64 list \<Rightarrow> int \<times> feature_reader" where
  "pop_line fr i rest = (case rest of
       [] \<Rightarrow> (1, fr\<lparr>fq := (fq fr)[i := []]\<rparr>)
     | t # rest' \<Rightarrow> if t = 0 then (0, fr\<lparr>fq := (fq fr)[i := rest']\<rparr>)
                     else (1, fr\<lparr>fq := (fq fr)[i := rest]\<rparr>))"

definition PassFtoSIMD ::
  "sim_env \<Rightarrow> nat \<Rightarrow> feature_reader \<times> cache \<times> 'd memory \<Rightarrow>
   (int \<times> feature_reader \<times> cache \<times> 'd memory) res" where
  "PassFtoSIMD G i = (\<lambda>(fr, c, m).
     res_bind (vget (fq fr) i) (\<lambda>q. case q of [] \<Rightarrow> Inr (-1, fr, c, m)
     | nxt # rest \<Rightarrow>
         res_bind (if nxt = 1 then Inr (True, fr, c, m) else fetch_line G nxt (fr, c, m))
           (\<lambda>(hit, fr1, c1, m1).
         if hit then let (p, fr2) = pop_line fr1 i rest in Inr (p, fr2, c1, m1)
         else Inr (-1, fr1, c1, m1))))"

section \<open>The signals of an edge\<close>

text \<open>
  The lines read for an edge to vertex \<open>d\<close> in fold \<open>v\<close>, and the signals the SIMD core gets for it:
  one per line, the last one 0 when the edge ends a row and 1 otherwise.
\<close>

definition fold_lines :: "sim_env \<Rightarrow> int \<Rightarrow> int \<Rightarrow> u64 list" where
  "fold_lines G d v = take (nat (urb (arch_info G)))
     (drop (nat (v * urb (arch_info G))) (take (nat (total_urb (data_info G))) (x_to_addr G ! nat d)))"

fun edge_lines :: "F_MODE \<Rightarrow> sim_env \<Rightarrow> int \<Rightarrow> int \<Rightarrow> u64 list" where
  "edge_lines MAT G d v = fold_lines G d v"
| "edge_lines X_CMP G d v =
     (case fold_lines G d v of [] \<Rightarrow> [] | a # as \<Rightarrow> a # takeWhile (\<lambda>x. x \<noteq> 0) as)"
| "edge_lines CSR G d v = drop 1 (x_to_addr G ! nat d)"
| "edge_lines X_FULL_CMP G d v = drop 1 (x_to_addr G ! nat d)"

definition signals :: "u64 list \<Rightarrow> bool \<Rightarrow> int list" where
  "signals ls lst = replicate (length ls - 1) 1 @ [if lst then 0 else 1]"

definition edge_signals :: "F_MODE \<Rightarrow> sim_env \<Rightarrow> EdgeInfo \<Rightarrow> int list" where
  "edge_signals md G ei = signals (edge_lines md G (dst ei) (v_fold ei)) (is_last ei)"

text \<open>What an edge needs of the address table.\<close>

definition lines_ok :: "F_MODE \<Rightarrow> sim_env \<Rightarrow> int \<Rightarrow> int \<Rightarrow> bool" where
  "lines_ok md G d v \<longleftrightarrow> 0 \<le> d \<and> nat d < length (x_to_addr G) \<and>
     (if md = MAT \<or> md = X_CMP
      then 0 \<le> v \<and> 0 < urb (arch_info G) \<and> v * urb (arch_info G) < total_urb (data_info G) \<and>
           nat (total_urb (data_info G)) \<le> length (x_to_addr G ! nat d)
      else 2 \<le> length (x_to_addr G ! nat d) \<and> x_to_addr G ! nat d ! 0 \<noteq> 0) \<and>
     0 \<notin> set (edge_lines md G d v)"

text \<open>The signals encoded in a queue of lines.\<close>

fun queued :: "u64 list \<Rightarrow> int list" where
  "queued [] = []"
| "queued [t] = [1]"
| "queued (t # u # ts) = (if u = 0 then 0 # queued ts else 1 # queued (u # ts))"

lemma queued_push: "a \<noteq> 0 \<Longrightarrow> queued (q @ [a]) = queued q @ [1]"
  by (induction q rule: queued.induct) auto

lemma queued_push_end: "a \<noteq> 0 \<Longrightarrow> queued (q @ [a, 0]) = queued q @ [0]"
  by (induction q rule: queued.induct) auto

text \<open>The lines of the current edge still to be read, and their signals.\<close>

definition col_base :: "F_MODE \<Rightarrow> nat" where
  "col_base md = (if md = MAT \<or> md = X_CMP then 0 else 1)"

definition cur_lines :: "F_MODE \<Rightarrow> sim_env \<Rightarrow> F_STAT \<Rightarrow> u64 list" where
  "cur_lines md G f = drop (nat (f_col f) - col_base md) (edge_lines md G (f_dst f) (f_v_fold f))"

definition stat_signals :: "F_MODE \<Rightarrow> sim_env \<Rightarrow> FR_STAT \<Rightarrow> int list" where
  "stat_signals md G s =
     (if pq_read_need s then [] else signals (cur_lines md G (cur_f s)) (f_is_last (cur_f s)))"

definition stat_ok :: "F_MODE \<Rightarrow> sim_env \<Rightarrow> FR_STAT \<Rightarrow> bool" where
  "stat_ok md G s \<longleftrightarrow> pq_read_need s \<or> lines_ok md G (f_dst (cur_f s)) (f_v_fold (cur_f s)) \<and>
     0 \<le> f_col (cur_f s) \<and> cur_lines md G (cur_f s) \<noteq> []"

lemma fold_lines_nth:
  assumes "lines_ok md G d v" and "md = MAT \<or> md = X_CMP"
  shows "length (fold_lines G d v) =
      nat (min (urb (arch_info G)) (total_urb (data_info G) - v * urb (arch_info G)))"
    and "k < length (fold_lines G d v) \<Longrightarrow>
      ReturnAddress G d (int k) v = Inr (fold_lines G d v ! k)"
    and "fold_lines G d v \<noteq> []"
proof -
  let ?u = "urb (arch_info G)" and ?t = "total_urb (data_info G)" and ?x = "x_to_addr G ! nat d"
  have a: "0 \<le> d" "nat d < length (x_to_addr G)" "0 \<le> v" "0 < ?u" "v * ?u < ?t" "nat ?t \<le> length ?x"
    using assms by (auto simp: lines_ok_def split: if_splits)
  have vu: "0 \<le> v * ?u" using a by simp
  show l: "length (fold_lines G d v) = nat (min ?u (?t - v * ?u))"
  proof -
    have "nat ?t - nat (v * ?u) = nat (?t - v * ?u)" using vu by (simp add: nat_diff_distrib')
    moreover have "min (nat p) (nat q) = nat (min q p)" for p q
      by (cases "p \<le> q") (simp_all add: min_def nat_mono)
    ultimately show ?thesis using a(6) by (simp add: fold_lines_def min.absorb2)
  qed
  have "0 < min ?u (?t - v * ?u)" using a by simp
  then have "0 < nat (min ?u (?t - v * ?u))" by simp
  then show "fold_lines G d v \<noteq> []" unfolding l [symmetric] by blast
  show "ReturnAddress G d (int k) v = Inr (fold_lines G d v ! k)" if k: "k < length (fold_lines G d v)"
  proof -
    have "int k < ?u" "v * ?u + int k < ?t" using k vu unfolding l by (auto simp: min_def split: if_splits)
    moreover have "nat (v * ?u + int k) = nat (v * ?u) + k" using vu by (simp add: nat_add_distrib)
    moreover from calculation have "nat (v * ?u) + k < nat ?t" using vu by linarith
    ultimately show ?thesis using a vu
      by (auto simp: ReturnAddress_def fold_lines_def min_def nat_less_iff)
  qed
qed

section \<open>One read\<close>

text \<open>
  What a read does to the queues of its engine, in every mode: nothing (the header line is awaited),
  one line queued, or the last line of the edge queued, with the end marker after it when the edge
  ends a row.
\<close>

inductive read_push :: "F_MODE \<Rightarrow> sim_env \<Rightarrow> nat \<Rightarrow> feature_reader \<Rightarrow> feature_reader \<Rightarrow> bool" for md G i fr where
  more: "t \<noteq> 0 \<Longrightarrow> t = 1 \<or> t = a \<Longrightarrow> s = frs fr ! i \<Longrightarrow> 0 \<le> nc \<Longrightarrow>
    cur_lines md G (cur_f s) = a # cur_lines md G ((cur_f s)\<lparr>f_col := nc\<rparr>) \<Longrightarrow>
    cur_lines md G ((cur_f s)\<lparr>f_col := nc\<rparr>) \<noteq> [] \<Longrightarrow>
    read_push md G i fr (fr\<lparr>requested := R, fq := (fq fr)[i := fq fr ! i @ [t]],
      frs := (frs fr)[i := s\<lparr>cur_f := (cur_f s)\<lparr>f_col := nc\<rparr>\<rparr>]\<rparr>)"
| final: "t \<noteq> 0 \<Longrightarrow> t = 1 \<or> t = a \<Longrightarrow> s = frs fr ! i \<Longrightarrow> cur_lines md G (cur_f s) = [a] \<Longrightarrow>
    read_push md G i fr (fr\<lparr>requested := R,
      fq := (fq fr)[i := fq fr ! i @ t # (if f_is_last (cur_f s) then [0] else [])],
      frs := (frs fr)[i := s\<lparr>cur_f := F, pq_read_need := True\<rparr>]\<rparr>)"

definition read_eff :: "F_MODE \<Rightarrow> sim_env \<Rightarrow> nat \<Rightarrow> feature_reader \<Rightarrow> feature_reader \<Rightarrow> bool" where
  "read_eff md G i fr fr' \<longleftrightarrow> (\<exists>R. fr' = fr\<lparr>requested := R\<rparr>) \<or> read_push md G i fr fr'"

lemma fetch_line_eff:
  "fetch_line G a (fr, c, m) = Inr (h, fr1, c1, m1) \<Longrightarrow> \<exists>R. fr1 = fr\<lparr>requested := R\<rparr>"
  by (rule exI [of _ "requested fr1"]) (auto simp: fetch_line_def split: if_splits prod.splits)

lemma push_fq_eq: "push_fq fr i a = Inr fr' \<longleftrightarrow> i < length (fq fr) \<and> fr' = fr\<lparr>fq := (fq fr)[i := fq fr ! i @ [a]]\<rparr>"
  by (auto simp: push_fq_def vpush_def vget_def vset_def)

lemma set_col_eq: "set_col fr i v = Inr fr' \<longleftrightarrow> i < length (frs fr) \<and>
    fr' = fr\<lparr>frs := (frs fr)[i := (frs fr ! i)\<lparr>cur_f := (cur_f (frs fr ! i))\<lparr>f_col := v\<rparr>\<rparr>]\<rparr>"
  by (auto simp: set_col_def set_stat_def)

lemma end_edge_eq: "end_edge fr i = Inr fr' \<longleftrightarrow> i < length (frs fr) \<and>
    (f_is_last (cur_f (frs fr ! i)) \<longrightarrow> i < length (fq fr)) \<and>
    fr' = fr\<lparr>frs := (frs fr)[i := (frs fr ! i)\<lparr>pq_read_need := True\<rparr>],
       fq := (if f_is_last (cur_f (frs fr ! i)) then (fq fr)[i := fq fr ! i @ [0]] else fq fr)\<rparr>"
  by (auto simp: end_edge_def set_stat_def push_fq_eq Let_def)

lemmas queue_ops = push_fq_eq set_col_eq end_edge_eq

lemma drop_Suc_nth: "k < length xs \<Longrightarrow> drop k xs = xs ! k # drop (Suc k) xs"
  by (simp add: Cons_nth_drop_Suc)

lemma mat_cur:
  assumes "lines_ok MAT G (f_dst f) (f_v_fold f)" and "0 \<le> f_col f" and "cur_lines MAT G f \<noteq> []"
  shows "ReturnAddress G (f_dst f) (f_col f) (f_v_fold f) = Inr (hd (cur_lines MAT G f))"
    and "hd (cur_lines MAT G f) \<noteq> 0"
    and "cur_lines MAT G f = hd (cur_lines MAT G f) # cur_lines MAT G (f\<lparr>f_col := f_col f + 1\<rparr>)"
    and "last_col G f \<longleftrightarrow> cur_lines MAT G (f\<lparr>f_col := f_col f + 1\<rparr>) = []"
proof -
  let ?L = "fold_lines G (f_dst f) (f_v_fold f)" and ?k = "nat (f_col f)"
  note F = fold_lines_nth [OF assms(1), simplified]
  have k: "?k < length ?L" using assms(3) by (simp add: cur_lines_def col_base_def)
  have nk: "nat (f_col f + 1) = Suc ?k" using assms(2) by simp
  have c: "cur_lines MAT G f = ?L ! ?k # drop (Suc ?k) ?L"
    using k by (simp add: cur_lines_def col_base_def drop_Suc_nth)
  show "ReturnAddress G (f_dst f) (f_col f) (f_v_fold f) = Inr (hd (cur_lines MAT G f))"
    using F(2) [OF k] assms(2) c by simp
  have "0 \<notin> set ?L" using assms(1) by (simp add: lines_ok_def)
  then show "hd (cur_lines MAT G f) \<noteq> 0" using c k by (metis list.sel(1) nth_mem)
  show "cur_lines MAT G f = hd (cur_lines MAT G f) # cur_lines MAT G (f\<lparr>f_col := f_col f + 1\<rparr>)"
    using c nk by (simp add: cur_lines_def col_base_def)
  have "last_col G f \<longleftrightarrow> length ?L \<le> Suc ?k"
    using k F(1) assms(2) by (auto simp: last_col_def min_def)
  then show "last_col G f \<longleftrightarrow> cur_lines MAT G (f\<lparr>f_col := f_col f + 1\<rparr>) = []"
    using nk by (simp add: cur_lines_def col_base_def)
qed

lemma read_mat_eff:
  assumes "read_mat G i (fr, c, m) = Inr (fr', c', m')" and "stat_ok MAT G (frs fr ! i)"
    and "\<not> pq_read_need (frs fr ! i)"
  shows "read_push MAT G i fr fr'"
proof -
  let ?f = "cur_f (frs fr ! i)"
  have ok: "lines_ok MAT G (f_dst ?f) (f_v_fold ?f)" "0 \<le> f_col ?f" "cur_lines MAT G ?f \<noteq> []"
    using assms(2,3) by (auto simp: stat_ok_def)
  note M = mat_cur [OF ok]
  from assms(1) M(1) obtain h fr1 c1 m1 fr2 where i: "i < length (frs fr)"
    and f: "fetch_line G (hd (cur_lines MAT G ?f)) (fr, c, m) = Inr (h, fr1, c1, m1)"
    and p: "push_fq fr1 i (hd (cur_lines MAT G ?f)) = Inr fr2"
    and e: "if last_col G ?f then end_edge fr2 i = Inr fr' else set_col fr2 i (f_col ?f + 1) = Inr fr'"
    by (auto simp: read_mat_def Let_def split: if_splits)
  obtain R where R: "fr1 = fr\<lparr>requested := R\<rparr>" using fetch_line_eff [OF f] by blast
  show ?thesis
  proof (cases "last_col G ?f")
    case True
    then have c1: "cur_lines MAT G ?f = [hd (cur_lines MAT G ?f)]" using M(3,4) by simp
    have "fr' = fr\<lparr>requested := R,
      fq := (fq fr)[i := fq fr ! i @ hd (cur_lines MAT G ?f) # (if f_is_last ?f then [0] else [])],
      frs := (frs fr)[i := (frs fr ! i)\<lparr>cur_f := ?f, pq_read_need := True\<rparr>]\<rparr>"
      using True e p R by (auto simp: queue_ops)
    then show ?thesis by (simp only:) (rule read_push.final [OF M(2) disjI2 [OF refl] refl c1])
  next
    case False
    then have "cur_lines MAT G (?f\<lparr>f_col := f_col ?f + 1\<rparr>) \<noteq> []" using M(4) by simp
    moreover have "fr' = fr\<lparr>requested := R, fq := (fq fr)[i := fq fr ! i @ [hd (cur_lines MAT G ?f)]],
      frs := (frs fr)[i := (frs fr ! i)\<lparr>cur_f := ?f\<lparr>f_col := f_col ?f + 1\<rparr>\<rparr>]\<rparr>"
      using False e p R by (auto simp: queue_ops)
    ultimately show ?thesis using read_push.more [OF M(2) disjI2 [OF refl] refl _ M(3), where R = R] ok(2) by simp
  qed
qed

lemma x_cmp_cur:
  assumes "lines_ok X_CMP G (f_dst f) (f_v_fold f)" and "0 \<le> f_col f" and "cur_lines X_CMP G f \<noteq> []"
  shows "ReturnAddress G (f_dst f) (f_col f) (f_v_fold f) = Inr (hd (cur_lines X_CMP G f))"
    and "hd (cur_lines X_CMP G f) \<noteq> 0"
    and "cur_lines X_CMP G f = hd (cur_lines X_CMP G f) # cur_lines X_CMP G (f\<lparr>f_col := f_col f + 1\<rparr>)"
    and "last_col G f \<Longrightarrow> cur_lines X_CMP G (f\<lparr>f_col := f_col f + 1\<rparr>) = []"
    and "\<not> last_col G f \<Longrightarrow> \<exists>n. ReturnAddress G (f_dst f) (f_col f + 1) (f_v_fold f) = Inr n \<and>
           (n = 0 \<longleftrightarrow> cur_lines X_CMP G (f\<lparr>f_col := f_col f + 1\<rparr>) = [])"
proof -
  let ?L = "fold_lines G (f_dst f) (f_v_fold f)" and ?E = "edge_lines X_CMP G (f_dst f) (f_v_fold f)"
    and ?k = "nat (f_col f)"
  note F = fold_lines_nth [OF assms(1), simplified]
  obtain a as where L: "?L = a # as" using F(3) by (cases ?L) auto
  have E: "?E = a # takeWhile (\<lambda>x. x \<noteq> 0) as" by (simp add: L)
  have k: "?k < length ?E" using assms(3) by (simp add: cur_lines_def col_base_def)
  have nk: "nat (f_col f + 1) = Suc ?k" using assms(2) by simp
  have le: "length ?E \<le> length ?L" using L by (simp add: length_takeWhile_le)
  have nth: "?E ! j = ?L ! j" if "j < length ?E" for j
    using that E L by (cases j) (auto simp: takeWhile_nth)
  have c: "cur_lines X_CMP G f = ?E ! ?k # drop (Suc ?k) ?E"
    using k by (simp add: cur_lines_def col_base_def drop_Suc_nth del: edge_lines.simps)
  have c': "cur_lines X_CMP G (f\<lparr>f_col := f_col f + 1\<rparr>) = drop (Suc ?k) ?E"
    using nk by (simp add: cur_lines_def col_base_def del: edge_lines.simps)
  show "ReturnAddress G (f_dst f) (f_col f) (f_v_fold f) = Inr (hd (cur_lines X_CMP G f))"
    using F(2) [of ?k] k le nth [OF k] assms(2) c by (simp del: edge_lines.simps)
  have "0 \<notin> set ?E" using assms(1) by (simp add: lines_ok_def del: edge_lines.simps)
  then show "hd (cur_lines X_CMP G f) \<noteq> 0" using c k by (metis list.sel(1) nth_mem)
  show "cur_lines X_CMP G f = hd (cur_lines X_CMP G f) # cur_lines X_CMP G (f\<lparr>f_col := f_col f + 1\<rparr>)"
    using c c' by simp
  have lc: "last_col G f \<longleftrightarrow> length ?L \<le> Suc ?k"
    using k le F(1) assms(2) by (auto simp: last_col_def min_def simp del: edge_lines.simps)
  then show "last_col G f \<Longrightarrow> cur_lines X_CMP G (f\<lparr>f_col := f_col f + 1\<rparr>) = []"
    using c' le by (simp del: edge_lines.simps)
  show "\<exists>n. ReturnAddress G (f_dst f) (f_col f + 1) (f_v_fold f) = Inr n \<and>
      (n = 0 \<longleftrightarrow> cur_lines X_CMP G (f\<lparr>f_col := f_col f + 1\<rparr>) = [])" if "\<not> last_col G f"
  proof -
    have sk: "Suc ?k < length ?L" using that lc by simp
    then have r: "ReturnAddress G (f_dst f) (f_col f + 1) (f_v_fold f) = Inr (as ! ?k)"
      using F(2) [OF sk] assms(2) L by (simp add: add.commute)
    have "as ! ?k = 0 \<longleftrightarrow> length (takeWhile (\<lambda>x. x \<noteq> 0) as) \<le> ?k"
      using sk k L E nth_length_takeWhile [of "\<lambda>x. x \<noteq> 0" as] nth_mem
      by (metis (mono_tags, lifting) Suc_less_eq length_Cons less_Suc_eq_le not_le order_antisym set_takeWhileD takeWhile_nth)
    with r c' E show ?thesis by simp
  qed
qed

lemma read_x_cmp_eff:
  assumes "read_x_cmp G i (fr, c, m) = Inr (fr', c', m')" and "stat_ok X_CMP G (frs fr ! i)"
    and "\<not> pq_read_need (frs fr ! i)"
  shows "read_push X_CMP G i fr fr'"
proof -
  let ?f = "cur_f (frs fr ! i)"
  have ok: "lines_ok X_CMP G (f_dst ?f) (f_v_fold ?f)" "0 \<le> f_col ?f" "cur_lines X_CMP G ?f \<noteq> []"
    using assms(2,3) by (auto simp: stat_ok_def)
  note M = x_cmp_cur [OF ok]
  define a where "a = hd (cur_lines X_CMP G ?f)"
  let ?last = "cur_lines X_CMP G (?f\<lparr>f_col := f_col ?f + 1\<rparr>) = []"
  from assms(1) M(1) [folded a_def] obtain h fr1 c1 m1 fr2 hit where i: "i < length (frs fr)"
    and f: "fetch_line G a (fr, c, m) = Inr (h, fr1, c1, m1)"
    and p': "push_fq fr1 i (if hit then 1 else a) = Inr fr2"
    and e: "x_cmp_next G i ?f fr2 = Inr fr'"
    by (auto simp: read_x_cmp_def Let_def split del: if_split)
  define t where "t = (if hit then 1 else a)"
  have t: "t = 1 \<or> t = a" and p: "push_fq fr1 i t = Inr fr2" using p' by (auto simp: t_def)
  have t0: "t \<noteq> 0" using t M(2) by (auto simp: a_def)
  obtain R where R: "fr1 = fr\<lparr>requested := R\<rparr>" using fetch_line_eff [OF f] by blast
  show ?thesis
  proof (cases ?last)
    case True
    then have c1: "cur_lines X_CMP G ?f = [a]" using M(3) by (simp add: a_def)
    have "\<exists>F. fr' = fr\<lparr>requested := R, fq := (fq fr)[i := fq fr ! i @ t # (if f_is_last ?f then [0] else [])],
      frs := (frs fr)[i := (frs fr ! i)\<lparr>cur_f := F, pq_read_need := True\<rparr>]\<rparr>"
    proof (cases "last_col G ?f")
      case True
      then show ?thesis using e p R i by (intro exI [of _ ?f]) (auto simp: x_cmp_next_def queue_ops)
    next
      case False
      then show ?thesis using e p R i M(5) \<open>?last\<close>
        by (intro exI [of _ "?f\<lparr>f_col := urb (arch_info G) - 1\<rparr>"]) (auto simp: x_cmp_next_def queue_ops)
    qed
    then show ?thesis using read_push.final [OF t0 t refl c1] by blast
  next
    case False
    then have "\<not> last_col G ?f" using M(4) by blast
    then have "fr' = fr\<lparr>requested := R, fq := (fq fr)[i := fq fr ! i @ [t]],
      frs := (frs fr)[i := (frs fr ! i)\<lparr>cur_f := ?f\<lparr>f_col := f_col ?f + 1\<rparr>\<rparr>]\<rparr>"
      using e p R i M(5) False by (auto simp: x_cmp_next_def queue_ops)
    then show ?thesis using read_push.more [OF t0 t refl _ M(3) [folded a_def] False, where R = R] ok(2) by simp
  qed
qed

lemma read_csr_line_eff:
  assumes r: "read_csr_line G i (fr, c, m) = Inr (fr', c', m')"
    and md: "md = CSR \<or> md = X_FULL_CMP" and s: "s = frs fr ! i" "1 \<le> f_col (cur_f s)"
    and ok: "lines_ok md G (f_dst (cur_f s)) (f_v_fold (cur_f s))" "cur_lines md G (cur_f s) \<noteq> []"
  shows "read_push md G i fr fr'"
proof -
  let ?f = "cur_f s" and ?x = "x_to_addr G ! nat (f_dst (cur_f s))"
  let ?k = "nat (f_col ?f)" and ?g = "?f\<lparr>f_col := f_col ?f + 1\<rparr>"
  have E: "edge_lines md G (f_dst ?f) (f_v_fold ?f) = drop 1 ?x" using md by auto
  have b: "col_base md = 1" using md by (auto simp: col_base_def)
  have k1: "1 \<le> ?k" "nat (f_col ?f + 1) = Suc ?k" using s(2) by auto
  have cl: "cur_lines md G ?f = drop ?k ?x" "cur_lines md G ?g = drop (Suc ?k) ?x"
    using k1 by (auto simp: cur_lines_def E b)
  have k: "?k < length ?x" using ok(2) cl(1) by simp
  have c: "cur_lines md G ?f = ?x ! ?k # cur_lines md G ?g" using cl k by (simp add: drop_Suc_nth)
  have "?x ! ?k \<in> set (drop 1 ?x)"
  proof -
    have "drop 1 ?x ! (?k - 1) = ?x ! ?k" "?k - 1 < length (drop 1 ?x)" using k k1 by auto
    then show ?thesis by (metis nth_mem)
  qed
  then have nz: "?x ! ?k \<noteq> 0" using ok(1) E by (auto simp: lines_ok_def)
  from r s(1) obtain h fr1 c1 m1 fr2 where i: "i < length (frs fr)"
    and f: "fetch_line G (?x ! ?k) (fr, c, m) = Inr (h, fr1, c1, m1)"
    and p: "push_fq fr1 i (?x ! ?k) = Inr fr2"
    and e: "if f_col ?f = int (length ?x) - 1 then end_edge fr2 i = Inr fr'
      else set_col fr2 i (f_col ?f + 1) = Inr fr'"
    by (auto simp: read_csr_line_def Let_def split: if_splits)
  obtain R where R: "fr1 = fr\<lparr>requested := R\<rparr>" using fetch_line_eff [OF f] by blast
  show ?thesis
  proof (cases "f_col ?f = int (length ?x) - 1")
    case True
    then have "cur_lines md G ?f = [?x ! ?k]" using c cl(2) by simp
    note F = read_push.final [OF nz disjI2 [OF refl] s(1) this, where R = R and F = ?f]
    have "fr' = fr\<lparr>requested := R, fq := (fq fr)[i := fq fr ! i @ ?x ! ?k # (if f_is_last ?f then [0] else [])],
      frs := (frs fr)[i := s\<lparr>cur_f := ?f, pq_read_need := True\<rparr>]\<rparr>"
      using True e p R s(1) by (auto simp: queue_ops)
    then show ?thesis using F by simp
  next
    case False
    then have "cur_lines md G ?g \<noteq> []" using cl(2) k s(2) by auto
    note F = read_push.more [OF nz disjI2 [OF refl] s(1) _ c this, where R = R]
    have "fr' = fr\<lparr>requested := R, fq := (fq fr)[i := fq fr ! i @ [?x ! ?k]], frs := (frs fr)[i := s\<lparr>cur_f := ?g\<rparr>]\<rparr>"
      using False e p R s(1) by (auto simp: queue_ops)
    then show ?thesis using F s(2) by simp
  qed
qed

text \<open>A hit on the header moves to the first data line, which leaves the lines to be read as they are.\<close>

lemma read_push_header:
  assumes "read_push md G i (fr\<lparr>requested := R, frs := (frs fr)[i := s\<lparr>cur_f := (cur_f s)\<lparr>f_col := 1\<rparr>\<rparr>]\<rparr>) fr'"
    and "i < length (frs fr)" and "s = frs fr ! i" and "f_col (cur_f s) = 0" and "col_base md = 1"
  shows "read_push md G i fr fr'"
proof -
  have cl: "cur_lines md G ((cur_f s)\<lparr>f_col := 1\<rparr>) = cur_lines md G (cur_f s)"
    using assms(4,5) by (simp add: cur_lines_def)
  from assms(1) show ?thesis
  proof cases
    case (more t a s' nc R')
    then show ?thesis
      using assms(2,3) cl read_push.more [where t = t and s = s and nc = nc and a = a and R = R' and fr = fr
          and i = i and md = md and G = G] by simp
  next
    case (final t a s' F R')
    then show ?thesis
      using assms(2,3) cl read_push.final [where t = t and s = s and a = a and R = R' and F = F and fr = fr
          and i = i and md = md and G = G] by (simp split del: if_split)
  qed
qed

lemma read_csr_eff:
  assumes r: "read_csr G i (fr, c, m) = Inr (fr', c', m')" and md: "md = CSR \<or> md = X_FULL_CMP"
    and "stat_ok md G (frs fr ! i)" and "\<not> pq_read_need (frs fr ! i)"
  shows "read_eff md G i fr fr'"
proof -
  let ?s = "frs fr ! i"
  have ok: "lines_ok md G (f_dst (cur_f ?s)) (f_v_fold (cur_f ?s))" "0 \<le> f_col (cur_f ?s)"
    "cur_lines md G (cur_f ?s) \<noteq> []"
    using assms(3,4) by (auto simp: stat_ok_def)
  have b: "col_base md = 1" using md by (auto simp: col_base_def)
  show ?thesis
  proof (cases "f_col (cur_f ?s) = 0")
    case False
    with r have "read_csr_line G i (fr, c, m) = Inr (fr', c', m')" by (auto simp: read_csr_def Let_def)
    from read_csr_line_eff [OF this md refl _ ok(1,3)] False ok(2) show ?thesis by (simp add: read_eff_def)
  next
    case True
    with r obtain a h fr1 c1 m1 where i: "i < length (frs fr)"
      and f: "fetch_line G a (fr, c, m) = Inr (h, fr1, c1, m1)"
      and e: "\<not> h \<longrightarrow> fr' = fr1" "h \<longrightarrow> (\<exists>fr2. set_col fr1 i 1 = Inr fr2 \<and> read_csr_line G i (fr2, c1, m1) = Inr (fr', c', m'))"
      by (auto simp: read_csr_def Let_def split: if_splits)
    obtain R where R: "fr1 = fr\<lparr>requested := R\<rparr>" using fetch_line_eff [OF f] by blast
    show ?thesis
    proof (cases h)
      case False
      with e R show ?thesis by (auto simp: read_eff_def)
    next
      case True
      let ?t = "?s\<lparr>cur_f := (cur_f ?s)\<lparr>f_col := 1\<rparr>\<rparr>"
      let ?fr2 = "fr\<lparr>requested := R, frs := (frs fr)[i := ?t]\<rparr>"
      have l: "read_csr_line G i (?fr2, c1, m1) = Inr (fr', c', m')"
        using e True R by (auto simp: set_col_eq)
      have s: "?t = frs ?fr2 ! i" using i by simp
      have "read_push md G i ?fr2 fr'"
        using read_csr_line_eff [OF l md s] ok \<open>f_col (cur_f ?s) = 0\<close> b by (simp add: cur_lines_def)
      from read_push_header [OF this i refl \<open>f_col (cur_f ?s) = 0\<close> b] show ?thesis by (simp add: read_eff_def)
    qed
  qed
qed

section \<open>The signals of a run\<close>

text \<open>The signals engine \<open>j\<close> is still to get for the edges it has been given.\<close>

definition pend :: "F_MODE \<Rightarrow> sim_env \<Rightarrow> feature_reader \<Rightarrow> nat \<Rightarrow> int list" where
  "pend md G fr j = queued (fq fr ! j) @ stat_signals md G (frs fr ! j) @
     concat (map (edge_signals md G) (pq fr ! j))"

definition fr_ok :: "F_MODE \<Rightarrow> sim_env \<Rightarrow> feature_reader \<Rightarrow> bool" where
  "fr_ok md G fr \<longleftrightarrow> fr_mode fr = md \<and>
     length (frs fr) = engines G \<and> length (pq fr) = engines G \<and> length (fq fr) = engines G \<and>
     (\<forall>j < engines G. stat_ok md G (frs fr ! j) \<and>
        (\<forall>ei \<in> set (pq fr ! j). lines_ok md G (dst ei) (v_fold ei)))"

lemma edge_lines_nonempty: "lines_ok md G d v \<Longrightarrow> edge_lines md G d v \<noteq> []"
  using fold_lines_nth(3) [of md G d v]
  by (cases md) (auto simp: lines_ok_def split: list.splits)

lemma signals_Cons: "ls \<noteq> [] \<Longrightarrow> signals (a # ls) b = 1 # signals ls b"
  by (cases ls) (auto simp: signals_def)

lemma read_push_spec:
  assumes "read_push md G i fr fr'" and "fr_ok md G fr" and "i < engines G" and "\<not> pq_read_need (frs fr ! i)"
  shows "fr_ok md G fr' \<and> (\<forall>j. pend md G fr' j = pend md G fr j)"
  using assms(1)
proof cases
  case (more t a s nc R)
  let ?f = "cur_f s"
  have s: "stat_ok md G s" "\<not> pq_read_need s" using assms(2-4) more by (auto simp: fr_ok_def)
  then have "stat_ok md G (s\<lparr>cur_f := ?f\<lparr>f_col := nc\<rparr>\<rparr>)" using more by (simp add: stat_ok_def)
  moreover have "stat_signals md G s = 1 # stat_signals md G (s\<lparr>cur_f := ?f\<lparr>f_col := nc\<rparr>\<rparr>)"
    using s(2) more by (simp add: stat_signals_def signals_Cons)
  ultimately show ?thesis
    using assms(2,3) more by (auto simp: fr_ok_def pend_def nth_list_update queued_push)
next
  case (final t a s F R)
  have s: "\<not> pq_read_need s" using assms(4) final by simp
  have "stat_signals md G s = [if f_is_last (cur_f s) then 0 else 1]"
    using s final by (simp add: stat_signals_def signals_def)
  moreover have "stat_ok md G (s\<lparr>cur_f := F, pq_read_need := True\<rparr>)"
    "stat_signals md G (s\<lparr>cur_f := F, pq_read_need := True\<rparr>) = []"
    by (simp_all add: stat_ok_def stat_signals_def)
  ultimately show ?thesis
    using assms(2,3) final
    by (cases "f_is_last (cur_f s)") (auto simp: fr_ok_def pend_def nth_list_update queued_push queued_push_end)
qed

lemma read_eff_spec:
  assumes "read_eff md G i fr fr'" and "fr_ok md G fr" and "i < engines G" and "\<not> pq_read_need (frs fr ! i)"
  shows "fr_ok md G fr' \<and> (\<forall>j. pend md G fr' j = pend md G fr j)"
  using assms read_push_spec [of md G i fr fr'] by (auto simp: read_eff_def fr_ok_def pend_def)

lemma read_mode_eff:
  assumes "read_mode md G i (fr, c, m) = Inr (fr', c', m')" and "stat_ok md G (frs fr ! i)"
    and "\<not> pq_read_need (frs fr ! i)"
  shows "read_eff md G i fr fr'"
proof (cases md)
  case X_CMP
  then show ?thesis using assms read_x_cmp_eff [of G i fr c m fr' c' m'] by (simp add: read_eff_def)
next
  case MAT
  then show ?thesis using assms read_mat_eff [of G i fr c m fr' c' m'] by (simp add: read_eff_def)
qed (use assms read_csr_eff [of G i fr c m fr' c' m' md] in \<open>simp_all add: read_x_full_cmp_def\<close>)

lemma ConsumePendingQ_spec:
  assumes "ConsumePendingQ fr i = Inr fr'" and "fr_ok md G fr" and "pq_read_need (frs fr ! i)"
  shows "fr_ok md G fr' \<and> (\<forall>j. pend md G fr' j = pend md G fr j) \<and> \<not> pq_read_need (frs fr' ! i) \<and>
    fr_mode fr' = fr_mode fr"
proof -
  from assms(1) obtain ei es where q: "pq fr ! i = ei # es" "i < length (pq fr)" "i < length (frs fr)"
    and fr': "fr' = (set_stat fr i ((frs fr ! i)\<lparr>cur_f := \<lparr>f_is_last = is_last ei, f_dst = dst ei,
       f_v_fold = v_fold ei, f_col = 0\<rparr>, pq_read_need := False\<rparr>))\<lparr>pq := (pq fr)[i := es], f_pass := f_pass fr + 1\<rparr>"
    by (auto simp: ConsumePendingQ_def split: list.splits)
  let ?f = "\<lparr>f_is_last = is_last ei, f_dst = dst ei, f_v_fold = v_fold ei, f_col = 0\<rparr>"
  have i: "i < engines G" using q assms(2) by (simp add: fr_ok_def)
  then have l: "lines_ok md G (dst ei) (v_fold ei)" "\<forall>e \<in> set es. lines_ok md G (dst e) (v_fold e)"
    using assms(2) q by (auto simp: fr_ok_def)
  have c: "cur_lines md G ?f = edge_lines md G (dst ei) (v_fold ei)" by (simp add: cur_lines_def)
  have "fr_ok md G fr'"
    using assms(2) l q i edge_lines_nonempty [OF l(1)]
    by (auto simp: fr' fr_ok_def set_stat_def nth_list_update stat_ok_def c)
  moreover have "\<forall>j. pend md G fr' j = pend md G fr j"
    using q assms(3)
    by (auto simp: fr' pend_def set_stat_def nth_list_update stat_signals_def c edge_signals_def)
  ultimately show ?thesis using q by (simp add: fr' set_stat_def)
qed

lemma ReadNext_spec:
  assumes "ReadNext G i (fr, c, m) = Inr (fr', c', m')" and ok: "fr_ok md G fr" and i: "i < engines G"
  shows "fr_ok md G fr' \<and> (\<forall>j. pend md G fr' j = pend md G fr j)"
proof -
  have md: "fr_mode fr = md" using ok by (simp add: fr_ok_def)
  have read: "fr_ok md G fr' \<and> (\<forall>j. pend md G fr' j = pend md G fr1 j)"
    if "read_mode md G i (fr1, c, m) = Inr (fr', c', m')" "fr_ok md G fr1" "\<not> pq_read_need (frs fr1 ! i)" for fr1
    using read_eff_spec [OF read_mode_eff [OF that(1) _ that(3)] that(2) i that(3)] that(2) i
    by (simp add: fr_ok_def)
  from assms(1) consider "fr' = fr" | "\<not> pq_read_need (frs fr ! i)" "read_mode md G i (fr, c, m) = Inr (fr', c', m')"
    | fr1 where "pq_read_need (frs fr ! i)" "ConsumePendingQ fr i = Inr fr1"
        "read_mode md G i (fr1, c, m) = Inr (fr', c', m')"
    by (auto simp: ReadNext_def md split: if_splits)
  then show ?thesis
  proof cases
    case 1
    then show ?thesis using ok by simp
  next
    case 2
    then show ?thesis using read [of fr] ok by simp
  next
    case 3
    then show ?thesis using read [of fr1] ConsumePendingQ_spec [OF 3(2) ok 3(1)] by simp
  qed
qed

lemma PassFtoSIMD_spec:
  assumes "PassFtoSIMD G i (fr, c, m) = Inr (p, fr', c', m')" and ok: "fr_ok md G fr" and i: "i < engines G"
  shows "fr_ok md G fr' \<and> (p = -1 \<or> p = 0 \<or> p = 1) \<and>
    pend md G fr i = (if p = -1 then [] else [p]) @ pend md G fr' i \<and>
    (\<forall>j. j \<noteq> i \<longrightarrow> pend md G fr' j = pend md G fr j)"
proof (cases "fq fr ! i")
  case Nil
  then show ?thesis using assms by (auto simp: PassFtoSIMD_def)
next
  case (Cons t ts)
  with assms(1) i ok obtain h fr1 c1 m1 where
    g: "(if t = 1 then Inr (True, fr, c, m) else fetch_line G t (fr, c, m)) = Inr (h, fr1, c1, m1)" and
    e: "if h then pop_line fr1 i ts = (p, fr') else p = -1 \<and> fr' = fr1"
    by (auto simp: PassFtoSIMD_def fr_ok_def split: prod.splits if_splits)
  have f: "\<exists>R. fr1 = fr\<lparr>requested := R\<rparr>"
    using g fetch_line_eff [of G t fr c m h fr1 c1 m1]
    by (cases "t = 1") (auto intro: exI [of _ "requested fr"])
  have q: "queued (t # ts) = (if p = 0 then 0 else 1) # queued ts'"
    if "p = 0 \<and> ts = 0 # ts' \<or> p = 1 \<and> ts' = ts \<and> (ts = [] \<or> hd ts \<noteq> 0)" for ts'
    using that by (cases ts) auto
  show ?thesis
  proof (cases h)
    case False
    with e f ok show ?thesis by (auto simp: fr_ok_def pend_def)
  next
    case True
    with e obtain ts' where x: "fr' = fr1\<lparr>fq := (fq fr1)[i := ts']\<rparr>"
      "p = 0 \<and> ts = 0 # ts' \<or> p = 1 \<and> ts' = ts \<and> (ts = [] \<or> hd ts \<noteq> 0)"
      by (auto simp: pop_line_def split: list.splits if_splits)
    from f obtain R where R: "fr1 = fr\<lparr>requested := R\<rparr>" by blast
    have "i < length (fq fr)" using ok i by (simp add: fr_ok_def)
    moreover have "p = 0 \<or> p = 1" using x(2) by blast
    ultimately show ?thesis using x(1) q [OF x(2)] ok Cons unfolding R by (auto simp: fr_ok_def pend_def)
  qed
qed

lemma EnterFtoList_spec:
  assumes "EnterFtoList fr ei = Inr fr'" and "fr_ok md G fr" and "lines_ok md G (dst ei) (v_fold ei)"
  shows "fr_ok md G fr' \<and> pend md G fr' (ei_id ei) = pend md G fr (ei_id ei) @ edge_signals md G ei \<and>
    (\<forall>j. j \<noteq> ei_id ei \<longrightarrow> pend md G fr' j = pend md G fr j)"
proof -
  have "ei_id ei < length (pq fr)" "fr' = fr\<lparr>pq := (pq fr)[ei_id ei := pq fr ! ei_id ei @ [ei]]\<rparr>"
    using assms(1) by (auto simp: EnterFtoList_def vpush_def vget_def vset_def split: if_splits)
  then show ?thesis using assms(2,3) by (auto simp: fr_ok_def pend_def nth_list_update)
qed

lemma receive_features_view:
  "receive_features G as (fr, c) = Inr (bs, fr', c') \<Longrightarrow>
   frs fr' = frs fr \<and> pq fr' = pq fr \<and> fq fr' = fq fr \<and> fr_mode fr' = fr_mode fr"
  by (induction G as "(fr, c)" arbitrary: fr c rule: receive_features.induct) (auto split: if_splits)

lemma FeatureReceive_spec:
  assumes "FeatureReceive G (fr, c, m) = Inr (fr', c', m')"
  shows "fr_ok md G fr' = fr_ok md G fr" and "pend md G fr' j = pend md G fr j"
  using assms receive_features_view [of G "mem_fq m" fr c _ fr' c']
  by (auto simp: FeatureReceive_def fr_ok_def pend_def)

text \<open>
  Runs: the calls of the controller on the feature reader, for any engine and in any order, with
  arbitrary changes of the memory in between. \<open>ent j\<close> are the edges entered for engine \<open>j\<close>, \<open>out j\<close>
  the signals (other than \<open>-1\<close>) passed to its SIMD core.
\<close>

inductive fr_run :: "sim_env \<Rightarrow> F_MODE \<Rightarrow> feature_reader \<times> cache \<times> 'd memory \<Rightarrow>
    (nat \<Rightarrow> EdgeInfo list) \<Rightarrow> (nat \<Rightarrow> int list) \<Rightarrow> bool" for G md where
  start: "fr_run G md (ModeChange (FeatureReader_new G) md, Cache_new (arch_info G), m) (\<lambda>_. []) (\<lambda>_. [])"
| env: "fr_run G md (fr, c, m) ent out \<Longrightarrow> fr_run G md (fr, c, m') ent out"
| enter: "fr_run G md (fr, c, m) ent out \<Longrightarrow> lines_ok md G (dst ei) (v_fold ei) \<Longrightarrow>
    EnterFtoList fr ei = Inr fr' \<Longrightarrow>
    fr_run G md (fr', c, m) (ent(ei_id ei := ent (ei_id ei) @ [ei])) out"
| read: "fr_run G md s ent out \<Longrightarrow> i < engines G \<Longrightarrow> ReadNext G i s = Inr s' \<Longrightarrow> fr_run G md s' ent out"
| pass: "fr_run G md s ent out \<Longrightarrow> i < engines G \<Longrightarrow> PassFtoSIMD G i s = Inr (p, s') \<Longrightarrow>
    fr_run G md s' ent (if p = -1 then out else out(i := out i @ [p]))"
| recv: "fr_run G md s ent out \<Longrightarrow> FeatureReceive G s = Inr s' \<Longrightarrow> fr_run G md s' ent out"

lemma fr_run_inv:
  assumes "fr_run G md s ent out"
  shows "fr_ok md G (fst s) \<and>
    (\<forall>j < engines G. out j @ pend md G (fst s) j = concat (map (edge_signals md G) (ent j)))"
  using assms
proof induction
  case (start m)
  then show ?case
    by (auto simp: ModeChange_def FeatureReader_new_def fr_ok_def pend_def stat_ok_def stat_signals_def)
next
  case (enter fr c m ent out ei fr')
  then show ?case using EnterFtoList_spec [OF enter(3)] by auto
next
  case (read s ent out i s')
  then show ?case using ReadNext_spec [of G i "fst s" "fst (snd s)" "snd (snd s)" "fst s'" "fst (snd s')" "snd (snd s')" md]
    by simp
next
  case (pass s ent out i p s')
  have ok: "fr_ok md G (fst s)" using pass.IH by simp
  have "PassFtoSIMD G i (fst s, fst (snd s), snd (snd s)) = Inr (p, fst s', fst (snd s'), snd (snd s'))"
    using pass.hyps by simp
  note P = PassFtoSIMD_spec [OF this ok pass.hyps(2)]
  have "(if p = -1 then out else out(i := out i @ [p])) j @ pend md G (fst s') j = out j @ pend md G (fst s) j" for j
    using P by (cases "j = i") auto
  with P pass.IH show ?case by simp
next
  case (recv s ent out s')
  then show ?case
    using FeatureReceive_spec [of G "fst s" "fst (snd s)" "snd (snd s)" "fst s'" "fst (snd s')" "snd (snd s')" md]
    by simp
qed auto

text \<open>
  C6. The signals passed to the SIMD core of an engine are, in every mode and whatever the other
  engines, the cache and the memory do, a prefix of the signals of the edges given for that engine:
  one signal per line of each edge, 0 exactly for the last line of an edge that ends a row; and they
  are all of them once the engine's queues are empty.
\<close>

theorem simd_signals:
  assumes "fr_run G md (fr, c, m) ent out" and "j < engines G"
  shows "\<exists>rest. out j @ rest = concat (map (edge_signals md G) (ent j)) \<and>
    (pq fr ! j = [] \<and> fq fr ! j = [] \<and> pq_read_need (frs fr ! j) \<longrightarrow> rest = [])"
  using fr_run_inv [OF assms(1)] assms(2)
  by (intro exI [of _ "pend md G fr j"]) (auto simp: pend_def stat_signals_def)

end
