(* ===== verification/Feature_Fetch.thy ===== *)
theory Feature_Fetch
  imports Feature_Reader
begin

text \<open>
  The fetch discipline of the feature reader: the set of requested lines is exactly the set of
  feature reads that are on their way, each once, and no requested line is cached. Under it, and on
  a well-formed address table, no operation of the feature reader fails, no line is inserted twice
  into the cache, and a line the SIMD core waits for is always on its way.
\<close>

section \<open>The invariant\<close>

text \<open>
  The feature reads that have not been received: among the transactions \<open>P\<close> the DRAM simulator holds,
  in the transaction queue, and in the queue of completed feature reads.
\<close>

definition trans_of :: "Transaction \<Rightarrow> u64 \<times> bool" where
  "trans_of t = (address t, is_write t)"

definition feature_reads :: "sim_env \<Rightarrow> (u64 \<times> bool) multiset \<Rightarrow> u64 multiset" where
  "feature_reads G M = image_mset fst {#e \<in># M. \<not> snd e \<and> xw_ele_addr_start (arch_info G) \<le> fst e#}"

definition on_the_way :: "sim_env \<Rightarrow> (u64 \<times> bool) multiset \<Rightarrow> 'd memory \<Rightarrow> u64 multiset" where
  "on_the_way G P m = feature_reads G (P + mset (map trans_of (tq m))) + mset (mem_fq m)"

definition fetch_inv :: "sim_env \<Rightarrow> (u64 \<times> bool) multiset \<Rightarrow> feature_reader \<times> cache \<times> 'd memory \<Rightarrow> bool" where
  "fetch_inv G P = (\<lambda>(fr, c, m). cache_ok (arch_info G) \<and> cache_inv (arch_info G) c \<and>
     finite (requested fr) \<and> requested fr \<inter> cached c = {} \<and> - 1 \<notin> requested fr \<and>
     on_the_way G P m = mset_set (requested fr))"

definition addr_ok :: "sim_env \<Rightarrow> bool" where
  "addr_ok G \<longleftrightarrow> (\<forall>xs \<in> set (x_to_addr G). \<forall>a \<in> set xs.
     a \<noteq> 0 \<longrightarrow> xw_ele_addr_start (arch_info G) \<le> a \<and> a \<noteq> - 1)"

definition line_ok :: "sim_env \<Rightarrow> u64 \<Rightarrow> bool" where
  "line_ok G a \<longleftrightarrow> xw_ele_addr_start (arch_info G) \<le> a \<and> a \<noteq> - 1 \<and> a \<noteq> 0"

text \<open>The shape of a queue of lines: end markers only behind lines.\<close>

fun q_ok :: "sim_env \<Rightarrow> u64 list \<Rightarrow> bool" where
  "q_ok G [] = True"
| "q_ok G [t] = (t = 1 \<or> line_ok G t)"
| "q_ok G (t # u # ts) = ((t = 1 \<or> line_ok G t) \<and> (if u = 0 then q_ok G ts else q_ok G (u # ts)))"

lemma q_ok_push: "q_ok G q \<Longrightarrow> t = 1 \<or> line_ok G t \<Longrightarrow> q_ok G (q @ [t])"
  by (induction G q rule: q_ok.induct) (auto simp: line_ok_def)

lemma q_ok_push_end: "q_ok G q \<Longrightarrow> t = 1 \<or> line_ok G t \<Longrightarrow> q_ok G (q @ [t, 0])"
  by (induction G q rule: q_ok.induct) (auto simp: line_ok_def)

definition queues_ok :: "sim_env \<Rightarrow> feature_reader \<Rightarrow> bool" where
  "queues_ok G fr \<longleftrightarrow> (\<forall>j < length (fq fr). q_ok G (fq fr ! j))"

lemma on_the_way_add:
  assumes "line_ok G a"
  shows "on_the_way G P (AddTransaction m (read_tr a)) = add_mset a (on_the_way G P m)"
  using assms
  by (simp add: on_the_way_def feature_reads_def AddTransaction_def read_tr_def trans_of_def line_ok_def)

lemma fetch_inv_cong: "requested fr' = requested fr \<Longrightarrow> fetch_inv G P (fr', c, m) = fetch_inv G P (fr, c, m)"
  by (simp add: fetch_inv_def)

section \<open>Looking a line up\<close>

text \<open>What a call may do to the memory: request one line.\<close>

definition fetched :: "sim_env \<Rightarrow> 'd memory \<Rightarrow> 'd memory \<Rightarrow> bool" where
  "fetched G m m' \<longleftrightarrow> m' = m \<or> (\<exists>a. line_ok G a \<and> m' = AddTransaction m (read_tr a))"

lemma fetch_line_spec:
  assumes inv: "fetch_inv G P (fr, c, m)" and a: "line_ok G a"
  shows "\<exists>fr1 c1 m1. fetch_line G a (fr, c, m) = Inr (a \<in> cached c, fr1, c1, m1) \<and>
    fetch_inv G P (fr1, c1, m1) \<and> fetched G m m1 \<and> (a \<in> cached c \<longrightarrow> m1 = m) \<and> cached c1 = cached c \<and>
    fr1 = fr\<lparr>requested := if a \<in> cached c then requested fr else insert a (requested fr)\<rparr>"
proof -
  have C: "cache_ok (arch_info G) \<and> cache_inv (arch_info G) c" using inv by (simp add: fetch_inv_def)
  from lru.access_spec [OF this, of a] obtain c1 where
    c1: "Access (arch_info G) c a = Inr (a \<in> cached c, c1)" "cache_inv (arch_info G) c1" "cached c1 = cached c"
    by auto
  show ?thesis
  proof (cases "a \<in> cached c \<or> a \<in> requested fr")
    case True
    then show ?thesis using c1 inv by (auto simp: fetch_line_def fetch_inv_def insert_absorb fetched_def)
  next
    case False
    then have "fetch_line G a (fr, c, m) =
        Inr (False, fr\<lparr>requested := insert a (requested fr)\<rparr>, c1, AddTransaction m (read_tr a))"
      using c1 by (simp add: fetch_line_def)
    moreover have "fetch_inv G P (fr\<lparr>requested := insert a (requested fr)\<rparr>, c1, AddTransaction m (read_tr a))"
      using False c1 inv a on_the_way_add [OF a, of P m] by (auto simp: fetch_inv_def line_ok_def)
    ultimately show ?thesis using False c1 a by (auto simp: fetched_def)
  qed
qed

section \<open>Receiving features\<close>

lemma receive_features_spec:
  assumes "cache_ok (arch_info G)" "cache_inv (arch_info G) c" "requested fr \<inter> cached c = {}"
    and "distinct as" and "set as \<subseteq> requested fr" and "- 1 \<notin> requested fr"
  shows "\<exists>fr' c'. receive_features G as (fr, c) = Inr ([], fr', c') \<and> cache_inv (arch_info G) c' \<and>
    requested fr' = requested fr - set as \<and> requested fr' \<inter> cached c' = {} \<and> cached c' \<subseteq> set as \<union> cached c \<and>
    (as \<noteq> [] \<longrightarrow> last as \<in> cached c')"
  using assms
proof (induction as arbitrary: fr c)
  case Nil
  then show ?case by simp
next
  case (Cons a as)
  then have a: "a \<noteq> - 1" "a \<notin> cached c" by auto
  from lru.insert_spec [of "arch_info G" c a] a(2) Cons.prems obtain c1 where
    c1: "Insert (arch_info G) c a = Inr c1" "cache_inv (arch_info G) c1" "cached c1 \<subseteq> insert a (cached c)" "a \<in> cached c1" by auto
  let ?fr = "fr\<lparr>requested := requested fr - {a}, f_pass_cnt := f_pass_cnt fr + 1\<rparr>"
  have "requested ?fr \<inter> cached c1 = {}" "distinct as" "set as \<subseteq> requested ?fr" "- 1 \<notin> requested ?fr"
    using Cons.prems c1 by auto
  from Cons.IH [OF Cons.prems(1) c1(2) this] obtain fr' c' where
    "receive_features G as (?fr, c1) = Inr ([], fr', c')" "cache_inv (arch_info G) c'"
    "requested fr' = requested ?fr - set as" "requested fr' \<inter> cached c' = {}" "cached c' \<subseteq> set as \<union> cached c1" "as \<noteq> [] \<longrightarrow> last as \<in> cached c'" by blast
  note IH = this
  have "receive_features G (a # as) (fr, c) = Inr ([], fr', c')" using a(1) c1(1) IH(1) by simp
  moreover have "requested fr' = requested fr - set (a # as)" using IH(3) by auto
  moreover have "cached c' \<subseteq> set (a # as) \<union> cached c" using IH(5) c1(3) by auto
  moreover have "last (a # as) \<in> cached c'" using IH(1,6) c1(4) by (cases "as = []") auto
  ultimately show ?case using IH(2,4) by blast
qed

lemma FeatureReceive_inv:
  assumes "fetch_inv G P (fr, c, m)"
  shows "\<exists>fr' c'. FeatureReceive G (fr, c, m) = Inr (fr', c', m\<lparr>mem_fq := []\<rparr>) \<and>
    fetch_inv G P (fr', c', m\<lparr>mem_fq := []\<rparr>) \<and> requested fr' = requested fr - set (mem_fq m) \<and>
    (mem_fq m \<noteq> [] \<longrightarrow> last (mem_fq m) \<in> cached c')"
proof -
  let ?as = "mem_fq m" and ?R = "feature_reads G (P + mset (map trans_of (tq m)))"
  have f: "finite (requested fr)" and w: "?R + mset ?as = mset_set (requested fr)"
    using assms by (auto simp: fetch_inv_def on_the_way_def)
  have le: "count (mset ?as) a \<le> count (mset_set (requested fr)) a" for a
    unfolding w [symmetric] by simp
  have sub: "set ?as \<subseteq> requested fr"
  proof
    fix a assume "a \<in> set ?as"
    then have "count (mset ?as) a \<noteq> 0" by simp
    then show "a \<in> requested fr" using le [of a] by (cases "a \<in> requested fr") auto
  qed
  have d: "distinct ?as"
    unfolding distinct_count_atmost_1
  proof
    fix a
    have "count (mset_set (requested fr)) a \<le> 1" using f by (cases "a \<in> requested fr") simp_all
    with le [of a] have "count (mset ?as) a \<le> 1" by (rule le_trans)
    moreover have "a \<in> set ?as \<Longrightarrow> 0 < count (mset ?as) a" by simp
    ultimately have "a \<in> set ?as \<Longrightarrow> count (mset ?as) a = 1" by linarith
    then show "count (mset ?as) a = (if a \<in> set ?as then 1 else 0)" by simp
  qed
  have R: "?R = mset_set (requested fr - set ?as)"
    using w f d sub by (metis List.finite_set add_diff_cancel_right' mset_set_Diff mset_set_set)
  have A: "cache_ok (arch_info G)" "cache_inv (arch_info G) c" "requested fr \<inter> cached c = {}" "- 1 \<notin> requested fr"
    using assms by (simp_all add: fetch_inv_def)
  from receive_features_spec [OF A(1-3) d sub A(4)] obtain fr' c' where
    "receive_features G ?as (fr, c) = Inr ([], fr', c')" "cache_inv (arch_info G) c'"
    "requested fr' = requested fr - set ?as" "requested fr' \<inter> cached c' = {}" "?as \<noteq> [] \<longrightarrow> last ?as \<in> cached c'" by blast
  note F = this
  have "FeatureReceive G (fr, c, m) = Inr (fr', c', m\<lparr>mem_fq := []\<rparr>)" using F(1) by (simp add: FeatureReceive_def)
  moreover have "fetch_inv G P (fr', c', m\<lparr>mem_fq := []\<rparr>)"
    using R F(2,4) f A unfolding fetch_inv_def on_the_way_def by (simp add: F(3))
  ultimately show ?thesis using F(3,5) by blast
qed

section \<open>Reading lines\<close>

lemma fold_lines_sub:
  assumes "lines_ok md G d v"
  shows "set (fold_lines G d v) \<subseteq> set (x_to_addr G ! nat d)"
  by (auto simp: fold_lines_def dest!: in_set_takeD in_set_dropD)

lemma edge_line_ok:
  assumes "addr_ok G" and "lines_ok md G d v" and "a \<in> set (edge_lines md G d v)"
  shows "line_ok G a"
proof -
  have "set (edge_lines md G d v) \<subseteq> set (x_to_addr G ! nat d)"
  proof (cases md)
    case X_CMP
    then have "set (edge_lines md G d v) \<subseteq> set (fold_lines G d v)"
      by (cases "fold_lines G d v") (auto dest: set_takeWhileD)
    then show ?thesis using fold_lines_sub [OF assms(2)] by blast
  qed (use fold_lines_sub [OF assms(2)] in \<open>auto dest: in_set_dropD\<close>)
  moreover have "x_to_addr G ! nat d \<in> set (x_to_addr G)" "a \<noteq> 0"
    using assms(2,3) by (auto simp: lines_ok_def)
  ultimately show ?thesis using assms(1,3) by (auto simp: addr_ok_def line_ok_def)
qed

lemma header_line_ok:
  assumes "addr_ok G" and "lines_ok md G d v" and "col_base md = 1"
  shows "line_ok G (x_to_addr G ! nat d ! 0)"
proof -
  have "x_to_addr G ! nat d \<in> set (x_to_addr G)" "2 \<le> length (x_to_addr G ! nat d)"
    "x_to_addr G ! nat d ! 0 \<noteq> 0"
    using assms(2,3) by (auto simp: lines_ok_def col_base_def split: if_splits)
  moreover have "x_to_addr G ! nat d ! 0 \<in> set (x_to_addr G ! nat d)" using calculation(2) by (intro nth_mem) linarith
  ultimately show ?thesis using assms(1) by (auto simp: addr_ok_def line_ok_def)
qed

lemma queue_ops_total:
  assumes "i < length (frs fr)" and "i < length (fq fr)"
  shows "\<exists>fr'. push_fq fr i a = Inr fr' \<and> requested fr' = requested fr \<and> length (frs fr') = length (frs fr) \<and>
      length (fq fr') = length (fq fr)"
    and "\<exists>fr'. set_col fr i k = Inr fr' \<and> requested fr' = requested fr \<and> length (frs fr') = length (frs fr) \<and>
      length (fq fr') = length (fq fr)"
    and "\<exists>fr'. end_edge fr i = Inr fr' \<and> requested fr' = requested fr"
  using assms by (auto simp: queue_ops)

lemma read_mat_total:
  assumes inv: "fetch_inv G P (fr, c, m)" and "stat_ok MAT G (frs fr ! i)" and "\<not> pq_read_need (frs fr ! i)"
    and "addr_ok G" and i: "i < length (frs fr)" "i < length (fq fr)"
  shows "\<exists>fr' c' m'. read_mat G i (fr, c, m) = Inr (fr', c', m') \<and> fetch_inv G P (fr', c', m') \<and> fetched G m m'"
proof -
  let ?f = "cur_f (frs fr ! i)"
  have ok: "lines_ok MAT G (f_dst ?f) (f_v_fold ?f)" "0 \<le> f_col ?f" "cur_lines MAT G ?f \<noteq> []"
    using assms(2,3) by (auto simp: stat_ok_def)
  note M = mat_cur [OF ok]
  define a where "a = hd (cur_lines MAT G ?f)"
  have "a \<in> set (edge_lines MAT G (f_dst ?f) (f_v_fold ?f))"
    using hd_in_set [OF ok(3)] unfolding a_def cur_lines_def by (meson in_set_dropD)
  from edge_line_ok [OF assms(4) ok(1) this] fetch_line_spec [OF inv, of a] obtain h fr1 c1 m1 where
    f: "fetch_line G a (fr, c, m) = Inr (h, fr1, c1, m1)" "fetch_inv G P (fr1, c1, m1)" "fetched G m m1" by blast
  have i1: "i < length (frs fr1)" "i < length (fq fr1)" using i fetch_line_eff [OF f(1)] by auto
  from queue_ops_total(1) [OF this, of a] obtain fr2 where
    p: "push_fq fr1 i a = Inr fr2" "requested fr2 = requested fr1" "i < length (frs fr2)" "i < length (fq fr2)"
    using i1 by auto
  from queue_ops_total(2) [OF p(3,4), of "f_col ?f + 1"] queue_ops_total(3) [OF p(3,4)] obtain fr3 fr4 where
    e: "set_col fr2 i (f_col ?f + 1) = Inr fr3" "requested fr3 = requested fr2"
    "end_edge fr2 i = Inr fr4" "requested fr4 = requested fr2" by blast
  have "fetch_inv G P (fr3, c1, m1)" "fetch_inv G P (fr4, c1, m1)"
    using e p(2) f(2) fetch_inv_cong by metis+
  moreover have "read_mat G i (fr, c, m) = Inr (if last_col G ?f then fr4 else fr3, c1, m1)"
    using M(1) [folded a_def] f(1) p(1) e(1,3) i by (simp add: read_mat_def Let_def)
  ultimately show ?thesis using f(3) by auto
qed

lemma x_cmp_next_total:
  assumes "i < length (frs fr)" and "i < length (fq fr)"
    and ok: "lines_ok X_CMP G (f_dst f) (f_v_fold f)" "0 \<le> f_col f" "cur_lines X_CMP G f \<noteq> []"
  shows "\<exists>fr'. x_cmp_next G i f fr = Inr fr' \<and> requested fr' = requested fr"
proof (cases "last_col G f")
  case True
  then show ?thesis using queue_ops_total(3) [OF assms(1,2)] by (auto simp: x_cmp_next_def)
next
  case False
  from queue_ops_total(2) [OF assms(1,2), of "f_col f + 1"] obtain fr1 where
    fr1: "set_col fr i (f_col f + 1) = Inr fr1" "requested fr1 = requested fr"
      "i < length (frs fr1)" "i < length (fq fr1)" using assms by auto
  from queue_ops_total(2) [OF fr1(3,4), of "urb (arch_info G) - 1"] obtain fr2 where
    fr2: "set_col fr1 i (urb (arch_info G) - 1) = Inr fr2" "requested fr2 = requested fr"
      "i < length (frs fr2)" "i < length (fq fr2)" using fr1 by auto
  from queue_ops_total(3) [OF fr2(3,4)] x_cmp_cur(5) [OF ok False] fr1 fr2 False show ?thesis
    by (auto simp: x_cmp_next_def)
qed

lemma cur_line_ok:
  assumes "addr_ok G" and "lines_ok md G (f_dst f) (f_v_fold f)" and "a \<in> set (cur_lines md G f)"
  shows "line_ok G a"
  using edge_line_ok [OF assms(1,2)] assms(3) unfolding cur_lines_def by (meson in_set_dropD)

lemma read_x_cmp_total:
  assumes inv: "fetch_inv G P (fr, c, m)" and "stat_ok X_CMP G (frs fr ! i)" and "\<not> pq_read_need (frs fr ! i)"
    and "addr_ok G" and i: "i < length (frs fr)" "i < length (fq fr)"
  shows "\<exists>fr' c' m'. read_x_cmp G i (fr, c, m) = Inr (fr', c', m') \<and> fetch_inv G P (fr', c', m') \<and> fetched G m m'"
proof -
  let ?f = "cur_f (frs fr ! i)"
  have ok: "lines_ok X_CMP G (f_dst ?f) (f_v_fold ?f)" "0 \<le> f_col ?f" "cur_lines X_CMP G ?f \<noteq> []"
    using assms(2,3) by (auto simp: stat_ok_def)
  define a where "a = hd (cur_lines X_CMP G ?f)"
  have "line_ok G a" using cur_line_ok [OF assms(4) ok(1)] ok(3) by (simp add: a_def)
  from fetch_line_spec [OF inv this] obtain h fr1 c1 m1 where
    f: "fetch_line G a (fr, c, m) = Inr (h, fr1, c1, m1)" "fetch_inv G P (fr1, c1, m1)" "fetched G m m1" by blast
  have "cache_ok (arch_info G) \<and> cache_inv (arch_info G) c1" using f(2) by (simp add: fetch_inv_def)
  from lru.access_spec [OF this, of a] obtain hit c2 where
    c2: "Access (arch_info G) c1 a = Inr (hit, c2)" "cache_inv (arch_info G) c2" "cached c2 = cached c1" by blast
  have i1: "i < length (frs fr1)" "i < length (fq fr1)" using i fetch_line_eff [OF f(1)] by auto
  from queue_ops_total(1) [OF this, of "if hit then 1 else a"] obtain fr2 where
    p: "push_fq fr1 i (if hit then 1 else a) = Inr fr2" "requested fr2 = requested fr1"
      "i < length (frs fr2)" "i < length (fq fr2)"
    using i1 by auto
  from x_cmp_next_total [OF p(3,4) ok] obtain fr3 where
    e: "x_cmp_next G i ?f fr2 = Inr fr3" "requested fr3 = requested fr1" using p(2) by auto
  have "fetch_inv G P (fr3, c2, m1)" using f(2) c2 e(2) by (simp add: fetch_inv_def)
  moreover have "read_x_cmp G i (fr, c, m) = Inr (fr3, c2, m1)"
    using x_cmp_cur(1) [OF ok, folded a_def] f(1) p(1) e(1) c2(1) i by (simp add: read_x_cmp_def Let_def)
  ultimately show ?thesis using f(3) by blast
qed

lemma read_csr_line_total:
  assumes inv: "fetch_inv G P (fr, c, m)" and "addr_ok G" and b: "col_base md = 1"
    and s: "s = frs fr ! i" "1 \<le> f_col (cur_f s)"
    and ok: "lines_ok md G (f_dst (cur_f s)) (f_v_fold (cur_f s))" "cur_lines md G (cur_f s) \<noteq> []"
    and i: "i < length (frs fr)" "i < length (fq fr)"
  shows "\<exists>fr' c' m'. read_csr_line G i (fr, c, m) = Inr (fr', c', m') \<and> fetch_inv G P (fr', c', m') \<and> fetched G m m'"
proof -
  let ?f = "cur_f s" and ?x = "x_to_addr G ! nat (f_dst (cur_f s))"
  have md: "md = CSR \<or> md = X_FULL_CMP" using b by (cases md) (auto simp: col_base_def)
  have E: "edge_lines md G (f_dst ?f) (f_v_fold ?f) = drop 1 ?x" using md by auto
  have cl: "cur_lines md G ?f = drop (nat (f_col ?f)) ?x"
    using s(2) by (simp add: cur_lines_def E b)
  have k: "nat (f_col ?f) < length ?x" using ok(2) cl by simp
  define a where "a = ?x ! nat (f_col ?f)"
  have "a \<in> set (cur_lines md G ?f)" using k by (simp add: cl a_def drop_Suc_nth)
  from cur_line_ok [OF assms(2) ok(1) this] fetch_line_spec [OF inv, of a] obtain h fr1 c1 m1 where
    f: "fetch_line G a (fr, c, m) = Inr (h, fr1, c1, m1)" "fetch_inv G P (fr1, c1, m1)" "fetched G m m1" by blast
  have i1: "i < length (frs fr1)" "i < length (fq fr1)" using i fetch_line_eff [OF f(1)] by auto
  from queue_ops_total(1) [OF this, of a] obtain fr2 where
    p: "push_fq fr1 i a = Inr fr2" "requested fr2 = requested fr1" "i < length (frs fr2)" "i < length (fq fr2)"
    using i1 by auto
  from queue_ops_total(2) [OF p(3,4), of "f_col ?f + 1"] queue_ops_total(3) [OF p(3,4)] obtain fr3 fr4 where
    e: "set_col fr2 i (f_col ?f + 1) = Inr fr3" "requested fr3 = requested fr2"
    "end_edge fr2 i = Inr fr4" "requested fr4 = requested fr2" by blast
  have "fetch_inv G P (fr3, c1, m1)" "fetch_inv G P (fr4, c1, m1)"
    using e p(2) f(2) fetch_inv_cong by metis+
  moreover have "read_csr_line G i (fr, c, m) =
      Inr (if f_col ?f \<noteq> int (length ?x) - 1 then fr3 else fr4, c1, m1)"
  proof -
    have "vgeti (x_to_addr G) (f_dst ?f) = Inr ?x" "vgeti ?x (f_col ?f) = Inr a"
      using ok(1) k s(2) by (auto simp: lines_ok_def a_def)
    then show ?thesis using f(1) p(1) e(1,3) i s(1) by (simp add: read_csr_line_def Let_def)
  qed
  ultimately show ?thesis using f(3) by auto
qed

lemma read_csr_total:
  assumes inv: "fetch_inv G P (fr, c, m)" and st: "stat_ok md G (frs fr ! i)" "\<not> pq_read_need (frs fr ! i)"
    and ad: "addr_ok G" and b: "col_base md = 1" and i: "i < length (frs fr)" "i < length (fq fr)"
  shows "\<exists>fr' c' m'. read_csr G i (fr, c, m) = Inr (fr', c', m') \<and> fetch_inv G P (fr', c', m') \<and> fetched G m m'"
proof -
  let ?s = "frs fr ! i"
  have ok: "lines_ok md G (f_dst (cur_f ?s)) (f_v_fold (cur_f ?s))" "0 \<le> f_col (cur_f ?s)"
    "cur_lines md G (cur_f ?s) \<noteq> []"
    using st by (auto simp: stat_ok_def)
  show ?thesis
  proof (cases "f_col (cur_f ?s) = 0")
    case False
    with read_csr_line_total [OF inv ad b refl _ ok(1,3) i] ok(2) i show ?thesis
      by (auto simp: read_csr_def Let_def)
  next
    case True
    let ?x = "x_to_addr G ! nat (f_dst (cur_f ?s))"
    have x: "vgeti (x_to_addr G) (f_dst (cur_f ?s)) = Inr ?x" "vgeti ?x 0 = Inr (?x ! 0)"
      using ok(1) b by (auto simp: lines_ok_def col_base_def split: if_splits)
    from header_line_ok [OF ad ok(1) b] fetch_line_spec [OF inv, of "?x ! 0"] obtain h fr1 c1 m1 where
      f: "fetch_line G (?x ! 0) (fr, c, m) = Inr (h, fr1, c1, m1)" "fetch_inv G P (fr1, c1, m1)" "fetched G m m1"
        "h \<longrightarrow> m1 = m" by blast
    obtain R where R: "fr1 = fr\<lparr>requested := R\<rparr>" using fetch_line_eff [OF f(1)] by blast
    let ?t = "?s\<lparr>cur_f := (cur_f ?s)\<lparr>f_col := 1\<rparr>\<rparr>"
    define fr2 where "fr2 = fr1\<lparr>frs := (frs fr1)[i := ?t]\<rparr>"
    have s2: "set_col fr1 i 1 = Inr fr2" using i by (auto simp: set_col_eq R fr2_def)
    have i2: "?t = frs fr2 ! i" "i < length (frs fr2)" "i < length (fq fr2)" using i by (auto simp: fr2_def R)
    have inv2: "fetch_inv G P (fr2, c1, m1)" 
      by (rule fetch_inv_cong [THEN iffD2, OF _ f(2)]) (simp add: fr2_def)
    have "cur_lines md G (cur_f ?t) \<noteq> []" using ok(3) True b by (simp add: cur_lines_def)
    with read_csr_line_total [OF inv2 ad b i2(1) _ _ _ i2(2,3)] ok(1) obtain fr' c' m' where
      "read_csr_line G i (fr2, c1, m1) = Inr (fr', c', m')" "fetch_inv G P (fr', c', m')" "fetched G m1 m'" by auto
    with x f s2 True i show ?thesis by (cases h) (auto simp: read_csr_def Let_def)
  qed
qed

lemma read_mode_total:
  assumes "fetch_inv G P (fr, c, m)" and "stat_ok md G (frs fr ! i)" and "\<not> pq_read_need (frs fr ! i)"
    and "addr_ok G" and "i < length (frs fr)" and "i < length (fq fr)"
  shows "\<exists>fr' c' m'. read_mode md G i (fr, c, m) = Inr (fr', c', m') \<and> fetch_inv G P (fr', c', m') \<and> fetched G m m'"
  using assms read_mat_total read_x_cmp_total read_csr_total [of G P fr c m md i]
  by (cases md) (simp_all add: read_x_full_cmp_def col_base_def)

text \<open>The queues keep their shape.\<close>

lemma queues_ok_upd:
  assumes "queues_ok G fr" and "i < length (fq fr) \<Longrightarrow> q_ok G (fq fr ! i) \<Longrightarrow> q_ok G q"
    and "fq fr' = (fq fr)[i := q]"
  shows "queues_ok G fr'"
  unfolding queues_ok_def
proof (intro allI impI)
  fix j assume "j < length (fq fr')"
  then show "q_ok G (fq fr' ! j)"
    using assms by (cases "i = j") (auto simp: queues_ok_def nth_list_update)
qed

lemma read_push_queues:
  assumes "read_push md G i fr fr'" and "queues_ok G fr" and "addr_ok G" and "stat_ok md G (frs fr ! i)"
    and "\<not> pq_read_need (frs fr ! i)"
  shows "queues_ok G fr'"
proof -
  have l: "lines_ok md G (f_dst (cur_f (frs fr ! i))) (f_v_fold (cur_f (frs fr ! i)))"
    using assms(4,5) by (simp add: stat_ok_def)
  note L = cur_line_ok [OF assms(3) l]
  from assms(1) show ?thesis
  proof cases
    case (more t a s nc R)
    then have "t = 1 \<or> line_ok G t" using L by auto
    then show ?thesis using more by (intro queues_ok_upd [OF assms(2)]) (auto simp: q_ok_push)
  next
    case (final t a s F R)
    then have "t = 1 \<or> line_ok G t" using L by auto
    then show ?thesis using final
      by (intro queues_ok_upd [OF assms(2), of i "fq fr ! i @ t # (if f_is_last (cur_f s) then [0] else [])"])
        (auto simp: q_ok_push q_ok_push_end)
  qed
qed

section \<open>The operations\<close>

lemma Consume_total:
  assumes "fr_ok md G fr" and "i < engines G" and "pq fr ! i \<noteq> []"
  shows "\<exists>fr'. ConsumePendingQ fr i = Inr fr' \<and> requested fr' = requested fr \<and> fq fr' = fq fr"
proof -
  obtain ei es where "pq fr ! i = ei # es" using assms(3) by (cases "pq fr ! i") auto
  then show ?thesis using assms(1,2) by (simp add: ConsumePendingQ_def fr_ok_def set_stat_def)
qed

lemma read_keeps_queues:
  assumes "read_mode md G i (fr, c, m) = Inr (fr', c', m')" and "queues_ok G fr" and "addr_ok G"
    and "stat_ok md G (frs fr ! i)" and "\<not> pq_read_need (frs fr ! i)"
  shows "queues_ok G fr'"
  using read_mode_eff [OF assms(1,4,5)] read_push_queues [OF _ assms(2-5)] assms(2)
  by (auto simp: read_eff_def queues_ok_def)

lemma ReadNext_total:
  assumes ok: "fr_ok md G fr" and q: "queues_ok G fr" and ad: "addr_ok G"
    and inv: "fetch_inv G P (fr, c, m)" and i: "i < engines G"
  shows "\<exists>fr' c' m'. ReadNext G i (fr, c, m) = Inr (fr', c', m') \<and> fetch_inv G P (fr', c', m') \<and>
    queues_ok G fr' \<and> fetched G m m'"
proof -
  have l: "i < length (frs fr)" "i < length (fq fr)" "i < length (pq fr)" "fr_mode fr = md"
    "stat_ok md G (frs fr ! i)" using ok i by (auto simp: fr_ok_def)
  consider "256 \<le> length (fq fr ! i) \<or> \<not> WillAcceptTransaction m \<or> pq_read_need (frs fr ! i) \<and> pq fr ! i = []"
    | "\<not> (256 \<le> length (fq fr ! i) \<or> \<not> WillAcceptTransaction m)" "\<not> pq_read_need (frs fr ! i)"
    | "\<not> (256 \<le> length (fq fr ! i) \<or> \<not> WillAcceptTransaction m)" "pq_read_need (frs fr ! i)" "pq fr ! i \<noteq> []"
    by blast
  then show ?thesis
  proof cases
    case 1
    then show ?thesis using l inv q by (auto simp: ReadNext_def fetched_def)
  next
    case 2
    from read_mode_total [OF inv l(5) 2(2) ad l(1,2)] read_keeps_queues [OF _ q ad l(5) 2(2)] obtain fr' c' m' where
      "read_mode md G i (fr, c, m) = Inr (fr', c', m')" "fetch_inv G P (fr', c', m')" "queues_ok G fr'" "fetched G m m'" by blast
    then show ?thesis using 2 l by (simp add: ReadNext_def)
  next
    case 3
    from Consume_total [OF ok i 3(3)] obtain fr1 where
      c: "ConsumePendingQ fr i = Inr fr1" "requested fr1 = requested fr" "fq fr1 = fq fr" by blast
    note C = ConsumePendingQ_spec [OF c(1) ok 3(2)]
    have l1: "i < length (frs fr1)" "i < length (fq fr1)" "stat_ok md G (frs fr1 ! i)" "\<not> pq_read_need (frs fr1 ! i)"
      using C i by (auto simp: fr_ok_def)
    have inv1: "fetch_inv G P (fr1, c, m)" by (rule fetch_inv_cong [THEN iffD2, OF c(2) inv])
    have q1: "queues_ok G fr1" using q c(3) by (simp add: queues_ok_def)
    from read_mode_total [OF inv1 l1(3,4) ad l1(1,2)] read_keeps_queues [OF _ q1 ad l1(3,4)] obtain fr' c' m' where
      "read_mode md G i (fr1, c, m) = Inr (fr', c', m')" "fetch_inv G P (fr', c', m')" "queues_ok G fr'" "fetched G m m'" by blast
    then show ?thesis using 3 l c(1) by (simp add: ReadNext_def)
  qed
qed

lemma q_ok_head: "q_ok G (t # ts) \<Longrightarrow> t = 1 \<or> line_ok G t"
  by (cases ts) auto

lemma q_ok_pop: "q_ok G (t # ts) \<Longrightarrow> pop_line fr i ts = (p, fr') \<Longrightarrow>
    p \<noteq> -1 \<and> requested fr' = requested fr \<and> (\<exists>q. fq fr' = (fq fr)[i := q] \<and> q_ok G q)"
  by (cases ts) (auto simp: pop_line_def split: if_splits)

lemma PassFtoSIMD_total:
  assumes ok: "fr_ok md G fr" and q: "queues_ok G fr" and inv: "fetch_inv G P (fr, c, m)" and i: "i < engines G"
  shows "\<exists>p fr' c' m'. PassFtoSIMD G i (fr, c, m) = Inr (p, fr', c', m') \<and> fetch_inv G P (fr', c', m') \<and>
    queues_ok G fr' \<and> fetched G m m' \<and> (p = -1 \<and> fq fr ! i \<noteq> [] \<longrightarrow> hd (fq fr' ! i) \<in> requested fr')"
proof (cases "fq fr ! i")
  case Nil
  then show ?thesis using ok i inv q by (auto simp: PassFtoSIMD_def fr_ok_def fetched_def)
next
  case (Cons t ts)
  have l: "i < length (fq fr)" using ok i by (simp add: fr_ok_def)
  have qt: "q_ok G (t # ts)" using q l Cons by (auto simp: queues_ok_def)
  have refl: "fetched G m m" by (simp add: fetched_def)
  from q_ok_head [OF qt] fetch_line_spec [OF inv, of t] inv refl obtain h fr1 c1 m1 where
    f: "(if t = 1 then Inr (True, fr, c, m) else fetch_line G t (fr, c, m)) = Inr (h, fr1, c1, m1)"
    "fetch_inv G P (fr1, c1, m1)" "fq fr1 = fq fr" "h \<or> t \<in> requested fr1" "fetched G m m1"
    by (cases "t = 1") auto
  have q1: "queues_ok G fr1" using q f(3) by (simp add: queues_ok_def)
  show ?thesis
  proof (cases h)
    case False
    then have "PassFtoSIMD G i (fr, c, m) = Inr (-1, fr1, c1, m1)" using l Cons f(1) by (simp add: PassFtoSIMD_def)
    then show ?thesis using False f q1 Cons by auto
  next
    case True
    obtain p fr' where pl: "pop_line fr1 i ts = (p, fr')" by (cases "pop_line fr1 i ts")
    note Q = q_ok_pop [OF qt pl]
    then have "queues_ok G fr'" using queues_ok_upd [OF q1] by blast
    moreover have "fetch_inv G P (fr', c1, m1)" using Q by (intro fetch_inv_cong [THEN iffD2, OF _ f(2)]) simp
    moreover have "PassFtoSIMD G i (fr, c, m) = Inr (p, fr', c1, m1)"
      using True l Cons f(1) pl by (simp add: PassFtoSIMD_def)
    ultimately show ?thesis using Q f(5) by auto
  qed
qed

text \<open>
  C7. Fetch discipline: on a well-formed address table, as long as the requested lines are exactly
  the feature reads on their way and none of them is cached, no call of the feature reader fails (no
  access outside an array or the cache), each keeps that state of affairs (so a line is never read
  twice at a time and never inserted twice into the cache), receiving takes every arrived line off
  the request list, and a SIMD core that has to wait waits for a line that is on its way.
\<close>

theorem fetch_discipline:
  assumes "fr_ok md G fr" and "queues_ok G fr" and "addr_ok G" and "fetch_inv G P (fr, c, m)"
    and "i < engines G"
  shows "(\<exists>fr' c' m'. ReadNext G i (fr, c, m) = Inr (fr', c', m') \<and> fetch_inv G P (fr', c', m') \<and> queues_ok G fr' \<and>
       fetched G m m') \<and>
    (\<exists>p fr' c' m'. PassFtoSIMD G i (fr, c, m) = Inr (p, fr', c', m') \<and> fetch_inv G P (fr', c', m') \<and> queues_ok G fr' \<and>
       fetched G m m' \<and> (p = -1 \<and> fq fr ! i \<noteq> [] \<longrightarrow> hd (fq fr' ! i) \<in> requested fr')) \<and>
    (\<exists>fr' c'. FeatureReceive G (fr, c, m) = Inr (fr', c', m\<lparr>mem_fq := []\<rparr>) \<and>
       fetch_inv G P (fr', c', m\<lparr>mem_fq := []\<rparr>) \<and> requested fr' = requested fr - set (mem_fq m))"
  using ReadNext_total [OF assms] PassFtoSIMD_total [OF assms(1,2,4,5)] FeatureReceive_inv [OF assms(4)] by blast

section \<open>Executing runs\<close>

text \<open>Scripts of calls; \<open>FMem\<close> is the arrival of feature lines from memory.\<close>

datatype fr_call = FEnter EdgeInfo | FRead nat | FPass nat | FRecv | FMem "u64 list"

fun fr_call1 :: "sim_env \<Rightarrow> fr_call \<Rightarrow>
    (feature_reader \<times> cache \<times> 'd memory) \<times> (nat \<Rightarrow> EdgeInfo list) \<times> (nat \<Rightarrow> int list) \<Rightarrow>
    ((feature_reader \<times> cache \<times> 'd memory) \<times> (nat \<Rightarrow> EdgeInfo list) \<times> (nat \<Rightarrow> int list)) res" where
  "fr_call1 G (FEnter ei) ((fr, c, m), ent, out) =
     res_bind (EnterFtoList fr ei) (\<lambda>fr'. Inr ((fr', c, m), ent(ei_id ei := ent (ei_id ei) @ [ei]), out))"
| "fr_call1 G (FRead i) (s, ent, out) = res_bind (ReadNext G i s) (\<lambda>s'. Inr (s', ent, out))"
| "fr_call1 G (FPass i) (s, ent, out) = res_bind (PassFtoSIMD G i s) (\<lambda>(p, s').
     Inr (s', ent, if p = -1 then out else out(i := out i @ [p])))"
| "fr_call1 G FRecv (s, ent, out) = res_bind (FeatureReceive G s) (\<lambda>s'. Inr (s', ent, out))"
| "fr_call1 G (FMem as) ((fr, c, m), ent, out) = Inr ((fr, c, m\<lparr>mem_fq := mem_fq m @ as\<rparr>), ent, out)"

fun fr_call_ok :: "sim_env \<Rightarrow> F_MODE \<Rightarrow> fr_call \<Rightarrow> bool" where
  "fr_call_ok G md (FEnter ei) = lines_ok md G (dst ei) (v_fold ei)"
| "fr_call_ok G md (FRead i) = (i < engines G)"
| "fr_call_ok G md (FPass i) = (i < engines G)"
| "fr_call_ok G md FRecv = True"
| "fr_call_ok G md (FMem as) = True"

lemma fr_call1_run:
  assumes "fr_call1 G c (s, ent, out) = Inr (s', ent', out')" and "fr_run G md s ent out" and "fr_call_ok G md c"
  shows "fr_run G md s' ent' out'"
  using assms
  by (cases c) (cases s; auto split: prod.splits intro: fr_run.enter fr_run.read fr_run.pass fr_run.recv fr_run.env)+

lemma fr_fold_run:
  "res_fold (fr_call1 G) cs (s, ent, out) = Inr (s', ent', out') \<Longrightarrow> fr_run G md s ent out \<Longrightarrow>
   list_all (fr_call_ok G md) cs \<Longrightarrow> fr_run G md s' ent' out'"
proof (induction cs arbitrary: s ent out)
  case (Cons c cs)
  then obtain s1 ent1 out1 where "fr_call1 G c (s, ent, out) = Inr (s1, ent1, out1)"
    "res_fold (fr_call1 G) cs (s1, ent1, out1) = Inr (s', ent', out')" by auto
  with Cons fr_call1_run [of G c s ent out s1 ent1 out1 md] show ?case by simp
qed simp

definition fr_exec :: "sim_env \<Rightarrow> F_MODE \<Rightarrow> fr_call list \<Rightarrow>
    ((feature_reader \<times> cache \<times> unit memory) \<times> (nat \<Rightarrow> EdgeInfo list) \<times> (nat \<Rightarrow> int list)) res" where
  "fr_exec G md cs = res_fold (fr_call1 G) cs
     ((ModeChange (FeatureReader_new G) md, Cache_new (arch_info G), Memory_new G () 0), (\<lambda>_. []), (\<lambda>_. []))"

lemma fr_exec_run:
  "fr_exec G md cs = Inr (s, ent, out) \<Longrightarrow> list_all (fr_call_ok G md) cs \<Longrightarrow> fr_run G md s ent out"
  unfolding fr_exec_def using fr_fold_run fr_run.start by blast

definition demo_edge :: EdgeInfo where
  "demo_edge = \<lparr>ei_id = 0, is_last = True, dst = 2, v_fold = 1\<rparr>"

definition demo_reads :: "fr_call list" where
  "demo_reads = [FEnter demo_edge, FRead 0, FRead 0, FPass 0, FMem [1024, 1088], FRecv, FPass 0, FPass 0]"

lemma demo_lines: "edge_lines MAT env_small 2 1 = [1024, 1088]"
  by (simp add: fold_lines_def env_small_def arch_small_def eval_nat_numeral)

lemma demo_ok: "list_all (fr_call_ok env_small MAT) demo_reads"
  by (simp add: demo_reads_def demo_edge_def lines_ok_def demo_lines del: edge_lines.simps)
    (simp add: env_small_def arch_small_def)

theorem simd_signals_witness:
  "\<exists>fr c m ent out. fr_run env_small MAT (fr, c, m :: unit memory) ent out \<and> out 0 = [1, 0] \<and>
     concat (map (edge_signals MAT env_small) (ent 0)) = [1, 0]"
proof -
  have "case fr_exec env_small MAT demo_reads of Inl e \<Rightarrow> False
    | Inr ((fr, c, m), ent, out) \<Rightarrow> out 0 = [1, 0] \<and> ent 0 = [demo_edge] \<and> pq fr ! 0 = [] \<and> fq fr ! 0 = [] \<and>
        pq_read_need (frs fr ! 0)"
    by code_simp
  then obtain fr c ent out and m :: "unit memory" where
    e: "fr_exec env_small MAT demo_reads = Inr ((fr, c, m), ent, out)" "out 0 = [1, 0]"
      "pq fr ! 0 = []" "fq fr ! 0 = []" "pq_read_need (frs fr ! 0)"
    by (auto split: sum.splits prod.splits)
  note r = fr_exec_run [OF e(1) demo_ok]
  have "0 < engines env_small" by (simp add: env_small_def arch_small_def)
  from simd_signals [OF r this] e have "concat (map (edge_signals MAT env_small) (ent 0)) = [1, 0]" by auto
  with r e(2) show ?thesis by blast
qed

theorem fetch_discipline_witness:
  "\<exists>p fr' c' m'. PassFtoSIMD env_small 0
     (ModeChange (FeatureReader_new env_small) MAT, Cache_new arch_small, Memory_new env_small () 0) =
       Inr (p, fr', c', m') \<and> fetch_inv env_small {#} (fr', c', m')"
proof -
  let ?fr = "ModeChange (FeatureReader_new env_small) MAT"
  have a: "arch_info env_small = arch_small" by (simp add: env_small_def)
  have e: "engines env_small = 2" by (simp add: env_small_def arch_small_def)
  have "fr_ok MAT env_small ?fr" "queues_ok env_small ?fr"
    by (auto simp: fr_ok_def queues_ok_def ModeChange_def FeatureReader_new_def stat_ok_def)
  moreover have "addr_ok env_small" by (simp add: addr_ok_def env_small_def arch_small_def)
  moreover have "fetch_inv env_small {#} (?fr, Cache_new arch_small, Memory_new env_small () 0)"
    by (auto simp: fetch_inv_def ModeChange_def FeatureReader_new_def Memory_new_def on_the_way_def
        feature_reads_def cache_ok_def cache_inv_def cached_def Cache_new_def a arch_small_def)
  ultimately show ?thesis
    using fetch_discipline [of MAT env_small ?fr "{#}" "Cache_new arch_small" "Memory_new env_small () 0" 0] e
    by auto
qed

end
