(* ===== verification/Float32.thy ===== *)
theory Float32
  imports Complex_Main Sim_Prelude "HOL-Library.Log_Nat"
begin

text \<open>
  The simulator computes almost every block count as \<open>ceil((float)a / b)\<close> in single precision.
  This theory models the IEEE binary32 arithmetic those expressions use (conversion from \<open>int\<close>,
  division, both rounded to nearest-even with a 24-bit significand) and shows that they compute the
  exact ceiling of the quotient for the sizes below \<open>2 ^ 24\<close> (one division) and \<open>2 ^ 22\<close> (two
  divisions). Exponent overflow and subnormal numbers are left out: quotients of two \<open>int\<close>s have
  magnitudes between \<open>2 ^ -31\<close> and \<open>2 ^ 31\<close>, where neither occurs.
\<close>

section \<open>Rounding\<close>

text \<open>A nonnegative binary32 value is kept as a fraction numerator/denominator.\<close>

type_synonym ffloat = "nat \<times> nat"

definition fval :: "ffloat \<Rightarrow> real" where
  "fval x = real (fst x) / real (snd x)"

text \<open>Round the fraction \<open>n / d\<close> to the nearest integer, ties to even.\<close>

definition rne :: "nat \<Rightarrow> nat \<Rightarrow> nat" where
  "rne n d = (let q = n div d; r = n mod d
              in if 2 * r < d \<or> 2 * r = d \<and> even q then q else q + 1)"

text \<open>The fraction \<open>(n / d) * 2 powi (- k)\<close>.\<close>

definition fscale :: "nat \<Rightarrow> nat \<Rightarrow> int \<Rightarrow> nat \<times> nat" where
  "fscale n d k = (if 0 \<le> k then (n, d * 2 ^ nat k) else (n * 2 ^ nat (- k), d))"

text \<open>The exponent \<open>k\<close> for which \<open>(n / d) * 2 powi (- k)\<close> lies in \<open>[2 ^ 23, 2 ^ 24)\<close>.\<close>

definition fexp :: "nat \<Rightarrow> nat \<Rightarrow> int" where
  "fexp n d = (let k = int (floorlog 2 n) - int (floorlog 2 d) - 24; nd = fscale n d k
               in if 2 ^ 24 * snd nd \<le> fst nd then k + 1 else k)"

definition fl32 :: "ffloat \<Rightarrow> ffloat" where
  "fl32 x = (let n = fst x; d = snd x
             in if n = 0 then (0, 1)
                else let k = fexp n d; nd = fscale n d k; m = rne (fst nd) (snd nd)
                     in if 0 \<le> k then (m * 2 ^ nat k, 1) else (m, 2 ^ nat (- k)))"

definition float_of :: "nat \<Rightarrow> ffloat" where
  "float_of a = fl32 (a, 1)"

definition fdiv :: "ffloat \<Rightarrow> ffloat \<Rightarrow> ffloat" where
  "fdiv x y = fl32 (fst x * snd y, snd x * fst y)"

definition ceilf :: "ffloat \<Rightarrow> nat" where
  "ceilf x = (fst x + snd x - 1) div snd x"

definition floorf :: "ffloat \<Rightarrow> nat" where
  "floorf x = fst x div snd x"

text \<open>
  \<open>(int) ceil((float)a / b)\<close> and \<open>(int) ceil((float)a / b / c)\<close>. A zero divisor gives an infinity
  or a NaN, whose conversion to \<open>int\<close> is undefined. The sign of the quotient is handled apart, since
  rounding to nearest is symmetric.
\<close>

definition ceil_fdiv :: "int \<Rightarrow> int \<Rightarrow> int res" where
  "ceil_fdiv a b =
     (if b = 0 then Inl BadConv
      else let x = fdiv (float_of (nat \<bar>a\<bar>)) (float_of (nat \<bar>b\<bar>))
           in Inr (if (a < 0) = (b < 0) then int (ceilf x) else - int (floorf x)))"

definition ceil_fdiv2 :: "int \<Rightarrow> int \<Rightarrow> int \<Rightarrow> int res" where
  "ceil_fdiv2 a b c =
     (if b = 0 \<or> c = 0 then Inl BadConv
      else let x = fdiv (fdiv (float_of (nat \<bar>a\<bar>)) (float_of (nat \<bar>b\<bar>))) (float_of (nat \<bar>c\<bar>))
           in Inr (if ((a < 0) = (b < 0)) = (0 < c) then int (ceilf x) else - int (floorf x)))"

text \<open>The exact ceiling of a quotient of naturals.\<close>

definition ceil_div :: "int \<Rightarrow> int \<Rightarrow> int" where
  "ceil_div a b = (a + b - 1) div b"

section \<open>The rounding error\<close>

lemma rne_error:
  assumes "0 < d"
  shows "\<bar>real (rne n d) - real n / real d\<bar> \<le> 1 / 2"
proof -
  define q r where "q = n div d" and "r = n mod d"
  have n: "real n = real d * real q + real r"
    unfolding q_def r_def by (metis mult_div_mod_eq of_nat_add of_nat_mult)
  then have v: "real n / real d = real q + real r / real d"
    using assms by (simp add: add_divide_distrib)
  have r: "r < d" using assms by (simp add: r_def)
  show ?thesis
  proof (cases "2 * r < d \<or> 2 * r = d \<and> even q")
    case True
    then have "rne n d = q" by (simp add: rne_def q_def r_def Let_def)
    moreover have "real r / real d \<le> 1 / 2" using True assms by (auto simp: field_simps)
    ultimately show ?thesis using v by simp
  next
    case False
    then have "rne n d = q + 1" by (simp add: rne_def q_def r_def Let_def)
    moreover have "1 / 2 \<le> real r / real d" "real r / real d \<le> 1"
      using False assms r by (auto simp: field_simps)
    ultimately show ?thesis using v by simp
  qed
qed

lemma rne_exact: "0 < d \<Longrightarrow> d dvd n \<Longrightarrow> rne n d = n div d"
  by (auto simp: rne_def Let_def)

lemma fscale_val:
  assumes "0 < d"
  shows "real (fst (fscale n d k)) / real (snd (fscale n d k)) = real n / real d * 2 powi (- k)"
  using assms by (auto simp: fscale_def power_int_def field_simps)

lemma fscale_den_pos [simp]: "0 < d \<Longrightarrow> 0 < snd (fscale n d k)"
  by (auto simp: fscale_def)

lemma fexp_lower:
  assumes n: "0 < n" and d: "0 < d"
  shows "2 powi (23 + fexp n d) \<le> real n / real d"
proof -
  define k where "k = int (floorlog 2 n) - int (floorlog 2 d) - 24"
  define nd where "nd = fscale n d k"
  have nb: "2 ^ (floorlog 2 n - 1) \<le> n" "n < 2 ^ floorlog 2 n" "0 < floorlog 2 n"
    and db: "d < 2 ^ floorlog 2 d"
    using floorlog_bounds [of n 2] floorlog_bounds [of d 2] floorlog_eq_zero_iff [of 2 n] n d
    by auto
  have "real n \<ge> 2 powi (int (floorlog 2 n) - 1)"
    using nb by (simp add: power_int_def nat_diff_distrib flip: of_nat_power)
  moreover have "real d \<le> 2 powi (int (floorlog 2 d))"
    using db by (simp add: power_int_def flip: of_nat_power)
  ultimately have "2 powi (int (floorlog 2 n) - 1) / 2 powi (int (floorlog 2 d)) \<le> real n / real d"
    using d by (intro frac_le) auto
  then have base: "2 powi (23 + k) \<le> real n / real d"
    by (simp add: k_def power_int_diff power_int_add)
  show ?thesis
  proof (cases "2 ^ 24 * snd nd \<le> fst nd")
    case True
    then have "fexp n d = k + 1" by (simp add: fexp_def k_def nd_def Let_def)
    moreover have "2 ^ 24 \<le> real (fst nd) / real (snd nd)"
    proof -
      have "real (2 ^ 24 * snd nd) \<le> real (fst nd)" using True by (simp only: of_nat_le_iff)
      then show ?thesis using d by (simp add: nd_def field_simps)
    qed
    then have "2 ^ 24 \<le> real n / real d * 2 powi (- k)"
      using fscale_val [OF d, of n k] by (simp add: nd_def)
    then have "2 ^ 24 * 2 powi k \<le> real n / real d * 2 powi (- k) * 2 powi k"
      by (intro mult_right_mono) auto
    then have "2 powi (24 + k) \<le> real n / real d * (2 powi (- k) * 2 powi k)"
      by (simp add: power_int_add mult.assoc)
    then have "2 powi (24 + k) \<le> real n / real d"
      by (simp only: power_int_minus) simp
    ultimately show ?thesis by (simp add: add.commute)
  next
    case False
    then have "fexp n d = k" by (simp add: fexp_def k_def nd_def Let_def)
    with base show ?thesis by simp
  qed
qed

lemma fl32_val:
  assumes "0 < n" and "0 < d"
  shows "fval (fl32 (n, d)) =
    real (rne (fst (fscale n d (fexp n d))) (snd (fscale n d (fexp n d)))) * 2 powi (fexp n d)"
  using assms by (auto simp: fl32_def fval_def Let_def power_int_def field_simps)

lemma fl32_den_pos [simp]: "0 < snd (fl32 x)"
  by (auto simp: fl32_def Let_def)

text \<open>The relative error of a rounding is at most \<open>2 ^ -24\<close>.\<close>

lemma fl32_error:
  assumes d: "0 < d"
  shows "\<bar>fval (fl32 (n, d)) - real n / real d\<bar> \<le> real n / real d / 2 ^ 24"
proof (cases "n = 0")
  case True
  then show ?thesis by (simp add: fl32_def fval_def)
next
  case False
  define k where "k = fexp n d"
  define nd where "nd = fscale n d k"
  have nz: "0 < n" using False by simp
  have p: "(0::real) < 2 powi k" by simp
  have v: "real n / real d = real (fst nd) / real (snd nd) * 2 powi k"
    using fscale_val [OF d, of n k] by (simp add: nd_def power_int_minus)
  have "\<bar>fval (fl32 (n, d)) - real n / real d\<bar>
      = \<bar>real (rne (fst nd) (snd nd)) - real (fst nd) / real (snd nd)\<bar> * 2 powi k"
  proof -
    have "fval (fl32 (n, d)) - real n / real d
        = (real (rne (fst nd) (snd nd)) - real (fst nd) / real (snd nd)) * 2 powi k"
      using fl32_val [OF nz d] v by (simp add: k_def nd_def left_diff_distrib)
    with p show ?thesis by (simp add: abs_mult)
  qed
  also have "\<dots> \<le> 1 / 2 * 2 powi k"
    using rne_error [of "snd nd" "fst nd"] d p by (intro mult_right_mono) (auto simp: nd_def)
  also have "\<dots> = 2 powi (23 + k) / 2 ^ 24" by (simp add: power_int_add)
  also have "\<dots> \<le> real n / real d / 2 ^ 24"
    using fexp_lower [OF nz d] by (simp add: k_def divide_right_mono)
  finally show ?thesis .
qed

text \<open>Integers below \<open>2 ^ 24\<close> are exact.\<close>

lemma fl32_exact:
  assumes d: "0 < d" and dv: "d dvd n" and lt: "n div d < 2 ^ 24"
  shows "fval (fl32 (n, d)) = real n / real d"
proof (cases "n = 0")
  case True
  then show ?thesis by (simp add: fl32_def fval_def)
next
  case False
  define k where "k = fexp n d"
  have nz: "0 < n" using False by simp
  have "real n / real d = real (n div d)" using dv by (simp add: real_of_nat_div)
  also have "\<dots> < 2 ^ 24" using lt by (metis of_nat_less_iff of_nat_numeral of_nat_power)
  finally have "(2::real) powi (23 + k) < 2 powi 24"
    using fexp_lower [OF nz d] by (simp add: k_def)
  then have "23 + k < 24"
    using power_int_increasing [of 24 "23 + k" "2::real"] by linarith
  then have k: "k \<le> 0" by simp
  have "fval (fl32 (n, d)) = real (n * 2 ^ nat (- k) div d) * 2 powi k"
    using k fl32_val [OF nz d] rne_exact [OF d, of "n * 2 ^ nat (- k)"] rne_exact [OF d, of n] dv d
    by (cases "k = 0") (auto simp: k_def [symmetric] fscale_def)
  also have "\<dots> = real n / real d"
    using k dv d by (auto simp: real_of_nat_div power_int_def field_simps)
  finally show ?thesis .
qed

section \<open>Ceilings of rounded quotients\<close>

lemma ceil_eq:
  fixes w :: real
  assumes b: "0 < b" and err: "\<bar>w - real a / real b\<bar> < 1 / real b"
    and ex: "b dvd a \<Longrightarrow> w = real a / real b"
  shows "\<lceil>w\<rceil> = int ((a + b - 1) div b)"
proof (cases "b dvd a")
  case True
  then obtain q where "a = b * q" ..
  moreover have "(b * q + b - 1) div b = q"
  proof -
    have "b * q + b - 1 = (b - 1) + b * q" using b by simp
    then show ?thesis using b by (simp only: div_mult_self2) simp
  qed
  ultimately show ?thesis using ex b by simp
next
  case False
  define q r where "q = a div b" and "r = a mod b"
  have a: "a = b * q + r" and r: "0 < r" "r < b"
    using False b by (auto simp: q_def r_def mod_greater_zero_iff_not_dvd)
  have "a + b - 1 = b * (q + 1) + (r - 1)" using a r by (simp add: algebra_simps)
  then have ad: "(a + b - 1) div b = q + 1" using r b by (simp add: div_nat_eqI)
  have v: "real a / real b = real q + real r / real b"
    using a b by (simp add: add_divide_distrib)
  have "1 \<le> real r" "real r \<le> real b - 1" using r by linarith+
  then have "1 / real b \<le> real r / real b" "real r / real b \<le> 1 - 1 / real b"
    using b by (auto simp: field_simps)
  with v err have "real q < w" "w \<le> real q + 1" by linarith+
  then have "\<lceil>w\<rceil> = int q + 1" by (intro ceiling_unique) auto
  then show ?thesis using ad by simp
qed

lemma ceilf_val:
  assumes "0 < snd x"
  shows "int (ceilf x) = \<lceil>fval x\<rceil>"
  using ceil_eq [OF assms, of "fval x" "fst x"] assms by (simp add: ceilf_def fval_def)

lemma fval_float_of: "a < 2 ^ 24 \<Longrightarrow> fval (float_of a) = real a"
  using fl32_exact [of 1 a] by (simp add: float_of_def)

lemma float_of_den [simp]: "0 < snd (float_of a)"
  by (simp add: float_of_def)

lemma fdiv_den [simp]: "0 < snd (fdiv x y)"
  by (simp add: fdiv_def)

lemma float_of_num_pos: "0 < a \<Longrightarrow> a < 2 ^ 24 \<Longrightarrow> 0 < fst (float_of a)"
  using fval_float_of [of a] by (auto simp: fval_def intro: Nat.gr0I)

lemma frac_val:
  "real (fst x * snd y) / real (snd x * fst y) = fval x / fval y"
  by (simp add: fval_def)

lemma fdiv_error:
  assumes "0 < snd x" and "0 < fst y"
  shows "\<bar>fval (fdiv x y) - fval x / fval y\<bar> \<le> fval x / fval y / 2 ^ 24"
  using fl32_error [of "snd x * fst y" "fst x * snd y"] assms
  unfolding fdiv_def frac_val by simp

lemma fdiv_exact:
  assumes "0 < snd x" and "0 < fst y" and "fval x / fval y = real q" and "q < 2 ^ 24"
  shows "fval (fdiv x y) = real q"
proof -
  let ?n = "fst x * snd y" and ?d = "snd x * fst y"
  have d: "0 < ?d" using assms by simp
  have "real ?n = real (q * ?d)"
    using assms(3) d frac_val [of x y] by (simp add: field_simps)
  then have "?n = q * ?d" by (simp only: of_nat_eq_iff)
  then have "?d dvd ?n" "?n div ?d = q" using d by auto
  then have "fval (fl32 (?n, ?d)) = real ?n / real ?d" using fl32_exact [OF d] assms by blast
  then show ?thesis unfolding fdiv_def frac_val using assms(3) by simp
qed

lemma ceilf_fdiv:
  assumes a: "a < 2 ^ 24" and b: "0 < b" "b < 2 ^ 24"
  shows "ceilf (fdiv (float_of a) (float_of b)) = (a + b - 1) div b"
proof -
  let ?x = "float_of a" and ?y = "float_of b"
  note vs = fval_float_of [OF a] fval_float_of [OF b(2)]
  have y: "0 < fst ?y" using b by (rule float_of_num_pos)
  have "real a / 2 ^ 24 < 1" using a by (simp add: field_simps)
  then have "real a / real b / 2 ^ 24 < 1 / real b" using b by (simp add: field_simps)
  then have e: "\<bar>fval (fdiv ?x ?y) - real a / real b\<bar> < 1 / real b"
    using fdiv_error [of ?x ?y] y by (simp add: vs)
  have ex: "fval (fdiv ?x ?y) = real a / real b" if dv: "b dvd a"
  proof -
    obtain q where q: "a = b * q" using dv by (rule dvdE)
    have "q \<le> b * q" using b by simp
    then have "q < 2 ^ 24" using a q by linarith
    moreover have "real a / real b = real q" using q b by simp
    ultimately show ?thesis using fdiv_exact [of ?x ?y q] y by (simp add: vs)
  qed
  have "int (ceilf (fdiv ?x ?y)) = int ((a + b - 1) div b)"
    using ceil_eq [OF b(1) e ex] by (simp add: ceilf_val)
  then show ?thesis by linarith
qed

lemma ceilf_fdiv2:
  assumes a: "a < 2 ^ 22" and b: "0 < b" "b < 2 ^ 24" and c: "0 < c" "c < 2 ^ 24"
  shows "ceilf (fdiv (fdiv (float_of a) (float_of b)) (float_of c)) = (a + b * c - 1) div (b * c)"
proof -
  let ?x = "float_of a" and ?y = "float_of b" and ?z = "float_of c"
  let ?u = "fdiv ?x ?y"
  define v where "v = real a / (real b * real c)"
  define t where "t = fval ?u / real c"
  have a24: "a < 2 ^ 24" using a by simp
  note vs = fval_float_of [OF a24] fval_float_of [OF b(2)] fval_float_of [OF c(2)]
  have y: "0 < fst ?y" "0 < fst ?z" using b c by (auto intro: float_of_num_pos)
  have bc: "0 < b * c" using b c by simp
  have e1: "\<bar>fval ?u - real a / real b\<bar> \<le> real a / real b / 2 ^ 24"
    using fdiv_error [of ?x ?y] y by (simp add: vs)
  have "\<bar>t - v\<bar> = \<bar>fval ?u - real a / real b\<bar> / real c"
  proof -
    have "t - v = (fval ?u - real a / real b) / real c"
      by (simp add: t_def v_def diff_divide_distrib)
    then show ?thesis by simp
  qed
  also have "\<dots> \<le> real a / real b / 2 ^ 24 / real c"
    using e1 c by (intro divide_right_mono) auto
  finally have e1c: "\<bar>t - v\<bar> \<le> v / 2 ^ 24" by (simp add: v_def field_simps)
  have v0: "0 \<le> v" by (simp add: v_def)
  have "v / 2 ^ 24 \<le> v" using v0 by (simp add: field_simps)
  then have u: "t \<le> 2 * v" using e1c by linarith
  have e2: "\<bar>fval (fdiv ?u ?z) - t\<bar> \<le> t / 2 ^ 24"
    using fdiv_error [of ?u ?z] y by (simp add: vs t_def)
  have "\<bar>fval (fdiv ?u ?z) - v\<bar> \<le> v / 2 ^ 24 + 2 * v / 2 ^ 24"
  proof -
    have "t / 2 ^ 24 \<le> 2 * v / 2 ^ 24" using u by (intro divide_right_mono) auto
    then show ?thesis using e1c e2 by linarith
  qed
  also have "\<dots> \<le> v / 2 ^ 22" using v0 by simp
  also have "\<dots> < 1 / (real b * real c)"
  proof -
    have "real a / 2 ^ 22 < 1" using a by (simp add: field_simps)
    then show ?thesis using b c by (simp add: v_def field_simps)
  qed
  finally have e: "\<bar>fval (fdiv ?u ?z) - real a / real (b * c)\<bar> < 1 / real (b * c)"
    by (simp add: v_def)
  have ex: "fval (fdiv ?u ?z) = real a / real (b * c)" if dv: "b * c dvd a"
  proof -
    obtain q where q: "a = b * c * q" using dv by (rule dvdE)
    have le: "c * q \<le> b * (c * q)" "q \<le> c * q" using b c by simp_all
    have "b * (c * q) < 2 ^ 24" using a24 q by (simp add: mult.assoc)
    with le have cq: "c * q < 2 ^ 24" "q < 2 ^ 24" by linarith+
    have "real a / real b = real (c * q)" using q b by simp
    then have u: "fval ?u = real (c * q)"
      using fdiv_exact [of ?x ?y "c * q"] y cq by (simp add: vs)
    have "real a / real (b * c) = real q" using q b c by simp
    then show ?thesis using fdiv_exact [of ?u ?z q] y c cq u by (simp add: vs)
  qed
  have "int (ceilf (fdiv ?u ?z)) = int ((a + b * c - 1) div (b * c))"
    using ceil_eq [OF bc e ex] by (simp add: ceilf_val)
  then show ?thesis by linarith
qed

lemma nat_ceil_div:
  assumes "0 \<le> a" and "0 < b"
  shows "int ((nat a + nat b - 1) div nat b) = ceil_div a b"
proof -
  have "int (nat a + nat b - 1) = a + b - 1" using assms by (simp add: of_nat_diff)
  then show ?thesis using assms by (simp add: ceil_div_def zdiv_int)
qed

lemma ceil_fdiv_exact:
  assumes "0 \<le> a" and "a < 2 ^ 24" and "0 < b" and "b < 2 ^ 24"
  shows "ceil_fdiv a b = Inr (ceil_div a b)"
proof -
  have "ceilf (fdiv (float_of (nat a)) (float_of (nat b))) = (nat a + nat b - 1) div nat b"
    using assms by (intro ceilf_fdiv) (auto simp: nat_less_iff)
  then show ?thesis using assms nat_ceil_div [of a b] by (simp add: ceil_fdiv_def Let_def)
qed

lemma ceil_fdiv2_exact:
  assumes "0 \<le> a" and "a < 2 ^ 22" and "0 < b" and "b < 2 ^ 24" and "0 < c" and "c < 2 ^ 24"
  shows "ceil_fdiv2 a b c = Inr (ceil_div a (b * c))"
proof -
  have "ceilf (fdiv (fdiv (float_of (nat a)) (float_of (nat b))) (float_of (nat c)))
      = (nat a + nat b * nat c - 1) div (nat b * nat c)"
    using assms by (intro ceilf_fdiv2) (auto simp: nat_less_iff)
  then show ?thesis
    using assms nat_ceil_div [of a "b * c"] by (simp add: ceil_fdiv2_def Let_def nat_mult_distrib)
qed

section \<open>Facts on exact ceilings\<close>

lemma ceil_div_upper:
  assumes "0 < b"
  shows "a \<le> ceil_div a b * b"
proof -
  have "b * ((a + b - 1) div b) + (a + b - 1) mod b = a + b - 1" by simp
  moreover have "(a + b - 1) mod b < b" using assms by simp
  ultimately have "a \<le> b * ((a + b - 1) div b)" by linarith
  then show ?thesis by (simp add: ceil_div_def mult.commute)
qed

lemma ceil_div_lower:
  assumes "0 < b"
  shows "(ceil_div a b - 1) * b < a"
proof -
  have "b * ((a + b - 1) div b) + (a + b - 1) mod b = a + b - 1" by simp
  moreover have "0 \<le> (a + b - 1) mod b" using assms by simp
  ultimately have "b * ((a + b - 1) div b) < a + b" by linarith
  then show ?thesis by (simp add: ceil_div_def algebra_simps)
qed

lemma ceil_div_pos: "0 < a \<Longrightarrow> 0 < b \<Longrightarrow> 0 < ceil_div a b"
  using ceil_div_upper [of b a] by (metis less_le_trans linorder_not_less mult_nonpos_nonneg not_less_iff_gr_or_eq order.strict_implies_order)

lemma ceil_div_zero [simp]: "0 < b \<Longrightarrow> ceil_div 0 b = 0"
  by (simp add: ceil_div_def)

text \<open>For evaluation, the exact ceiling where the float computation is known to give it.\<close>

lemma ceil_fdiv_code [code]:
  "ceil_fdiv a b =
     (if 0 \<le> a \<and> a < 2 ^ 24 \<and> 0 < b \<and> b < 2 ^ 24 then Inr (ceil_div a b)
      else if b = 0 then Inl BadConv
      else let x = fdiv (float_of (nat \<bar>a\<bar>)) (float_of (nat \<bar>b\<bar>))
           in Inr (if (a < 0) = (b < 0) then int (ceilf x) else - int (floorf x)))"
  using ceil_fdiv_exact [of a b] by (auto simp: ceil_fdiv_def)

lemma ceil_fdiv2_code [code]:
  "ceil_fdiv2 a b c =
     (if 0 \<le> a \<and> a < 2 ^ 22 \<and> 0 < b \<and> b < 2 ^ 24 \<and> 0 < c \<and> c < 2 ^ 24 then Inr (ceil_div a (b * c))
      else if b = 0 \<or> c = 0 then Inl BadConv
      else let x = fdiv (fdiv (float_of (nat \<bar>a\<bar>)) (float_of (nat \<bar>b\<bar>))) (float_of (nat \<bar>c\<bar>))
           in Inr (if ((a < 0) = (b < 0)) = (0 < c) then int (ceilf x) else - int (floorf x)))"
  using ceil_fdiv2_exact [of a b c] by (auto simp: ceil_fdiv2_def)

section \<open>Where the ceilings are exact, and where they are not\<close>

text \<open>
  C24. The float ceilings are the integer ceilings: below \<open>2 ^ 24\<close> (one division) and \<open>2 ^ 22\<close> (two
  divisions) the rounding of the single-precision division never changes the block count.
\<close>

theorem float_ceilings:
  assumes "0 \<le> a" and "a < 2 ^ 22" and "0 < b" and "b < 2 ^ 24" and "0 < c" and "c < 2 ^ 24"
  shows "\<exists>q r. ceil_fdiv a b = Inr q \<and> (q - 1) * b < a \<and> a \<le> q * b \<and>
     ceil_fdiv2 a b c = Inr r \<and> (r - 1) * (b * c) < a \<and> a \<le> r * (b * c)"
  using assms ceil_div_lower [of b a] ceil_div_upper [of b a] ceil_div_lower [of "b * c" a] ceil_div_upper [of "b * c" a]
  by (simp add: ceil_fdiv_exact ceil_fdiv2_exact)

theorem float_ceilings_witness:
  "\<exists>q r. ceil_fdiv 1433 16 = Inr q \<and> (q - 1) * 16 < 1433 \<and> 1433 \<le> q * 16 \<and>
     ceil_fdiv2 1433 16 2 = Inr r \<and> (r - 1) * (16 * 2) < 1433 \<and> 1433 \<le> r * (16 * 2)"
  by (rule float_ceilings) simp_all

lemma floorlog_2:
  assumes "2 ^ e \<le> n" and "n < 2 ^ Suc e"
  shows "floorlog 2 n = Suc e"
proof -
  have "0 < n" using assms(1) by (metis gr_zeroI not_less zero_less_numeral zero_less_power)
  then have "e < floorlog 2 n" "floorlog 2 n \<le> Suc e"
    using assms by (auto intro!: floorlog_ge_SucI floorlog_leI simp: Suc_le_eq [symmetric])
  then show ?thesis by simp
qed

lemma rne_down:
  assumes "0 < d" and "2 * r \<le> d" and "even q"
  shows "rne (d * q + r) d = q"
proof -
  have "r < d" using assms(1,2) by simp
  then have "(d * q + r) div d = q" "(d * q + r) mod d = r" using assms(1) by simp_all
  then show ?thesis using assms(2,3) by (auto simp: rne_def Let_def)
qed

lemma fl32_at:
  assumes "n \<noteq> 0" and "fexp n d = k"
  shows "fl32 (n, d) = (if 0 \<le> k then (rne n (d * 2 ^ nat k) * 2 ^ nat k, 1) else (rne (n * 2 ^ nat (- k)) d, 2 ^ nat (- k)))"
  using assms by (simp add: fl32_def fscale_def Let_def)

lemma float_of_above:
  assumes "j \<le> 2" and "2 ^ (24 + j) \<le> 16 * m" and "16 * m + r < 2 ^ (25 + j)" and "r \<le> 2 ^ j"
  shows "float_of (16 * m + r) = (16 * m, 1)"
proof -
  have "floorlog 2 (16 * m + r) = 25 + j" "floorlog 2 (1 :: nat) = 1"
    using floorlog_2 [of "24 + j" "16 * m + r"] assms by (simp_all add: compute_floorlog)
  then have "fexp (16 * m + r) 1 = int j + 1"
    using assms(2) by (simp add: fexp_def fscale_def Let_def power_add)
  moreover
  have p: "2 ^ Suc j * (m * 2 ^ (3 - j)) = 16 * m" "even (m * 2 ^ (3 - j))"
    using assms(1) power_add [of "2 :: nat" "Suc j" "3 - j"] by auto
  have "rne (2 ^ Suc j * (m * 2 ^ (3 - j)) + r) (2 ^ Suc j) = m * 2 ^ (3 - j)"
    using assms(4) p(2) by (intro rne_down) auto
  then have "rne (16 * m + r) (2 ^ Suc j) * 2 ^ Suc j = 16 * m" using p(1) by (metis mult.commute)
  moreover have "16 * m + r \<noteq> 0" using assms(2) by (cases m) simp_all
  moreover have "nat (int j + 1) = Suc j" by simp
  ultimately show ?thesis
    unfolding float_of_def by (subst fl32_at [where k = "int j + 1"]) (simp_all del: power_Suc)
qed

lemma float_of_16: "float_of 16 = (2 ^ 23, 2 ^ 19)"
  by (simp add: float_of_def fl32_def fexp_def fscale_def rne_def compute_floorlog Let_def)

lemma fdiv_16:
  assumes "j \<le> 2" and "2 ^ (24 + j) \<le> 16 * m" and "16 * m < 2 ^ (25 + j)"
  shows "fdiv (16 * m, 1) (2 ^ 23, 2 ^ 19) = (m * 2 ^ (3 - j), 2 ^ (3 - j))"
proof -
  have m: "m \<noteq> 0" using assms(2) by (cases m) simp_all
  have "floorlog 2 (16 * m * 2 ^ 19) = 44 + j" "floorlog 2 (2 ^ 23 :: nat) = 24"
    using floorlog_2 [of "43 + j" "16 * m * 2 ^ 19"] floorlog_2 [of 23 "2 ^ 23"] assms by (simp_all add: power_add)
  moreover have "nat (- (int j - 4)) = 4 - j" "(2 :: nat) ^ 24 * 2 ^ 23 \<le> 16 * m * 2 ^ 19 * 2 ^ (4 - j)"
  proof -
    have "2 ^ (24 + j) * 2 ^ 19 * 2 ^ (4 - j) \<le> 16 * m * 2 ^ 19 * (2 ^ (4 - j) :: nat)" using assms(2) by simp
    moreover have "(2 ^ (24 + j) * 2 ^ 19 * 2 ^ (4 - j) :: nat) = 2 ^ (24 + 23)" using assms(1) by (simp flip: power_add)
    ultimately show "(2 :: nat) ^ 24 * 2 ^ 23 \<le> 16 * m * 2 ^ 19 * 2 ^ (4 - j)" by (simp only: power_add [symmetric])
  qed (use assms(1) in simp)
  ultimately have "fexp (16 * m * 2 ^ 19) (2 ^ 23) = int j - 3"
    using assms(1) by (simp add: fexp_def fscale_def Let_def)
  moreover have "16 * m * 2 ^ 19 * 2 ^ (3 - j) = 2 ^ 23 * (m * 2 ^ (3 - j))" by simp
  from arg_cong [OF this, of "\<lambda>n. rne n (2 ^ 23)"] have "rne (16 * m * 2 ^ 19 * 2 ^ (3 - j)) (2 ^ 23) = m * 2 ^ (3 - j)" using rne_exact [of "2 ^ 23" "2 ^ 23 * (m * 2 ^ (3 - j))"] by simp
  moreover have "nat (- (int j - 3)) = 3 - j" "\<not> 0 \<le> int j - 3" using assms(1) by auto
  moreover have "fdiv (16 * m, 1) (2 ^ 23, 2 ^ 19) = fl32 (16 * m * 2 ^ 19, 2 ^ 23)" by (simp add: fdiv_def)
  ultimately show ?thesis using m by (metis fl32_at mult_eq_0_iff power_not_zero zero_neq_numeral)
qed

text \<open>
  C29. The float ceiling loses lines of long arrays: for all array lengths between \<open>2 ^ 24\<close> and \<open>2 ^ 27\<close> that
  exceed a multiple of sixteen by little (by one below \<open>2 ^ 25\<close>, by up to two and four in the next two
  ranges), the code counts one cache line of sixteen elements less than the array occupies.
\<close>

theorem float_ceiling_short:
  assumes "j \<le> 2" and "2 ^ (24 + j) \<le> 16 * m" and "16 * m < 2 ^ (25 + j)" and "1 \<le> r" and "r \<le> 2 ^ j"
  shows "ceil_fdiv (int (16 * m + r)) 16 = Inr (int m) \<and> ceil_div (int (16 * m + r)) 16 = int m + 1"
proof -
  have j: "j = 0 \<or> j = 1 \<or> j = 2" using assms(1) by auto
  then have r: "16 * m + r < 2 ^ (25 + j)" "r \<le> 16" using assms(3,5) by auto
  have "ceilf (m * 2 ^ (3 - j), 2 ^ (3 - j)) = m" using j by (auto simp: ceilf_def)
  then have "ceil_fdiv (int (16 * m + r)) 16 = Inr (int m)"
    using float_of_above [OF assms(1,2) r(1) assms(5)] float_of_16 fdiv_16 [OF assms(1-3)]
    by (simp add: ceil_fdiv_def nat_add_distrib nat_mult_distrib)
  moreover have "(int (16 * m + r) + 16 - 1) div 16 = int m + 1" using assms(4) r(2) by simp
  ultimately show ?thesis by (simp add: ceil_div_def)
qed

theorem float_ceiling_short_witness:
  "ceil_fdiv 33554450 16 = Inr 2097153 \<and> ceil_div 33554450 16 = 2097154"
  using float_ceiling_short [of 1 2097153 2] by simp

end
