(* ===== verification/Simd.thy ===== *)
theory Simd
  imports Float32 Graph_Reader
begin

text \<open>
  The SIMD core of one engine, \<open>src/src/simd.cc\<close>: at every end of a row it queues the writes of the
  output lines of that row in the current fold, and it hands one queued write per cycle to the
  memory. The theory shows that the writes are the consecutive lines of the engine's output area and
  that their number after all folds is the number the preprocessor counts for the engine.
\<close>

section \<open>The model\<close>

record SIMD_STAT =
  ss_axw_addr_start :: u64
  nonzero_row :: int
  ss_cur_row_idx :: int
  cur_v_fold :: int
  cur_bf :: int
  write_urb :: int
  cnt :: int
  simd_end :: bool

record simd = SIMD_STAT +
  simd_id :: nat
  wq :: "u64 list"

definition SIMD_new :: "sim_env \<Rightarrow> nat \<Rightarrow> simd res" where
  "SIMD_new G i =
     res_bind (ceil_fdiv (a_h (data_info G)) (n_of_engine (arch_info G))) (\<lambda>q.
     res_bind (vget (data_index G) i) (\<lambda>d.
     let A = arch_info G
     in Inr \<lparr>ss_axw_addr_start = axw_addr_start A +
               of_int q * of_nat i * of_int (bf A) * of_int (urb A) * CACHE_LINE_BYTE,
             nonzero_row = di_row d - zero_row d, ss_cur_row_idx = 0, cur_v_fold = 0,
             cur_bf = 1, write_urb = urb A, cnt = 0, simd_end = False, simd_id = i, wq = []\<rparr>))"

definition GetAddress :: "simd \<Rightarrow> u64 \<times> simd" where
  "GetAddress s = (ss_axw_addr_start s + of_int (cnt s) * CACHE_LINE_BYTE, s\<lparr>cnt := cnt s + 1\<rparr>)"

text \<open>The loop over the lines of a row, \<open>n\<close> iterations.\<close>

fun push_row :: "nat \<Rightarrow> simd \<Rightarrow> simd" where
  "push_row 0 s = s"
| "push_row (Suc n) s = (let (a, s1) = GetAddress s
     in push_row n (s1\<lparr>wq := wq s1 @ [a], cur_v_fold := cur_v_fold s1 + 1\<rparr>))"

definition SIMD_GetFeature :: "sim_env \<Rightarrow> int \<Rightarrow> simd \<Rightarrow> simd" where
  "SIMD_GetFeature G f s =
     (if f = 0 then
        let s1 = push_row (nat (write_urb s)) s;
            s2 = s1\<lparr>cur_v_fold := 0, ss_cur_row_idx := ss_cur_row_idx s1 + 1\<rparr>
        in if ss_cur_row_idx s2 = nonzero_row s2 then
             let s3 = s2\<lparr>ss_cur_row_idx := 0, cur_bf := cur_bf s2 + 1\<rparr>
             in if cur_bf s3 = bf (arch_info G)
                then s3\<lparr>write_urb := total_urb (data_info G) - urb (arch_info G) * (bf (arch_info G) - 1)\<rparr>
                else s3
           else s2
      else s)"

definition write_tr :: "u64 \<Rightarrow> Transaction" where
  "write_tr a = \<lparr>address = a, is_write = True\<rparr>"

definition SIMD_Write :: "simd \<Rightarrow> 'd memory \<Rightarrow> simd \<times> 'd memory" where
  "SIMD_Write s m = (case wq s of [] \<Rightarrow> (s, m)
     | a # as \<Rightarrow> if \<not> WillAcceptTransaction m then (s, m)
                 else (s\<lparr>wq := as\<rparr>, AddTransaction m (write_tr a)))"

section \<open>The writes\<close>

text \<open>
  What the unit sizes have to satisfy: the folds cover all lines of a row, and one fold is the whole
  row.
\<close>

definition folds_ok :: "sim_env \<Rightarrow> bool" where
  "folds_ok G \<longleftrightarrow> (let B = bf (arch_info G); u = urb (arch_info G); t = total_urb (data_info G) in
     1 \<le> B \<and> 0 \<le> u \<and> u * (B - 1) \<le> t \<and> (B = 1 \<longrightarrow> u = t))"

text \<open>The number of lines written for the row ending the \<open>k\<close>-th of \<open>R\<close> rows per fold, and in total.\<close>

definition row_lines :: "sim_env \<Rightarrow> int \<Rightarrow> nat \<Rightarrow> int" where
  "row_lines G R k = (let B = bf (arch_info G); u = urb (arch_info G) in
     if int k div R = B - 1 then total_urb (data_info G) - u * (B - 1) else u)"

definition lines_after :: "sim_env \<Rightarrow> int \<Rightarrow> nat \<Rightarrow> int" where
  "lines_after G R k = (\<Sum>j<k. row_lines G R j)"

lemma row_lines_nonneg: "folds_ok G \<Longrightarrow> 0 \<le> row_lines G R k"
  by (simp add: folds_ok_def row_lines_def Let_def)

lemma push_row_eq:
  "push_row n s = s\<lparr>cnt := cnt s + int n, cur_v_fold := cur_v_fold s + int n,
     wq := wq s @ map (\<lambda>j. ss_axw_addr_start s + of_int (cnt s + int j) * CACHE_LINE_BYTE) [0..<n]\<rparr>"
proof (induction n arbitrary: s)
  case 0
  then show ?case by simp
next
  case (Suc n)
  have "map (\<lambda>j. f (cnt s + int j)) [0..<Suc n] = f (cnt s) # map (\<lambda>j. f (cnt s + 1 + int j)) [0..<n]"
    for f :: "int \<Rightarrow> u64"
    by (simp add: upt_conv_Cons map_Suc_upt [symmetric] del: upt_Suc) (simp add: algebra_simps)
  from this [of "\<lambda>x. ss_axw_addr_start s + of_int x * CACHE_LINE_BYTE"] show ?case
    by (simp add: Suc GetAddress_def del: upt_Suc)
qed

definition new_writes :: "'d memory \<Rightarrow> 'd memory \<Rightarrow> u64 list" where
  "new_writes m m' = map address (drop (length (tq m)) (tq m'))"

text \<open>
  Runs of a SIMD core: the signals it gets, of which \<open>k\<close> are row ends, and the writes \<open>ws\<close> it has
  handed to the memory, with arbitrary changes of the memory in between.
\<close>

inductive simd_run :: "sim_env \<Rightarrow> nat \<Rightarrow> simd \<Rightarrow> 'd memory \<Rightarrow> nat \<Rightarrow> u64 list \<Rightarrow> bool" for G i where
  start: "SIMD_new G i = Inr s \<Longrightarrow> simd_run G i s m 0 []"
| env: "simd_run G i s m k ws \<Longrightarrow> simd_run G i s m' k ws"
| get: "simd_run G i s m k ws \<Longrightarrow> simd_run G i (SIMD_GetFeature G f s) m (if f = 0 then Suc k else k) ws"
| wr: "simd_run G i s m k ws \<Longrightarrow> SIMD_Write s m = (s', m') \<Longrightarrow>
    simd_run G i s' m' k (ws @ new_writes m m')"

definition out_line :: "u64 \<Rightarrow> nat \<Rightarrow> u64" where
  "out_line a j = a + of_nat j * CACHE_LINE_BYTE"

definition simd_at :: "sim_env \<Rightarrow> simd \<Rightarrow> nat \<Rightarrow> u64 list \<Rightarrow> bool" where
  "simd_at G s k ws \<longleftrightarrow> (let R = nonzero_row s in
     ss_cur_row_idx s = int k mod R \<and> cur_bf s = int k div R + 1 \<and> cnt s = lines_after G R k \<and>
     (int k < bf (arch_info G) * R \<longrightarrow> write_urb s = row_lines G R k) \<and>
     ws @ wq s = map (out_line (ss_axw_addr_start s)) [0..<nat (lines_after G R k)])"

lemma lines_after_nonneg: "folds_ok G \<Longrightarrow> 0 \<le> lines_after G R k"
  unfolding lines_after_def by (intro sum_nonneg) (simp add: row_lines_nonneg)

text \<open>One row end.\<close>

lemma row_next:
  fixes R :: int
  assumes "0 < R"
  shows "(if int k mod R + 1 = R then (0, int k div R + 2) else (int k mod R + 1, int k div R + 1)) =
    (int (Suc k) mod R, int (Suc k) div R + 1)"
proof -
  have m: "0 \<le> int k mod R" "int k mod R < R" using assms by simp_all
  have k: "int (Suc k) = (int k div R) * R + (int k mod R + 1)" by simp
  show ?thesis
  proof (cases "int k mod R + 1 = R")
    case True
    then have "int (Suc k) = (int k div R + 1) * R" using k by (simp add: algebra_simps)
    then have "int (Suc k) mod R = 0" "int (Suc k) div R = int k div R + 1"
      using assms by (simp_all del: of_nat_Suc)
    with True show ?thesis by simp
  next
    case False
    then have "int k mod R + 1 < R" using m by simp
    then have "int (Suc k) mod R = int k mod R + 1" "int (Suc k) div R = int k div R"
      using m k by (auto intro: int_mod_pos_eq [of _ R "int k div R"] int_div_pos_eq [of _ R _ "int k mod R + 1"]
          simp: mult.commute)
    with False show ?thesis by simp
  qed
qed

lemma upt_split: "[0..<a + b] = [0..<a] @ map (\<lambda>j. a + j) [0..<b]"
  by (induction b) auto

lemma simd_at_zero:
  assumes F: "folds_ok G" and R: "0 < nonzero_row s" and at: "simd_at G s k ws"
    and lt: "int k < bf (arch_info G) * nonzero_row s"
  shows "simd_at G (SIMD_GetFeature G 0 s) (Suc k) ws" and "nonzero_row (SIMD_GetFeature G 0 s) = nonzero_row s"
proof -
  let ?R = "nonzero_row s" and ?B = "bf (arch_info G)"
  let ?n = "nat (write_urb s)" and ?L = "lines_after G ?R k"
  have A: "ss_cur_row_idx s = int k mod ?R" "cur_bf s = int k div ?R + 1" "cnt s = ?L" "write_urb s = row_lines G ?R k"
    "ws @ wq s = map (out_line (ss_axw_addr_start s)) [0..<nat ?L]"
    using at lt by (auto simp: simd_at_def Let_def)
  have L: "lines_after G ?R (Suc k) = ?L + int ?n" "0 \<le> ?L"
    using row_lines_nonneg [OF F, of ?R k] lines_after_nonneg [OF F] A(4) by (auto simp: lines_after_def)
  have q: "ws @ (wq s @ map (\<lambda>j. ss_axw_addr_start s + of_int (cnt s + int j) * CACHE_LINE_BYTE) [0..<?n]) =
      map (out_line (ss_axw_addr_start s)) [0..<nat (lines_after G ?R (Suc k))]"
  proof -
    let ?a = "ss_axw_addr_start s"
    have u: "[0..<nat (?L + int ?n)] = [0..<nat ?L] @ map (\<lambda>j. nat ?L + j) [0..<?n]"
      using L(2) upt_split [of "nat ?L" ?n] by (simp add: nat_add_distrib)
    have o: "map (\<lambda>j. ?a + of_int (cnt s + int j) * CACHE_LINE_BYTE) [0..<?n] =
        map (out_line ?a) (map (\<lambda>j. nat ?L + j) [0..<?n])"
      using L(2) A(3) by (simp add: out_line_def)
    show ?thesis unfolding L(1) u o map_append A(5) [symmetric] by simp
  qed
  have nx: "int (Suc k) div ?R + 1 = ?B \<Longrightarrow> row_lines G ?R (Suc k) = total_urb (data_info G) - urb (arch_info G) * (?B - 1)"
    by (simp add: row_lines_def Let_def)
  have un: "int (Suc k) div ?R = int k div ?R \<Longrightarrow> row_lines G ?R (Suc k) = row_lines G ?R k"
    by (simp only: row_lines_def Let_def)
  have ot: "int (Suc k) div ?R + 1 \<noteq> ?B \<Longrightarrow> int (Suc k) < ?B * ?R \<Longrightarrow> row_lines G ?R (Suc k) = row_lines G ?R k"
  proof -
    assume ne: "int (Suc k) div ?R + 1 \<noteq> ?B" and l: "int (Suc k) < ?B * ?R"
    have "int (Suc k) div ?R * ?R \<le> int (Suc k)" 
      using div_mult_mod_eq [of "int (Suc k)" ?R] pos_mod_sign [OF R, of "int (Suc k)"] by linarith
    then have "int (Suc k) div ?R * ?R < ?B * ?R" using l by linarith
    then have "int (Suc k) div ?R < ?B" using R by (simp only: mult_less_cancel_right_pos)
    moreover have "int k div ?R \<le> int (Suc k) div ?R" using R by (intro zdiv_mono1) auto
    ultimately have "int (Suc k) div ?R \<noteq> ?B - 1" "int k div ?R \<noteq> ?B - 1" using ne by linarith+
    then show ?thesis by (simp only: row_lines_def Let_def if_False)
  qed
  show "nonzero_row (SIMD_GetFeature G 0 s) = nonzero_row s"
    by (simp add: SIMD_GetFeature_def push_row_eq Let_def)
  note N = row_next [OF R, of k]
  show "simd_at G (SIMD_GetFeature G 0 s) (Suc k) ws"
  proof (cases "int k mod ?R + 1 = ?R")
    case True
    with N have n: "int (Suc k) mod ?R = 0" "int (Suc k) div ?R = int k div ?R + 1" by auto
    show ?thesis
      using True A(1-4) n q L nx ot
      by (simp add: SIMD_GetFeature_def push_row_eq simd_at_def Let_def del: of_nat_Suc map_append)
  next
    case False
    with N have n: "int (Suc k) mod ?R = int k mod ?R + 1" "int (Suc k) div ?R = int k div ?R" by auto
    show ?thesis
      using False A(1-4) n q L un
      by (simp add: SIMD_GetFeature_def push_row_eq simd_at_def Let_def del: of_nat_Suc map_append)
  qed
qed

lemma simd_run_at:
  assumes "simd_run G i s m k ws" and F: "folds_ok G" and "i < length (data_index G)"
    and R: "R = di_row (data_index G ! i) - zero_row (data_index G ! i)" "0 < R" and "int k \<le> bf (arch_info G) * R"
  shows "simd_at G s k ws \<and> nonzero_row s = R"
  using assms(1,6)
proof induction
  case (start s m)
  have "row_lines G R 0 = urb (arch_info G)" using F R(2) by (auto simp: row_lines_def folds_ok_def Let_def)
  with start show ?case
    using assms(3) R by (auto simp: SIMD_new_def simd_at_def lines_after_def Let_def)
next
  case (get s m k ws f)
  show ?case
  proof (cases "f = 0")
    case True
    then have "simd_at G s k ws" "nonzero_row s = R" "int k < bf (arch_info G) * R" using get by auto
    with simd_at_zero [OF F, of s k ws] R(2) True show ?thesis by simp
  next
    case False
    with get show ?thesis by (simp add: SIMD_GetFeature_def)
  qed
next
  case (wr s m k ws s' m')
  then show ?case
    by (auto simp: SIMD_Write_def new_writes_def AddTransaction_def write_tr_def simd_at_def Let_def
        split: list.splits if_splits)
qed auto

text \<open>The lines of all folds add up to the lines the preprocessor counts.\<close>

lemma lines_after_folds:
  assumes F: "folds_ok G" and "B = bf (arch_info G)" and "n \<le> nat B"
  shows "lines_after G (int R) (n * R) =
    (if n = nat B then int R * total_urb (data_info G) else int (n * R) * urb (arch_info G))"
proof (cases "R = 0")
  case True
  then show ?thesis by (simp add: lines_after_def)
next
  case False
  let ?u = "urb (arch_info G)" and ?t = "total_urb (data_info G)"
  have B: "1 \<le> B" "B = 1 \<longrightarrow> ?u = ?t" using F assms(2) by (auto simp: folds_ok_def Let_def)
  have fold: "(\<Sum>j\<in>{n * R..<Suc n * R}. row_lines G (int R) j) = int R * row_lines G (int R) (n * R)" for n
  proof -
    have "row_lines G (int R) j = row_lines G (int R) (n * R)" if "j \<in> {n * R..<Suc n * R}" for j
    proof -
      have "j div R = n" using that False by (intro div_nat_eqI) (auto simp: mult.commute)
      then have "int j div int R = int n" using zdiv_int [of j R] by simp
      moreover have "int (n * R) div int R = int n" using False by simp
      ultimately have "int j div int R = int (n * R) div int R" by (rule trans [OF _ sym])
      then show ?thesis by (simp only: row_lines_def)
    qed
    then have "(\<Sum>j\<in>{n * R..<Suc n * R}. row_lines G (int R) j) =
        (\<Sum>j\<in>{n * R..<Suc n * R}. row_lines G (int R) (n * R))" by (intro sum.cong refl)
    then show ?thesis by simp
  qed
  have at: "row_lines G (int R) (n * R) = (if int n = B - 1 then ?t - ?u * (B - 1) else ?u)" for n
    using False assms(2) by (simp add: row_lines_def Let_def)
  have "lines_after G (int R) (n * R) =
      (if n = nat B then int R * ?t else int (n * R) * ?u)" if "n \<le> nat B" for n
    using that
  proof (induction n)
    case 0
    then show ?case using B by (simp add: lines_after_def)
  next
    case (Suc n)
    have "{..<Suc n * R} = {..<n * R} \<union> {n * R..<Suc n * R}" by auto
    then have "lines_after G (int R) (Suc n * R) = lines_after G (int R) (n * R) + int R * row_lines G (int R) (n * R)"
      unfolding lines_after_def using fold [of n] by (simp only: sum.union_disjoint finite_lessThan finite_atLeastLessThan ivl_disj_int)
    moreover have "lines_after G (int R) (n * R) = int (n * R) * ?u" using Suc by simp
    moreover have "int n = B - 1 \<longleftrightarrow> Suc n = nat B" using Suc.prems B(1) by auto
    ultimately show ?case using at [of n] by (auto simp: algebra_simps)
  qed
  then show ?thesis using assms(3) by blast
qed


definition demo_simd :: simd where
  "demo_simd = (SIMD_GetFeature env_small 0 ^^ 4)
     \<lparr>ss_axw_addr_start = 1152, nonzero_row = 2, ss_cur_row_idx = 0, cur_v_fold = 0, cur_bf = 1, write_urb = 2,
      cnt = 0, simd_end = False, simd_id = 0, wq = []\<rparr>"

lemma demo_simd_run: "simd_run env_small 0 demo_simd (Memory_new env_small () 0) 4 []"
proof -
  have "ceil_fdiv 3 2 = Inr 2" using ceil_fdiv_exact [of 3 2] by (simp add: ceil_div_def)
  then have n: "SIMD_new env_small 0 = Inr \<lparr>ss_axw_addr_start = 1152, nonzero_row = 2, ss_cur_row_idx = 0,
      cur_v_fold = 0, cur_bf = 1, write_urb = 2, cnt = 0, simd_end = False, simd_id = 0, wq = []\<rparr>"
    by (simp add: SIMD_new_def env_small_def arch_small_def)
  have "simd_run env_small 0 ((SIMD_GetFeature env_small 0 ^^ k) s) m k []"
    if "SIMD_new env_small 0 = Inr s" for k s and m :: "unit memory"
    using that by (induction k) (auto intro: simd_run.start dest: simd_run.get [where f = 0])
  from this [OF n, where k = 4] show ?thesis by (simp add: demo_simd_def)
qed


end
