(* ===== verification/Sim_Controller.thy ===== *)
theory Sim_Controller
  imports Graph_Stream Feature_Fetch Simd
begin

text \<open>
  The controller, \<open>src/src/controller.cc\<close>: it owns the memory, the cache, one graph reader and one
  SIMD core per engine and the feature reader, and runs them cycle by cycle until every output line
  is written. A loop that may not end returns an option: \<open>None\<close> when it never does. The progress
  messages of the main loop are not modelled.
\<close>

section \<open>The model\<close>

record 'd sim =
  c_mem :: "'d memory"
  c_cah :: cache
  c_gr :: "graph_reader list"
  c_si :: "simd list"
  c_fr :: feature_reader

fun new_engine :: "sim_env \<Rightarrow> nat \<Rightarrow> graph_reader list \<times> simd list \<Rightarrow> (graph_reader list \<times> simd list) res" where
  "new_engine G i (gs, ss) =
     res_bind (GraphReader_new G i) (\<lambda>g. res_bind (SIMD_new G i) (\<lambda>s. Inr (gs @ [g], ss @ [s])))"

definition Controller_new :: "sim_env \<Rightarrow> 'd \<Rightarrow> u64 \<Rightarrow> 'd sim res" where
  "Controller_new G d tw =
     res_bind (res_fold (new_engine G) [0..<engines G] ([], [])) (\<lambda>(gs, ss).
     Inr \<lparr>c_mem = Memory_new G d tw, c_cah = Cache_new (arch_info G), c_gr = gs, c_si = ss,
          c_fr = FeatureReader_new G\<rparr>)"

text \<open>The calls on the graph reader of an engine in one cycle.\<close>

definition graph_calls ::
  "sim_env \<Rightarrow> graph_reader \<Rightarrow> 'd memory \<Rightarrow> (graph_reader \<times> 'd memory) res" where
  "graph_calls G r m =
     res_bind (if \<not> v_req_over r then VertexRequest G r m else Inr (r, m)) (\<lambda>(r1, m1).
     res_bind (if \<not> e_req_over r1 then EdgeRequest G r1 m1 else Inr (r1, m1)) (\<lambda>(r2, m2).
     if \<not> reci_over r2 then GraphReceive G r2 m2 else Inr (r2, m2)))"

definition pass_call ::
  "sim_env \<Rightarrow> graph_reader \<Rightarrow> feature_reader \<Rightarrow> (graph_reader \<times> feature_reader) res" where
  "pass_call G r fr =
     (if \<not> pass_over r then
        res_bind (NextFeature G r) (\<lambda>(ei, r').
        if dst ei \<noteq> -1 then res_bind (EnterFtoList fr ei) (\<lambda>fr'. Inr (r', fr')) else Inr (r', fr))
      else Inr (r, fr))"

definition engine_step :: "sim_env \<Rightarrow> nat \<Rightarrow> 'd sim \<Rightarrow> 'd sim res" where
  "engine_step G i st =
     res_bind (vget (c_gr st) i) (\<lambda>r.
     res_bind (graph_calls G r (c_mem st)) (\<lambda>(r1, m1).
     res_bind (pass_call G r1 (c_fr st)) (\<lambda>(r2, fr1).
     res_bind (ReadNext G i (fr1, c_cah st, m1)) (\<lambda>s1.
     res_bind (PassFtoSIMD G i s1) (\<lambda>(p, fr2, c2, m2).
     res_bind (vget (c_si st) i) (\<lambda>s.
     let (s', m3) = SIMD_Write (SIMD_GetFeature G p s) m2
     in Inr \<lparr>c_mem = m3, c_cah = c2, c_gr = (c_gr st)[i := r2], c_si = (c_si st)[i := s'], c_fr = fr2\<rparr>))))))"

definition cycle_end :: "sim_env \<Rightarrow> 'd dram_ops \<Rightarrow> 'd sim \<Rightarrow> 'd sim res" where
  "cycle_end G D st =
     res_bind (FeatureReceive G (c_fr st, c_cah st, c_mem st)) (\<lambda>(fr, c, m).
     res_bind (ConsumeTransaction D m) (\<lambda>m1.
     res_bind (UpdateCycle G D m1) (\<lambda>m2.
     Inr (st\<lparr>c_fr := fr, c_cah := c, c_mem := m2\<rparr>))))"

text \<open>For evaluation, the loop over the engines as a recursion of its own.\<close>

fun engine_steps :: "sim_env \<Rightarrow> nat list \<Rightarrow> 'd sim \<Rightarrow> 'd sim res" where
  "engine_steps G [] st = Inr st"
| "engine_steps G (i # is) st = res_bind (engine_step G i st) (engine_steps G is)"

lemma engine_steps_fold [code_unfold]: "res_fold (engine_step G) = engine_steps G"
proof (intro ext)
  fix "is" and st :: "'d sim"
  show "res_fold (engine_step G) is st = engine_steps G is st" by (induction "is" arbitrary: st) (simp_all cong: res_bind_cong)
qed

text \<open>One iteration of the main loop.\<close>

definition cycle_step :: "sim_env \<Rightarrow> 'd dram_ops \<Rightarrow> 'd sim \<Rightarrow> 'd sim res" where
  "cycle_step G D st = res_bind (res_fold (engine_step G) [0..<engines G] st) (cycle_end G D)"

partial_function (option) inference_loop ::
  "sim_env \<Rightarrow> 'd dram_ops \<Rightarrow> u64 \<Rightarrow> 'd sim \<Rightarrow> (u64 \<times> 'd sim) res option" where
  "inference_loop G D cycle st =
     (case cycle_step G D st of Inl e \<Rightarrow> Some (Inl e)
      | Inr st1 \<Rightarrow> if total_write (c_mem st1) = 0 then Some (Inr (cycle + 1, st1))
                   else inference_loop G D (cycle + 1) st1)"

text \<open>The reads of the pinned vertices before the main loop.\<close>

definition davc_width :: "sim_env \<Rightarrow> u64" where
  "davc_width G = of_nat (length (davc_list G)) * of_int (urb (arch_info G) * bf (arch_info G))"

definition drain_step :: "sim_env \<Rightarrow> 'd dram_ops \<Rightarrow> 'd memory \<Rightarrow> 'd memory res" where
  "drain_step G D m = res_bind (ConsumeTransaction D m) (\<lambda>m1. UpdateCycle G D m1)"

definition davc_step :: "sim_env \<Rightarrow> 'd dram_ops \<Rightarrow> 'd memory \<Rightarrow> 'd memory res" where
  "davc_step G D m = res_bind (drain_step G D m) (\<lambda>m1. Inr (snd (GetFeature m1)))"

partial_function (option) davc_drain ::
  "sim_env \<Rightarrow> 'd dram_ops \<Rightarrow> u64 \<Rightarrow> 'd memory \<Rightarrow> (u64 \<times> 'd memory) res option" where
  "davc_drain G D cycle m =
     (if xw_get m < davc_width G
      then case davc_step G D m of Inl e \<Rightarrow> Some (Inl e) | Inr m1 \<Rightarrow> davc_drain G D (cycle + 1) m1
      else Some (Inr (cycle, m\<lparr>xw_get := 0\<rparr>)))"

definition DAVCRead :: "sim_env \<Rightarrow> 'd dram_ops \<Rightarrow> 'd memory \<Rightarrow> (u64 \<times> 'd memory) res option" where
  "DAVCRead G D m =
     (if davc_list G = [] then Some (Inr (0, m))
      else case res_fold (\<lambda>_ m. davc_step G D (AddTransaction m (read_tr (xw_ele_addr_start (arch_info G)))))
             [0..<unat (davc_width G)] m of
             Inl e \<Rightarrow> Some (Inl e)
           | Inr m1 \<Rightarrow> davc_drain G D (davc_width G) m1)"

definition GCNInference :: "sim_env \<Rightarrow> 'd dram_ops \<Rightarrow> F_MODE \<Rightarrow> 'd sim \<Rightarrow> (u64 \<times> 'd sim) res option" where
  "GCNInference G D f_mode st =
     (case DAVCRead G D (c_mem st) of None \<Rightarrow> None | Some (Inl e) \<Rightarrow> Some (Inl e)
      | Some (Inr (cycle, m)) \<Rightarrow>
          inference_loop G D cycle (st\<lparr>c_mem := m, c_fr := ModeChange (c_fr st) f_mode\<rparr>))"

text \<open>
  The combination phase: the features are read once, one line per call, with the memory ticking after
  every \<open>n_of_engine\<close> of them.
\<close>

definition comb_read :: "sim_env \<Rightarrow> 'd dram_ops \<Rightarrow> nat \<Rightarrow> u64 \<times> 'd memory \<Rightarrow> (u64 \<times> 'd memory) res" where
  "comb_read G D k = (\<lambda>(read_cycle, m).
     res_bind (ConsumeTransaction D (AddTransaction m (read_tr (xw_ele_addr_start (arch_info G))))) (\<lambda>m1.
     if n_of_engine (arch_info G) = 0 then Inl DivByZero
     else if (int k + 1) mod n_of_engine (arch_info G) = 0
          then res_bind (UpdateCycle G D m1) (\<lambda>m2. Inr (read_cycle + 1, m2))
          else Inr (read_cycle, m1)))"

partial_function (option) comb_drain ::
  "sim_env \<Rightarrow> 'd dram_ops \<Rightarrow> u64 \<Rightarrow> u64 \<Rightarrow> 'd memory \<Rightarrow> (u64 \<times> 'd memory) res option" where
  "comb_drain G D total_get read_cycle m =
     (if xw_get m < total_get
      then case drain_step G D m of Inl e \<Rightarrow> Some (Inl e) | Inr m1 \<Rightarrow> comb_drain G D total_get (read_cycle + 1) m1
      else Some (Inr (read_cycle, m)))"

definition comb_compute :: "sim_env \<Rightarrow> u64 res" where
  "comb_compute G = (let n = n_of_engine (arch_info G); d = data_info G in
     res_bind (ceil_fdiv (w_w d) (32 * n)) (\<lambda>total_w_repeat.
     res_bind (ceil_fdiv (x_h d) (32 * n)) (\<lambda>total_x_repeat.
     Inr (of_int (x_w d + 32 * n) * of_int total_w_repeat * of_int total_x_repeat))))"

definition Combination :: "sim_env \<Rightarrow> 'd dram_ops \<Rightarrow> 'd memory \<Rightarrow> (u64 \<times> 'd memory) res option" where
  "Combination G D m =
     (let reads = nat (x_h (data_info G)) * nat (urb (arch_info G) * bf (arch_info G));
          total_get = of_int (x_h (data_info G) * urb (arch_info G) * bf (arch_info G))
      in case res_fold (comb_read G D) [0..<reads] (0, m) of Inl e \<Rightarrow> Some (Inl e)
         | Inr (rc, m1) \<Rightarrow>
             (case comb_drain G D total_get rc m1 of None \<Rightarrow> None | Some (Inl e) \<Rightarrow> Some (Inl e)
              | Some (Inr (read_cycle, m2)) \<Rightarrow>
                  (case comb_compute G of Inl e \<Rightarrow> Some (Inl e)
                   | Inr compute_cycle \<Rightarrow> Some (Inr (max read_cycle compute_cycle, m2)))))"

end
