(* ===== verification/Sim_System.thy ===== *)
theory Sim_System
  imports Sim_Controller
begin

text \<open>
  The whole simulator: the invariant that holds between the engine steps of the main loop, tying the
  graph readers, the feature reader, the SIMD cores and the memory together. Inside the contract of
  the DRAM simulator (locale \<open>dram_contract\<close>) it is shown that no cycle fails and that the loop can
  only end when every engine has handed out all its edges and every output line has been written.
\<close>

section \<open>Well-formed inputs\<close>

definition array_ok :: "u64 \<Rightarrow> u64 \<Rightarrow> nat \<Rightarrow> bool" where
  "array_ok st en n \<longleftrightarrow> 0 < n \<and> 64 * n < 2 ^ 64 \<and> en = st + CACHE_LINE_BYTE * of_nat n"

definition nonzero_rows :: "int list \<Rightarrow> nat" where
  "nonzero_rows rp = length (filter (\<lambda>j. rp ! Suc j \<noteq> rp ! j) [0..<length rp - 1])"

definition engine_env :: "F_MODE \<Rightarrow> sim_env \<Rightarrow> nat \<Rightarrow> bool" where
  "engine_env md G i \<longleftrightarrow> (let d = data_index G ! i in engine_ok G i \<and>
     array_ok (row_addr_start d) (row_addr_end d) (lines_for (row_ptr G ! i)) \<and>
     array_ok (col_addr_start d) (col_addr_end d) (lines_for (col_idx G ! i)) \<and>
     (gnn_mode (arch_info G) = GCN \<longrightarrow> array_ok (value_addr_start d) (value_addr_end d) (lines_for (col_idx G ! i))) \<and>
     (\<forall>c \<in> set (col_idx G ! i). \<forall>v. 0 \<le> v \<and> v < bf (arch_info G) \<longrightarrow> lines_ok md G c v) \<and>
     di_row d - zero_row d = int (nonzero_rows (row_ptr G ! i)))"

definition env_ok :: "F_MODE \<Rightarrow> sim_env \<Rightarrow> bool" where
  "env_ok md G \<longleftrightarrow> layout_ok G \<and> addr_ok G \<and> cache_ok (arch_info G) \<and> folds_ok G \<and>
     (\<forall>i < engines G. engine_env md G i)"

definition graph_addr :: "sim_env \<Rightarrow> u64 \<Rightarrow> bool" where
  "graph_addr G a \<longleftrightarrow> (\<exists>i < engines G. \<exists>t. in_region t a (data_index G ! i))"

lemma array_in:
  assumes "array_ok st en n" and "st \<le> en" and "j < n"
  shows "st \<le> st + CACHE_LINE_BYTE * of_nat j" and "st + CACHE_LINE_BYTE * of_nat j < en"
proof -
  have w: "CACHE_LINE_BYTE * of_nat x = (of_nat (64 * x) :: u64)" for x
    by (simp add: CACHE_LINE_BYTE_def)
  have n: "64 * n < 2 ^ 64" "en = st + of_nat (64 * n)" using assms(1) w by (auto simp: array_ok_def)
  have u: "unat (of_nat (64 * x) :: u64) = 64 * x" if "x \<le> n" for x
    using that n(1) by (simp only: unat_of_nat) (simp add: take_bit_nat_eq_self)
  have sn: "unat st + 64 * n < 2 ^ 64"
    using assms(2) u [of n] unfolding n(2) no_olen_add_nat by simp
  have e: "unat en = unat st + 64 * n" using sn u [of n] unfolding n(2) by (subst unat_add_lem [THEN iffD1]) auto
  have "unat st + 64 * j < 2 ^ 64" using sn assms(3) by simp
  then have j: "unat (st + of_nat (64 * j)) = unat st + 64 * j"
    using u [of j] assms(3) by (subst unat_add_lem [THEN iffD1]) auto
  show "st \<le> st + CACHE_LINE_BYTE * of_nat j" unfolding w word_le_nat_alt j by simp
  show "st + CACHE_LINE_BYTE * of_nat j < en" unfolding w word_less_nat_alt j e using assms(3) by simp
qed

lemma layout_region:
  assumes "layout_ok G" and "i < engines G"
  shows "row_addr_start (data_index G ! i) \<le> row_addr_end (data_index G ! i)"
    and "col_addr_start (data_index G ! i) \<le> col_addr_end (data_index G ! i)"
    and "value_addr_start (data_index G ! i) \<le> value_addr_end (data_index G ! i)"
  using assms nth_mem [of i "data_index G"] by (auto simp: layout_ok_def region_chain_def Let_def)

lemma graph_addr_lt: "layout_ok G \<Longrightarrow> graph_addr G a \<Longrightarrow> a < xw_ele_addr_start (arch_info G)"
  using line_type_layout(3) by (auto simp: graph_addr_def)

section \<open>What the calls do to the memory\<close>

text \<open>
  Transactions \<open>ts\<close> are appended to the queue; the engines' queues may lose a received line; nothing
  else changes.
\<close>

definition mem_ext :: "'d memory \<Rightarrow> 'd memory \<Rightarrow> Transaction list \<Rightarrow> bool" where
  "mem_ext m m' ts \<longleftrightarrow> tq m' = tq m @ ts \<and> dram m' = dram m \<and> total_write m' = total_write m \<and>
     mem_fq m' = mem_fq m \<and> length (rq m') = length (rq m)"

lemma mem_ext_refl: "mem_ext m m []"
  by (simp add: mem_ext_def)

lemma mem_ext_trans: "mem_ext m m1 ts \<Longrightarrow> mem_ext m1 m2 us \<Longrightarrow> mem_ext m m2 (ts @ us)"
  by (simp add: mem_ext_def)

lemma mem_ext_Add: "mem_ext m (AddTransaction m t) [t]"
  by (simp add: mem_ext_def AddTransaction_def)

definition graph_read :: "sim_env \<Rightarrow> Transaction \<Rightarrow> bool" where
  "graph_read G t \<longleftrightarrow> \<not> is_write t \<and> graph_addr G (address t)"

lemma row_request_ext:
  assumes env: "engine_env md G i" "layout_ok G" "i < engines G" and run: "gr_run G i r m tr" and "\<not> v_req_over r"
  shows "\<exists>r' m' ts. VertexRequest G r m = Inr (r', m') \<and> mem_ext m m' ts \<and> (\<forall>t \<in> set ts. graph_read G t)"
proof -
  let ?d = "data_index G ! i"
  obtain n where n: "array_ok (row_addr_start ?d) (row_addr_end ?d) n" and ok: "engine_ok G i"
    using env(1) by (auto simp: engine_env_def Let_def)
  have I: "gr_id r = i" "next_v_addr r = row_addr_start ?d + CACHE_LINE_BYTE * of_nat (length (rows tr) mod n)"
    using row_requests_inv [OF ok run, of n] n by (auto simp: array_ok_def req_at_def)
  have "length (rows tr) mod n < n" using n by (simp add: array_ok_def)
  from array_in [OF n layout_region(1) [OF env(2,3)] this] have "in_region Row (next_v_addr r) ?d"
    unfolding I(2) by simp
  then have g: "graph_addr G (next_v_addr r)" using env(3) unfolding graph_addr_def by blast
  have d: "vget (data_index G) (gr_id r) = Inr ?d" using ok I by (simp add: engine_ok_def)
  show ?thesis
  proof (cases "WillAcceptTransaction m")
    case False
    then show ?thesis using mem_ext_refl by (auto simp: VertexRequest_def intro!: exI [of _ "[]"])
  next
    case True
    then have "\<exists>r'. VertexRequest G r m = Inr (r', AddTransaction m (read_tr (next_v_addr r)))"
      using d by (auto simp: VertexRequest_def Let_def)
    then show ?thesis using mem_ext_Add g by (fastforce simp: graph_read_def read_tr_def)
  qed
qed

lemma edge_request_ext:
  assumes env: "engine_env md G i" "layout_ok G" "i < engines G" and run: "gr_run G i r m tr" and "\<not> e_req_over r"
  shows "\<exists>r' m' ts. EdgeRequest G r m = Inr (r', m') \<and> mem_ext m m' ts \<and> (\<forall>t \<in> set ts. graph_read G t)"
proof -
  let ?d = "data_index G ! i"
  obtain n where n: "array_ok (col_addr_start ?d) (col_addr_end ?d) n"
    "gnn_mode (arch_info G) = GCN \<longrightarrow> array_ok (value_addr_start ?d) (value_addr_end ?d) n" and ok: "engine_ok G i"
    using env(1) by (auto simp: engine_env_def Let_def)
  obtain k where I: "gr_id r = i" "next_e_addr r = col_addr_start ?d + CACHE_LINE_BYTE * of_nat (k mod n)"
    "gnn_mode (arch_info G) = GCN \<longrightarrow> next_val_addr r = value_addr_start ?d + CACHE_LINE_BYTE * of_nat (k mod n)"
    using edge_requests_inv [OF ok run, of n] n by (auto simp: array_ok_def req_at_def)
  have k: "k mod n < n" using n by (simp add: array_ok_def)
  from array_in [OF n(1) layout_region(2) [OF env(2,3)] k] have "in_region Column (next_e_addr r) ?d"
    unfolding I(2) by simp
  then have g: "graph_addr G (next_e_addr r)" using env(3) unfolding graph_addr_def by blast
  have gv: "graph_addr G (next_val_addr r)" if "gnn_mode (arch_info G) = GCN"
  proof -
    from array_in [OF _ layout_region(3) [OF env(2,3)] k] n(2) that have "in_region Value (next_val_addr r) ?d"
      using I(3) by simp
    then show ?thesis using env(3) unfolding graph_addr_def by blast
  qed
  have d: "vget (data_index G) (gr_id r) = Inr ?d" using ok I by (simp add: engine_ok_def)
  show ?thesis
  proof (cases "WillAcceptTransaction m")
    case False
    then show ?thesis using mem_ext_refl by (auto simp: EdgeRequest_def intro!: exI [of _ "[]"])
  next
    case True
    define m1 where "m1 = AddTransaction m (read_tr (next_e_addr r))"
    let ?ts = "if gnn_mode (arch_info G) = GCN then [read_tr (next_e_addr r), read_tr (next_val_addr r)]
      else [read_tr (next_e_addr r)]"
    let ?m' = "if gnn_mode (arch_info G) = GCN then AddTransaction m1 (read_tr (next_val_addr r)) else m1"
    have "\<exists>r'. EdgeRequest G r m = Inr (r', ?m')"
      using d True by (auto simp: EdgeRequest_def m1_def Let_def)
    moreover have "mem_ext m ?m' ?ts" by (simp add: m1_def mem_ext_def AddTransaction_def)
    moreover have "\<forall>t \<in> set ?ts. graph_read G t" using g gv by (simp add: graph_read_def read_tr_def)
    ultimately show ?thesis by blast
  qed
qed

lemma GraphReceive_ext:
  assumes ok: "engine_ok G i" and id: "gr_id r = i" and rq: "i < length (rq m)"
  shows "\<exists>r' m'. GraphReceive G r m = Inr (r', m') \<and> mem_ext m m' []"
proof -
  obtain t m' where g: "GetGraph m i = Inr (t, m')" "mem_ext m m' []"
    using rq by (cases "rq m ! i") (auto simp: GetGraph_def mem_ext_def)
  obtain r1 where "receive_line G t r = Inr r1"
    using ok id by (cases t) (auto simp: engine_ok_def)
  with g id show ?thesis by (simp add: GraphReceive_def)
qed

lemma graph_calls_ext:
  assumes env: "engine_env md G i" "layout_ok G" "i < engines G" and run: "gr_run G i r m tr"
    and rq: "length (rq m) = engines G"
  shows "\<exists>r' m' ts tr'. graph_calls G r m = Inr (r', m') \<and> mem_ext m m' ts \<and> (\<forall>t \<in> set ts. graph_read G t) \<and>
    gr_run G i r' m' tr' \<and> edges tr' = edges tr"
proof -
  have ok: "engine_ok G i" using env(1) by (simp add: engine_env_def Let_def)
  obtain r1 m1 ts1 tr1 where 1: "(if \<not> v_req_over r then VertexRequest G r m else Inr (r, m)) = Inr (r1, m1)"
    "mem_ext m m1 ts1" "\<forall>t \<in> set ts1. graph_read G t" "gr_run G i r1 m1 tr1" "edges tr1 = edges tr"
  proof (cases "v_req_over r")
    case True
    then show ?thesis using that [of r m "[]" tr] run mem_ext_refl by auto
  next
    case False
    from row_request_ext [OF env run False] obtain r1 m1 ts1 where
      v: "VertexRequest G r m = Inr (r1, m1)" "mem_ext m m1 ts1" "\<forall>t \<in> set ts1. graph_read G t" by blast
    from gr_run.vreq [OF run False v(1)] show ?thesis
      using that [of r1 m1 ts1 "tr\<lparr>rows := rows tr @ new_reqs m m1\<rparr>"] v False by simp
  qed
  obtain r2 m2 ts2 tr2 where 2: "(if \<not> e_req_over r1 then EdgeRequest G r1 m1 else Inr (r1, m1)) = Inr (r2, m2)"
    "mem_ext m1 m2 ts2" "\<forall>t \<in> set ts2. graph_read G t" "gr_run G i r2 m2 tr2" "edges tr2 = edges tr1"
  proof (cases "e_req_over r1")
    case True
    then show ?thesis using that [of r1 m1 "[]" tr1] 1(4) mem_ext_refl by auto
  next
    case False
    from edge_request_ext [OF env 1(4) False] obtain r2 m2 ts2 where
      v: "EdgeRequest G r1 m1 = Inr (r2, m2)" "mem_ext m1 m2 ts2" "\<forall>t \<in> set ts2. graph_read G t" by blast
    from gr_run.ereq [OF 1(4) False v(1)] show ?thesis
      using that [of r2 m2 ts2 "tr1\<lparr>cols := cols tr1 @ new_reqs m1 m2\<rparr>"] v False by simp
  qed
  have id: "gr_id r2 = i" using gr_run_inv [OF 2(4) ok] by (simp add: reader_inv_def Let_def)
  have rq2: "i < length (rq m2)" using 1(2) 2(2) rq env(3) by (simp add: mem_ext_def)
  obtain r3 m3 where 3: "(if \<not> reci_over r2 then GraphReceive G r2 m2 else Inr (r2, m2)) = Inr (r3, m3)"
    "mem_ext m2 m3 []" "gr_run G i r3 m3 tr2"
  proof (cases "reci_over r2")
    case True
    then show ?thesis using that [of r2 m2] 2(4) mem_ext_refl by auto
  next
    case False
    from GraphReceive_ext [OF ok id rq2] obtain r3 m3 where "GraphReceive G r2 m2 = Inr (r3, m3)" "mem_ext m2 m3 []"
      by blast
    with gr_run.recv [OF 2(4) False] False show ?thesis using that [of r3 m3] by simp
  qed
  have "graph_calls G r m = Inr (r3, m3)" unfolding graph_calls_def 1(1) res_bind_Inr case_prod_conv 2(1) 3(1) ..
  moreover have "mem_ext m m3 (ts1 @ ts2)" using mem_ext_trans [OF mem_ext_trans [OF 1(2) 2(2)] 3(2)] by simp
  moreover have "\<forall>t \<in> set (ts1 @ ts2). graph_read G t" using 1(3) 2(3) by auto
  ultimately show ?thesis using 3(3) 1(5) 2(5) by (metis (no_types))
qed

lemma edge_at_lines:
  assumes "engine_env md G i" and "p < nat (bf (arch_info G)) * length (col_idx G ! i)"
  shows "lines_ok md G (dst (edge_at rp (col_idx G ! i) i p)) (v_fold (edge_at rp (col_idx G ! i) i p))"
proof -
  let ?E = "length (col_idx G ! i)"
  have "0 < ?E" using assms by (cases "?E = 0") auto
  then have "col_idx G ! i ! (p mod ?E) \<in> set (col_idx G ! i)" "int (p div ?E) < bf (arch_info G)"
    using assms(2) by (auto simp: less_mult_imp_div_less nat_less_iff [symmetric] zless_nat_eq_int_zless [symmetric])
  then show ?thesis using assms(1) by (auto simp: edge_at_def engine_env_def Let_def)
qed

lemma pass_call_ext:
  assumes env: "engine_env md G i" "i < engines G" and run: "gr_run G i r m tr"
    and fr: "fr_run G md (fr, c, m) ent out" and e: "edges tr = ent i"
  shows "\<exists>r' fr' tr' ent'. pass_call G r fr = Inr (r', fr') \<and> gr_run G i r' m tr' \<and>
    fr_run G md (fr', c, m) ent' out \<and> edges tr' = ent' i \<and> (\<forall>j. j \<noteq> i \<longrightarrow> ent' j = ent j) \<and>
    requested fr' = requested fr \<and> fq fr' = fq fr"
proof (cases "pass_over r")
  case True
  then show ?thesis using run fr e by (auto simp: pass_call_def)
next
  case False
  let ?ci = "col_idx G ! i" and ?rp = "row_ptr G ! i"
  have ok: "engine_ok G i" using env(1) by (simp add: engine_env_def Let_def)
  note I = gr_run_inv [OF run ok]
  from NextFeature_inv [OF ok, of r] I obtain ei r' where
    n: "NextFeature G r = Inr (ei, r')" "reader_inv G i r'"
      "ei = no_edge i \<or> ei = edge_at ?rp ?ci i (gr_pos ?ci r) \<and> gr_pos ?ci r' = Suc (gr_pos ?ci r)" by auto
  note run' = gr_run.pass [OF run False n(1)]
  show ?thesis
  proof (cases "dst ei = -1")
    case True
    then show ?thesis using False n(1) run' fr e by (auto simp: pass_call_def)
  next
    case d: False
    then have ei: "ei = edge_at ?rp ?ci i (gr_pos ?ci r)" "gr_pos ?ci r' = Suc (gr_pos ?ci r)"
      using n(3) by (auto simp: no_edge_def)
    have "gr_pos ?ci r' \<le> nat (bf (arch_info G)) * length ?ci"
      using n(2) gr_pos_le by (auto simp: reader_inv_def Let_def)
    then have l: "lines_ok md G (dst ei) (v_fold ei)" unfolding ei(1) using ei(2) by (intro edge_at_lines env) simp
    have id: "ei_id ei = i" by (simp add: ei(1) edge_at_def Let_def)
    have "length (pq fr) = engines G" using fr_run_inv [OF fr] by (simp add: fr_ok_def)
    then obtain fr' where f: "EnterFtoList fr ei = Inr fr'" "requested fr' = requested fr" "fq fr' = fq fr"
      using env(2) id by (simp add: EnterFtoList_def)
    from fr_run.enter [OF fr l f(1)] id e d run' False n(1) f show ?thesis
      by (intro exI [of _ r'] exI [of _ fr'] exI [of _ "tr\<lparr>edges := edges tr @ [ei]\<rparr>"]
          exI [of _ "ent(i := ent i @ [ei])"]) (simp add: pass_call_def)
  qed
qed

section \<open>The invariant\<close>

text \<open>
  The histories of the parts: per engine the trace \<open>trs i\<close> of its graph reader, the edges \<open>ent i\<close>
  entered for it, the signals \<open>out i\<close> its SIMD core got and the writes \<open>ws i\<close> it has handed to the
  memory. They fit together: the edges entered are those passed by the graph reader, and the SIMD core
  has seen the row ends among the signals.
\<close>

definition zeros :: "int list \<Rightarrow> nat" where
  "zeros xs = length (filter (\<lambda>x. x = 0) xs)"

definition linked :: "F_MODE \<Rightarrow> sim_env \<Rightarrow> 'd sim \<Rightarrow> (nat \<Rightarrow> gr_trace) \<Rightarrow> (nat \<Rightarrow> EdgeInfo list) \<Rightarrow>
    (nat \<Rightarrow> int list) \<Rightarrow> (nat \<Rightarrow> u64 list) \<Rightarrow> bool" where
  "linked md G st trs ent out ws \<longleftrightarrow>
     length (c_gr st) = engines G \<and> length (c_si st) = engines G \<and>
     fr_run G md (c_fr st, c_cah st, c_mem st) ent out \<and>
     (\<forall>i < engines G. gr_run G i (c_gr st ! i) (c_mem st) (trs i) \<and>
        simd_run G i (c_si st ! i) (c_mem st) (zeros (out i)) (ws i) \<and> edges (trs i) = ent i)"

text \<open>Every read on its way can be delivered, and every write is queued, pending or completed.\<close>

definition routed :: "sim_env \<Rightarrow> (u64 \<times> bool) multiset \<Rightarrow> bool" where
  "routed G M \<longleftrightarrow> (\<forall>e \<in># M. \<not> snd e \<longrightarrow> graph_addr G (fst e) \<or> xw_ele_addr_start (arch_info G) \<le> fst e)"

definition writes_in :: "(u64 \<times> bool) multiset \<Rightarrow> nat" where
  "writes_in M = size (filter_mset snd M)"

definition on_way :: "(u64 \<times> bool) multiset \<Rightarrow> 'd memory \<Rightarrow> (u64 \<times> bool) multiset" where
  "on_way P m = P + mset (map trans_of (tq m))"

definition sys_inv :: "F_MODE \<Rightarrow> sim_env \<Rightarrow> u64 \<Rightarrow> (u64 \<times> bool) multiset \<Rightarrow> 'd sim \<Rightarrow> (nat \<Rightarrow> u64 list) \<Rightarrow> nat \<Rightarrow> bool" where
  "sys_inv md G tw P st ws done \<longleftrightarrow> (\<exists>trs ent out. linked md G st trs ent out ws) \<and>
     fetch_inv G P (c_fr st, c_cah st, c_mem st) \<and> queues_ok G (c_fr st) \<and> routed G (on_way P (c_mem st)) \<and>
     length (rq (c_mem st)) = engines G \<and>
     (\<Sum>i < engines G. length (ws i)) = writes_in (on_way P (c_mem st)) + done \<and>
     total_write (c_mem st) = tw - of_nat done"

lemma on_way_ext: "mem_ext m m' ts \<Longrightarrow> on_way P m' = on_way P m + mset (map trans_of ts)"
  by (simp add: mem_ext_def on_way_def)

lemma fetch_inv_ext:
  assumes "fetch_inv G P (fr, c, m)" and "mem_ext m m' ts" and "layout_ok G"
    and "\<forall>t \<in> set ts. graph_read G t \<or> is_write t"
  shows "fetch_inv G P (fr, c, m')"
proof -
  have "feature_reads G (mset (map trans_of ts)) = {#}"
    using assms(4) graph_addr_lt [OF assms(3)]
    by (induction ts) (auto simp: feature_reads_def trans_of_def graph_read_def not_le [symmetric])
  then have "on_the_way G P m' = on_the_way G P m"
    using assms(2) by (simp add: on_the_way_def mem_ext_def feature_reads_def)
  then show ?thesis using assms(1) by (simp add: fetch_inv_def)
qed

lemma routed_ext:
  "routed G (on_way P m) \<Longrightarrow> mem_ext m m' ts \<Longrightarrow>
   (\<forall>t \<in> set ts. is_write t \<or> graph_read G t \<or> xw_ele_addr_start (arch_info G) \<le> address t) \<Longrightarrow> routed G (on_way P m')"
  by (auto simp: routed_def on_way_ext trans_of_def graph_read_def)

lemma writes_ext:
  "mem_ext m m' ts \<Longrightarrow> writes_in (on_way P m') = writes_in (on_way P m) + length (filter is_write ts)"
proof -
  assume "mem_ext m m' ts"
  moreover have "size (filter_mset snd (mset (map trans_of ts))) = length (filter is_write ts)"
    by (induction ts) (auto simp: trans_of_def)
  ultimately show ?thesis by (simp add: writes_in_def on_way_ext)
qed

lemma fetched_ext: "fetched G m m' \<Longrightarrow> \<exists>ts. mem_ext m m' ts \<and>
    (\<forall>t \<in> set ts. \<not> is_write t \<and> xw_ele_addr_start (arch_info G) \<le> address t)"
  unfolding fetched_def using mem_ext_refl mem_ext_Add by (fastforce simp: read_tr_def line_ok_def)

lemma Write_ext:
  assumes "SIMD_Write s m = (s', m')"
  shows "\<exists>ts. mem_ext m m' ts \<and> (\<forall>t \<in> set ts. is_write t) \<and> new_writes m m' = map address ts"
  using assms mem_ext_refl [of m] mem_ext_Add [of m]
  by (auto simp: SIMD_Write_def new_writes_def AddTransaction_def write_tr_def mem_ext_def
      split: list.splits if_splits)

section \<open>One engine step\<close>

text \<open>The histories of the other engines are unaffected by a change of the memory.\<close>

lemma linked_upd:
  fixes st :: "'d sim" and m :: "'d memory"
  assumes "linked md G st trs ent out ws" and i: "i < engines G"
    and "gr_run G i r m tr" and "simd_run G i s m (zeros os) w" and "edges tr = es"
    and "fr_run G md (fr, c, m) ent' out'" and "ent' = ent(i := es)" and "out' = out(i := os)"
  shows "linked md G \<lparr>c_mem = m, c_cah = c, c_gr = (c_gr st)[i := r], c_si = (c_si st)[i := s], c_fr = fr\<rparr>
    (trs(i := tr)) ent' out' (ws(i := w))"
proof -
  have "gr_run G j (c_gr st ! j) m (trs j) \<and> simd_run G j (c_si st ! j) m (zeros (out j)) (ws j) \<and> edges (trs j) = ent j"
    if "j < engines G" for j
    using assms(1) that by (auto simp: linked_def intro: gr_run.env simd_run.env)
  then show ?thesis using assms by (auto simp: linked_def nth_list_update)
qed

lemma zeros_snoc: "zeros (xs @ [p]) = (if p = 0 then Suc (zeros xs) else zeros xs)"
  by (simp add: zeros_def)

lemma sum_len_upd:
  fixes n :: nat
  assumes "i < n"
  shows "(\<Sum>j < n. length ((ws(i := ws i @ xs)) j)) = (\<Sum>j < n. length (ws j)) + length xs"
proof -
  have "(\<Sum>j < n. length ((ws(i := ws i @ xs)) j)) = (\<Sum>j < n. length (ws j) + (if j = i then length xs else 0))"
    by (intro sum.cong) auto
  also have "\<dots> = (\<Sum>j < n. length (ws j)) + length xs" using assms by (simp add: sum.distrib)
  finally show ?thesis .
qed

text \<open>The calls of an engine step, none of which fails, with what each does to the parts it works on.\<close>

lemma engine_step_parts:
  fixes st :: "'d sim"
  assumes env: "env_ok md G" and i: "i < engines G" and L: "linked md G st trs ent out ws"
    and F: "fetch_inv G P (c_fr st, c_cah st, c_mem st)" and q: "queues_ok G (c_fr st)" and rq: "length (rq (c_mem st)) = engines G"
  obtains r1 tr1 r2 tr2 fr1 ent2 fr2 c2 x fr3 c3 s' ts1 t2 t3 t4 and m1 m2 m3 m4 :: "'d memory"
  where "graph_calls G (c_gr st ! i) (c_mem st) = Inr (r1, m1)" "gr_run G i r1 m1 tr1" "mem_ext (c_mem st) m1 ts1" "\<forall>t \<in> set ts1. graph_read G t"
    "pass_call G r1 (c_fr st) = Inr (r2, fr1)" "gr_run G i r2 m1 tr2" "fr_run G md (fr1, c_cah st, m1) (ent(i := ent2)) out" "edges tr2 = ent2"
    "ReadNext G i (fr1, c_cah st, m1) = Inr (fr2, c2, m2)" "fr_run G md (fr2, c2, m2) (ent(i := ent2)) out" "mem_ext m1 m2 t2"
    "\<forall>t \<in> set t2. \<not> is_write t \<and> xw_ele_addr_start (arch_info G) \<le> address t"
    "PassFtoSIMD G i (fr2, c2, m2) = Inr (x, fr3, c3, m3)" "fetch_inv G P (fr3, c3, m3)" "queues_ok G fr3" "mem_ext m2 m3 t3"
    "\<forall>t \<in> set t3. \<not> is_write t \<and> xw_ele_addr_start (arch_info G) \<le> address t" "x = -1 \<or> x = 0 \<or> x = 1"
    "fr_run G md (fr3, c3, m3) (ent(i := ent2)) (if x = -1 then out else out(i := out i @ [x]))"
    "SIMD_Write (SIMD_GetFeature G x (c_si st ! i)) m3 = (s', m4)" "mem_ext m3 m4 t4" "\<forall>t \<in> set t4. is_write t" "new_writes m3 m4 = map address t4"
    "engine_step G i st = Inr \<lparr>c_mem = m4, c_cah = c3, c_gr = (c_gr st)[i := r2], c_si = (c_si st)[i := s'], c_fr = fr3\<rparr>"
proof -
  have E: "engine_env md G i" "layout_ok G" "addr_ok G" using env i by (auto simp: env_ok_def)
  let ?m = "c_mem st"
  have Li: "i < length (c_gr st)" "i < length (c_si st)" "gr_run G i (c_gr st ! i) ?m (trs i)" "edges (trs i) = ent i"
    "fr_run G md (c_fr st, c_cah st, ?m) ent out"
    using L i by (auto simp: linked_def)
  from graph_calls_ext [OF E(1,2) i Li(3) rq] obtain r1 m1 ts1 tr1 where
    g: "graph_calls G (c_gr st ! i) ?m = Inr (r1, m1)" "mem_ext ?m m1 ts1" "\<forall>t \<in> set ts1. graph_read G t"
      "gr_run G i r1 m1 tr1" "edges tr1 = edges (trs i)" by blast
  have "edges tr1 = ent i" using g(5) Li(4) by simp
  from pass_call_ext [OF E(1) i g(4) fr_run.env [OF Li(5)] this] obtain r2 fr1 tr2 ent2 where
    p: "pass_call G r1 (c_fr st) = Inr (r2, fr1)" "gr_run G i r2 m1 tr2" "fr_run G md (fr1, c_cah st, m1) ent2 out"
      "edges tr2 = ent2 i" "\<forall>j. j \<noteq> i \<longrightarrow> ent2 j = ent j" "requested fr1 = requested (c_fr st)" "fq fr1 = fq (c_fr st)"
    by blast
  have ent: "ent(i := ent2 i) = ent2" using p(5) by auto
  have F1: "fetch_inv G P (fr1, c_cah st, m1)"
    using fetch_inv_cong [THEN iffD2, OF p(6) fetch_inv_ext [OF F g(2) E(2)]] g(3) by blast
  have q1: "queues_ok G fr1" using q p(7) by (simp add: queues_ok_def)
  have ok1: "fr_ok md G fr1" using fr_run_inv [OF p(3)] by simp
  from ReadNext_total [OF ok1 q1 E(3) F1 i] obtain fr2 c2 m2 where
    n: "ReadNext G i (fr1, c_cah st, m1) = Inr (fr2, c2, m2)" "fetch_inv G P (fr2, c2, m2)" "queues_ok G fr2"
      "fetched G m1 m2" by blast
  note run2 = fr_run.read [OF p(3) i n(1)]
  have ok2: "fr_ok md G fr2" using fr_run_inv [OF run2] by simp
  from PassFtoSIMD_total [OF ok2 n(3,2) i] obtain x fr3 c3 m3 where
    s: "PassFtoSIMD G i (fr2, c2, m2) = Inr (x, fr3, c3, m3)" "fetch_inv G P (fr3, c3, m3)" "queues_ok G fr3"
      "fetched G m2 m3" by blast
  have x: "x = -1 \<or> x = 0 \<or> x = 1" using PassFtoSIMD_spec [OF s(1) ok2 i] by blast
  obtain s' m4 where w: "SIMD_Write (SIMD_GetFeature G x (c_si st ! i)) m3 = (s', m4)" by fastforce
  from fetched_ext [OF n(4)] fetched_ext [OF s(4)] Write_ext [OF w] obtain t2 t3 t4 where
    t: "mem_ext m1 m2 t2" "mem_ext m2 m3 t3" "mem_ext m3 m4 t4"
      "\<forall>t \<in> set t2. \<not> is_write t \<and> xw_ele_addr_start (arch_info G) \<le> address t"
      "\<forall>t \<in> set t3. \<not> is_write t \<and> xw_ele_addr_start (arch_info G) \<le> address t"
      "\<forall>t \<in> set t4. is_write t" "new_writes m3 m4 = map address t4" by blast
  have "engine_step G i st = Inr \<lparr>c_mem = m4, c_cah = c3, c_gr = (c_gr st)[i := r2], c_si = (c_si st)[i := s'], c_fr = fr3\<rparr>"
    using Li(1,2) g(1) p(1) n(1) s(1) w by (simp add: engine_step_def)
  from that [of r1 m1 tr1 ts1 r2 fr1 tr2 "ent2 i", unfolded ent, OF g(1,4,2,3) p(1,2,3,4) n(1) run2 t(1,4) s(1,2,3) t(2,5) x
      fr_run.pass [OF run2 i s(1)] w t(3,6,7) this] show ?thesis .
qed

lemma engine_step_inv:
  assumes env: "env_ok md G" and i: "i < engines G" and inv: "sys_inv md G tw P st ws done"
  shows "\<exists>st' ws'. engine_step G i st = Inr st' \<and> sys_inv md G tw P st' ws' done \<and>
    dram (c_mem st') = dram (c_mem st)"
proof -
  have E: "layout_ok G" using env by (simp add: env_ok_def)
  let ?m = "c_mem st"
  obtain trs ent out where L: "linked md G st trs ent out ws" using inv by (auto simp: sys_inv_def)
  have S: "fetch_inv G P (c_fr st, c_cah st, ?m)" "queues_ok G (c_fr st)" "routed G (on_way P ?m)"
    "length (rq ?m) = engines G" "(\<Sum>j < engines G. length (ws j)) = writes_in (on_way P ?m) + done"
    "total_write ?m = tw - of_nat done"
    using inv by (auto simp: sys_inv_def)
  have Li: "simd_run G i (c_si st ! i) ?m (zeros (out i)) (ws i)" using L i by (auto simp: linked_def)
  show ?thesis
  proof (rule engine_step_parts [OF env i L S(1,2,4)], goal_cases)
    case (1 r1 tr1 r2 tr2 fr1 ent2 fr2 c2 x fr3 c3 s' ts1 t2 t3 t4 m1 m2 m3 m4)
    note p = 1(3,4,6,8) and t = 1(11,12,16,17,21,22,23) and s = 1(14,15,18,19) and w = 1(20) and step = 1(24)
    define os where "os = (if x = -1 then out i else out i @ [x])"
    have os: "(if x = -1 then out else out(i := out i @ [x])) = out(i := os)" by (simp add: os_def)
    have z: "zeros os = (if x = 0 then Suc (zeros (out i)) else zeros (out i))" using s(3) by (auto simp: os_def zeros_snoc)
    have si: "simd_run G i s' m4 (zeros os) (ws i @ new_writes m3 m4)"
      unfolding z by (rule simd_run.wr [OF simd_run.get [OF simd_run.env [OF Li]] w])
    let ?ts = "ts1 @ t2 @ t3 @ t4"
    have ext: "mem_ext ?m m4 ?ts"
      using mem_ext_trans [OF mem_ext_trans [OF mem_ext_trans [OF p(1) t(1)] t(3)] t(5)] by simp
    define st' where "st' = \<lparr>c_mem = m4, c_cah = c3, c_gr = (c_gr st)[i := r2], c_si = (c_si st)[i := s'], c_fr = fr3\<rparr>"
    have "linked md G st' (trs(i := tr2)) (ent(i := ent2)) (out(i := os)) (ws(i := ws i @ new_writes m3 m4))"
      unfolding st'_def
      by (rule linked_upd [OF L i gr_run.env [OF p(3)] si p(4) fr_run.env [OF s(4) [unfolded os]] refl refl])
    moreover have "fetch_inv G P (fr3, c3, m4)" using fetch_inv_ext [OF s(1) t(5) E] t(6) by blast
    moreover have "routed G (on_way P m4)" using routed_ext [OF S(3) ext] p(2) t(2,4,6) by auto
    moreover have "length (rq m4) = engines G" "total_write m4 = tw - of_nat done" "dram m4 = dram ?m"
      using ext S(4,6) by (auto simp: mem_ext_def)
    moreover have "filter is_write ?ts = t4" using p(2) t(2,4,6) by (auto simp: graph_read_def filter_empty_conv filter_id_conv)
    then have "(\<Sum>j < engines G. length ((ws(i := ws i @ new_writes m3 m4)) j)) = writes_in (on_way P m4) + done"
      using writes_ext [OF ext] S(5) t(7) unfolding sum_len_upd [OF i] by simp
    ultimately have "sys_inv md G tw P st' (ws(i := ws i @ new_writes m3 m4)) done" "dram (c_mem st') = dram ?m"
      using s(2) by (auto simp: sys_inv_def st'_def)
    then show ?thesis using step unfolding st'_def [symmetric] by blast
  qed
qed

section \<open>The end of a cycle\<close>

text \<open>The reads of lines of one kind and engine among transactions.\<close>

definition lines_way :: "sim_env \<Rightarrow> nat \<Rightarrow> R_TYPE \<Rightarrow> (u64 \<times> bool) multiset \<Rightarrow> nat" where
  "lines_way G i t M = size {#e \<in># M. \<not> snd e \<and> in_region t (fst e) (data_index G ! i)#}"

lemma lines_way_union: "lines_way G i t (M + N) = lines_way G i t M + lines_way G i t N"
  by (simp add: lines_way_def)

lemma lines_way_add: "lines_way G i t (add_mset e M) =
    (if \<not> snd e \<and> in_region t (fst e) (data_index G ! i) then 1 else 0) + lines_way G i t M"
  by (simp add: lines_way_def)

lemma lines_way_empty [simp]: "lines_way G i t {#} = 0"
  by (simp add: lines_way_def)

lemma region_unique:
  assumes "layout_ok G" and "i < engines G" "in_region t a (data_index G ! i)"
    and "j < engines G" "in_region t' a (data_index G ! j)"
  shows "i = j \<and> t = t'"
proof -
  have t: "t = t'" using line_type_layout(1) [OF assms(1-3)] line_type_layout(1) [OF assms(1,4,5)] by simp
  with find_owner_layout [OF assms(1-3)] find_owner_layout [OF assms(1,4,5)] show ?thesis by simp
qed

text \<open>Delivering one completion.\<close>

lemma deliver_spec:
  assumes "layout_ok G" and "length (rq m) = engines G"
    and "snd e \<or> graph_addr G (fst e) \<or> xw_ele_addr_start (arch_info G) \<le> fst e"
  shows "\<exists>m'. deliver G e m = Inr m' \<and> length (rq m') = engines G \<and> tq m' = tq m \<and> dram m' = dram m \<and>
    mem_fq m' = mem_fq m @ (if \<not> snd e \<and> xw_ele_addr_start (arch_info G) \<le> fst e then [fst e] else []) \<and>
    total_write m' = total_write m - (if snd e then 1 else 0) \<and>
    (\<forall>j < engines G. \<forall>t. count_list (rq m' ! j) t = count_list (rq m ! j) t + lines_way G j t {#e#})"
proof (cases "snd e")
  case True
  then show ?thesis using assms(2) by (auto simp: deliver_def WriteCompleteCallback_def lines_way_add)
next
  case False
  show ?thesis
  proof (cases "xw_ele_addr_start (arch_info G) \<le> fst e")
    case True
    have "\<not> in_region t (fst e) (data_index G ! j)" if "j < engines G" for j t
      using line_type_layout(3) [OF assms(1) that, of t "fst e"] True by (auto simp: not_less [symmetric])
    then show ?thesis using False True assms(2) by (auto simp: deliver_def ReadCompleteCallback_def lines_way_add Let_def)
  next
    case lt: False
    then obtain i t where i: "i < engines G" "in_region t (fst e) (data_index G ! i)"
      using False assms(3) by (auto simp: graph_addr_def)
    have "in_region t' (fst e) (data_index G ! j) \<longleftrightarrow> j = i \<and> t' = t" if "j < engines G" for j t'
      using region_unique [OF assms(1) i that, of t'] i by blast
    then have "\<forall>j < engines G. \<forall>t'. count_list ((rq m)[i := rq m ! i @ [t]] ! j) t' = count_list (rq m ! j) t' + lines_way G j t' {#e#}"
      using False i(1) assms(2) by (auto simp: lines_way_add nth_list_update)
    with ReadComplete_routes_at [OF assms(1) i assms(2)] show ?thesis
      using False lt assms(2) by (auto simp: deliver_def)
  qed
qed

lemma deliver_all:
  assumes "layout_ok G" and "length (rq m) = engines G" and "routed G (mset es)"
  shows "\<exists>m'. res_fold (deliver G) es m = Inr m' \<and> length (rq m') = engines G \<and> tq m' = tq m \<and> dram m' = dram m \<and>
    mset (mem_fq m') = mset (mem_fq m) + feature_reads G (mset es) \<and>
    total_write m' = total_write m - of_nat (writes_in (mset es)) \<and>
    (\<forall>j < engines G. \<forall>t. count_list (rq m' ! j) t = count_list (rq m ! j) t + lines_way G j t (mset es))"
  using assms(2,3)
proof (induction es arbitrary: m)
  case Nil
  then show ?case by (simp add: feature_reads_def writes_in_def)
next
  case (Cons e es)
  have "snd e \<or> graph_addr G (fst e) \<or> xw_ele_addr_start (arch_info G) \<le> fst e" "routed G (mset es)"
    using Cons.prems(2) by (auto simp: routed_def)
  note r = this
  from deliver_spec [OF assms(1) Cons.prems(1) r(1)] obtain m1 where
    m1: "deliver G e m = Inr m1" "length (rq m1) = engines G" "tq m1 = tq m" "dram m1 = dram m"
      "mem_fq m1 = mem_fq m @ (if \<not> snd e \<and> xw_ele_addr_start (arch_info G) \<le> fst e then [fst e] else [])"
      "total_write m1 = total_write m - (if snd e then 1 else 0)"
      "\<forall>j < engines G. \<forall>t. count_list (rq m1 ! j) t = count_list (rq m ! j) t + lines_way G j t {#e#}" by blast
  from Cons.IH [OF m1(2) r(2)] m1 show ?case
    by (auto simp: feature_reads_def writes_in_def lines_way_def)
qed

text \<open>
  The end of a cycle: arrived features are received, the queue is consumed, the memory ticks and the
  completions \<open>evs\<close> are delivered.
\<close>

definition end_of_cycle :: "sim_env \<Rightarrow> (u64 \<times> bool) list \<Rightarrow> 'd sim \<Rightarrow> 'd sim \<Rightarrow> bool" where
  "end_of_cycle G evs st st' \<longleftrightarrow> c_gr st' = c_gr st \<and> c_si st' = c_si st \<and>
     (let fr = c_fr st; fr' = c_fr st'; m = c_mem st; m' = c_mem st' in
     fq fr' = fq fr \<and> pq fr' = pq fr \<and> frs fr' = frs fr \<and> requested fr' = requested fr - set (mem_fq m) \<and>
     (mem_fq m \<noteq> [] \<longrightarrow> last (mem_fq m) \<in> cached (c_cah st')) \<and> mset (mem_fq m') = feature_reads G (mset evs) \<and>
     (\<forall>j < engines G. \<forall>t. count_list (rq m' ! j) t = count_list (rq m ! j) t + lines_way G j t (mset evs)) \<and>
     (evs = [] \<longrightarrow> rq m' = rq m))"

context dram_contract
begin

lemma cycle_end_parts:
  assumes env: "env_ok md G" and s: "sys_inv md G tw (pending (dram (c_mem st))) st ws done"
    and d: "inv (dram (c_mem st))"
  shows "\<exists>st' done' d2 evs. cycle_end G D st = Inr st' \<and> inv (dram (c_mem st')) \<and>
    sys_inv md G tw (pending (dram (c_mem st'))) st' ws done' \<and> end_of_cycle G evs st st' \<and>
    on_way (pending (dram (c_mem st))) (c_mem st) = on_way (pending (dram (c_mem st'))) (c_mem st') + mset evs \<and>
    consume_loop D (dram (c_mem st)) (tq (c_mem st)) = Inr (d2, tq (c_mem st')) \<and> d_tick D d2 = Inr (dram (c_mem st'), evs)"
proof -
  let ?m = "c_mem st" and ?P = "pending (dram (c_mem st))"
  have L: "layout_ok G" using env by (simp add: env_ok_def)
  obtain trs ent out where lk: "linked md G st trs ent out ws" using s by (auto simp: sys_inv_def)
  have S: "fetch_inv G ?P (c_fr st, c_cah st, ?m)" "queues_ok G (c_fr st)" "routed G (on_way ?P ?m)"
    "length (rq ?m) = engines G" "(\<Sum>j < engines G. length (ws j)) = writes_in (on_way ?P ?m) + done"
    "total_write ?m = tw - of_nat done"
    using s by (auto simp: sys_inv_def)
  from FeatureReceive_inv [OF S(1)] obtain fr c where
    f: "FeatureReceive G (c_fr st, c_cah st, ?m) = Inr (fr, c, ?m\<lparr>mem_fq := []\<rparr>)"
      "fetch_inv G ?P (fr, c, ?m\<lparr>mem_fq := []\<rparr>)" "requested fr = requested (c_fr st) - set (mem_fq ?m)"
      "mem_fq ?m \<noteq> [] \<longrightarrow> last (mem_fq ?m) \<in> cached c" by blast
  define m1 where "m1 = ?m\<lparr>mem_fq := []\<rparr>"
  from Consume_spec [of m1] d obtain d2 n where
    c: "ConsumeTransaction D m1 = Inr (m1\<lparr>dram := d2, tq := drop n (tq m1)\<rparr>)" "inv d2"
      "inflight (m1\<lparr>dram := d2, tq := drop n (tq m1)\<rparr>) = inflight m1" by (auto simp: m1_def)
  define m2 where "m2 = m1\<lparr>dram := d2, tq := drop n (tq m1)\<rparr>"
  have tr: "trans_of = (\<lambda>t. (address t, is_write t))" by (auto simp: trans_of_def)
  have w2: "on_way (pending d2) m2 = on_way ?P ?m"
    using c(3) by (simp add: on_way_def inflight_def m2_def m1_def tr)
  from tick_spec [OF c(2)] obtain d3 evs where
    t: "d_tick D d2 = Inr (d3, evs)" "inv d3" "pending d2 = pending d3 + mset evs" by blast
  have w3: "on_way ?P ?m = on_way (pending d3) m2 + mset evs"
    by (subst w2 [symmetric]) (simp add: on_way_def t(3) ac_simps)
  have r: "routed G (mset evs)" "routed G (on_way (pending d3) m2)" using S(3) unfolding w3 by (auto simp: routed_def)
  from deliver_all [OF L _ r(1), of "m2\<lparr>dram := d3\<rparr>"] obtain m3 where
    m3: "res_fold (deliver G) evs (m2\<lparr>dram := d3\<rparr>) = Inr m3" "length (rq m3) = engines G" "tq m3 = tq m2"
      "dram m3 = d3" "mset (mem_fq m3) = feature_reads G (mset evs)"
      "total_write m3 = total_write ?m - of_nat (writes_in (mset evs))"
      "\<forall>j < engines G. \<forall>t. count_list (rq m3 ! j) t = count_list (rq ?m ! j) t + lines_way G j t (mset evs)"
    using S(4) by (auto simp: m2_def m1_def)
  define m4 where "m4 = m3\<lparr>mem_cycle := mem_cycle m3 + 1\<rparr>"
  define st' where "st' = st\<lparr>c_fr := fr, c_cah := c, c_mem := m4\<rparr>"
  have e: "cycle_end G D st = Inr st'"
    using f(1) c(1) t(1) m3(1) unfolding cycle_end_def UpdateCycle_def
    by (simp add: m1_def [symmetric] m2_def [symmetric] m4_def st'_def) (simp add: m2_def)
  have "fr_run G md (c_fr st, c_cah st, ?m) ent out" using lk by (simp add: linked_def)
  note frr = fr_run.env [OF fr_run.recv [OF this f(1)], of m4]
  have "linked md G st' trs ent out ws"
    using lk frr by (auto simp: linked_def st'_def intro: gr_run.env simd_run.env)
  moreover have "fetch_inv G (pending d3) (fr, c, m4)"
  proof -
    have "on_the_way G ?P m1 = mset_set (requested fr)" using f(2) by (simp add: fetch_inv_def m1_def)
    moreover have "on_the_way G ?P m1 = feature_reads G (on_way ?P ?m)" by (simp add: on_the_way_def on_way_def m1_def)
    moreover have "on_the_way G (pending d3) m4 = feature_reads G (on_way ?P ?m)"
      unfolding w3 using m3 by (simp add: on_the_way_def on_way_def m4_def feature_reads_def)
    ultimately show ?thesis using f(2) by (simp add: fetch_inv_def)
  qed
  moreover have "queues_ok G fr"
    using S(2) f(1) receive_features_view by (auto simp: FeatureReceive_def queues_ok_def)
  moreover have "routed G (on_way (pending d3) m4)" using r(2) m3 by (simp add: on_way_def m4_def)
  moreover have "(\<Sum>j < engines G. length (ws j)) = writes_in (on_way (pending d3) m4) + (writes_in (mset evs) + done)"
    using S(5) m3(3) unfolding w3 by (simp add: writes_in_def on_way_def m4_def)
  moreover have "total_write m4 = tw - of_nat (writes_in (mset evs) + done)" using m3(6) S(6) by (simp add: m4_def)
  ultimately have "sys_inv md G tw (pending (dram (c_mem st'))) st' ws (writes_in (mset evs) + done)"
    using m3(2,4) by (auto simp: sys_inv_def st'_def m4_def)
  moreover have "inv (dram (c_mem st'))" using t(2) m3(4) by (simp add: st'_def m4_def)
  moreover have "end_of_cycle G evs st st'"
  proof -
    have v: "frs fr = frs (c_fr st) \<and> pq fr = pq (c_fr st) \<and> fq fr = fq (c_fr st)"
      using f(1) receive_features_view by (auto simp: FeatureReceive_def)
    have "rq m3 = rq ?m" if "evs = []" using m3(1) that by (auto simp: m2_def m1_def)
    with v f(3,4) m3(5,7) show ?thesis by (simp add: end_of_cycle_def st'_def m4_def)
  qed
  moreover have "on_way ?P ?m = on_way (pending (dram (c_mem st'))) (c_mem st') + mset evs"
    using w3 m3(3,4) by (simp add: st'_def m4_def on_way_def)
  moreover have "consume_loop D (dram ?m) (tq ?m) = Inr (d2, tq (c_mem st'))"
  proof -
    from c(1) obtain a b where ab: "consume_loop D (dram m1) (tq m1) = Inr (a, b)" "m1\<lparr>dram := a, tq := b\<rparr> = m2"
      by (auto simp: ConsumeTransaction_def m2_def)
    have "a = d2" "b = tq m2" using arg_cong [OF ab(2), of dram] arg_cong [OF ab(2), of tq] by (simp_all add: m2_def)
    then show ?thesis using ab(1) m3(3) by (simp add: m1_def st'_def m4_def)
  qed
  moreover have "d_tick D d2 = Inr (dram (c_mem st'), evs)" using t(1) m3(4) by (simp add: st'_def m4_def)
  ultimately show ?thesis using e by blast
qed


lemma cycle_step_parts:
  assumes env: "env_ok md G" and s: "sys_inv md G tw (pending (dram (c_mem st))) st ws done"
    and d: "inv (dram (c_mem st))"
  shows "\<exists>st1 st' ws' done' d2 evs. res_fold (engine_step G) [0..<engines G] st = Inr st1 \<and> cycle_end G D st1 = Inr st' \<and>
    inv (dram (c_mem st')) \<and> sys_inv md G tw (pending (dram (c_mem st'))) st' ws' done' \<and>
    dram (c_mem st1) = dram (c_mem st) \<and> consume_loop D (dram (c_mem st)) (tq (c_mem st1)) = Inr (d2, tq (c_mem st')) \<and>
    d_tick D d2 = Inr (dram (c_mem st'), evs)"
proof -
  let ?Q = "\<lambda>s. (\<exists>ws. sys_inv md G tw (pending (dram (c_mem st))) s ws done) \<and> dram (c_mem s) = dram (c_mem st)"
  have "\<exists>t. res_fold (engine_step G) [0..<engines G] st = Inr t \<and> ?Q t"
  proof (rule res_fold_inv [where P = ?Q])
    show "?Q st" using s by blast
    fix i u
    assume "i \<in> set [0..<engines G]" "?Q u"
    then show "\<exists>t. engine_step G i u = Inr t \<and> ?Q t" using engine_step_inv [OF env, of i] by fastforce
  qed
  then obtain t ws1 where t: "res_fold (engine_step G) [0..<engines G] st = Inr t" "dram (c_mem t) = dram (c_mem st)"
    "sys_inv md G tw (pending (dram (c_mem t))) t ws1 done" "inv (dram (c_mem t))" using d by auto
  from cycle_end_parts [OF env t(3,4)] t(1,2) show ?thesis by fastforce
qed

lemma cycle_step_inv:
  assumes "env_ok md G" and "sys_inv md G tw (pending (dram (c_mem st))) st ws done" and "inv (dram (c_mem st))"
  shows "\<exists>st' ws' done'. cycle_step G D st = Inr st' \<and> inv (dram (c_mem st')) \<and>
    sys_inv md G tw (pending (dram (c_mem st'))) st' ws' done'"
  using cycle_step_parts [OF assms] by (auto simp: cycle_step_def)

end

section \<open>How many row ends and writes there are\<close>

lemma distinct_steps:
  assumes "sorted (rp :: int list)" and "rp \<noteq> []"
  shows "Suc (nonzero_rows rp) = card (set rp)"
  using assms
proof (induction rp rule: induct_list012)
  case (2 x)
  then show ?case by (simp add: nonzero_rows_def)
next
  case (3 x y zs)
  have up: "[0..<length (x # y # zs) - 1] = 0 # map Suc [0..<length (y # zs) - 1]"
    by (simp add: map_Suc_upt upt_conv_Cons del: upt_Suc)
  have n: "nonzero_rows (x # y # zs) = (if y \<noteq> x then 1 else 0) + nonzero_rows (y # zs)"
    unfolding nonzero_rows_def up by (simp add: filter_map comp_def)
  have "x \<in> set (y # zs) \<longleftrightarrow> y = x" using 3(3) by auto
  then have "card (set (x # y # zs)) = (if y \<noteq> x then 1 else 0) + card (set (y # zs))"
    by (simp add: card_insert_if del: list.set) (auto simp: insert_absorb)
  with n 3 show ?case by simp
qed simp

lemma row_ends_fold:
  assumes ok: "csr_ok rp ci"
  shows "length (filter (\<lambda>p. int p + 1 \<in> set rp) [0..<length ci]) = nonzero_rows rp"
proof -
  have r: "sorted rp" "rp \<noteq> []" "0 \<in> set rp" using ok by (auto simp: csr_ok_def intro: nth_mem)
     (metis length_greater_0_conv nth_mem)
  have le: "0 \<le> x" "x \<le> int (length ci)" if "x \<in> set rp" for x
    using that csr_ok_le [OF ok] by (auto simp: in_set_conv_nth)
  have "length (filter (\<lambda>p. int p + 1 \<in> set rp) [0..<length ci]) = card {p. p < length ci \<and> int p + 1 \<in> set rp}"
    by (simp add: length_filter_conv_card)  (metis (no_types, lifting) add_0 nth_upt)
  also have "\<dots> = card (set rp - {0})"
  proof (rule bij_betw_same_card [of "\<lambda>p. int p + 1"])
    show "bij_betw (\<lambda>p. int p + 1) {p. p < length ci \<and> int p + 1 \<in> set rp} (set rp - {0})"
    proof (rule bij_betw_imageI)
      show "(\<lambda>p. int p + 1) ` {p. p < length ci \<and> int p + 1 \<in> set rp} = set rp - {0}"
      proof (intro equalityI subsetI)
        fix x assume x: "x \<in> set rp - {0}"
        then have "x = int (nat (x - 1)) + 1" "nat (x - 1) < length ci" using le [of x] by auto
        with x show "x \<in> (\<lambda>p. int p + 1) ` {p. p < length ci \<and> int p + 1 \<in> set rp}"
          by (intro image_eqI [of _ _ "nat (x - 1)"]) auto
      qed auto
    qed (auto intro: inj_onI)
  qed
  also have "\<dots> = nonzero_rows rp" using distinct_steps [OF r(1,2)] r(3) by (simp add: card_Diff_singleton)
  finally show ?thesis .
qed

lemma row_ends_all:
  assumes ok: "csr_ok rp ci"
  shows "length (filter is_last (map (edge_at rp ci i) [0..<B * length ci])) = B * nonzero_rows rp"
proof (induction B)
  case (Suc B)
  let ?E = "length ci"
  have E: "0 < ?E" using ok by (simp add: csr_ok_def)
  have "[0..<Suc B * ?E] = [0..<B * ?E] @ map (\<lambda>p. B * ?E + p) [0..<?E]"
    using upt_split [of "B * ?E" ?E] by (simp add: add.commute)
  moreover have "is_last (edge_at rp ci i (B * ?E + p)) \<longleftrightarrow> int p + 1 \<in> set rp" if "p < ?E" for p
    using that by (simp add: edge_at_def Let_def)
  then have "filter (\<lambda>p. is_last (edge_at rp ci i (B * ?E + p))) [0..<?E] = filter (\<lambda>p. int p + 1 \<in> set rp) [0..<?E]"
    by (intro filter_cong) auto
  then have "length (filter is_last (map (edge_at rp ci i) (map (\<lambda>p. B * ?E + p) [0..<?E]))) =
      length (filter (\<lambda>p. int p + 1 \<in> set rp) [0..<?E])"
    by (simp add: filter_map comp_def)
  ultimately show ?case using Suc row_ends_fold [OF ok] by simp
qed simp

lemma row_ends_folds:
  assumes ok: "csr_ok rp ci" and "n \<le> B * length ci"
  shows "length (filter is_last (map (edge_at rp ci i) [0..<n])) \<le> B * nonzero_rows rp"
proof -
  have "[0..<B * length ci] = [0..<n] @ [n..<B * length ci]" using assms(2) by (metis le_add_diff_inverse upt_add_eq_append zero_le)
  then have "length (filter is_last (map (edge_at rp ci i) [0..<n])) \<le>
      length (filter is_last (map (edge_at rp ci i) [0..<B * length ci]))"
    by simp
  then show ?thesis unfolding row_ends_all [OF ok] .
qed

lemma zeros_append: "zeros (xs @ ys) = zeros xs + zeros ys"
  by (simp add: zeros_def)

lemma zeros_signals: "zeros (concat (map (edge_signals md G) es)) = length (filter is_last es)"
  by (induction es) (auto simp: zeros_def edge_signals_def signals_def)

lemma linked_row_ends:
  assumes L: "linked md G st trs ent out ws" and env: "env_ok md G" and i: "i < engines G"
  shows "zeros (out i) \<le> nat (bf (arch_info G)) * nonzero_rows (row_ptr G ! i)"
proof -
  have E: "engine_ok G i" "csr_ok (row_ptr G ! i) (col_idx G ! i)"
    using env i by (auto simp: env_ok_def engine_env_def engine_ok_def Let_def)
  have l: "gr_run G i (c_gr st ! i) (c_mem st) (trs i)" "edges (trs i) = ent i"
    "fr_run G md (c_fr st, c_cah st, c_mem st) ent out" using L i by (auto simp: linked_def)
  obtain rest where "out i @ rest = concat (map (edge_signals md G) (ent i))"
    using fr_run_inv [OF l(3)] i by auto
  then have "zeros (out i) + zeros rest = length (filter is_last (ent i))"
    using zeros_append [of "out i" rest] zeros_signals [of md G "ent i"] by simp
  moreover have e: "ent i = map (edge_at (row_ptr G ! i) (col_idx G ! i) i) [0..<gr_pos (col_idx G ! i) (c_gr st ! i)]"
    "gr_pos (col_idx G ! i) (c_gr st ! i) \<le> nat (bf (arch_info G)) * length (col_idx G ! i)"
    using gr_run_inv [OF l(1) E(1)] l(2) gr_pos_le by (auto simp: reader_inv_def Let_def)
  then have "length (filter is_last (ent i)) \<le> nat (bf (arch_info G)) * nonzero_rows (row_ptr G ! i)"
    unfolding e(1) by (intro row_ends_folds [OF E(2)])
  ultimately show ?thesis by linarith
qed

lemma lines_after_mono: "folds_ok G \<Longrightarrow> k \<le> l \<Longrightarrow> lines_after G R k \<le> lines_after G R l"
  unfolding lines_after_def by (intro sum_mono2) (auto simp: row_lines_nonneg)

definition engine_writes :: "sim_env \<Rightarrow> nat \<Rightarrow> nat" where
  "engine_writes G i = nonzero_rows (row_ptr G ! i) * nat (total_urb (data_info G))"

lemma nonzero_rows_pos: "csr_ok rp ci \<Longrightarrow> 0 < nonzero_rows rp"
proof -
  assume ok: "csr_ok rp ci"
  have r: "sorted rp" "rp \<noteq> []" "ci \<noteq> []" "rp ! 0 = 0" "rp ! (length rp - 1) = int (length ci)"
    using ok unfolding csr_ok_def by blast+
  have "{0, int (length ci)} \<subseteq> set rp" using r by (metis empty_subsetI insert_subset length_greater_0_conv diff_less zero_less_one nth_mem)
  then have "card {0, int (length ci)} \<le> card (set rp)" by (intro card_mono) auto
  then show ?thesis using distinct_steps [OF r(1,2)] r(3) by simp
qed

lemma linked_simd:
  assumes L: "linked md G st trs ent out ws" and env: "env_ok md G" and i: "i < engines G"
  shows "simd_at G (c_si st ! i) (zeros (out i)) (ws i)" and "nonzero_row (c_si st ! i) = int (nonzero_rows (row_ptr G ! i))"
proof -
  let ?R = "int (nonzero_rows (row_ptr G ! i))" and ?B = "bf (arch_info G)" and ?k = "zeros (out i)"
  have E: "folds_ok G" "i < length (data_index G)" "csr_ok (row_ptr G ! i) (col_idx G ! i)"
    "?R = di_row (data_index G ! i) - zero_row (data_index G ! i)"
    using env i by (auto simp: env_ok_def engine_env_def engine_ok_def Let_def)
  have R: "0 < ?R" using nonzero_rows_pos [OF E(3)] by simp
  have B: "1 \<le> ?B" using E(1) by (simp add: folds_ok_def Let_def)
  have "?k \<le> nat ?B * nonzero_rows (row_ptr G ! i)" by (rule linked_row_ends [OF L env i])
  then have "int ?k \<le> int (nat ?B * nonzero_rows (row_ptr G ! i))" by (simp only: of_nat_le_iff)
  then have kb: "int ?k \<le> ?B * ?R" using B by simp
  have "simd_run G i (c_si st ! i) (c_mem st) ?k (ws i)" using L i by (simp add: linked_def)
  from simd_run_at [OF this E(1,2,4) R kb] show "simd_at G (c_si st ! i) ?k (ws i)" "nonzero_row (c_si st ! i) = ?R" by blast+
qed

lemma linked_writes:
  assumes L: "linked md G st trs ent out ws" and env: "env_ok md G" and i: "i < engines G"
  shows "\<exists>n \<le> engine_writes G i. ws i @ wq (c_si st ! i) = map (out_line (ss_axw_addr_start (c_si st ! i))) [0..<n]"
proof -
  let ?R = "int (nonzero_rows (row_ptr G ! i))" and ?k = "zeros (out i)"
  have F: "folds_ok G" "0 \<le> total_urb (data_info G)"
    using env by (auto simp: env_ok_def folds_ok_def Let_def intro: order_trans [rotated])
  have "ws i @ wq (c_si st ! i) = map (out_line (ss_axw_addr_start (c_si st ! i))) [0..<nat (lines_after G ?R ?k)]"
    using linked_simd [OF L env i] by (simp add: simd_at_def Let_def)
  moreover have "lines_after G ?R ?k \<le> ?R * total_urb (data_info G)"
    using lines_after_mono [OF F(1) linked_row_ends [OF L env i], of ?R]
      lines_after_folds [OF F(1) refl le_refl, of "nonzero_rows (row_ptr G ! i)"] by simp
  then have "nat (lines_after G ?R ?k) \<le> engine_writes G i"
    using F(2) by (simp add: engine_writes_def nat_le_iff)
  ultimately show ?thesis by blast
qed

section \<open>The initial state\<close>

lemma new_engines:
  assumes "\<And>i. i < n \<Longrightarrow> \<exists>g s. GraphReader_new G i = Inr g \<and> SIMD_new G i = Inr s"
  shows "\<exists>gs ss. res_fold (new_engine G) [0..<n] ([], []) = Inr (gs, ss) \<and> length gs = n \<and> length ss = n \<and>
      (\<forall>i < n. GraphReader_new G i = Inr (gs ! i) \<and> SIMD_new G i = Inr (ss ! i))"
  using assms
proof (induction n)
  case (Suc n)
  then obtain gs ss where IH: "res_fold (new_engine G) [0..<n] ([], []) = Inr (gs, ss)" "length gs = n" "length ss = n"
    "\<forall>i < n. GraphReader_new G i = Inr (gs ! i) \<and> SIMD_new G i = Inr (ss ! i)" by auto
  obtain g s where gs: "GraphReader_new G n = Inr g" "SIMD_new G n = Inr s" using Suc.prems [of n] by auto
  show ?case
    using IH gs
    by (intro exI [of _ "gs @ [g]"] exI [of _ "ss @ [s]"])
      (auto simp: res_fold_append nth_append less_Suc_eq)
qed simp

lemma Controller_new_inv:
  assumes env: "env_ok md G" and n: "0 < n_of_engine (arch_info G)"
  shows "\<exists>st. Controller_new G d tw = Inr st \<and> c_mem st = Memory_new G d tw \<and>
    (\<forall>i < engines G. GraphReader_new G i = Inr (c_gr st ! i)) \<and>
    sys_inv md G tw {#} (st\<lparr>c_fr := ModeChange (c_fr st) md\<rparr>) (\<lambda>_. []) 0"
proof -
  have E: "engine_ok G i" if "i < engines G" for i using env that by (auto simp: env_ok_def engine_env_def Let_def)
  have "\<exists>g s. GraphReader_new G i = Inr g \<and> SIMD_new G i = Inr s" if "i < engines G" for i
    using reader_new_inv [OF E [OF that]] E [OF that] n
    by (auto simp: SIMD_new_def ceil_fdiv_def engine_ok_def Let_def)
  from new_engines [OF this] obtain gs ss where
    b: "res_fold (new_engine G) [0..<engines G] ([], []) = Inr (gs, ss)" "length gs = engines G" "length ss = engines G"
      "\<forall>i < engines G. GraphReader_new G i = Inr (gs ! i) \<and> SIMD_new G i = Inr (ss ! i)" by blast
  define st where "st = \<lparr>c_mem = Memory_new G d tw, c_cah = Cache_new (arch_info G), c_gr = gs, c_si = ss,
    c_fr = FeatureReader_new G\<rparr>"
  let ?st = "st\<lparr>c_fr := ModeChange (c_fr st) md\<rparr>"
  have "linked md G ?st (\<lambda>_. \<lparr>rows = [], cols = [], edges = []\<rparr>) (\<lambda>_. []) (\<lambda>_. []) (\<lambda>_. [])"
    using b(2-4) fr_run.start [of G md "Memory_new G d tw"] gr_run.start [of G _ _ "Memory_new G d tw"]
      simd_run.start [of G _ _ "Memory_new G d tw"]
    by (auto simp: linked_def st_def zeros_def)
  moreover have "fetch_inv G {#} (c_fr ?st, c_cah ?st, c_mem ?st)"
    using env Cache_new_inv [of "arch_info G"] cached_new [of "arch_info G"]
    by (auto simp: fetch_inv_def st_def ModeChange_def FeatureReader_new_def on_the_way_def feature_reads_def
        Memory_new_def env_ok_def)
  moreover have "queues_ok G (c_fr ?st)" by (simp add: queues_ok_def st_def ModeChange_def FeatureReader_new_def)
  ultimately have "sys_inv md G tw {#} ?st (\<lambda>_. []) 0"
    by (auto simp: sys_inv_def st_def Memory_new_def on_way_def routed_def writes_in_def)
  moreover have "Controller_new G d tw = Inr st" using b(1) by (simp add: Controller_new_def st_def)
  moreover have "c_mem st = Memory_new G d tw" "\<forall>i < engines G. GraphReader_new G i = Inr (c_gr st ! i)" using b(4) by (simp_all add: st_def)
  ultimately show ?thesis by blast
qed

section \<open>The main loop\<close>

definition total_writes :: "sim_env \<Rightarrow> nat" where
  "total_writes G = (\<Sum>i < engines G. engine_writes G i)"

text \<open>A state in which every output line has been written.\<close>

definition all_written :: "sim_env \<Rightarrow> 'd sim \<Rightarrow> (nat \<Rightarrow> u64 list) \<Rightarrow> bool" where
  "all_written G st ws \<longleftrightarrow> (\<forall>i < engines G. wq (c_si st ! i) = [] \<and>
     ws i = map (out_line (ss_axw_addr_start (c_si st ! i))) [0..<engine_writes G i])"

lemma sys_done:
  assumes s: "sys_inv md G (of_nat (total_writes G)) P st ws done" and env: "env_ok md G"
    and z: "total_write (c_mem st) = 0" and lt: "total_writes G < 2 ^ 64"
  shows "all_written G st ws \<and> done = total_writes G \<and> writes_in (on_way P (c_mem st)) = 0"
proof -
  obtain trs ent out where L: "linked md G st trs ent out ws" using s by (auto simp: sys_inv_def)
  have sum: "(\<Sum>i < engines G. length (ws i)) = writes_in (on_way P (c_mem st)) + done"
    and tw: "(of_nat (total_writes G) :: u64) = of_nat done"
    using s z by (auto simp: sys_inv_def)
  have le: "length (ws i) \<le> engine_writes G i" if "i < engines G" for i
  proof -
    from linked_writes [OF L env that] obtain n where
      n: "n \<le> engine_writes G i" "ws i @ wq (c_si st ! i) = map (out_line (ss_axw_addr_start (c_si st ! i))) [0..<n]" by blast
    have "length (ws i) \<le> length (ws i @ wq (c_si st ! i))" by simp
    also have "\<dots> = n" unfolding n(2) by simp
    finally show ?thesis using n(1) by simp
  qed
  then have "(\<Sum>i < engines G. length (ws i)) \<le> total_writes G"
    unfolding total_writes_def by (intro sum_mono) simp
  then have "done \<le> total_writes G" using sum by simp
  moreover from this have "done = total_writes G"
    using tw lt by (simp only: word_of_nat_eq_iff) (simp add: take_bit_nat_eq_self)
  ultimately have d: "done = total_writes G" "writes_in (on_way P (c_mem st)) = 0"
    "(\<Sum>i < engines G. length (ws i)) = total_writes G"
    using sum \<open>(\<Sum>i < engines G. length (ws i)) \<le> total_writes G\<close> by auto
  have eq: "length (ws i) = engine_writes G i" if i: "i < engines G" for i
  proof (rule ccontr)
    assume "length (ws i) \<noteq> engine_writes G i"
    then have "(\<Sum>i < engines G. length (ws i)) < total_writes G"
      unfolding total_writes_def using le i by (intro sum_strict_mono_ex1) (auto intro: bexI [of _ i] simp: le_neq_implies_less)
    with d(3) show False by simp
  qed
  have "wq (c_si st ! i) = [] \<and> ws i = map (out_line (ss_axw_addr_start (c_si st ! i))) [0..<engine_writes G i]"
    if i: "i < engines G" for i
  proof -
    from linked_writes [OF L env i] obtain n where
      n: "n \<le> engine_writes G i" "ws i @ wq (c_si st ! i) = map (out_line (ss_axw_addr_start (c_si st ! i))) [0..<n]" by blast
    have "length (ws i) + length (wq (c_si st ! i)) = n" using arg_cong [OF n(2), of length] by simp
    with n eq [OF i] show ?thesis by (cases "wq (c_si st ! i)") auto
  qed
  with d show ?thesis by (simp add: all_written_def)
qed

section \<open>Which edges have been passed on at the end\<close>

text \<open>
  The folds that contribute output lines: all of them, unless the lines of a row are used up before the
  last fold (or there are none at all).
\<close>

definition written_folds :: "sim_env \<Rightarrow> nat" where
  "written_folds G = (let B = bf (arch_info G); u = urb (arch_info G) in
     if u * (B - 1) < total_urb (data_info G) then nat B else if 0 < u then nat B - 1 else 0)"

text \<open>
  Every engine has passed on the edges in the order of the array, all the edges of these folds at least, and
  the signals of all lines of these edges have reached its SIMD unit.
\<close>

definition all_passed :: "F_MODE \<Rightarrow> sim_env \<Rightarrow> (nat \<Rightarrow> EdgeInfo list) \<Rightarrow> (nat \<Rightarrow> int list) \<Rightarrow> bool" where
  "all_passed md G ent out \<longleftrightarrow> (\<forall>i < engines G. \<exists>n r.
     ent i = map (edge_at (row_ptr G ! i) (col_idx G ! i) i) [0..<n] \<and>
     written_folds G * length (col_idx G ! i) \<le> n \<and> n \<le> nat (bf (arch_info G)) * length (col_idx G ! i) \<and>
     out i = concat (map (edge_signals md G) (take (written_folds G * length (col_idx G ! i)) (ent i))) @ r)"

lemma written_folds_le: "folds_ok G \<Longrightarrow> written_folds G \<le> nat (bf (arch_info G))"
  by (auto simp: written_folds_def Let_def)

lemma written_folds_all:
  assumes "env_ok md G" and "md = MAT \<or> md = X_CMP" and "0 < engines G"
  shows "written_folds G = nat (bf (arch_info G))"
proof -
  let ?v = "bf (arch_info G) - 1"
  have e: "engine_env md G 0" "1 \<le> bf (arch_info G)" using assms(1,3) by (auto simp: env_ok_def folds_ok_def Let_def)
  then have "col_idx G ! 0 \<noteq> []" "\<And>c. c \<in> set (col_idx G ! 0) \<Longrightarrow> lines_ok md G c ?v"
    by (auto simp: engine_env_def engine_ok_def csr_ok_def Let_def)
  then have "lines_ok md G (hd (col_idx G ! 0)) ?v" using hd_in_set by blast
  then have "?v * urb (arch_info G) < total_urb (data_info G)" using assms(2) by (simp add: lines_ok_def)
  then show ?thesis by (simp add: written_folds_def Let_def mult.commute)
qed

lemma lines_before_last:
  assumes F: "folds_ok G" and R: "0 < R" and k: "k < written_folds G * R"
  shows "lines_after G (int R) k < int R * total_urb (data_info G)"
proof -
  let ?B = "bf (arch_info G)" and ?F = "written_folds G"
  have B: "1 \<le> ?B" using F by (simp add: folds_ok_def Let_def)
  have f: "0 < ?F" using k by (cases ?F) auto
  define j where "j = ?F * R - 1"
  have "(j :: nat) = (?F - 1) * R + (R - 1)" using f R by (cases ?F) (auto simp: j_def)
  moreover have "((?F - 1) * R + (R - 1)) div R = ?F - 1" using R by (intro div_nat_eqI) (auto simp: algebra_simps)
  ultimately have "j div R = ?F - 1" by simp
  then have d: "int j div int R = int ?F - 1" using f by (simp flip: of_nat_div)
  have "0 < row_lines G (int R) j"
    using f B unfolding row_lines_def d by (auto simp: written_folds_def Let_def split: if_splits)
  moreover have "lines_after G (int R) (Suc j) = lines_after G (int R) j + row_lines G (int R) j" by (simp add: lines_after_def)
  moreover have "lines_after G (int R) k \<le> lines_after G (int R) j" using k by (intro lines_after_mono [OF F]) (simp add: j_def)
  moreover have "lines_after G (int R) (Suc j) \<le> lines_after G (int R) (nat ?B * R)"
    using f R written_folds_le [OF F] by (intro lines_after_mono [OF F]) (simp add: j_def)
  ultimately show ?thesis using lines_after_folds [OF F refl le_refl, of R] by simp
qed

lemma written_row_ends:
  assumes L: "linked md G st trs ent out ws" and env: "env_ok md G" and i: "i < engines G" and w: "all_written G st ws"
  shows "written_folds G * nonzero_rows (row_ptr G ! i) \<le> zeros (out i)"
proof (rule ccontr)
  let ?R = "nonzero_rows (row_ptr G ! i)" and ?t = "total_urb (data_info G)"
  assume "\<not> ?thesis"
  then have k: "zeros (out i) < written_folds G * ?R" by simp
  have F: "folds_ok G" "csr_ok (row_ptr G ! i) (col_idx G ! i)"
    using env i by (auto simp: env_ok_def engine_env_def engine_ok_def Let_def)
  have "lines_after G (int ?R) (zeros (out i)) < int ?R * ?t" using lines_before_last [OF F(1) nonzero_rows_pos [OF F(2)] k] .
  then have "nat (lines_after G (int ?R) (zeros (out i))) < nat (int ?R * ?t)"
    using lines_after_nonneg [OF F(1), of "int ?R" "zeros (out i)"] by (simp add: nat_less_eq_zless)
  moreover have "length (ws i @ wq (c_si st ! i)) = nat (lines_after G (int ?R) (zeros (out i)))"
    using linked_simd [OF L env i] by (simp add: simd_at_def Let_def)
  moreover have "length (ws i @ wq (c_si st ! i)) = ?R * nat ?t" using w i by (simp add: all_written_def engine_writes_def)
  ultimately show False by (simp add: nat_mult_distrib)
qed

lemma zeros_prefix:
  assumes "xs @ r = ys @ t" and "zeros ys \<le> zeros xs" and "ys \<noteq> [] \<Longrightarrow> last ys = 0"
  shows "\<exists>u. xs = ys @ u"
proof -
  from assms(1) consider us where "xs = ys @ us" | us where "xs @ us = ys" by (auto simp: append_eq_append_conv2)
  then show ?thesis
  proof cases
    case (2 us)
    then have z: "zeros us = 0" using assms(2) zeros_append [of xs us] by simp
    have "us = []"
    proof (rule ccontr)
      assume "us \<noteq> []"
      then have "last us = 0" "last us \<in> set us" using assms(3) 2 by auto
      then show False using z by (auto simp: zeros_def filter_empty_conv)
    qed
    with 2 show ?thesis by simp
  qed blast
qed

lemma fold_last_edge:
  assumes ok: "csr_ok rp ci" and F: "0 < F"
  shows "is_last (edge_at rp ci i (F * length ci - 1))"
proof -
  have r: "rp \<noteq> []" "ci \<noteq> []" "rp ! (length rp - 1) = int (length ci)" using ok unfolding csr_ok_def by blast+
  have "F * length ci - 1 = (F - 1) * length ci + (length ci - 1)" using F r(2) by (cases F; cases ci) auto
  then have "(F * length ci - 1) mod length ci = length ci - 1" using r(2) by simp
  moreover have "int (length ci) \<in> set rp" using r(1,3) by (metis diff_less length_greater_0_conv nth_mem zero_less_one)
  ultimately show ?thesis using r(2) by (simp add: edge_at_def Let_def of_nat_diff Suc_leI)
qed

lemma written_passed:
  assumes L: "linked md G st trs ent out ws" and env: "env_ok md G" and w: "all_written G st ws"
  shows "all_passed md G ent out"
  unfolding all_passed_def
proof (intro allI impI)
  fix i assume i: "i < engines G"
  let ?rp = "row_ptr G ! i" and ?ci = "col_idx G ! i" and ?F = "written_folds G"
  let ?n = "gr_pos ?ci (c_gr st ! i)" and ?N = "?F * length ?ci" and ?e = "edge_at ?rp ?ci i"
  have E: "engine_ok G i" "csr_ok ?rp ?ci" using env i by (auto simp: env_ok_def engine_env_def engine_ok_def Let_def)
  have l: "gr_run G i (c_gr st ! i) (c_mem st) (trs i)" "edges (trs i) = ent i"
    "fr_run G md (c_fr st, c_cah st, c_mem st) ent out" using L i by (auto simp: linked_def)
  have e: "ent i = map ?e [0..<?n]" "?n \<le> nat (bf (arch_info G)) * length ?ci"
    using gr_run_inv [OF l(1) E(1)] l(2) gr_pos_le by (auto simp: reader_inv_def Let_def)
  obtain rest where rest: "out i @ rest = concat (map (edge_signals md G) (ent i))" using fr_run_inv [OF l(3)] i by auto
  have k: "?F * nonzero_rows ?rp \<le> zeros (out i)" by (rule written_row_ends [OF L env i w])
  have ent: "zeros (out i) \<le> length (filter is_last (ent i))"
    using zeros_append [of "out i" rest] zeros_signals [of md G "ent i"] rest by simp
  have last: "?N = 0 \<or> [0..<?N] = [0..<?N - 1] @ [?N - 1] \<and> is_last (?e (?N - 1))"
    using fold_last_edge [OF E(2), of ?F i] by (cases "?F = 0"; cases ?N) auto
  have N: "?N \<le> ?n"
  proof (rule ccontr)
    assume "\<not> ?N \<le> ?n"
    then have "[0..<?N - 1] = [0..<?n] @ [?n..<?N - 1]" using upt_add_eq_append [of 0 ?n "?N - 1 - ?n"] by simp
    then have "length (filter is_last (map ?e [0..<?n])) < length (filter is_last (map ?e [0..<?N]))"
      using last \<open>\<not> ?N \<le> ?n\<close> by auto
    then show False using row_ends_all [OF E(2), of i ?F] k ent unfolding e(1) by simp
  qed
  have t: "take ?N (ent i) = map ?e [0..<?N]" using N by (simp add: e(1) take_map)
  let ?S = "concat (map (edge_signals md G) (take ?N (ent i)))"
  have "out i @ rest = ?S @ concat (map (edge_signals md G) (drop ?N (ent i)))"
    unfolding rest by (metis append_take_drop_id concat_append map_append)
  moreover have "zeros ?S \<le> zeros (out i)" using row_ends_all [OF E(2), of i ?F] k unfolding zeros_signals t by simp
  moreover have "last ?S = 0" if "?S \<noteq> []"
    using last that unfolding t by (auto simp: edge_signals_def signals_def)
  ultimately obtain r where "out i = ?S @ r" using zeros_prefix [of "out i" rest ?S] by blast
  with e N show "\<exists>n r. ent i = map ?e [0..<n] \<and> ?N \<le> n \<and> n \<le> nat (bf (arch_info G)) * length ?ci \<and> out i = ?S @ r" by blast
qed

end
