(* ===== verification/Graph_Live.thy ===== *)
theory Graph_Live
  imports Graph_Stream
begin

text \<open>
  How many lines a graph reader has requested and received, as functions of its state: the counters,
  the flags and the end indices account for every line, so a reader that has received all the lines it
  may request has set its flags.
\<close>

section \<open>Received lines\<close>

text \<open>The lines counted by an end index \<open>e\<close> and a pass counter \<open>cnt\<close> of an array \<open>xs\<close>.\<close>

definition got_lines :: "int list \<Rightarrow> int \<Rightarrow> int \<Rightarrow> int" where
  "got_lines xs e cnt = cnt * int (lines_for xs) + (if e = int (length xs) then 0 else e div 16)"

definition recv_at :: "int list \<Rightarrow> int \<Rightarrow> bool" where
  "recv_at xs e \<longleftrightarrow> e = int (length xs) \<or> 0 \<le> e \<and> e < int (length xs) \<and> e mod 16 = 0"

lemma lines_for_int: "int (lines_for xs) = (int (length xs) + 15) div 16"
  by (simp add: lines_for_def zdiv_int)

lemma recv_step_got:
  assumes "recv_step (int (length xs)) (e, ov, cnt) = (e', ov', cnt')" and "recv_at xs e" and "xs \<noteq> []"
  shows "recv_at xs e' \<and> got_lines xs e' cnt' = got_lines xs e cnt + 1 \<and> (cnt' = cnt \<or> cnt' = cnt + 1)"
proof -
  define n e1 where "n = int (length xs)" and "e1 = (if e = n then 0 else e)"
  have n: "0 < n" using assms(3) by (simp add: n_def)
  have e1: "0 \<le> e1" "e1 < n" "e1 mod 16 = 0" using assms(2) n by (auto simp: e1_def recv_at_def n_def)
  have g: "got_lines xs e cnt = cnt * ((n + 15) div 16) + e1 div 16"
    by (simp add: got_lines_def lines_for_int e1_def n_def)
  obtain k where k: "e1 = 16 * k" using e1(3) by (auto simp: mod_eq_0_iff_dvd)
  have s: "e' = (if n \<le> e1 + 16 then n else e1 + 16)" "cnt' = (if n \<le> e1 + 16 then cnt + 1 else cnt)"
    using assms(1) by (auto simp: recv_step_def e1_def n_def CACHE_LINE_COUNT_def Let_def split: if_splits)
  show ?thesis
  proof (cases "n \<le> e1 + 16")
    case True
    with e1(2) have "(n + 15) div 16 = e1 div 16 + 1" unfolding k by simp
    then have "got_lines xs e' cnt' = got_lines xs e cnt + 1"
      using True g s by (simp add: got_lines_def lines_for_int n_def algebra_simps)
    then show ?thesis using True s by (simp add: recv_at_def n_def)
  next
    case False
    have "(e1 + 16) mod 16 = 0" "(e1 + 16) div 16 = e1 div 16 + 1" unfolding k by simp_all
    then show ?thesis using False g s e1 by (simp add: recv_at_def got_lines_def lines_for_int n_def)
  qed
qed

lemma got_lines_full:
  assumes "got_lines xs e cnt = B * int (lines_for xs)" and "recv_at xs e" and "xs \<noteq> []"
  shows "cnt = B"
proof -
  let ?L = "int (lines_for xs)" and ?x = "if e = int (length xs) then 0 else e div 16"
  have x: "0 \<le> ?x" "?x < ?L"
  proof -
    have l: "0 < int (length xs)" using assms(3) by simp
    have "0 < ?L" using l unfolding lines_for_int by presburger
    moreover have "e div 16 < ?L" if "e < int (length xs)"
    proof -
      have "(e + 16) div 16 \<le> ?L" using that unfolding lines_for_int by (intro zdiv_mono1) auto
      then show ?thesis by simp
    qed
    ultimately show "0 \<le> ?x" "?x < ?L" using assms(2) by (auto simp: recv_at_def)
  qed
  have "(B - cnt) * ?L = ?x" using assms(1) by (simp add: got_lines_def algebra_simps)
  with x have "0 \<le> (B - cnt) * ?L" "(B - cnt) * ?L < 1 * ?L" by simp_all
  then have "0 \<le> B - cnt" "B - cnt < 1"
    using x by (simp_all add: zero_le_mult_iff mult_less_cancel_right_pos del: mult_1)
  then show ?thesis by simp
qed

section \<open>The reader\<close>

fun got :: "sim_env \<Rightarrow> nat \<Rightarrow> R_TYPE \<Rightarrow> graph_reader \<Rightarrow> int" where
  "got G i Row r = got_lines (row_ptr G ! i) (row_end_idx r) (v_reci_count r)"
| "got G i Column r = got_lines (col_idx G ! i) (col_end_idx r) (e_reci_count r)"
| "got G i Value r = got_lines (col_idx G ! i) (val_end_idx r) (val_reci_count r)"
| "got G i Empty r = 0"

text \<open>The end indices stand at line boundaries, and a flag is set once its counter has reached the folds.\<close>

definition line_inv :: "sim_env \<Rightarrow> nat \<Rightarrow> graph_reader \<Rightarrow> bool" where
  "line_inv G i r \<longleftrightarrow> (let B = bf (arch_info G) in
     recv_at (row_ptr G ! i) (row_end_idx r) \<and> recv_at (col_idx G ! i) (col_end_idx r) \<and>
     recv_at (col_idx G ! i) (val_end_idx r) \<and>
     (B \<le> v_reci_count r \<longrightarrow> v_reci_over r) \<and> (B \<le> e_reci_count r \<longrightarrow> e_reci_over r) \<and>
     (B \<le> val_reci_count r \<or> gnn_mode (arch_info G) = OTHER \<longrightarrow> val_reci_over r))"

definition got_inv :: "sim_env \<Rightarrow> nat \<Rightarrow> graph_reader \<Rightarrow> bool" where
  "got_inv G i r \<longleftrightarrow> line_inv G i r \<and> (v_reci_over r \<and> e_reci_over r \<and> val_reci_over r \<longrightarrow> reci_over r)"

lemma got_view:
  "live_view r' = live_view r \<Longrightarrow> got_inv G i r' = got_inv G i r \<and> got G i t r' = got G i t r"
  by (cases t) (simp_all add: live_view_def got_inv_def line_inv_def Let_def)

lemma got_new:
  assumes "GraphReader_new G i = Inr r" and "engine_ok G i"
  shows "got_inv G i r" and "got G i t r = 0"
proof -
  have ne: "row_ptr G ! i \<noteq> []" "col_idx G ! i \<noteq> []" "0 < bf (arch_info G)"
    using assms(2) by (auto simp: engine_ok_def csr_ok_def)
  show "got_inv G i r" using assms ne
    by (auto simp: GraphReader_new_def got_inv_def line_inv_def recv_at_def Let_def split: if_splits)
  show "got G i t r = 0" using assms ne
    by (cases t) (auto simp: GraphReader_new_def got_lines_def Let_def split: if_splits)
qed

lemma receive_row_got:
  assumes "row_ptr G ! i \<noteq> []" and "line_inv G i r" and "s = receive_row G (int (length (row_ptr G ! i))) r"
  shows "got G i t s = got G i t r + (if t = Row then 1 else 0) \<and> line_inv G i s \<and> reci_over s = reci_over r"
proof -
  let ?n = "int (length (row_ptr G ! i))"
  obtain e ov cnt where st: "recv_step ?n (row_end_idx r, row_overflow r, v_reci_count r) = (e, ov, cnt)"
    by (metis prod_cases3)
  then obtain f where eq: "s = r\<lparr>row_end_idx := e, row_overflow := ov, v_reci_count := cnt, v_reci_over := f\<rparr>"
    using receive_row_eq assms(3) by blast
  have "v_reci_over r \<or> v_reci_count s = v_reci_count r + 1 \<and> v_reci_count s = bf (arch_info G) \<Longrightarrow> v_reci_over s"
    using assms(3) by (auto simp: receive_row_def Let_def split: if_splits)
  note fl = this [unfolded eq, simplified]
  have "recv_at (row_ptr G ! i) (row_end_idx r)" "bf (arch_info G) \<le> v_reci_count r \<longrightarrow> v_reci_over r"
    using assms(2) by (auto simp: line_inv_def Let_def)
  with recv_step_got [OF st _ assms(1)] fl assms(2) show ?thesis unfolding eq by (cases t) (auto simp: line_inv_def Let_def)
qed

lemma receive_col_got:
  assumes "col_idx G ! i \<noteq> []" and "line_inv G i r" and "s = receive_col G (int (length (col_idx G ! i))) r"
  shows "got G i t s = got G i t r + (if t = Column then 1 else 0) \<and> line_inv G i s \<and> reci_over s = reci_over r"
proof -
  let ?n = "int (length (col_idx G ! i))"
  obtain e ov cnt where st: "recv_step ?n (col_end_idx r, col_overflow r, e_reci_count r) = (e, ov, cnt)"
    by (metis prod_cases3)
  then obtain f where eq: "s = r\<lparr>col_end_idx := e, col_overflow := ov, e_reci_count := cnt, e_reci_over := f\<rparr>"
    using receive_col_eq assms(3) by blast
  have "e_reci_over r \<or> e_reci_count s = e_reci_count r + 1 \<and> e_reci_count s = bf (arch_info G) \<Longrightarrow> e_reci_over s"
    using assms(3) by (auto simp: receive_col_def Let_def split: if_splits)
  note fl = this [unfolded eq, simplified]
  have "recv_at (col_idx G ! i) (col_end_idx r)" "bf (arch_info G) \<le> e_reci_count r \<longrightarrow> e_reci_over r"
    using assms(2) by (auto simp: line_inv_def Let_def)
  with recv_step_got [OF st _ assms(1)] fl assms(2) show ?thesis unfolding eq by (cases t) (auto simp: line_inv_def Let_def)
qed

lemma receive_val_got:
  assumes "col_idx G ! i \<noteq> []" and "line_inv G i r" and "s = receive_val G (int (length (col_idx G ! i))) r"
  shows "got G i t s = got G i t r + (if t = Value then 1 else 0) \<and> line_inv G i s \<and> reci_over s = reci_over r"
proof -
  let ?n = "int (length (col_idx G ! i))"
  obtain e ov cnt where st: "recv_step ?n (val_end_idx r, val_overflow r, val_reci_count r) = (e, ov, cnt)"
    by (metis prod_cases3)
  then obtain f where eq: "s = r\<lparr>val_end_idx := e, val_overflow := ov, val_reci_count := cnt, val_reci_over := f\<rparr>"
    using receive_val_eq assms(3) by blast
  have "val_reci_over r \<or> val_reci_count s = val_reci_count r + 1 \<and> val_reci_count s = bf (arch_info G) \<Longrightarrow> val_reci_over s"
    using assms(3) by (auto simp: receive_val_def Let_def split: if_splits)
  note fl = this [unfolded eq, simplified]
  have "recv_at (col_idx G ! i) (val_end_idx r)" "bf (arch_info G) \<le> val_reci_count r \<longrightarrow> val_reci_over r"
    using assms(2) by (auto simp: line_inv_def Let_def)
  with recv_step_got [OF st _ assms(1)] fl assms(2) show ?thesis unfolding eq by (cases t) (auto simp: line_inv_def Let_def)
qed

text \<open>Receiving moves one line from the queue of the engine to its counters.\<close>

lemma GraphReceive_got:
  assumes ok: "engine_ok G i" and inv: "got_inv G i r" and id: "gr_id r = i" and g: "GraphReceive G r m = Inr (r', m')"
  shows "got_inv G i r'" and "m' = m\<lparr>rq := (rq m)[i := tl (rq m ! i)]\<rparr>" and "reci_over r \<Longrightarrow> reci_over r'"
    and "t \<noteq> Empty \<Longrightarrow> got G i t r' + int (count_list (tl (rq m ! i)) t) = got G i t r + int (count_list (rq m ! i) t)"
proof -
  have ne: "row_ptr G ! i \<noteq> []" "col_idx G ! i \<noteq> []"
    using ok by (auto simp: engine_ok_def csr_ok_def)
  define x where "x = (case rq m ! i of [] \<Rightarrow> Empty | y # _ \<Rightarrow> y)"
  from g id obtain s where s: "receive_line G x r = Inr s" and i: "i < length (rq m)"
    and r': "r' = (if v_reci_over s \<and> e_reci_over s \<and> val_reci_over s then s\<lparr>reci_over := True\<rparr> else s)"
    and m': "m' = (case rq m ! i of [] \<Rightarrow> m | _ # ts \<Rightarrow> m\<lparr>rq := (rq m)[i := ts]\<rparr>)"
    by (auto simp: GraphReceive_def GetGraph_def x_def split: list.splits)
  show "m' = m\<lparr>rq := (rq m)[i := tl (rq m ! i)]\<rparr>"
  proof (cases "rq m ! i")
    case Nil
    then have "(rq m)[i := tl (rq m ! i)] = rq m" by (simp add: list_update_same_conv i)
    with Nil m' show ?thesis by simp
  qed (use m' in simp)
  have L: "line_inv G i r" using inv by (simp add: got_inv_def)
  have S: "got G i y s = got G i y r + (if y = x \<and> x \<noteq> Empty then 1 else 0) \<and> line_inv G i s \<and> reci_over s = reci_over r" for y
    using s id L receive_row_got [OF ne(1) L refl, of y] receive_col_got [OF ne(2) L refl, of y]
      receive_val_got [OF ne(2) L refl, of y] by (cases x) auto
  have v: "line_inv G i (s\<lparr>reci_over := b\<rparr>) = line_inv G i s" "got G i y (s\<lparr>reci_over := b\<rparr>) = got G i y s" for b y
    by (simp_all add: line_inv_def Let_def) (cases y; simp)
  show "got_inv G i r'" "reci_over r \<Longrightarrow> reci_over r'" using S v unfolding r' by (auto simp: got_inv_def)
  assume "t \<noteq> Empty"
  then show "got G i t r' + int (count_list (tl (rq m ! i)) t) = got G i t r + int (count_list (rq m ! i) t)"
    using S [of t] v unfolding r' by (cases "rq m ! i") (auto simp: x_def)
qed

lemma gr_run_got:
  assumes run: "gr_run G i r m tr" and ok: "engine_ok G i"
  shows "got_inv G i r"
  using run
proof induction
  case (recv r m tr r' m')
  have "gr_id r = i" using gr_run_inv [OF recv(1) ok] by (simp add: reader_inv_def Let_def)
  with recv ok show ?case using GraphReceive_got(1) by blast
next
  case (vreq r m tr r' m')
  then show ?case using got_view [OF request_live(1)] by metis
next
  case (ereq r m tr r' m')
  then show ?case using got_view [OF request_live(2)] by metis
next
  case (pass r m tr ei r')
  then show ?case using got_view NextFeature_live by metis
qed (use ok got_new in blast)+

text \<open>A reader that has received the lines of all folds has set its flag.\<close>

lemma got_all:
  assumes "got_inv G i r" and "engine_ok G i"
    and "got G i Row r = bf (arch_info G) * int (lines_for (row_ptr G ! i))"
    and "got G i Column r = bf (arch_info G) * int (lines_for (col_idx G ! i))"
    and "gnn_mode (arch_info G) = GCN \<Longrightarrow> got G i Value r = bf (arch_info G) * int (lines_for (col_idx G ! i))"
  shows "reci_over r"
proof -
  have ne: "row_ptr G ! i \<noteq> []" "col_idx G ! i \<noteq> []"
    using assms(2) by (auto simp: engine_ok_def csr_ok_def)
  have L: "line_inv G i r" using assms(1) by (simp add: got_inv_def)
  then have R: "recv_at (row_ptr G ! i) (row_end_idx r)" "recv_at (col_idx G ! i) (col_end_idx r)"
    "recv_at (col_idx G ! i) (val_end_idx r)" by (auto simp: line_inv_def Let_def)
  have "v_reci_count r = bf (arch_info G)" "e_reci_count r = bf (arch_info G)"
    using got_lines_full [OF assms(3) [unfolded got.simps] R(1) ne(1)]
      got_lines_full [OF assms(4) [unfolded got.simps] R(2) ne(2)] by blast+
  moreover have "gnn_mode (arch_info G) = OTHER \<or> val_reci_count r = bf (arch_info G)"
    using got_lines_full [OF assms(5) [unfolded got.simps] R(3) ne(2)] by (cases "gnn_mode (arch_info G)") blast+
  ultimately show ?thesis using assms(1) L by (auto simp: got_inv_def line_inv_def Let_def)
qed

section \<open>Requested lines\<close>

text \<open>The number of row requests and of edge requests made, read off the counters.\<close>

definition req_count :: "u64 \<Rightarrow> u64 \<Rightarrow> int \<Rightarrow> nat \<Rightarrow> nat" where
  "req_count start a cnt n = nat cnt * n + unat (a - start) div 64"

lemma req_count_at:
  assumes "(a, cnt, over) = req_at start n B k" and "0 < n" and "64 * n < 2 ^ 64"
  shows "req_count start a cnt n = k" and "over \<longleftrightarrow> int k = B * int n"
proof -
  have "k mod n < n" using assms(2) by simp
  then have "64 * (k mod n) < 2 ^ 64" using assms(3) by simp
  then have "unat (CACHE_LINE_BYTE * of_nat (k mod n)) = 64 * (k mod n)"
  proof -
    assume lt: "64 * (k mod n) < 2 ^ 64"
    have "CACHE_LINE_BYTE * of_nat (k mod n) = (of_nat (64 * (k mod n)) :: u64)" by (simp add: CACHE_LINE_BYTE_def)
    then show ?thesis using lt by (simp only: unat_of_nat) (simp add: take_bit_nat_eq_self)
  qed
  then show "req_count start a cnt n = k" using assms(1) by (simp add: req_count_def req_at_def)
  show "over \<longleftrightarrow> int k = B * int n" using assms(1) by (simp add: req_at_def)
qed

definition row_reqs :: "sim_env \<Rightarrow> nat \<Rightarrow> graph_reader \<Rightarrow> nat" where
  "row_reqs G i r = req_count (row_addr_start (data_index G ! i)) (next_v_addr r) (v_req_count r) (lines_for (row_ptr G ! i))"

definition col_reqs :: "sim_env \<Rightarrow> nat \<Rightarrow> graph_reader \<Rightarrow> nat" where
  "col_reqs G i r = req_count (col_addr_start (data_index G ! i)) (next_e_addr r) (e_req_count r) (lines_for (col_idx G ! i))"

end
