(* ===== verification/Sim_Progress.thy ===== *)
theory Sim_Progress
  imports Sim_System Graph_Live
begin

text \<open>
  Progress of the simulator. Every line of the graph arrays that has been requested is on its way,
  waits for its engine or has been counted by it; and the work an engine has left never grows. A cycle
  that leaves the work of an engine as it is is called quiet: what such a cycle can do is described
  call by call.
\<close>

section \<open>Requests of the graph readers\<close>

fun reqs :: "sim_env \<Rightarrow> nat \<Rightarrow> R_TYPE \<Rightarrow> graph_reader \<Rightarrow> nat" where
  "reqs G i Row r = row_reqs G i r"
| "reqs G i Column r = col_reqs G i r"
| "reqs G i Value r = (if gnn_mode (arch_info G) = GCN then col_reqs G i r else 0)"
| "reqs G i Empty r = 0"

lemma region_read:
  assumes "layout_ok G" and "i < engines G" "in_region t a (data_index G ! i)" and "j < engines G"
  shows "lines_way G j t' (add_mset (trans_of (read_tr a)) M) = (if j = i \<and> t' = t then 1 else 0) + lines_way G j t' M"
proof -
  have "in_region t' a (data_index G ! j) \<longleftrightarrow> j = i \<and> t' = t"
    using region_unique [OF assms(1-3) assms(4), of t'] assms(3) by blast
  then show ?thesis by (simp add: lines_way_add trans_of_def read_tr_def)
qed

lemma feature_read_way:
  assumes "layout_ok G" and "j < engines G" and "\<forall>e \<in># M. snd e \<or> xw_ele_addr_start (arch_info G) \<le> fst e"
  shows "lines_way G j t M = 0"
proof -
  have "\<not> (\<not> snd e \<and> in_region t (fst e) (data_index G ! j))" if "e \<in># M" for e
    using assms(3) that line_type_layout(3) [OF assms(1,2), of t "fst e"] by (auto simp: not_less [symmetric])
  then show ?thesis by (simp add: lines_way_def filter_mset_eq_conv)
qed

lemma row_reqs_run:
  assumes "engine_env md G i" and "gr_run G i r m tr"
  shows "row_reqs G i r = length (rows tr)" and "gr_id r = i"
    and "v_req_over r \<longleftrightarrow> int (row_reqs G i r) = bf (arch_info G) * int (lines_for (row_ptr G ! i))"
    and "next_v_addr r = row_addr_start (data_index G ! i) + CACHE_LINE_BYTE * of_nat (length (rows tr) mod lines_for (row_ptr G ! i))"
    and "int (row_reqs G i r) \<le> bf (arch_info G) * int (lines_for (row_ptr G ! i))"
proof -
  let ?d = "data_index G ! i" and ?n = "lines_for (row_ptr G ! i)"
  have n: "0 < ?n" "64 * ?n < 2 ^ 64" "row_addr_end ?d = row_addr_start ?d + CACHE_LINE_BYTE * of_nat ?n" and ok: "engine_ok G i"
    using assms(1) by (auto simp: engine_env_def array_ok_def Let_def)
  have I: "gr_id r = i" "(next_v_addr r, v_req_count r, v_req_over r) = req_at (row_addr_start ?d) ?n (bf (arch_info G)) (length (rows tr))"
    "int (length (rows tr)) \<le> bf (arch_info G) * int ?n"
    using row_requests_inv [OF ok assms(2) n] by blast+
  from req_count_at [OF I(2) n(1,2)] I show "row_reqs G i r = length (rows tr)" "gr_id r = i"
    "v_req_over r \<longleftrightarrow> int (row_reqs G i r) = bf (arch_info G) * int ?n"
    "next_v_addr r = row_addr_start ?d + CACHE_LINE_BYTE * of_nat (length (rows tr) mod ?n)"
    "int (row_reqs G i r) \<le> bf (arch_info G) * int ?n"
    by (simp_all add: row_reqs_def req_at_def)
qed

lemma col_reqs_run:
  assumes "engine_env md G i" and "gr_run G i r m tr"
  shows "cols tr = concat (map (edge_req G i (lines_for (col_idx G ! i))) [0..<col_reqs G i r])" 
    and "e_req_over r \<longleftrightarrow> int (col_reqs G i r) = bf (arch_info G) * int (lines_for (col_idx G ! i))"
    and "next_e_addr r = col_addr_start (data_index G ! i) + CACHE_LINE_BYTE * of_nat (col_reqs G i r mod lines_for (col_idx G ! i))"
    and "gnn_mode (arch_info G) = GCN \<Longrightarrow>
      next_val_addr r = value_addr_start (data_index G ! i) + CACHE_LINE_BYTE * of_nat (col_reqs G i r mod lines_for (col_idx G ! i))"
    and "int (col_reqs G i r) \<le> bf (arch_info G) * int (lines_for (col_idx G ! i))"
proof -
  let ?d = "data_index G ! i" and ?n = "lines_for (col_idx G ! i)"
  have n: "0 < ?n" "64 * ?n < 2 ^ 64" "col_addr_end ?d = col_addr_start ?d + CACHE_LINE_BYTE * of_nat ?n" and ok: "engine_ok G i"
    using assms(1) by (auto simp: engine_env_def array_ok_def Let_def)
  from edge_requests_inv [OF ok assms(2) n] obtain k where
    I: "cols tr = concat (map (edge_req G i ?n) [0..<k])" "int k \<le> bf (arch_info G) * int ?n"
      "gnn_mode (arch_info G) = GCN \<longrightarrow> next_val_addr r = value_addr_start ?d + CACHE_LINE_BYTE * of_nat (k mod ?n)"
      "(next_e_addr r, e_req_count r, e_req_over r) = req_at (col_addr_start ?d) ?n (bf (arch_info G)) k" by blast
  have k: "col_reqs G i r = k" using req_count_at(1) [OF I(4) n(1,2)] by (simp add: col_reqs_def)
  from req_count_at(2) [OF I(4) n(1,2)] I show "cols tr = concat (map (edge_req G i ?n) [0..<col_reqs G i r])"
    "e_req_over r \<longleftrightarrow> int (col_reqs G i r) = bf (arch_info G) * int ?n"
    "next_e_addr r = col_addr_start ?d + CACHE_LINE_BYTE * of_nat (col_reqs G i r mod ?n)"
    "gnn_mode (arch_info G) = GCN \<Longrightarrow> next_val_addr r = value_addr_start ?d + CACHE_LINE_BYTE * of_nat (col_reqs G i r mod ?n)"
    "int (col_reqs G i r) \<le> bf (arch_info G) * int ?n"
    by (simp_all add: k req_at_def)
qed

text \<open>One request call: refused, or one line more of each array it reads.\<close>

lemma VertexRequest_step:
  assumes env: "engine_env md G i" "layout_ok G" "i < engines G" and run: "gr_run G i r m tr" and v: "\<not> v_req_over r"
    and call: "VertexRequest G r m = Inr (r', m')"
  shows "if WillAcceptTransaction m then \<exists>a. in_region Row a (data_index G ! i) \<and> m' = AddTransaction m (read_tr a) \<and>
        row_reqs G i r' = Suc (row_reqs G i r) \<and> col_reqs G i r' = col_reqs G i r
      else r' = r \<and> m' = m"
proof (cases "WillAcceptTransaction m")
  case True
  let ?d = "data_index G ! i" and ?n = "lines_for (row_ptr G ! i)"
  have n: "array_ok (row_addr_start ?d) (row_addr_end ?d) ?n" using env(1) by (simp add: engine_env_def Let_def)
  then have "length (rows tr) mod ?n < ?n" by (simp add: array_ok_def)
  from array_in [OF n layout_region(1) [OF env(2,3)] this] have a: "in_region Row (next_v_addr r) ?d"
    unfolding row_reqs_run(4) [OF env(1) run] by simp
  have m': "m' = AddTransaction m (read_tr (next_v_addr r))" "next_e_addr r' = next_e_addr r" "e_req_count r' = e_req_count r"
    using call True by (auto simp: VertexRequest_def Let_def split: if_splits)
  have "row_reqs G i r' = length (rows tr) + length (new_reqs m m')"
    using row_reqs_run(1) [OF env(1) gr_run.vreq [OF run v call]] by simp
  then have "row_reqs G i r' = Suc (row_reqs G i r)"
    using row_reqs_run(1) [OF env(1) run] by (simp add: m' new_reqs_def AddTransaction_def)
  moreover have "col_reqs G i r' = col_reqs G i r" using m' by (simp add: col_reqs_def)
  ultimately show ?thesis using True a m'(1) by auto
qed (use call in \<open>simp add: VertexRequest_def\<close>)

lemma EdgeRequest_step:
  assumes env: "engine_env md G i" "layout_ok G" "i < engines G" and run: "gr_run G i r m tr" and v: "\<not> e_req_over r"
    and call: "EdgeRequest G r m = Inr (r', m')"
  shows "if WillAcceptTransaction m then \<exists>a b. in_region Column a (data_index G ! i) \<and>
        (gnn_mode (arch_info G) = GCN \<longrightarrow> in_region Value b (data_index G ! i)) \<and>
        m' = (if gnn_mode (arch_info G) = GCN then AddTransaction (AddTransaction m (read_tr a)) (read_tr b)
              else AddTransaction m (read_tr a)) \<and>
        col_reqs G i r' = Suc (col_reqs G i r) \<and> row_reqs G i r' = row_reqs G i r
      else r' = r \<and> m' = m"
proof (cases "WillAcceptTransaction m")
  case True
  let ?d = "data_index G ! i" and ?n = "lines_for (col_idx G ! i)" and ?k = "col_reqs G i r"
  let ?gcn = "gnn_mode (arch_info G) = GCN"
  have n: "array_ok (col_addr_start ?d) (col_addr_end ?d) ?n"
    "?gcn \<Longrightarrow> array_ok (value_addr_start ?d) (value_addr_end ?d) ?n" using env(1) by (auto simp: engine_env_def Let_def)
  then have k: "?k mod ?n < ?n" by (simp add: array_ok_def)
  note C = col_reqs_run [OF env(1) run] and C' = col_reqs_run [OF env(1) gr_run.ereq [OF run v call]]
  from array_in [OF n(1) layout_region(2) [OF env(2,3)] k] have a: "in_region Column (next_e_addr r) ?d"
    unfolding C(3) by simp
  have b: "in_region Value (next_val_addr r) ?d" if ?gcn
    using array_in [OF n(2) [OF that] layout_region(3) [OF env(2,3)] k] unfolding C(4) [OF that] by simp
  have m': "m' = (if ?gcn then AddTransaction (AddTransaction m (read_tr (next_e_addr r))) (read_tr (next_val_addr r))
      else AddTransaction m (read_tr (next_e_addr r)))" "next_v_addr r' = next_v_addr r" "v_req_count r' = v_req_count r"
    using call True by (auto simp: EdgeRequest_def Let_def split: if_splits)
  have "length (cols tr) = ?k * (if ?gcn then 2 else 1)" "length (cols tr @ new_reqs m m') = col_reqs G i r' * (if ?gcn then 2 else 1)"
    using C(1) C'(1) by (simp_all add: length_concat edge_req_def Let_def comp_def sum_list_triv)
  moreover have "length (new_reqs m m') = (if ?gcn then 2 else 1)" by (simp add: m' new_reqs_def AddTransaction_def)
  ultimately have "col_reqs G i r' = Suc ?k" by (auto split: if_splits)
  moreover have "row_reqs G i r' = row_reqs G i r" using m' by (simp add: row_reqs_def)
  ultimately show ?thesis using True a b m'(1) by auto
qed (use call in \<open>simp add: EdgeRequest_def\<close>)

section \<open>Every requested line is accounted for\<close>

definition balance :: "sim_env \<Rightarrow> (u64 \<times> bool) multiset \<Rightarrow> 'd memory \<Rightarrow> nat \<Rightarrow> graph_reader \<Rightarrow> R_TYPE \<Rightarrow> int" where
  "balance G P m j r t = int (reqs G j t r) - int (lines_way G j t (on_way P m)) - int (count_list (rq m ! j) t) - got G j t r"

text \<open>A call on the graph reader of engine \<open>i\<close> keeps the balance of every engine and never takes a request back.\<close>

definition kept :: "sim_env \<Rightarrow> (u64 \<times> bool) multiset \<Rightarrow> nat \<Rightarrow> graph_reader \<Rightarrow> 'd memory \<Rightarrow> graph_reader \<Rightarrow> 'd memory \<Rightarrow> bool" where
  "kept G P i r m r' m' \<longleftrightarrow> (\<forall>t. t \<noteq> Empty \<longrightarrow> balance G P m' i r' t = balance G P m i r t) \<and>
     (\<forall>j < engines G. j \<noteq> i \<longrightarrow> (\<forall>s t. balance G P m' j s t = balance G P m j s t)) \<and>
     row_reqs G i r \<le> row_reqs G i r' \<and> col_reqs G i r \<le> col_reqs G i r' \<and> (reci_over r \<longrightarrow> reci_over r')"

lemma kept_refl: "kept G P i r m r m"
  by (simp add: kept_def)

lemma kept_trans: "kept G P i r m r1 m1 \<Longrightarrow> kept G P i r1 m1 r2 m2 \<Longrightarrow> kept G P i r m r2 m2"
  by (auto simp: kept_def)

lemma on_way_Add: "on_way P (AddTransaction m t) = add_mset (trans_of t) (on_way P m)"
  by (simp add: on_way_def AddTransaction_def)

lemma rq_Add [simp]: "rq (AddTransaction m t) = rq m" "mem_fq (AddTransaction m t) = mem_fq m"
  "tq (AddTransaction m t) = tq m @ [t]" "dram (AddTransaction m t) = dram m"
  by (simp_all add: AddTransaction_def)

lemma VertexRequest_kept:
  assumes env: "engine_env md G i" "layout_ok G" "i < engines G" and run: "gr_run G i r m tr" and v: "\<not> v_req_over r"
    and call: "VertexRequest G r m = Inr (r', m')"
  shows "kept G P i r m r' m'"
proof (cases "WillAcceptTransaction m")
  case False
  with VertexRequest_step [OF assms] show ?thesis by (simp add: kept_refl)
next
  case True
  from VertexRequest_step [OF assms] True obtain a where
    a: "in_region Row a (data_index G ! i)" "m' = AddTransaction m (read_tr a)"
      "row_reqs G i r' = Suc (row_reqs G i r)" "col_reqs G i r' = col_reqs G i r" by auto
  note w = region_read [OF env(2,3) a(1)]
  note l = request_live(1) [OF call]
  have "reci_over r' = reci_over r" using l by (simp add: live_view_def)
  moreover have "balance G P m' i r' t = balance G P m i r t" if "t \<noteq> Empty" for t
    using that a(3,4) got_view [OF l, of G i t] w [OF env(3)]
    by (cases t) (simp_all add: balance_def a(2) on_way_Add)
  moreover have "balance G P m' j s t = balance G P m j s t" if "j < engines G" "j \<noteq> i" for j s t
    using w [OF that(1)] that(2) by (simp add: balance_def a(2) on_way_Add)
  ultimately show ?thesis using a(3,4) by (simp add: kept_def)
qed

lemma EdgeRequest_kept:
  assumes env: "engine_env md G i" "layout_ok G" "i < engines G" and run: "gr_run G i r m tr" and v: "\<not> e_req_over r"
    and call: "EdgeRequest G r m = Inr (r', m')"
  shows "kept G P i r m r' m'"
proof (cases "WillAcceptTransaction m")
  case False
  with EdgeRequest_step [OF assms] show ?thesis by (simp add: kept_refl)
next
  case True
  let ?gcn = "gnn_mode (arch_info G) = GCN"
  from EdgeRequest_step [OF assms] True obtain a b where
    a: "in_region Column a (data_index G ! i)" "?gcn \<Longrightarrow> in_region Value b (data_index G ! i)"
      "m' = (if ?gcn then AddTransaction (AddTransaction m (read_tr a)) (read_tr b) else AddTransaction m (read_tr a))"
      "col_reqs G i r' = Suc (col_reqs G i r)" "row_reqs G i r' = row_reqs G i r" by auto
  note w = region_read [OF env(2,3) a(1)] and w' = region_read [OF env(2,3) a(2)]
  note l = request_live(2) [OF call]
  have "reci_over r' = reci_over r" using l by (simp add: live_view_def)
  moreover have "balance G P m' i r' t = balance G P m i r t" if "t \<noteq> Empty" for t
    using that a(4,5) got_view [OF l, of G i t] w [OF env(3)] w' [OF _ env(3)]
    by (cases t; cases ?gcn) (simp_all add: balance_def a(3) on_way_Add)
  moreover have "balance G P m' j s t = balance G P m j s t" if "j < engines G" "j \<noteq> i" for j s t
    using w [OF that(1)] w' [OF _ that(1)] that(2) by (cases ?gcn) (simp_all add: balance_def a(3) on_way_Add)
  ultimately show ?thesis using a(4,5) by (simp add: kept_def)
qed

lemma GraphReceive_kept:
  assumes ok: "engine_ok G i" and run: "gr_run G i r m tr" and call: "GraphReceive G r m = Inr (r', m')"
    and rq: "i < length (rq m)"
  shows "kept G P i r m r' m'" and "m' = m\<lparr>rq := (rq m)[i := tl (rq m ! i)]\<rparr>"
proof -
  have id: "gr_id r = i" using gr_run_inv [OF run ok] by (simp add: reader_inv_def Let_def)
  note R = GraphReceive_got [OF ok gr_run_got [OF run ok] id call]
  show m': "m' = m\<lparr>rq := (rq m)[i := tl (rq m ! i)]\<rparr>" by (rule R(2))
  have w: "on_way P m' = on_way P m" by (simp add: m' on_way_def)
  note v = GraphReceive_req [OF call]
  have "row_reqs G i r' = row_reqs G i r" "col_reqs G i r' = col_reqs G i r"
    using v by (simp_all add: req_view_def row_reqs_def col_reqs_def)
  moreover from this have "reqs G i t r' = reqs G i t r" for t by (cases t) simp_all
  then have "balance G P m' i r' t = balance G P m i r t" if "t \<noteq> Empty" for t
    using R(4) [OF that] rq unfolding balance_def w by (simp add: m')
  moreover have "balance G P m' j s t = balance G P m j s t" if "j \<noteq> i" for j s t
    using that unfolding balance_def w by (simp add: m')
  ultimately show "kept G P i r m r' m'" using R(3) by (simp add: kept_def)
qed

text \<open>The calls of one cycle on a graph reader; when nothing is requested, only a line may be received.\<close>

lemma vertex_stage:
  assumes env: "engine_env md G i" "layout_ok G" "i < engines G" and run: "gr_run G i r m tr"
    and call: "(if \<not> v_req_over r then VertexRequest G r m else Inr (r, m)) = Inr (r', m')"
  shows "kept G P i r m r' m' \<and> rq m' = rq m \<and> reci_over r' = reci_over r \<and> (\<exists>tr. gr_run G i r' m' tr) \<and>
    (row_reqs G i r' = row_reqs G i r \<longrightarrow> r' = r \<and> m' = m \<and> (WillAcceptTransaction m \<longrightarrow> v_req_over r))"
proof (cases "v_req_over r")
  case True
  then show ?thesis using call run kept_refl by auto
next
  case False
  with call have c: "VertexRequest G r m = Inr (r', m')" by simp
  from VertexRequest_step [OF env run False c] have "rq m' = rq m"
    "row_reqs G i r' = row_reqs G i r \<longrightarrow> r' = r \<and> m' = m \<and> \<not> WillAcceptTransaction m" by (auto split: if_splits)
  with VertexRequest_kept [OF env run False c] gr_run.vreq [OF run False c] request_live(1) [OF c] show ?thesis
    by (auto simp: live_view_def)
qed

lemma edge_stage:
  assumes env: "engine_env md G i" "layout_ok G" "i < engines G" and run: "gr_run G i r m tr"
    and call: "(if \<not> e_req_over r then EdgeRequest G r m else Inr (r, m)) = Inr (r', m')"
  shows "kept G P i r m r' m' \<and> rq m' = rq m \<and> reci_over r' = reci_over r \<and> (\<exists>tr. gr_run G i r' m' tr) \<and>
    (col_reqs G i r' = col_reqs G i r \<longrightarrow> r' = r \<and> m' = m \<and> (WillAcceptTransaction m \<longrightarrow> e_req_over r))"
proof (cases "e_req_over r")
  case True
  then show ?thesis using call run kept_refl by auto
next
  case False
  with call have c: "EdgeRequest G r m = Inr (r', m')" by simp
  from EdgeRequest_step [OF env run False c] have "rq m' = rq m"
    "col_reqs G i r' = col_reqs G i r \<longrightarrow> r' = r \<and> m' = m \<and> \<not> WillAcceptTransaction m" by (auto split: if_splits)
  with EdgeRequest_kept [OF env run False c] gr_run.ereq [OF run False c] request_live(2) [OF c] show ?thesis
    by (auto simp: live_view_def)
qed

lemma graph_calls_kept:
  assumes env: "engine_env md G i" "layout_ok G" "i < engines G" and run: "gr_run G i r m tr"
    and rq: "length (rq m) = engines G" and call: "graph_calls G r m = Inr (r', m')"
  shows "kept G P i r m r' m'"
    and "row_reqs G i r' = row_reqs G i r \<Longrightarrow> col_reqs G i r' = col_reqs G i r \<Longrightarrow>
      tq m' = tq m \<and> (WillAcceptTransaction m \<longrightarrow> v_req_over r' \<and> e_req_over r') \<and>
      rq m' = (if reci_over r then rq m else (rq m)[i := tl (rq m ! i)])"
proof -
  have ok: "engine_ok G i" using env(1) by (simp add: engine_env_def Let_def)
  from call obtain r1 m1 r2 m2 where
    c: "(if \<not> v_req_over r then VertexRequest G r m else Inr (r, m)) = Inr (r1, m1)"
      "(if \<not> e_req_over r1 then EdgeRequest G r1 m1 else Inr (r1, m1)) = Inr (r2, m2)"
      "(if \<not> reci_over r2 then GraphReceive G r2 m2 else Inr (r2, m2)) = Inr (r', m')"
    unfolding graph_calls_def by auto
  note 1 = vertex_stage [OF env run c(1), of P]
  then obtain tr1 where t1: "gr_run G i r1 m1 tr1" by blast
  note 2 = edge_stage [OF env t1 c(2), of P]
  then obtain tr2 where t2: "gr_run G i r2 m2 tr2" by blast
  have i: "i < length (rq m2)" using 1 2 rq env(3) by simp
  have 3: "kept G P i r2 m2 r' m' \<and> m' = (if reci_over r2 then m2 else m2\<lparr>rq := (rq m2)[i := tl (rq m2 ! i)]\<rparr>) \<and>
    v_req_over r' = v_req_over r2 \<and> e_req_over r' = e_req_over r2"
  proof (cases "reci_over r2")
    case False
    with c(3) have g: "GraphReceive G r2 m2 = Inr (r', m')" by simp
    from GraphReceive_kept [OF ok t2 g i] GraphReceive_req [OF g] False show ?thesis by (simp add: req_view_def)
  qed (use c(3) kept_refl in simp)
  have k: "kept G P i r m r1 m1" "kept G P i r1 m1 r2 m2" "kept G P i r2 m2 r' m'" using 1 2 3 by blast+
  show "kept G P i r m r' m'" by (rule kept_trans [OF kept_trans [OF k(1,2)] k(3)])
  show "tq m' = tq m \<and> (WillAcceptTransaction m \<longrightarrow> v_req_over r' \<and> e_req_over r') \<and>
      rq m' = (if reci_over r then rq m else (rq m)[i := tl (rq m ! i)])"
    if q: "row_reqs G i r' = row_reqs G i r" "col_reqs G i r' = col_reqs G i r"
  proof -
    have "row_reqs G i r1 = row_reqs G i r" "col_reqs G i r2 = col_reqs G i r1" using k q by (auto simp: kept_def)
    then have "r1 = r" "m1 = m" "r2 = r" "m2 = m" "WillAcceptTransaction m \<longrightarrow> v_req_over r \<and> e_req_over r" using 1 2 by auto
    with 3 show ?thesis by auto
  qed
qed

section \<open>The work an engine has left\<close>

text \<open>Signals of the edges still to be passed on, from position \<open>p\<close> of the stream.\<close>

definition all_edges :: "sim_env \<Rightarrow> nat \<Rightarrow> nat" where
  "all_edges G i = nat (bf (arch_info G)) * length (col_idx G ! i)"

definition later :: "F_MODE \<Rightarrow> sim_env \<Rightarrow> nat \<Rightarrow> nat \<Rightarrow> nat" where
  "later md G i p = length (concat (map (\<lambda>q. edge_signals md G (edge_at (row_ptr G ! i) (col_idx G ! i) i q)) [p..<all_edges G i]))"

text \<open>Edges to take from the pending queue, lines to queue, and signals to pass to the SIMD core.\<close>

definition left_take :: "sim_env \<Rightarrow> nat \<Rightarrow> nat \<Rightarrow> feature_reader \<Rightarrow> nat" where
  "left_take G i p fr = length (pq fr ! i) + (all_edges G i - p)"

definition left_read :: "F_MODE \<Rightarrow> sim_env \<Rightarrow> nat \<Rightarrow> nat \<Rightarrow> feature_reader \<Rightarrow> nat" where
  "left_read md G i p fr = length (stat_signals md G (frs fr ! i)) + length (concat (map (edge_signals md G) (pq fr ! i))) + later md G i p"

definition left_pass :: "F_MODE \<Rightarrow> sim_env \<Rightarrow> nat \<Rightarrow> nat \<Rightarrow> feature_reader \<Rightarrow> nat" where
  "left_pass md G i p fr = length (pend md G fr i) + later md G i p"

lemma later_next: "p < all_edges G i \<Longrightarrow>
    later md G i p = length (edge_signals md G (edge_at (row_ptr G ! i) (col_idx G ! i) i p)) + later md G i (Suc p)"
  by (simp add: later_def upt_conv_Cons)

lemma pos_le:
  assumes "engine_ok G i" and "gr_run G i r m tr"
  shows "gr_pos (col_idx G ! i) r \<le> all_edges G i"
  using gr_run_inv [OF assms(2,1)] gr_pos_le by (auto simp: reader_inv_def all_edges_def Let_def)

text \<open>Passing an edge on moves its work to the feature reader; a reader that has everything passes one.\<close>

lemma pass_call_left:
  assumes env: "engine_env md G i" "i < engines G" and run: "gr_run G i r m tr"
    and fr: "fr_ok md G fr" and call: "pass_call G r fr = Inr (r', fr')"
  defines "p \<equiv> gr_pos (col_idx G ! i) r" and "p' \<equiv> gr_pos (col_idx G ! i) r'"
  shows "left_take G i p' fr' = left_take G i p fr \<and> left_read md G i p' fr' = left_read md G i p fr \<and>
      left_pass md G i p' fr' = left_pass md G i p fr \<and> p \<le> p' \<and>
      live_view r' = live_view r \<and> req_view r' = req_view r \<and>
      requested fr' = requested fr \<and> fq fr' = fq fr \<and> frs fr' = frs fr \<and> (\<forall>j. j \<noteq> i \<longrightarrow> pq fr' ! j = pq fr ! j) \<and>
      (p' = p \<longrightarrow> fr' = fr \<and> (reci_over r \<longrightarrow> p = all_edges G i))"
proof (cases "pass_over r")
  case True
  have ok: "engine_ok G i" using env(1) by (simp add: engine_env_def Let_def)
  have "p = all_edges G i" using gr_run_inv [OF run ok] True by (auto simp: reader_inv_def Let_def p_def all_edges_def)
  then show ?thesis using True call by (simp add: pass_call_def p_def p'_def)
next
  case False
  let ?ci = "col_idx G ! i" and ?rp = "row_ptr G ! i"
  have ok: "engine_ok G i" using env(1) by (simp add: engine_env_def Let_def)
  note I = gr_run_inv [OF run ok]
  from NextFeature_inv [OF ok, of r] I obtain ei where
    n: "NextFeature G r = Inr (ei, r')" "reader_inv G i r'"
      "ei = no_edge i \<and> p' = p \<or> ei = edge_at ?rp ?ci i p \<and> p' = Suc p"
    using call False unfolding p_def p'_def by (auto simp: pass_call_def split: if_splits)
  note V = NextFeature_live [OF n(1)]
  show ?thesis
  proof (cases "dst ei = -1")
    case True
    then have e: "ei = no_edge i" "p' = p" using n(3) edge_at_dst [OF ok] by auto
    have "p = all_edges G i" if over: "reci_over r"
    proof (rule ccontr)
      assume "p \<noteq> all_edges G i"
      then have "p < all_edges G i" using pos_le [OF ok run] unfolding p_def by linarith
      moreover have "length (edges tr) = p" using I by (simp add: p_def)
      ultimately obtain r1 where "NextFeature G r = Inr (edge_at ?rp ?ci i p, r1)"
        using next_edge [OF ok run over] by (auto simp: all_edges_def)
      with n(1) True edge_at_dst [OF ok] show False by auto
    qed
    moreover have "fr' = fr" using call False n(1) True by (simp add: pass_call_def)
    ultimately show ?thesis using e V by simp
  next
    case d: False
    then have e: "ei = edge_at ?rp ?ci i p" "p' = Suc p" using n(3) by (auto simp: no_edge_def)
    have "p' \<le> all_edges G i" using n(2) gr_pos_le by (auto simp: reader_inv_def Let_def p'_def all_edges_def)
    then have lt: "p < all_edges G i" using e by simp
    have id: "ei_id ei = i" by (simp add: e(1) edge_at_def Let_def)
    have l: "i < length (pq fr)" using fr env(2) by (simp add: fr_ok_def)
    have f: "fr' = fr\<lparr>pq := (pq fr)[i := pq fr ! i @ [ei]]\<rparr>"
      using call False n(1) d id l by (auto simp: pass_call_def EnterFtoList_def vpush_def vget_def vset_def)
    show ?thesis using V e lt l later_next [OF lt, of md]
      by (simp add: f left_take_def left_read_def left_pass_def pend_def)
  qed
qed

section \<open>Reading lines\<close>

definition cache_wf :: "sim_env \<Rightarrow> cache \<Rightarrow> bool" where
  "cache_wf G c \<longleftrightarrow> cache_ok (arch_info G) \<and> cache_inv (arch_info G) c"

text \<open>Lookups neither fill nor empty the cache, and never forget a request.\<close>

definition looked :: "sim_env \<Rightarrow> feature_reader \<times> cache \<times> 'd memory \<Rightarrow> feature_reader \<times> cache \<times> 'd memory \<Rightarrow> bool" where
  "looked G = (\<lambda>(fr, c, m) (fr', c', m'). cache_wf G c' \<and> cached c' = cached c \<and> requested fr \<subseteq> requested fr' \<and>
     rq m' = rq m \<and> mem_fq m' = mem_fq m)"

lemma looked_trans: "looked G s s1 \<Longrightarrow> looked G s1 s2 \<Longrightarrow> looked G s s2"
  by (auto simp: looked_def)

lemma looked_same: "looked G s (fr, c, m) \<Longrightarrow> requested fr' = requested fr \<Longrightarrow> looked G s (fr', c, m)"
  by (auto simp: looked_def)

lemma looked_refl: "cache_wf G c \<Longrightarrow> looked G (fr, c, m) (fr, c, m)"
  by (simp add: looked_def)

lemma access_keeps:
  assumes "Access (arch_info G) c a = Inr (h, c')" and "cache_wf G c"
  shows "cache_wf G c' \<and> cached c' = cached c \<and> h = (a \<in> cached c)"
  using lru.access_spec [OF assms(2) [unfolded cache_wf_def], of a] assms by (auto simp: cache_wf_def)

lemma fetch_keeps:
  assumes "fetch_line G a (fr, c, m) = Inr (h, fr1, c1, m1)" and "cache_wf G c"
  shows "looked G (fr, c, m) (fr1, c1, m1)"
proof -
  from assms(1) obtain c2 where "Access (arch_info G) c a = Inr (h, c2)" "c1 = c2"
    and r: "if \<not> h \<and> a \<notin> requested fr then fr1 = fr\<lparr>requested := insert a (requested fr)\<rparr> \<and> m1 = AddTransaction m (read_tr a)
        else fr1 = fr \<and> m1 = m"
    by (auto simp: fetch_line_def split: if_splits)
  with access_keeps [OF _ assms(2)] show ?thesis by (auto simp: looked_def split: if_splits)
qed

lemma queue_ops_requested:
  "push_fq fr i a = Inr fr' \<Longrightarrow> requested fr' = requested fr"
  "set_col fr i v = Inr fr' \<Longrightarrow> requested fr' = requested fr"
  "end_edge fr i = Inr fr' \<Longrightarrow> requested fr' = requested fr"
  "x_cmp_next G i f fr = Inr fr' \<Longrightarrow> requested fr' = requested fr"
  by (auto simp: queue_ops x_cmp_next_def split: if_splits)

lemma read_csr_line_keeps:
  assumes "read_csr_line G i (fr, c, m) = Inr (fr', c', m')" and wf: "cache_wf G c"
  shows "looked G (fr, c, m) (fr', c', m')"
proof -
  from assms(1) obtain a h fr1 fr2 where f: "fetch_line G a (fr, c, m) = Inr (h, fr1, c', m')"
    and p: "push_fq fr1 i a = Inr fr2" and e: "(\<exists>v. set_col fr2 i v = Inr fr') \<or> end_edge fr2 i = Inr fr'"
    by (auto simp: read_csr_line_def Let_def split: if_splits) blast
  have "requested fr' = requested fr1" using queue_ops_requested p e by metis
  with looked_same [OF fetch_keeps [OF f wf]] show ?thesis .
qed

lemma read_mode_keeps:
  assumes r: "read_mode md G i (fr, c, m) = Inr (fr', c', m')" and wf: "cache_wf G c"
  shows "looked G (fr, c, m) (fr', c', m')"
proof -
  have csr: "looked G (fr, c, m) (fr', c', m')" if rd: "read_csr G i (fr, c, m) = Inr (fr', c', m')"
  proof (cases "f_col (cur_f (frs fr ! i)) = 0")
    case True
    with rd obtain a h fr1 c1 m1 where f: "fetch_line G a (fr, c, m) = Inr (h, fr1, c1, m1)"
      and e: "\<not> h \<longrightarrow> (fr', c', m') = (fr1, c1, m1)"
        "h \<longrightarrow> (\<exists>fr2. set_col fr1 i 1 = Inr fr2 \<and> read_csr_line G i (fr2, c1, m1) = Inr (fr', c', m'))"
      by (auto simp: read_csr_def Let_def split: if_splits)
    note k = fetch_keeps [OF f wf]
    show ?thesis
    proof (cases h)
      case True
      with e obtain fr2 where 2: "set_col fr1 i 1 = Inr fr2" "read_csr_line G i (fr2, c1, m1) = Inr (fr', c', m')" by blast
      have "cache_wf G c1" using k by (simp add: looked_def)
      from looked_trans [OF looked_same [OF k queue_ops_requested(2) [OF 2(1)]] read_csr_line_keeps [OF 2(2) this]]
      show ?thesis .
    qed (use k e in simp)
  next
    case False
    with rd have "read_csr_line G i (fr, c, m) = Inr (fr', c', m')" by (auto simp: read_csr_def Let_def)
    then show ?thesis using read_csr_line_keeps wf by blast
  qed
  show ?thesis
  proof (cases md)
    case MAT
    with r obtain a h fr1 fr2 where f: "fetch_line G a (fr, c, m) = Inr (h, fr1, c', m')"
      and p: "push_fq fr1 i a = Inr fr2" and e: "(\<exists>v. set_col fr2 i v = Inr fr') \<or> end_edge fr2 i = Inr fr'"
      by (auto simp: read_mat_def Let_def split: if_splits) blast
    have "requested fr' = requested fr1" using queue_ops_requested p e by metis
    with looked_same [OF fetch_keeps [OF f wf]] show ?thesis .
  next
    case X_CMP
    with r obtain a h fr1 c1 hit t fr2 f where f: "fetch_line G a (fr, c, m) = Inr (h, fr1, c1, m')"
      and ac: "Access (arch_info G) c1 a = Inr (hit, c')" and p: "push_fq fr1 i t = Inr fr2" and e: "x_cmp_next G i f fr2 = Inr fr'"
      by (auto simp: read_x_cmp_def Let_def)
    note k = fetch_keeps [OF f wf]
    then have "looked G (fr, c, m) (fr1, c', m')" using access_keeps [OF ac] by (auto simp: looked_def)
    from looked_same [OF this] queue_ops_requested(1) [OF p] queue_ops_requested(4) [OF e] show ?thesis by metis
  qed (use r csr in \<open>simp_all add: read_x_full_cmp_def\<close>)
qed

text \<open>In the compressed formats an engine may wait for the header line of its edge.\<close>

definition header :: "sim_env \<Rightarrow> feature_reader \<Rightarrow> nat \<Rightarrow> u64" where
  "header G fr i = x_to_addr G ! nat (f_dst (cur_f (frs fr ! i))) ! 0"

definition header_wait :: "F_MODE \<Rightarrow> feature_reader \<Rightarrow> nat \<Rightarrow> bool" where
  "header_wait md fr i \<longleftrightarrow> (md = CSR \<or> md = X_FULL_CMP) \<and> \<not> pq_read_need (frs fr ! i) \<and>
     f_col (cur_f (frs fr ! i)) = 0 \<and> length (fq fr ! i) < 256"

lemma read_csr_line_grows:
  assumes "read_csr_line G i (fr, c, m) = Inr (fr', c', m')"
  shows "fq fr' ! i \<noteq> fq fr ! i"
proof -
  from assms obtain a h fr1 fr2 where f: "fetch_line G a (fr, c, m) = Inr (h, fr1, c', m')"
    and p: "push_fq fr1 i a = Inr fr2" and e: "(\<exists>v. set_col fr2 i v = Inr fr') \<or> end_edge fr2 i = Inr fr'"
    by (auto simp: read_csr_line_def Let_def split: if_splits) blast
  have "fq fr1 = fq fr" using fetch_line_eff [OF f] by auto
  with p have 2: "i < length (fq fr)" "fq fr2 = (fq fr)[i := fq fr ! i @ [a]]" by (auto simp: queue_ops)
  from e have "fq fr' = fq fr2 \<or> fq fr' = (fq fr2)[i := fq fr2 ! i @ [0]]"
    by (auto simp: queue_ops split: if_splits)
  with 2 show ?thesis by auto
qed

lemma read_wait:
  assumes r: "read_mode md G i (fr, c, m) = Inr (fr', c', m')" and s: "stat_ok md G (frs fr ! i)" "\<not> pq_read_need (frs fr ! i)"
    and wf: "cache_wf G c" and no: "\<not> read_push md G i fr fr'"
  shows "(md = CSR \<or> md = X_FULL_CMP) \<and> f_col (cur_f (frs fr ! i)) = 0 \<and> header G fr i \<notin> cached c \<and>
    fr' = fr\<lparr>requested := insert (header G fr i) (requested fr)\<rparr> \<and> (m' = m \<or> m' = AddTransaction m (read_tr (header G fr i)))"
proof -
  have md: "md = CSR \<or> md = X_FULL_CMP"
    using no r s read_mat_eff [of G i fr c m fr' c' m'] read_x_cmp_eff [of G i fr c m fr' c' m'] by (cases md) auto
  then have rd: "read_csr G i (fr, c, m) = Inr (fr', c', m')" using r by (auto simp: read_x_full_cmp_def)
  from read_csr_eff [OF rd md s] no have fq: "fq fr' = fq fr" by (auto simp: read_eff_def)
  have col: "f_col (cur_f (frs fr ! i)) = 0"
  proof (rule ccontr)
    assume "f_col (cur_f (frs fr ! i)) \<noteq> 0"
    with rd have "read_csr_line G i (fr, c, m) = Inr (fr', c', m')" by (auto simp: read_csr_def Let_def)
    from read_csr_line_grows [OF this] fq show False by simp
  qed
  with rd obtain h fr1 c1 m1 where f: "fetch_line G (header G fr i) (fr, c, m) = Inr (h, fr1, c1, m1)"
    and e: "\<not> h \<longrightarrow> (fr', c', m') = (fr1, c1, m1)"
      "h \<longrightarrow> (\<exists>fr2. set_col fr1 i 1 = Inr fr2 \<and> read_csr_line G i (fr2, c1, m1) = Inr (fr', c', m'))"
    by (auto simp: read_csr_def header_def Let_def split: if_splits)
  have "\<not> h"
  proof
    assume h
    with e obtain fr2 where 2: "set_col fr1 i 1 = Inr fr2" "read_csr_line G i (fr2, c1, m1) = Inr (fr', c', m')" by blast
    have "fq fr2 = fq fr" using 2(1) fetch_line_eff [OF f] by (auto simp: queue_ops)
    with read_csr_line_grows [OF 2(2)] fq show False by simp
  qed
  moreover from f obtain c2 where "Access (arch_info G) c (header G fr i) = Inr (h, c2)"
    and "if \<not> h \<and> header G fr i \<notin> requested fr
      then fr1 = fr\<lparr>requested := insert (header G fr i) (requested fr)\<rparr> \<and> m1 = AddTransaction m (read_tr (header G fr i))
      else fr1 = fr \<and> m1 = m"
    by (auto simp: fetch_line_def split: if_splits)
  ultimately show ?thesis using md col e(1) access_keeps [OF _ wf] by (auto simp: insert_absorb split: if_splits)
qed

lemma read_push_left:
  assumes "read_push md G i fr fr'" and "fr_ok md G fr" and "i < engines G" and "\<not> pq_read_need (frs fr ! i)"
  shows "left_read md G i p fr' < left_read md G i p fr \<and> pq fr' = pq fr \<and>
    (\<forall>j. j \<noteq> i \<longrightarrow> fq fr' ! j = fq fr ! j \<and> frs fr' ! j = frs fr ! j)"
  using assms(1)
proof cases
  case (more t a s nc R)
  let ?f = "cur_f s"
  have "\<not> pq_read_need s" "i < length (frs fr)" using assms(2-4) more by (auto simp: fr_ok_def)
  moreover have "stat_signals md G s = 1 # stat_signals md G (s\<lparr>cur_f := ?f\<lparr>f_col := nc\<rparr>\<rparr>)"
    using calculation(1) more by (simp add: stat_signals_def signals_Cons)
  ultimately show ?thesis using more by (simp add: left_read_def)
next
  case (final t a s F R)
  have s: "\<not> pq_read_need s" "i < length (frs fr)" using assms(2-4) final by (auto simp: fr_ok_def)
  have "length (stat_signals md G s) = 1"
    using s final by (simp add: stat_signals_def signals_def)
  moreover have "stat_signals md G (s\<lparr>cur_f := F, pq_read_need := True\<rparr>) = []" by (simp add: stat_signals_def)
  ultimately show ?thesis using final s by (auto simp: left_read_def)
qed

lemma ReadNext_left:
  assumes r: "ReadNext G i (fr, c, m) = Inr (fr', c', m')" and ok: "fr_ok md G fr" and i: "i < engines G" and wf: "cache_wf G c"
  shows "left_take G i p fr' \<le> left_take G i p fr" and "left_read md G i p fr' \<le> left_read md G i p fr"
    and "looked G (fr, c, m) (fr', c', m')"
    and "j \<noteq> i \<Longrightarrow> fq fr' ! j = fq fr ! j \<and> frs fr' ! j = frs fr ! j \<and> pq fr' ! j = pq fr ! j"
    and "left_take G i p fr' = left_take G i p fr \<Longrightarrow> left_read md G i p fr' = left_read md G i p fr \<Longrightarrow>
      (fr', c', m') = (fr, c, m) \<and> (256 \<le> length (fq fr ! i) \<or> \<not> WillAcceptTransaction m \<or> pq_read_need (frs fr ! i) \<and> pq fr ! i = []) \<or>
      header_wait md fr i \<and> header G fr i \<notin> cached c \<and> fr' = fr\<lparr>requested := insert (header G fr i) (requested fr)\<rparr> \<and>
        (m' = m \<or> m' = AddTransaction m (read_tr (header G fr i)))"
proof -
  have md: "fr_mode fr = md" "stat_ok md G (frs fr ! i)" using ok i by (auto simp: fr_ok_def)
  let ?Q = "(fr', c', m') = (fr, c, m) \<and> (256 \<le> length (fq fr ! i) \<or> \<not> WillAcceptTransaction m \<or> pq_read_need (frs fr ! i) \<and> pq fr ! i = []) \<or>
      header_wait md fr i \<and> header G fr i \<notin> cached c \<and> fr' = fr\<lparr>requested := insert (header G fr i) (requested fr)\<rparr> \<and>
        (m' = m \<or> m' = AddTransaction m (read_tr (header G fr i)))"
  have read: "left_take G i p fr' = left_take G i p fr1 \<and> left_read md G i p fr' \<le> left_read md G i p fr1 \<and>
      looked G (fr1, c, m) (fr', c', m') \<and> pq fr' = pq fr1 \<and> (\<forall>j. j \<noteq> i \<longrightarrow> fq fr' ! j = fq fr1 ! j \<and> frs fr' ! j = frs fr1 ! j) \<and>
      (left_read md G i p fr' = left_read md G i p fr1 \<longrightarrow>
        (md = CSR \<or> md = X_FULL_CMP) \<and> f_col (cur_f (frs fr1 ! i)) = 0 \<and> header G fr1 i \<notin> cached c \<and>
        fr' = fr1\<lparr>requested := insert (header G fr1 i) (requested fr1)\<rparr> \<and> (m' = m \<or> m' = AddTransaction m (read_tr (header G fr1 i))))"
    if rd: "read_mode md G i (fr1, c, m) = Inr (fr', c', m')" and o1: "fr_ok md G fr1" "\<not> pq_read_need (frs fr1 ! i)" for fr1
  proof (cases "read_push md G i fr1 fr'")
    case True
    from read_push_left [OF True o1(1) i o1(2), of p] read_mode_keeps [OF rd wf] show ?thesis by (simp add: left_take_def)
  next
    case False
    have "stat_ok md G (frs fr1 ! i)" using o1(1) i by (simp add: fr_ok_def)
    from read_wait [OF rd this o1(2) wf False] read_mode_keeps [OF rd wf] show ?thesis
      by (simp add: left_take_def left_read_def)
  qed
  from r consider (no) "(fr', c', m') = (fr, c, m)" "256 \<le> length (fq fr ! i) \<or> \<not> WillAcceptTransaction m \<or> pq_read_need (frs fr ! i) \<and> pq fr ! i = []"
    | (go) "length (fq fr ! i) < 256" "\<not> pq_read_need (frs fr ! i)" "read_mode md G i (fr, c, m) = Inr (fr', c', m')"
    | (take) fr1 where "pq_read_need (frs fr ! i)" "ConsumePendingQ fr i = Inr fr1" "read_mode md G i (fr1, c, m) = Inr (fr', c', m')"
    by (auto simp: ReadNext_def md(1) split: if_splits)
  then have "left_take G i p fr' \<le> left_take G i p fr \<and> left_read md G i p fr' \<le> left_read md G i p fr \<and>
    looked G (fr, c, m) (fr', c', m') \<and> (\<forall>j. j \<noteq> i \<longrightarrow> fq fr' ! j = fq fr ! j \<and> frs fr' ! j = frs fr ! j \<and> pq fr' ! j = pq fr ! j) \<and>
    (left_take G i p fr' = left_take G i p fr \<and> left_read md G i p fr' = left_read md G i p fr \<longrightarrow> ?Q)"
  proof cases
    case no
    then show ?thesis using looked_refl [OF wf, of fr m] by simp
  next
    case go
    then show ?thesis using read [OF go(3) ok go(2)] by (auto simp: header_wait_def)
  next
    case take
    from take(2) obtain ei es s where q: "pq fr ! i = ei # es" "i < length (pq fr)"
      and f1: "fr1 = fr\<lparr>frs := (frs fr)[i := s], pq := (pq fr)[i := es], f_pass := f_pass fr + 1\<rparr>"
      by (auto simp: ConsumePendingQ_def set_stat_def split: list.splits)
    note C = ConsumePendingQ_spec [OF take(2) ok take(1)]
    from C read [OF take(3)] have R: "left_take G i p fr' = left_take G i p fr1" "left_read md G i p fr' \<le> left_read md G i p fr1"
      "looked G (fr1, c, m) (fr', c', m')" "pq fr' = pq fr1" "\<forall>j. j \<noteq> i \<longrightarrow> fq fr' ! j = fq fr1 ! j \<and> frs fr' ! j = frs fr1 ! j" by auto
    have "left_take G i p fr1 < left_take G i p fr" using q f1 by (simp add: left_take_def)
    moreover have "left_read md G i p fr1 = left_read md G i p fr"
      using C f1 [THEN arg_cong [of _ _ fq]] by (simp add: left_read_def pend_def)
        (metis (no_types, lifting) append_same_eq length_append append_eq_append_conv)
    moreover have "looked G (fr, c, m) (fr', c', m')" using R(3) f1 by (simp add: looked_def)
    ultimately show ?thesis using R f1 by auto
  qed
  then show "left_take G i p fr' \<le> left_take G i p fr" "left_read md G i p fr' \<le> left_read md G i p fr"
    "looked G (fr, c, m) (fr', c', m')" "j \<noteq> i \<Longrightarrow> fq fr' ! j = fq fr ! j \<and> frs fr' ! j = frs fr ! j \<and> pq fr' ! j = pq fr ! j"
    "left_take G i p fr' = left_take G i p fr \<Longrightarrow> left_read md G i p fr' = left_read md G i p fr \<Longrightarrow> ?Q" by blast+
qed

section \<open>Passing lines and writing rows\<close>

lemma PassFtoSIMD_left:
  assumes r: "PassFtoSIMD G i (fr, c, m) = Inr (x, fr', c', m')" and ok: "fr_ok md G fr" and i: "i < engines G" and wf: "cache_wf G c"
  shows "left_pass md G i p fr' + (if x = -1 then 0 else 1) = left_pass md G i p fr"
    and "looked G (fr, c, m) (fr', c', m')" and "frs fr' = frs fr" and "pq fr' = pq fr"
    and "j \<noteq> i \<Longrightarrow> fq fr' ! j = fq fr ! j"
    and "x = -1 \<Longrightarrow> fq fr ! i = [] \<and> (fr', c', m') = (fr, c, m) \<or> fq fr ! i \<noteq> [] \<and> hd (fq fr ! i) \<notin> cached c \<and>
      fr' = fr\<lparr>requested := insert (hd (fq fr ! i)) (requested fr)\<rparr> \<and> (m' = m \<or> m' = AddTransaction m (read_tr (hd (fq fr ! i))))"
proof -
  show "left_pass md G i p fr' + (if x = -1 then 0 else 1) = left_pass md G i p fr"
    using PassFtoSIMD_spec [OF r ok i] by (auto simp: left_pass_def split: if_splits)
  have "looked G (fr, c, m) (fr', c', m') \<and> frs fr' = frs fr \<and> pq fr' = pq fr \<and> (\<forall>j. j \<noteq> i \<longrightarrow> fq fr' ! j = fq fr ! j) \<and>
    (x = -1 \<longrightarrow> fq fr ! i = [] \<and> (fr', c', m') = (fr, c, m) \<or> fq fr ! i \<noteq> [] \<and> hd (fq fr ! i) \<notin> cached c \<and>
      fr' = fr\<lparr>requested := insert (hd (fq fr ! i)) (requested fr)\<rparr> \<and> (m' = m \<or> m' = AddTransaction m (read_tr (hd (fq fr ! i)))))"
  proof (cases "fq fr ! i")
    case Nil
    then show ?thesis using r looked_refl [OF wf] by (auto simp: PassFtoSIMD_def)
  next
    case (Cons t ts)
    with r i ok obtain h fr1 where
      g: "(if t = 1 then Inr (True, fr, c, m) else fetch_line G t (fr, c, m)) = Inr (h, fr1, c', m')" and
      e: "if h then pop_line fr1 i ts = (x, fr') else x = -1 \<and> fr' = fr1"
      by (auto simp: PassFtoSIMD_def fr_ok_def split: prod.splits if_splits)
    have k: "looked G (fr, c, m) (fr1, c', m')" "\<exists>R. fr1 = fr\<lparr>requested := R\<rparr>"
      using g fetch_keeps [OF _ wf] fetch_line_eff looked_refl [OF wf] by (auto split: if_splits intro: exI [of _ "requested fr"])
    show ?thesis
    proof (cases h)
      case True
      with e k obtain q where "fr' = fr1\<lparr>fq := (fq fr1)[i := q]\<rparr>" "x \<noteq> -1"
        by (auto simp: pop_line_def split: list.splits if_splits)
      with k show ?thesis by (auto simp: looked_def)
    next
      case False
      with g have f: "fetch_line G t (fr, c, m) = Inr (False, fr1, c', m')" by (auto split: if_splits)
      then obtain c2 where "Access (arch_info G) c t = Inr (False, c2)"
        "if t \<notin> requested fr then fr1 = fr\<lparr>requested := insert t (requested fr)\<rparr> \<and> m' = AddTransaction m (read_tr t) else fr1 = fr \<and> m' = m"
        by (auto simp: fetch_line_def split: if_splits)
      with access_keeps [OF _ wf] have "t \<notin> cached c" "fr1 = fr\<lparr>requested := insert t (requested fr)\<rparr>"
        "m' = m \<or> m' = AddTransaction m (read_tr t)" by (auto simp: insert_absorb split: if_splits)
      with k e False Cons show ?thesis by auto
    qed
  qed
  then show "looked G (fr, c, m) (fr', c', m')" "frs fr' = frs fr" "pq fr' = pq fr" "j \<noteq> i \<Longrightarrow> fq fr' ! j = fq fr ! j"
    "x = -1 \<Longrightarrow> fq fr ! i = [] \<and> (fr', c', m') = (fr, c, m) \<or> fq fr ! i \<noteq> [] \<and> hd (fq fr ! i) \<notin> cached c \<and>
      fr' = fr\<lparr>requested := insert (hd (fq fr ! i)) (requested fr)\<rparr> \<and> (m' = m \<or> m' = AddTransaction m (read_tr (hd (fq fr ! i))))"
    by blast+
qed

text \<open>The lines a SIMD core has handed to the memory.\<close>

definition written :: "simd \<Rightarrow> nat" where
  "written s = nat (cnt s) - length (wq s)"

lemma SIMD_written:
  assumes w: "SIMD_Write (SIMD_GetFeature G x s) m = (s', m')" and l: "length (wq s) \<le> nat (cnt s)" "0 \<le> cnt s"
  shows "written s \<le> written s'" and "rq m' = rq m" and "mem_fq m' = mem_fq m"
    and "x = -1 \<Longrightarrow> written s' = written s \<Longrightarrow> s' = s \<and> m' = m \<and> (WillAcceptTransaction m \<longrightarrow> wq s = [])"
proof -
  define s1 where "s1 = SIMD_GetFeature G x s"
  have 1: "written s1 = written s" "length (wq s1) \<le> nat (cnt s1)"
    using l by (simp_all add: s1_def SIMD_GetFeature_def push_row_eq written_def Let_def nat_add_distrib)
  have 2: "s' = s1 \<and> m' = m \<and> (WillAcceptTransaction m \<longrightarrow> wq s1 = []) \<or>
      (\<exists>a as. wq s1 = a # as \<and> s' = s1\<lparr>wq := as\<rparr> \<and> m' = AddTransaction m (write_tr a))"
    using w by (auto simp: SIMD_Write_def s1_def split: list.splits if_splits)
  then show "written s \<le> written s'" "rq m' = rq m" "mem_fq m' = mem_fq m" using 1 by (auto simp: written_def)
  assume "x = -1" "written s' = written s"
  moreover from this have "s1 = s" by (simp add: s1_def SIMD_GetFeature_def)
  ultimately show "s' = s \<and> m' = m \<and> (WillAcceptTransaction m \<longrightarrow> wq s = [])" using 1 2 by (auto simp: written_def)
qed

lemma linked_written:
  assumes L: "linked md G st trs ent out ws" and env: "env_ok md G" and i: "i < engines G"
  shows "written (c_si st ! i) = length (ws i)" and "length (wq (c_si st ! i)) \<le> nat (cnt (c_si st ! i))" and "0 \<le> cnt (c_si st ! i)"
    and "length (ws i) \<le> engine_writes G i"
proof -
  let ?s = "c_si st ! i"
  have c: "cnt ?s = lines_after G (nonzero_row ?s) (zeros (out i))"
    "ws i @ wq ?s = map (out_line (ss_axw_addr_start ?s)) [0..<nat (lines_after G (nonzero_row ?s) (zeros (out i)))]"
    using linked_simd(1) [OF L env i] by (auto simp: simd_at_def Let_def)
  have l: "length (ws i) + length (wq ?s) = nat (cnt ?s)" using arg_cong [OF c(2), of length] c(1) by simp
  then show "written ?s = length (ws i)" "length (wq ?s) \<le> nat (cnt ?s)" by (auto simp: written_def)
  show "0 \<le> cnt ?s" unfolding c(1) using env by (intro lines_after_nonneg) (simp add: env_ok_def)
  from linked_writes [OF L env i] obtain n where
    n: "n \<le> engine_writes G i" "ws i @ wq ?s = map (out_line (ss_axw_addr_start ?s)) [0..<n]" by blast
  have "length (ws i) + length (wq ?s) = n" using arg_cong [OF n(2), of length] by simp
  with n(1) show "length (ws i) \<le> engine_writes G i" by simp
qed

end
