(* ===== verification/Sim_Quiet.thy ===== *)
theory Sim_Quiet
  imports Sim_Progress
begin

text \<open>
  The work left over a whole engine step and over the engine steps of a cycle, and what a cycle does
  that completes none of it: every engine waits for lines that are requested, or has nothing to do.
\<close>

section \<open>The work left\<close>

text \<open>
  Row and edge requests, edges to pass on, edges to take, lines to queue, signals to pass and output
  lines to write.
\<close>

definition work_parts :: "F_MODE \<Rightarrow> sim_env \<Rightarrow> nat \<Rightarrow> graph_reader \<Rightarrow> simd \<Rightarrow> feature_reader \<Rightarrow> nat list" where
  "work_parts md G i r s fr = (let p = gr_pos (col_idx G ! i) r; B = nat (bf (arch_info G)) in
     [B * lines_for (row_ptr G ! i) - row_reqs G i r, B * lines_for (col_idx G ! i) - col_reqs G i r, all_edges G i - p,
      left_take G i p fr, left_read md G i p fr, left_pass md G i p fr, engine_writes G i - written s])"

definition work :: "F_MODE \<Rightarrow> sim_env \<Rightarrow> nat \<Rightarrow> 'd sim \<Rightarrow> nat" where
  "work md G i st = sum_list (work_parts md G i (c_gr st ! i) (c_si st ! i) (c_fr st))"

lemma sum_list_le:
  assumes "list_all2 (\<le>) xs (ys :: nat list)"
  shows "sum_list xs \<le> sum_list ys" and "sum_list xs = sum_list ys \<Longrightarrow> xs = ys"
proof -
  have "sum_list xs \<le> sum_list ys \<and> (sum_list xs = sum_list ys \<longrightarrow> xs = ys)"
    using assms by (induction rule: list_all2_induct) auto
  then show "sum_list xs \<le> sum_list ys" "sum_list xs = sum_list ys \<Longrightarrow> xs = ys" by blast+
qed

text \<open>The lines an engine waits for.\<close>

definition wanted :: "F_MODE \<Rightarrow> sim_env \<Rightarrow> feature_reader \<Rightarrow> nat \<Rightarrow> u64 set" where
  "wanted md G fr i = (if fq fr ! i = [] then {} else {hd (fq fr ! i)}) \<union> (if header_wait md fr i then {header G fr i} else {})"

text \<open>The reads of such lines.\<close>

definition reads_of :: "sim_env \<Rightarrow> u64 set \<Rightarrow> Transaction set" where
  "reads_of G W = read_tr ` {a \<in> W. xw_ele_addr_start (arch_info G) \<le> a}"

text \<open>
  Engine \<open>j\<close> between two states of a cycle that leaves its work as it is: it passes on no edge, although
  it would if its data had arrived; unless the transaction queue is full, it has requested its arrays,
  has nothing to write and waits for lines that are not cached but requested.
\<close>

definition engine_quiet :: "F_MODE \<Rightarrow> sim_env \<Rightarrow> 'd sim \<Rightarrow> 'd sim \<Rightarrow> nat \<Rightarrow> bool" where
  "engine_quiet md G st st' j \<longleftrightarrow> (let fr = c_fr st; r' = c_gr st' ! j; W = wanted md G fr j in
     gr_pos (col_idx G ! j) r' = gr_pos (col_idx G ! j) (c_gr st ! j) \<and>
     (reci_over r' \<longrightarrow> gr_pos (col_idx G ! j) r' = all_edges G j) \<and>
     (length (tq (c_mem st')) < REQUEST_LIMIT \<longrightarrow> v_req_over r' \<and> e_req_over r' \<and> wq (c_si st ! j) = [] \<and>
        W \<inter> cached (c_cah st) = {} \<and> W \<subseteq> requested (c_fr st') \<and> (W = {} \<longrightarrow> pq_read_need (frs fr ! j) \<and> pq fr ! j = [])))"

definition quiet_step :: "F_MODE \<Rightarrow> sim_env \<Rightarrow> nat \<Rightarrow> 'd sim \<Rightarrow> 'd sim \<Rightarrow> bool" where
  "quiet_step md G i st st' \<longleftrightarrow> (let fr = c_fr st; fr' = c_fr st'; m = c_mem st; m' = c_mem st'; W = wanted md G fr i in
     fq fr' = fq fr \<and> pq fr' = pq fr \<and> frs fr' = frs fr \<and> requested fr' \<subseteq> requested fr \<union> W \<and>
     (\<exists>ts. tq m' = tq m @ ts \<and> set ts \<subseteq> reads_of G W) \<and>
     rq m' = (if reci_over (c_gr st ! i) then rq m else (rq m)[i := tl (rq m ! i)]) \<and> c_si st' = c_si st \<and>
     engine_quiet md G st st' i)"

text \<open>What an engine step keeps of the state in any case.\<close>

definition steps_to :: "F_MODE \<Rightarrow> sim_env \<Rightarrow> (u64 \<times> bool) multiset \<Rightarrow> nat set \<Rightarrow> 'd sim \<Rightarrow> 'd sim \<Rightarrow> bool" where
  "steps_to md G P I st st' \<longleftrightarrow> cached (c_cah st') = cached (c_cah st) \<and> requested (c_fr st) \<subseteq> requested (c_fr st') \<and>
     mem_fq (c_mem st') = mem_fq (c_mem st) \<and> dram (c_mem st') = dram (c_mem st) \<and>
     (\<exists>ts. tq (c_mem st') = tq (c_mem st) @ ts) \<and>
     (\<forall>j < engines G. (\<forall>t. t \<noteq> Empty \<longrightarrow> balance G P (c_mem st') j (c_gr st' ! j) t = balance G P (c_mem st) j (c_gr st ! j) t) \<and>
        work md G j st' \<le> work md G j st \<and> (reci_over (c_gr st ! j) \<longrightarrow> reci_over (c_gr st' ! j)) \<and>
        (j \<notin> I \<longrightarrow> work md G j st' = work md G j st \<and> c_gr st' ! j = c_gr st ! j))"

lemma steps_to_refl: "steps_to md G P I st st"
  by (simp add: steps_to_def)

lemma steps_to_trans:
  assumes "steps_to md G P I st st1" and "steps_to md G P J st1 st2"
  shows "steps_to md G P (I \<union> J) st st2"
proof -
  note A = assms [unfolded steps_to_def]
  obtain ts us where "tq (c_mem st1) = tq (c_mem st) @ ts" "tq (c_mem st2) = tq (c_mem st1) @ us" using A by blast
  then have "\<exists>ts. tq (c_mem st2) = tq (c_mem st) @ ts" by simp
  moreover have "work md G j st2 \<le> work md G j st" if "j < engines G" for j
    using A that by (meson order_trans)
  ultimately show ?thesis using A unfolding steps_to_def by auto
qed

section \<open>One engine step\<close>

lemma gcn_views:
  assumes "req_view r' = req_view r" and "live_view r' = live_view r"
  shows "row_reqs G i r' = row_reqs G i r" and "col_reqs G i r' = col_reqs G i r" and "balance G P m i r' t = balance G P m i r t"
    and "reci_over r' = reci_over r" and "v_req_over r' = v_req_over r" and "e_req_over r' = e_req_over r"
proof -
  show r: "row_reqs G i r' = row_reqs G i r" "col_reqs G i r' = col_reqs G i r"
    using assms(1) by (simp_all add: req_view_def row_reqs_def col_reqs_def)
  then have "reqs G i t r' = reqs G i t r" by (cases t) simp_all
  with got_view [OF assms(2)] show "balance G P m i r' t = balance G P m i r t" by (simp add: balance_def)
  show "reci_over r' = reci_over r" "v_req_over r' = v_req_over r" "e_req_over r' = e_req_over r"
    using assms by (simp_all add: req_view_def live_view_def)
qed

text \<open>Feature reads and writes are not lines of a graph array.\<close>

lemma balance_ext:
  assumes "layout_ok G" and "j < engines G" and "mem_ext m m' ts" and "rq m' = rq m"
    and "\<forall>t \<in> set ts. is_write t \<or> xw_ele_addr_start (arch_info G) \<le> address t"
  shows "balance G P m' j r t = balance G P m j r t"
proof -
  have "lines_way G j t (mset (map trans_of ts)) = 0"
    using assms(5) by (intro feature_read_way [OF assms(1,2)]) (auto simp: trans_of_def)
  then show ?thesis using on_way_ext [OF assms(3)] assms(4) by (simp add: balance_def lines_way_union)
qed

lemma left_cong:
  assumes "pq fr' ! j = pq fr ! j" and "frs fr' ! j = frs fr ! j" and "fq fr' ! j = fq fr ! j"
  shows "left_take G j p fr' = left_take G j p fr" and "left_read md G j p fr' = left_read md G j p fr"
    and "left_pass md G j p fr' = left_pass md G j p fr"
  using assms by (simp_all add: left_take_def left_read_def left_pass_def pend_def)

lemma nat_bound: "int k \<le> B * int n \<Longrightarrow> 0 < B \<Longrightarrow> k \<le> nat B * n"
proof -
  assume "int k \<le> B * int n" "0 < B"
  then have "int k \<le> int (nat B * n)" by simp
  then show ?thesis by (simp only: of_nat_le_iff)
qed

lemma graph_calls_pos:
  assumes env: "engine_env md G i" "layout_ok G" "i < engines G" and run: "gr_run G i r m tr"
    and rq: "length (rq m) = engines G" and call: "graph_calls G r m = Inr (r', m')"
  shows "gr_pos (col_idx G ! i) r' = gr_pos (col_idx G ! i) r"
proof -
  have ok: "engine_ok G i" using env(1) by (simp add: engine_env_def Let_def)
  from graph_calls_ext [OF env run rq] call obtain tr' where "gr_run G i r' m' tr'" "edges tr' = edges tr" by auto
  with gr_run_inv [OF run ok] gr_run_inv [OF _ ok, of r' m' tr'] show ?thesis by (metis length_map length_upt minus_nat.diff_0)
qed

text \<open>What the feature reader does in a quiet step: at most it requests the lines it waits for.\<close>

definition may_request :: "feature_reader \<Rightarrow> 'd memory \<Rightarrow> u64 \<Rightarrow> feature_reader \<Rightarrow> 'd memory \<Rightarrow> bool" where
  "may_request fr m a fr' m' \<longleftrightarrow> fr' = fr\<lparr>requested := insert a (requested fr)\<rparr> \<and> (m' = m \<or> m' = AddTransaction m (read_tr a))"

lemma may_request_tq: "may_request fr m a fr' m' \<Longrightarrow> a \<in> W \<Longrightarrow> \<exists>ts. tq m' = tq m @ ts \<and> set ts \<subseteq> read_tr ` W"
  by (auto simp: may_request_def)

lemma quiet_calls:
  assumes r: "(fr1, m1) = (fr, m) \<and> (256 \<le> length (fq fr ! i) \<or> \<not> WillAcceptTransaction m \<or> pq_read_need (frs fr ! i) \<and> pq fr ! i = []) \<or>
      header_wait md fr i \<and> header G fr i \<notin> C \<and> may_request fr m (header G fr i) fr1 m1"
    and p: "fq fr ! i = [] \<and> (fr2, m2) = (fr1, m1) \<or> fq fr ! i \<noteq> [] \<and> hd (fq fr ! i) \<notin> C \<and> may_request fr1 m1 (hd (fq fr ! i)) fr2 m2"
  defines "W \<equiv> wanted md G fr i"
  shows "fq fr2 = fq fr \<and> pq fr2 = pq fr \<and> frs fr2 = frs fr \<and> requested fr2 \<subseteq> requested fr \<union> W"
    and "\<exists>ts. tq m2 = tq m @ ts \<and> set ts \<subseteq> read_tr ` W"
    and "WillAcceptTransaction m \<Longrightarrow> W \<inter> C = {} \<and> W \<subseteq> requested fr2 \<and> (W = {} \<longrightarrow> pq_read_need (frs fr ! i) \<and> pq fr ! i = [])"
proof -
  have hW: "header_wait md fr i \<Longrightarrow> header G fr i \<in> W" and qW: "fq fr ! i \<noteq> [] \<Longrightarrow> hd (fq fr ! i) \<in> W"
    by (simp_all add: W_def wanted_def)
  have 1: "fq fr1 = fq fr \<and> pq fr1 = pq fr \<and> frs fr1 = frs fr \<and> requested fr \<subseteq> requested fr1 \<and> requested fr1 \<subseteq> requested fr \<union> W"
    using r hW by (auto simp: may_request_def)
  have 2: "fq fr2 = fq fr1 \<and> pq fr2 = pq fr1 \<and> frs fr2 = frs fr1 \<and> requested fr1 \<subseteq> requested fr2 \<and> requested fr2 \<subseteq> requested fr1 \<union> W"
    using p qW by (auto simp: may_request_def)
  show "fq fr2 = fq fr \<and> pq fr2 = pq fr \<and> frs fr2 = frs fr \<and> requested fr2 \<subseteq> requested fr \<union> W" using 1 2 by auto
  have "\<exists>ts. tq m1 = tq m @ ts \<and> set ts \<subseteq> read_tr ` W" using r hW may_request_tq by fastforce
  moreover have "\<exists>ts. tq m2 = tq m1 @ ts \<and> set ts \<subseteq> read_tr ` W" using p qW may_request_tq by fastforce
  ultimately obtain us vs where "tq m1 = tq m @ us" "tq m2 = tq m1 @ vs" "set us \<union> set vs \<subseteq> read_tr ` W" by blast
  then show "\<exists>ts. tq m2 = tq m @ ts \<and> set ts \<subseteq> read_tr ` W" by (intro exI [of _ "us @ vs"]) simp
  assume acc: "WillAcceptTransaction m"
  have h: "header G fr i \<notin> C \<and> header G fr i \<in> requested fr2" if "header_wait md fr i"
    using that r acc 2 by (auto simp: header_wait_def may_request_def)
  have q: "hd (fq fr ! i) \<notin> C \<and> hd (fq fr ! i) \<in> requested fr2" if "fq fr ! i \<noteq> []"
    using that p by (auto simp: may_request_def)
  have "pq_read_need (frs fr ! i) \<and> pq fr ! i = []" if "W = {}"
  proof -
    have "fq fr ! i = []" "\<not> header_wait md fr i" using that hW qW by auto
    with r acc show ?thesis by simp
  qed
  moreover have "W \<inter> C = {}" "W \<subseteq> requested fr2" using h q by (auto simp: W_def wanted_def split: if_splits)
  ultimately show "W \<inter> C = {} \<and> W \<subseteq> requested fr2 \<and> (W = {} \<longrightarrow> pq_read_need (frs fr ! i) \<and> pq fr ! i = [])" by blast
qed

text \<open>The parts of an engine step, seen from the work they leave.\<close>

lemma engine_step_work:
  fixes st :: "'d sim"
  assumes env: "env_ok md G" and i: "i < engines G" and inv: "sys_inv md G tw P st ws done" and step: "engine_step G i st = Inr st'"
  shows "steps_to md G P {i} st st' \<and> (work md G i st' = work md G i st \<longrightarrow> quiet_step md G i st st')"
proof -
  have E: "engine_env md G i" "layout_ok G" "engine_ok G i" "cache_ok (arch_info G)"
    using env i by (auto simp: env_ok_def engine_env_def Let_def)
  obtain trs ent out where L: "linked md G st trs ent out ws" using inv by (auto simp: sys_inv_def)
  have S: "fetch_inv G P (c_fr st, c_cah st, c_mem st)" "queues_ok G (c_fr st)" "length (rq (c_mem st)) = engines G"
    using inv by (auto simp: sys_inv_def)
  have wf: "cache_wf G (c_cah st)" using S(1) by (simp add: fetch_inv_def cache_wf_def)
  have Li: "i < length (c_gr st)" "i < length (c_si st)" "gr_run G i (c_gr st ! i) (c_mem st) (trs i)"
    "fr_run G md (c_fr st, c_cah st, c_mem st) ent out" using L i by (auto simp: linked_def)
  obtain ws' trs' ent' out' where L': "linked md G st' trs' ent' out' ws'"
    using engine_step_inv [OF env i inv] step by (auto simp: sys_inv_def)
  show ?thesis
  proof (rule engine_step_parts [OF env i L S], goal_cases)
    case (1 r1 tr1 r2 tr2 fr1 ent2 fr2 c2 x fr3 c3 s' ts1 t2 t3 t4 m1 m2 m3 m4)
    define r fr m s ci where "r = c_gr st ! i" and "fr = c_fr st" and "m = c_mem st" and "s = c_si st ! i" and "ci = col_idx G ! i"
    define p p' where "p = gr_pos ci r" and "p' = gr_pos ci r2"
    have st': "st' = \<lparr>c_mem = m4, c_cah = c3, c_gr = (c_gr st)[i := r2], c_si = (c_si st)[i := s'], c_fr = fr3\<rparr>"
      using step 1(24) by simp
    have at: "c_gr st' ! i = r2" "c_si st' ! i = s'" using Li by (simp_all add: st')
    have run: "gr_run G i r m (trs i)" using Li(3) by (simp add: r_def m_def)
    note K = graph_calls_kept(1) [OF E(1,2) i Li(3) S(3) 1(1), of P, folded r_def m_def]
      and K2 = graph_calls_kept(2) [OF E(1,2) i Li(3) S(3) 1(1), folded r_def m_def]
    have pos: "gr_pos ci r1 = p" using graph_calls_pos [OF E(1,2) i Li(3) S(3) 1(1)] by (simp add: ci_def p_def r_def)
    have ok: "fr_ok md G fr" "fr_ok md G fr1" "fr_ok md G fr2"
      using fr_run_inv [OF Li(4)] fr_run_inv [OF 1(7)] fr_run_inv [OF 1(10)] by (simp_all add: fr_def)
    note C = pass_call_left [OF E(1) i 1(2) ok(1) [unfolded fr_def] 1(5), folded fr_def ci_def, unfolded pos, folded p'_def]
    then have V: "req_view r2 = req_view r1" "live_view r2 = live_view r1" by blast+
    note N = ReadNext_left(1,2,5) [OF 1(9) ok(2) i wf, where p = p'] and N3 = ReadNext_left(3) [OF 1(9) ok(2) i wf]
      and N4 = ReadNext_left(4) [OF 1(9) ok(2) i wf]
    have wf2: "cache_wf G c2" "cached c2 = cached (c_cah st)" using N3 by (auto simp: looked_def)
    note Q1 = PassFtoSIMD_left(1) [OF 1(13) ok(3) i wf2(1), where p = p'] and Q = PassFtoSIMD_left(2-6) [OF 1(13) ok(3) i wf2(1)]
    have np: "left_pass md G i p' fr2 = left_pass md G i p' fr1" using ReadNext_spec [OF 1(9) ok(2) i] by (simp add: left_pass_def)
    have sp: "left_take G i p' fr3 = left_take G i p' fr2" "left_read md G i p' fr3 = left_read md G i p' fr2"
      using Q(2,3) by (simp_all add: left_take_def left_read_def)
    note W = SIMD_written [OF 1(20) linked_written(2,3) [OF L env i], folded s_def]
    have wr: "written s \<le> engine_writes G i" "written s' \<le> engine_writes G i"
      using linked_written(1,4) [OF L env i] linked_written(1,4) [OF L' env i] at by (simp_all add: s_def)
    have rows: "row_reqs G i r \<le> row_reqs G i r2" "col_reqs G i r \<le> col_reqs G i r2"
      using K gcn_views [OF V] by (auto simp: kept_def)
    have bnd: "row_reqs G i r2 \<le> nat (bf (arch_info G)) * lines_for (row_ptr G ! i)"
      "col_reqs G i r2 \<le> nat (bf (arch_info G)) * lines_for (col_idx G ! i)" "p' \<le> all_edges G i"
      using nat_bound [OF row_reqs_run(5) [OF E(1) 1(6)]] nat_bound [OF col_reqs_run(5) [OF E(1) 1(6)]] pos_le [OF E(3) 1(6)] E(3)
      by (simp_all add: p'_def ci_def engine_ok_def)
    have parts: "left_take G i p' fr3 \<le> left_take G i p fr" "left_read md G i p' fr3 \<le> left_read md G i p fr"
      "left_pass md G i p' fr3 + (if x = -1 then 0 else 1) = left_pass md G i p fr" "p \<le> p'"
      using C N(1,2) np sp Q1 by auto
    have all: "list_all2 (\<le>) (work_parts md G i r2 s' fr3) (work_parts md G i r s fr)"
      using parts rows W(1) by (auto simp: work_parts_def Let_def p_def p'_def ci_def intro: diff_le_mono2 split: if_splits)
    have work_i: "work md G i st = sum_list (work_parts md G i r s fr)" "work md G i st' = sum_list (work_parts md G i r2 s' fr3)"
      using at by (simp_all add: work_def r_def fr_def s_def) (simp add: st')
    have wle: "work md G i st' \<le> work md G i st" unfolding work_i by (rule sum_list_le(1) [OF all])
    have others: "c_gr st' ! j = c_gr st ! j" "work md G j st' = work md G j st" if "j \<noteq> i" for j
    proof -
      show g: "c_gr st' ! j = c_gr st ! j" using that by (simp add: st')
      have q: "pq fr3 ! j = pq fr ! j" "frs fr3 ! j = frs fr ! j" "fq fr3 ! j = fq fr ! j"
        using C N4 [OF that] Q(2,3) Q(4) [OF that] that by auto
      have "c_si st' ! j = c_si st ! j" "c_fr st' = fr3" using that by (simp_all add: st')
      with left_cong [OF q] g show "work md G j st' = work md G j st" by (simp add: work_def work_parts_def fr_def)
    qed
    have rq: "rq m4 = rq m1" "mem_fq m4 = mem_fq m" "cached c3 = cached (c_cah st)" "requested fr \<subseteq> requested fr3"
      using N3 Q(1) wf2 W(2,3) C 1(3) by (auto simp: looked_def mem_ext_def m_def)
    have ext: "mem_ext m1 m4 (t2 @ t3 @ t4)" "mem_ext m m4 (ts1 @ t2 @ t3 @ t4)"
      using mem_ext_trans [OF 1(11) mem_ext_trans [OF 1(16) 1(21)]] mem_ext_trans [OF 1(3)] by (simp_all add: m_def)
    have bal: "balance G P m4 j u t = balance G P m1 j u t" if "j < engines G" for j u t
      using 1(12,17,22) by (intro balance_ext [OF E(2) that ext(1) rq(1)]) auto
    have "balance G P m4 j (c_gr st' ! j) t = balance G P m j (c_gr st ! j) t" if "j < engines G" "t \<noteq> Empty" for j t
      using bal [OF that(1), of "c_gr st' ! j" t] K gcn_views(3) [OF V, of G P m1 i t] at others(1) that
      by (cases "j = i") (auto simp: kept_def r_def)
    moreover have "reci_over r \<longrightarrow> reci_over r2" using K gcn_views(4) [OF V] by (auto simp: kept_def)
    then have "reci_over (c_gr st ! j) \<longrightarrow> reci_over (c_gr st' ! j)" for j
      using at others(1) by (cases "j = i") (auto simp: r_def)
    moreover have "work md G j st' \<le> work md G j st" for j using wle others(2) by (cases "j = i") auto
    ultimately have "steps_to md G P {i} st st'"
      using rq ext(2) others unfolding steps_to_def by (auto simp: st' fr_def m_def mem_ext_def)
    moreover have "quiet_step md G i st st'" if q: "work md G i st' = work md G i st"
    proof -
      have "work_parts md G i r2 s' fr3 = work_parts md G i r s fr" by (rule sum_list_le(2) [OF all q [unfolded work_i]])
      then have e: "all_edges G i - p' = all_edges G i - p" "engine_writes G i - written s' = engine_writes G i - written s"
        "nat (bf (arch_info G)) * lines_for (row_ptr G ! i) - row_reqs G i r2 = nat (bf (arch_info G)) * lines_for (row_ptr G ! i) - row_reqs G i r"
        "nat (bf (arch_info G)) * lines_for (col_idx G ! i) - col_reqs G i r2 = nat (bf (arch_info G)) * lines_for (col_idx G ! i) - col_reqs G i r"
        "left_pass md G i p' fr3 = left_pass md G i p fr" "left_take G i p' fr3 = left_take G i p fr" "left_read md G i p' fr3 = left_read md G i p fr"
        by (simp_all add: work_parts_def Let_def p_def p'_def ci_def)
      have x: "x = -1" using e(5) parts(3) by (auto split: if_splits)
      have pp: "p' = p" using e(1) parts(4) bnd(3) by linarith
      have ww: "written s' = written s" using e(2) wr by linarith
      have rr: "row_reqs G i r1 = row_reqs G i r" "col_reqs G i r1 = col_reqs G i r"
        using e(3,4) rows bnd gcn_views(1,2) [OF V, of G i] by linarith+
      have f1: "fr1 = fr" and ov: "reci_over r1 \<longrightarrow> p = all_edges G i" using C pp by blast+
      note k2 = K2 [OF rr]
      have n5: "(fr2, m2) = (fr, m1) \<and> (256 \<le> length (fq fr ! i) \<or> \<not> WillAcceptTransaction m1 \<or> pq_read_need (frs fr ! i) \<and> pq fr ! i = []) \<or>
        header_wait md fr i \<and> header G fr i \<notin> cached (c_cah st) \<and> may_request fr m1 (header G fr i) fr2 m2"
        using N(3) e(6,7) sp C unfolding f1 may_request_def by auto
      then have f2: "fq fr2 = fq fr" by (auto simp: may_request_def)
      have q5: "fq fr ! i = [] \<and> (fr3, m3) = (fr2, m2) \<or> fq fr ! i \<noteq> [] \<and> hd (fq fr ! i) \<notin> cached (c_cah st) \<and>
          may_request fr2 m2 (hd (fq fr ! i)) fr3 m3"
        using Q(5) [OF x] unfolding f2 wf2(2) may_request_def by auto
      note w4 = W(4) [OF x ww] and qc = quiet_calls [OF n5 q5]
      obtain ts where ts: "tq m4 = tq m @ ts" "set ts \<subseteq> read_tr ` wanted md G fr i" using qc(2) k2 w4 by auto
      have "ts1 = []" "ts = t2 @ t3" using ts(1) k2 w4 1(3,11,16) by (simp_all add: mem_ext_def m_def)
      then have "\<forall>t \<in> set ts. xw_ele_addr_start (arch_info G) \<le> address t" using 1(12,17) by auto
      with ts have tq: "\<exists>ts. tq m4 = tq m @ ts \<and> set ts \<subseteq> reads_of G (wanted md G fr i)"
        by (fastforce simp: reads_of_def read_tr_def)
      then have ml: "length (tq m) \<le> length (tq m4)" by auto
      have full: "v_req_over r2 \<and> e_req_over r2 \<and> wq s = [] \<and> wanted md G fr i \<inter> cached (c_cah st) = {} \<and> wanted md G fr i \<subseteq> requested fr3 \<and>
          (wanted md G fr i = {} \<longrightarrow> pq_read_need (frs fr ! i) \<and> pq fr ! i = [])" if a: "length (tq m4) < REQUEST_LIMIT"
      proof -
        have acc: "WillAcceptTransaction m" "WillAcceptTransaction m1" "WillAcceptTransaction m3"
          using a ml k2 w4 by (simp_all add: WillAcceptTransaction_def)
        from qc(3) [OF acc(2)] k2 acc w4 gcn_views(5,6) [OF V] show ?thesis by simp
      qed
      have rq4: "rq m4 = (if reci_over r then rq m else (rq m)[i := tl (rq m ! i)])" using rq(1) k2 by simp
      have si: "c_si st' = c_si st" using w4 Li(2) by (simp add: st' s_def)
      have "reci_over r2 \<longrightarrow> p = all_edges G i" using ov gcn_views(4) [OF V] by simp
      then show ?thesis using qc(1) tq full rq4 si pp at unfolding quiet_step_def engine_quiet_def Let_def
        by (simp add: st' fr_def [symmetric] m_def [symmetric] r_def [symmetric] s_def [symmetric] ci_def [symmetric] p_def [symmetric] p'_def [symmetric])
    qed
    ultimately show ?thesis by blast
  qed
qed

section \<open>The engine steps of a cycle\<close>

definition all_wanted :: "F_MODE \<Rightarrow> sim_env \<Rightarrow> feature_reader \<Rightarrow> nat \<Rightarrow> u64 set" where
  "all_wanted md G fr n = (\<Union>j < n. wanted md G fr j)"

text \<open>A cycle in which the first \<open>n\<close> engines have made quiet steps.\<close>

definition quiet_steps :: "F_MODE \<Rightarrow> sim_env \<Rightarrow> nat \<Rightarrow> 'd sim \<Rightarrow> 'd sim \<Rightarrow> bool" where
  "quiet_steps md G n st st' \<longleftrightarrow> (let fr = c_fr st; fr' = c_fr st'; m = c_mem st; m' = c_mem st' in
     fq fr' = fq fr \<and> pq fr' = pq fr \<and> frs fr' = frs fr \<and> requested fr' \<subseteq> requested fr \<union> all_wanted md G fr n \<and>
     (\<exists>ts. tq m' = tq m @ ts \<and> set ts \<subseteq> reads_of G (all_wanted md G fr n)) \<and> c_si st' = c_si st \<and>
     (\<forall>j < engines G. rq m' ! j = (if reci_over (c_gr st ! j) \<or> n \<le> j then rq m ! j else tl (rq m ! j))) \<and>
     (\<forall>j < n. engine_quiet md G st st' j))"

lemma wanted_cong:
  assumes "fq fr' = fq fr" and "frs fr' = frs fr"
  shows "wanted md G fr' j = wanted md G fr j"
proof -
  have "header_wait md fr' j = header_wait md fr j" "header G fr' j = header G fr j"
    using assms by (simp_all add: header_wait_def header_def)
  then show ?thesis using assms(1) by (simp add: wanted_def)
qed

lemma all_wanted_cong: "fq fr' = fq fr \<Longrightarrow> frs fr' = frs fr \<Longrightarrow> all_wanted md G fr' n = all_wanted md G fr n"
  unfolding all_wanted_def by (intro SUP_cong refl wanted_cong)

lemma all_wanted_Suc: "all_wanted md G fr (Suc n) = all_wanted md G fr n \<union> wanted md G fr n"
  by (auto simp: all_wanted_def less_Suc_eq)

lemma engine_quiet_end:
  "engine_quiet md G st st1 j \<Longrightarrow> c_gr st2 ! j = c_gr st1 ! j \<Longrightarrow> requested (c_fr st1) \<subseteq> requested (c_fr st2) \<Longrightarrow>
   tq (c_mem st2) = tq (c_mem st1) @ us \<Longrightarrow> engine_quiet md G st st2 j"
  unfolding engine_quiet_def Let_def by auto

lemma engine_quiet_start:
  assumes "engine_quiet md G st1 st2 j" and "fq (c_fr st1) = fq (c_fr st)" "frs (c_fr st1) = frs (c_fr st)" "pq (c_fr st1) = pq (c_fr st)"
    and "c_si st1 = c_si st" "c_gr st1 ! j = c_gr st ! j" "cached (c_cah st1) = cached (c_cah st)"
  shows "engine_quiet md G st st2 j"
  using assms(1) unfolding engine_quiet_def Let_def wanted_cong [OF assms(2,3)] assms(3-7) .

lemma steps_to_others:
  "steps_to md G P I st st' \<Longrightarrow> j < engines G \<Longrightarrow> j \<notin> I \<Longrightarrow> work md G j st' = work md G j st \<and> c_gr st' ! j = c_gr st ! j"
  by (simp add: steps_to_def)

lemma quiet_steps_Suc:
  assumes q: "quiet_steps md G n st st1" and s: "quiet_step md G n st1 st2" and t: "steps_to md G P {..<n} st st1"
    "steps_to md G P {n} st1 st2" and n: "n < engines G" and rq: "length (rq (c_mem st1)) = engines G"
  shows "quiet_steps md G (Suc n) st st2"
proof -
  note Q = q [unfolded quiet_steps_def Let_def] and S = s [unfolded quiet_step_def Let_def]
    and T1 = t(1) [unfolded steps_to_def] and T2 = t(2) [unfolded steps_to_def]
  have fr: "fq (c_fr st1) = fq (c_fr st)" "frs (c_fr st1) = frs (c_fr st)" "pq (c_fr st1) = pq (c_fr st)" "c_si st1 = c_si st"
    using Q by blast+
  note w = wanted_cong [OF fr(1,2), of md G]
  obtain ts us where tq: "tq (c_mem st1) = tq (c_mem st) @ ts" "set ts \<subseteq> reads_of G (all_wanted md G (c_fr st) n)"
    "tq (c_mem st2) = tq (c_mem st1) @ us" "set us \<subseteq> reads_of G (wanted md G (c_fr st) n)"
    using Q S unfolding w by blast
  have tq2: "\<exists>ts. tq (c_mem st2) = tq (c_mem st) @ ts \<and> set ts \<subseteq> reads_of G (all_wanted md G (c_fr st) (Suc n))"
    using tq by (intro exI [of _ "ts @ us"]) (auto simp: all_wanted_Suc reads_of_def)
  have same: "c_gr st2 ! j = c_gr st1 ! j" if "j < n" for j using T2 that n by auto
  have same': "c_gr st1 ! n = c_gr st ! n" using T1 n by auto
  have req: "requested (c_fr st1) \<subseteq> requested (c_fr st2)" "cached (c_cah st1) = cached (c_cah st)" using T1 T2 by blast+
  have r: "rq (c_mem st2) ! j = (if reci_over (c_gr st ! j) \<or> Suc n \<le> j then rq (c_mem st) ! j else tl (rq (c_mem st) ! j))"
    if "j < engines G" for j
  proof (cases "j = n")
    case True
    have "rq (c_mem st1) ! n = rq (c_mem st) ! n" using Q n by simp
    with S rq n same' True show ?thesis by simp
  next
    case False
    then have "rq (c_mem st2) ! j = rq (c_mem st1) ! j" using S by simp
    with Q that False show ?thesis by (simp add: Suc_le_eq le_less)
  qed
  have j: "engine_quiet md G st st2 j" if "j < Suc n" for j
  proof (cases "j = n")
    case True
    with S same' fr req show ?thesis using engine_quiet_start by blast
  next
    case False
    then have "j < n" using that by simp
    with Q same [OF this] req(1) tq(3) show ?thesis using engine_quiet_end by blast
  qed
  have "requested (c_fr st2) \<subseteq> requested (c_fr st) \<union> all_wanted md G (c_fr st) (Suc n)"
    using Q S unfolding w all_wanted_Suc by blast
  then show ?thesis unfolding quiet_steps_def Let_def using S fr tq2 r j by simp
qed

lemma engine_steps_work:
  fixes st :: "'d sim"
  assumes env: "env_ok md G" and inv: "sys_inv md G tw P st ws done" and n: "n \<le> engines G"
    and "res_fold (engine_step G) [0..<n] st = Inr st'"
  shows "(\<exists>ws'. sys_inv md G tw P st' ws' done) \<and> steps_to md G P {..<n} st st' \<and>
    ((\<forall>j < n. work md G j st' = work md G j st) \<longrightarrow> quiet_steps md G n st st')"
  using assms(3,4)
proof (induction n arbitrary: st')
  case 0
  then show ?case using inv by (auto simp: steps_to_refl quiet_steps_def all_wanted_def)
next
  case (Suc n)
  then obtain st1 where 1: "res_fold (engine_step G) [0..<n] st = Inr st1" "engine_step G n st1 = Inr st'"
    by (auto simp: res_fold_append)
  from Suc.IH [OF _ 1(1)] Suc.prems obtain ws1 where
    2: "sys_inv md G tw P st1 ws1 done" "steps_to md G P {..<n} st st1"
      "(\<forall>j < n. work md G j st1 = work md G j st) \<Longrightarrow> quiet_steps md G n st st1" by auto
  have n: "n < engines G" using Suc.prems by simp
  note 3 = engine_step_work [OF env n 2(1) 1(2)]
  have "\<exists>ws'. sys_inv md G tw P st' ws' done" using engine_step_inv [OF env n 2(1)] 1(2) by auto
  moreover have "steps_to md G P {..<Suc n} st st'"
    using steps_to_trans [OF 2(2) conjunct1 [OF 3]] by (simp add: lessThan_Suc)
  moreover have "quiet_steps md G (Suc n) st st'" if q: "\<forall>j < Suc n. work md G j st' = work md G j st"
  proof -
    have "work md G j st1 = work md G j st" if "j < n" for j
      using steps_to_others [OF conjunct1 [OF 3], of j] q that n by simp
    moreover have "work md G n st' = work md G n st1" using q steps_to_others [OF 2(2) n] by simp
    moreover have "length (rq (c_mem st1)) = engines G" using 2(1) by (simp add: sys_inv_def)
    ultimately show ?thesis using quiet_steps_Suc [OF _ _ 2(2) _ n] 2(3) 3 by blast
  qed
  ultimately show ?case by blast
qed

end
