(* ===== verification/Memory_Live.thy ===== *)
theory Memory_Live
  imports Feature_Fetch
begin

text \<open>
  Liveness of the memory: a DRAM simulator that answers every accepted transaction after a bounded
  number of ticks, and accepts when nothing is pending (locale \<open>dram_live\<close>). Then every transaction in
  the queue in front of it is eventually completed, whatever is added behind it.
\<close>

section \<open>The contract\<close>

text \<open>\<open>wait d t\<close> bounds the ticks until a pending transaction \<open>t\<close> is completed.\<close>

locale dram_live = dram_contract D pending inv
  for D :: "'d dram_ops" and pending :: "'d \<Rightarrow> (u64 \<times> bool) multiset" and inv :: "'d \<Rightarrow> bool" +
  fixes wait :: "'d \<Rightarrow> u64 \<times> bool \<Rightarrow> nat"
  assumes wait_tick: "inv d \<Longrightarrow> d_tick D d = Inr (d', evs) \<Longrightarrow> t \<in># pending d \<Longrightarrow>
      t \<in> set evs \<or> t \<in># pending d' \<and> wait d' t < wait d t"
    and wait_add: "inv d \<Longrightarrow> d_accept D d a w = Inr True \<Longrightarrow> d_add D d a w = Inr d' \<Longrightarrow> t \<in># pending d \<Longrightarrow>
      wait d' t \<le> wait d t"
    and accept_empty: "inv d \<Longrightarrow> pending d = {#} \<Longrightarrow> d_accept D d a w = Inr True"
begin

text \<open>One cycle of the memory: \<open>new\<close> transactions are queued, the queue is consumed, the clock ticks.\<close>

definition mem_round :: "'d \<Rightarrow> Transaction list \<Rightarrow> Transaction list \<Rightarrow> 'd \<Rightarrow> Transaction list \<Rightarrow> (u64 \<times> bool) list \<Rightarrow> bool" where
  "mem_round d q new d' q' evs \<longleftrightarrow> (\<exists>d2. consume_loop D d (q @ new) = Inr (d2, q') \<and> d_tick D d2 = Inr (d', evs))"

lemma consume_wait:
  "consume_loop D d ts = Inr (d', ts') \<Longrightarrow> inv d \<Longrightarrow> t \<in># pending d \<Longrightarrow> t \<in># pending d' \<and> wait d' t \<le> wait d t"
proof (induction ts arbitrary: d)
  case (Cons u us)
  show ?case
  proof (cases "d_accept D d (address u) (is_write u) = Inr True")
    case True
    from add_spec [OF Cons.prems(2) this] obtain d1 where
      d1: "d_add D d (address u) (is_write u) = Inr d1" "inv d1" "pending d1 = add_mset (address u, is_write u) (pending d)" by blast
    have "t \<in># pending d' \<and> wait d' t \<le> wait d1 t" using Cons.IH [of d1] Cons.prems(1,3) True d1 by simp
    with wait_add [OF Cons.prems(2) True d1(1) Cons.prems(3)] show ?thesis by auto
  next
    case False
    with accept_spec [OF Cons.prems(2), of "address u" "is_write u"] Cons.prems show ?thesis by auto
  qed
qed simp

lemma round_cases:
  assumes "mem_round d q new d' q' evs" and "inv d"
  shows "\<exists>m \<le> length (q @ new). q' = drop m (q @ new) \<and> inv d' \<and>
    pending d' + mset evs = pending d + mset (map trans_of (take m (q @ new))) \<and>
    (\<forall>t \<in># pending d. t \<in> set evs \<or> t \<in># pending d' \<and> wait d' t < wait d t) \<and>
    (pending d = {#} \<and> q \<noteq> [] \<longrightarrow> 0 < m)"
proof -
  have tr: "trans_of = (\<lambda>t. (address t, is_write t))" by (auto simp: trans_of_def)
  from assms(1) obtain d2 where d2: "consume_loop D d (q @ new) = Inr (d2, q')" "d_tick D d2 = Inr (d', evs)"
    unfolding mem_round_def by blast
  from consume_loop_spec [OF assms(2), of "q @ new"] d2(1) obtain m where
    m: "q' = drop m (q @ new)" "m \<le> length (q @ new)" "inv d2" "pending d2 = pending d + mset (map trans_of (take m (q @ new)))"
      "m < length (q @ new) \<Longrightarrow> d_accept D d2 (address ((q @ new) ! m)) (is_write ((q @ new) ! m)) = Inr False"
    by (auto simp: tr)
  have "inv d'" "pending d2 = pending d' + mset evs" using tick_spec [OF m(3)] d2(2) by auto
  moreover have "t \<in> set evs \<or> t \<in># pending d' \<and> wait d' t < wait d t" if "t \<in># pending d" for t
    using consume_wait [OF d2(1) assms(2) that] wait_tick [OF m(3) d2(2), of t] by auto
  moreover have "0 < m" if "pending d = {#}" "q \<noteq> []"
  proof (rule ccontr)
    assume "\<not> 0 < m"
    then have "pending d2 = {#}" using m(4) that(1) by simp
    from accept_empty [OF m(3) this] m(5) that(2) \<open>\<not> 0 < m\<close> show False by simp
  qed
  ultimately show ?thesis using m by (intro exI [of _ m]) auto
qed

end

section \<open>Runs\<close>

text \<open>An infinite run of the memory.\<close>

definition mem_run :: "('d \<Rightarrow> Transaction list \<Rightarrow> Transaction list \<Rightarrow> 'd \<Rightarrow> Transaction list \<Rightarrow> (u64 \<times> bool) list \<Rightarrow> bool) \<Rightarrow>
    (nat \<Rightarrow> 'd) \<Rightarrow> (nat \<Rightarrow> Transaction list) \<Rightarrow> (nat \<Rightarrow> Transaction list) \<Rightarrow> (nat \<Rightarrow> (u64 \<times> bool) list) \<Rightarrow> bool" where
  "mem_run rnd d q new evs \<longleftrightarrow> (\<forall>n. rnd (d n) (q n) (new n) (d (Suc n)) (q (Suc n)) (evs n))"

context dram_live
begin

lemma run_inv:
  assumes "mem_run mem_round d q new evs" and "inv (d 0)"
  shows "inv (d n)"
proof (induction n)
  case (Suc n)
  from assms(1) have "mem_round (d n) (q n) (new n) (d (Suc n)) (q (Suc n)) (evs n)" by (simp add: mem_run_def)
  from round_cases [OF this Suc] show ?case by blast
qed (rule assms(2))

lemma round_at:
  assumes "mem_run mem_round d q new evs" and "inv (d 0)"
  obtains m where "m \<le> length (q n @ new n)" "q (Suc n) = drop m (q n @ new n)"
    "pending (d (Suc n)) + mset (evs n) = pending (d n) + mset (map trans_of (take m (q n @ new n)))"
    "\<And>t. t \<in># pending (d n) \<Longrightarrow> t \<in> set (evs n) \<or> t \<in># pending (d (Suc n)) \<and> wait (d (Suc n)) t < wait (d n) t"
    "pending (d n) = {#} \<Longrightarrow> q n \<noteq> [] \<Longrightarrow> 0 < m"
proof -
  from assms(1) have "mem_round (d n) (q n) (new n) (d (Suc n)) (q (Suc n)) (evs n)" by (simp add: mem_run_def)
  from round_cases [OF this run_inv [OF assms]] show ?thesis using that by blast
qed

lemma pending_completed:
  assumes run: "mem_run mem_round d q new evs" "inv (d 0)" and "t \<in># pending (d n)"
  shows "\<exists>k \<ge> n. t \<in> set (evs k)"
  using assms(3)
proof (induction "wait (d n) t" arbitrary: n rule: less_induct)
  case less
  from run obtain m where "t \<in> set (evs n) \<or> t \<in># pending (d (Suc n)) \<and> wait (d (Suc n)) t < wait (d n) t"
    using round_at [of d q new evs n] less.prems by metis
  then show ?case
  proof
    assume "t \<in># pending (d (Suc n)) \<and> wait (d (Suc n)) t < wait (d n) t"
    with less.hyps [of "Suc n"] obtain k where "Suc n \<le> k" "t \<in> set (evs k)" by blast
    then show ?thesis using Suc_leD by blast
  qed blast
qed

text \<open>How many transactions of the queue the DRAM simulator takes in a cycle.\<close>

definition taken :: "(nat \<Rightarrow> Transaction list) \<Rightarrow> (nat \<Rightarrow> Transaction list) \<Rightarrow> nat \<Rightarrow> nat" where
  "taken q new n = length (q n @ new n) - length (q (Suc n))"

lemma taken_at:
  assumes "mem_run mem_round d q new evs" and "inv (d 0)"
  shows "q (Suc n) = drop (taken q new n) (q n @ new n)"
    and "pending (d (Suc n)) + mset (evs n) = pending (d n) + mset (map trans_of (take (taken q new n) (q n @ new n)))"
    and "pending (d n) = {#} \<Longrightarrow> q n \<noteq> [] \<Longrightarrow> 0 < taken q new n"
proof -
  obtain m where m: "m \<le> length (q n @ new n)" "q (Suc n) = drop m (q n @ new n)"
    "pending (d (Suc n)) + mset (evs n) = pending (d n) + mset (map trans_of (take m (q n @ new n)))"
    "pending (d n) = {#} \<Longrightarrow> q n \<noteq> [] \<Longrightarrow> 0 < m" by (rule round_at [OF assms]) blast
  then have "taken q new n = m" by (simp add: taken_def)
  with m show "q (Suc n) = drop (taken q new n) (q n @ new n)"
    "pending (d (Suc n)) + mset (evs n) = pending (d n) + mset (map trans_of (take (taken q new n) (q n @ new n)))"
    "pending (d n) = {#} \<Longrightarrow> q n \<noteq> [] \<Longrightarrow> 0 < taken q new n" by simp_all
qed

lemma queue_moves:
  assumes run: "mem_run mem_round d q new evs" "inv (d 0)" and "q n \<noteq> []"
  shows "\<exists>k \<ge> n. 0 < taken q new k"
proof (rule ccontr)
  assume "\<not> ?thesis"
  then have stuck: "taken q new k = 0" if "n \<le> k" for k using that by auto
  have step: "q (Suc k) = q k @ new k" "pending (d (Suc k)) + mset (evs k) = pending (d k)" if "n \<le> k" for k
    using taken_at(1,2) [OF run, of k] stuck [OF that] by simp_all
  have "False" if "n \<le> k" "q k \<noteq> []" for k
    using that
  proof (induction "size (pending (d k))" arbitrary: k rule: less_induct)
    case less
    have "pending (d k) \<noteq> {#}" using taken_at(3) [OF run, of k] stuck [OF less.prems(1)] less.prems(2) by auto
    then obtain t where "t \<in># pending (d k)" by blast
    from pending_completed [OF run this] obtain l where l: "k \<le> l" "t \<in> set (evs l)" by blast
    have le: "size (pending (d j)) \<le> size (pending (d k)) \<and> q j \<noteq> []" if "k \<le> j" for j
      using that
    proof (induction j rule: nat_induct_at_least)
      case (Suc j)
      have "size (pending (d (Suc j))) + length (evs j) = size (pending (d j))"
        using arg_cong [OF step(2) [of j], of size] Suc.hyps less.prems(1) by simp
      with Suc step(1) [of j] less.prems(1) show ?case by simp
    qed (use less.prems in simp)
    have "size (pending (d (Suc l))) + length (evs l) = size (pending (d l))"
      using arg_cong [OF step(2) [of l], of size] l(1) less.prems(1) by simp
    moreover have "0 < length (evs l)" using l(2) by auto
    ultimately have "size (pending (d (Suc l))) < size (pending (d k))" using le [OF l(1), THEN conjunct1] by linarith
    from less.hyps [OF this] le [of "Suc l"] l(1) less.prems(1) show False by simp
  qed
  with assms(3) show False by blast
qed

text \<open>Every queued transaction is completed.\<close>

lemma queued_completed:
  assumes run: "mem_run mem_round d q new evs" "inv (d 0)" and "j < length (q n)"
  shows "\<exists>k \<ge> n. trans_of (q n ! j) \<in> set (evs k)"
  using assms(3)
proof (induction j arbitrary: n rule: less_induct)
  case (less j)
  define k where "k = (LEAST k. n \<le> k \<and> 0 < taken q new k)"
  have "q n \<noteq> []" using less.prems by auto
  then have "\<exists>k. n \<le> k \<and> 0 < taken q new k" using queue_moves [OF run] by blast
  from LeastI_ex [OF this] have k: "n \<le> k" "0 < taken q new k" unfolding k_def by blast+
  have z: "taken q new l = 0" if "n \<le> l" "l < k" for l
    using not_less_Least [OF that(2) [unfolded k_def]] that(1) by simp
  have "\<exists>us. q l = q n @ us" if "n \<le> l" "l \<le> k" for l
    using that
  proof (induction l rule: nat_induct_at_least)
    case (Suc l)
    then obtain us where "q l = q n @ us" by auto
    moreover have "q (Suc l) = q l @ new l" using taken_at(1) [OF run, of l] z [of l] Suc.hyps Suc.prems by simp
    ultimately show ?case by simp
  qed simp
  then obtain us where us: "q k = q n @ us" using k(1) by blast
  let ?t = "q n ! j"
  have t: "(q k @ new k) ! j = ?t" "j < length (q k @ new k)" using less.prems by (simp_all add: us nth_append)
  show ?case
  proof (cases "j < taken q new k")
    case True
    then have "?t \<in> set (take (taken q new k) (q k @ new k))" using t by (metis in_set_conv_nth length_take min_less_iff_conj nth_take)
    then have "trans_of ?t \<in># pending (d k) + mset (map trans_of (take (taken q new k) (q k @ new k)))" by auto
    then have "trans_of ?t \<in># pending (d (Suc k)) + mset (evs k)" unfolding taken_at(2) [OF run, of k] .
    then have "trans_of ?t \<in> set (evs k) \<or> trans_of ?t \<in># pending (d (Suc k))" by auto
    then show ?thesis
    proof
      assume "trans_of ?t \<in># pending (d (Suc k))"
      from pending_completed [OF run this] obtain l where "Suc k \<le> l" "trans_of ?t \<in> set (evs l)" by blast
      then show ?thesis using k(1) by (intro exI [of _ l]) simp
    qed (use k(1) in blast)
  next
    case False
    have "q (Suc k) ! (j - taken q new k) = ?t" "j - taken q new k < length (q (Suc k))"
      using t False unfolding taken_at(1) [OF run, of k] by (simp_all del: drop_append)
    moreover have "j - taken q new k < j" using False k(2) by simp
    ultimately obtain l where "Suc k \<le> l" "trans_of ?t \<in> set (evs l)" using less.IH by metis
    then show ?thesis using k(1) by (intro exI [of _ l]) simp
  qed
qed

lemma completed:
  assumes run: "mem_run mem_round d q new evs" "inv (d 0)" and t: "t \<in># pending (d n) + mset (map trans_of (q n))"
  shows "\<exists>k \<ge> n. t \<in> set (evs k)"
proof (cases "t \<in># pending (d n)")
  case False
  with t have "t \<in> set (map trans_of (q n))" by (simp only: union_iff in_multiset_in_set simp_thms)
  then obtain j where "j < length (q n)" "t = trans_of (q n ! j)" by (auto simp: in_set_conv_nth)
  with queued_completed [OF run] show ?thesis by blast
qed (rule pending_completed [OF run])

end

end
