(* ===== verification/Sim_Live.thy ===== *)
theory Sim_Live
  imports Sim_Quiet Memory_Live
begin

text \<open>
  The main loop comes to its end: on a memory that answers every transaction (locale \<open>dram_live\<close>) a run
  of cycles cannot go on without completing work, so after finitely many cycles every output line has
  been written. The argument: the work left never grows, so from some cycle on it stays as it is; then
  only lines the engines wait for are requested, all other transactions come back, the queue has room,
  and a line that comes back is cached at the start of the next cycle and lets the engine that waits for
  it go on; so no engine waits, and all the work is done.
\<close>

section \<open>Sequences of natural numbers\<close>

lemma nat_seq_const:
  fixes f :: "nat \<Rightarrow> nat"
  assumes "\<And>n. N \<le> n \<Longrightarrow> f (Suc n) \<le> f n"
  shows "\<exists>M \<ge> N. \<forall>n \<ge> M. f n = f M"
proof -
  define b where "b = (LEAST x. \<exists>n \<ge> N. f n = x)"
  have "\<exists>n \<ge> N. f n = b" unfolding b_def by (rule LeastI_ex) blast
  then obtain M where M: "N \<le> M" "f M = b" by blast
  have "f n \<le> f M" if "M \<le> n" for n
    using that
  proof (induction n rule: nat_induct_at_least)
    case (Suc n)
    then show ?case using assms [of n] M(1) by simp
  qed simp
  moreover have "b \<le> f n" if "M \<le> n" for n
    unfolding b_def using that M(1) by (intro Least_le exI [of _ n]) simp
  ultimately show ?thesis using M by (auto intro!: exI [of _ M] antisym)
qed

lemma nat_seq_zero:
  fixes f :: "nat \<Rightarrow> nat"
  assumes "\<And>n. N \<le> n \<Longrightarrow> f (Suc n) \<le> f n" and "\<And>n. N \<le> n \<Longrightarrow> 0 < f n \<Longrightarrow> \<exists>k \<ge> n. f (Suc k) < f k"
  shows "\<exists>M \<ge> N. \<forall>n \<ge> M. f n = 0"
proof -
  from nat_seq_const [of N f, OF assms(1)] obtain M where M: "N \<le> M" "\<And>n. M \<le> n \<Longrightarrow> f n = f M" by blast
  have "f M = 0"
  proof (rule ccontr)
    assume "f M \<noteq> 0"
    with assms(2) [of M] M(1) obtain k where "M \<le> k" "f (Suc k) < f k" by blast
    with M(2) [of k] M(2) [of "Suc k"] show False by simp
  qed
  with M show ?thesis by auto
qed

section \<open>Runs of the simulator\<close>

context dram_live
begin

abbreviation way :: "'d sim \<Rightarrow> (u64 \<times> bool) multiset" where
  "way st \<equiv> on_way (pending (dram (c_mem st))) (c_mem st)"

definition good :: "F_MODE \<Rightarrow> sim_env \<Rightarrow> u64 \<Rightarrow> 'd sim \<Rightarrow> bool" where
  "good md G tw st \<longleftrightarrow> inv (dram (c_mem st)) \<and> (\<exists>ws done. sys_inv md G tw (pending (dram (c_mem st))) st ws done) \<and>
     (\<forall>j < engines G. \<forall>t. t \<noteq> Empty \<longrightarrow> balance G (pending (dram (c_mem st))) (c_mem st) j (c_gr st ! j) t = 0)"

text \<open>A cycle, with the state \<open>st1\<close> before its end and the completions \<open>evs\<close>.\<close>

definition one_cycle :: "F_MODE \<Rightarrow> sim_env \<Rightarrow> 'd sim \<Rightarrow> 'd sim \<Rightarrow> 'd sim \<Rightarrow> (u64 \<times> bool) list \<Rightarrow> bool" where
  "one_cycle md G st st1 st2 evs \<longleftrightarrow> cycle_step G D st = Inr st2 \<and>
     steps_to md G (pending (dram (c_mem st))) {..<engines G} st st1 \<and>
     ((\<forall>j < engines G. work md G j st1 = work md G j st) \<longrightarrow> quiet_steps md G (engines G) st st1) \<and>
     end_of_cycle G evs st1 st2 \<and> way st1 = way st2 + mset evs \<and>
     mem_round (dram (c_mem st)) (tq (c_mem st)) (drop (length (tq (c_mem st))) (tq (c_mem st1))) (dram (c_mem st2)) (tq (c_mem st2)) evs"

lemma good_cycle:
  assumes env: "env_ok md G" and g: "good md G tw st"
  shows "\<exists>st1 st2 evs. one_cycle md G st st1 st2 evs \<and> good md G tw st1 \<and> good md G tw st2"
proof -
  let ?P = "pending (dram (c_mem st))"
  obtain ws "done" where s: "sys_inv md G tw ?P st ws done" and d: "inv (dram (c_mem st))"
    and b: "\<forall>j < engines G. \<forall>t. t \<noteq> Empty \<longrightarrow> balance G ?P (c_mem st) j (c_gr st ! j) t = 0"
    using g by (auto simp: good_def)
  from cycle_step_inv [OF env s d] obtain st0 where "cycle_step G D st = Inr st0" by blast
  then obtain st1 where f: "res_fold (engine_step G) [0..<engines G] st = Inr st1" by (auto simp: cycle_step_def)
  note W = engine_steps_work [OF env s le_refl f]
  then obtain ws1 where s1: "sys_inv md G tw ?P st1 ws1 done" and t: "steps_to md G ?P {..<engines G} st st1" by blast
  have dr: "dram (c_mem st1) = dram (c_mem st)" using t by (simp add: steps_to_def)
  obtain ts where tq: "tq (c_mem st1) = tq (c_mem st) @ ts" using t by (auto simp: steps_to_def)
  from cycle_end_parts [OF env, of tw st1 ws1 "done"] s1 d obtain st2 done' d2 evs where
    e: "cycle_end G D st1 = Inr st2" "inv (dram (c_mem st2))" "sys_inv md G tw (pending (dram (c_mem st2))) st2 ws1 done'"
      "end_of_cycle G evs st1 st2" "way st1 = way st2 + mset evs"
      "consume_loop D (dram (c_mem st)) (tq (c_mem st1)) = Inr (d2, tq (c_mem st2))" "d_tick D d2 = Inr (dram (c_mem st2), evs)"
    unfolding dr by blast
  have b1: "balance G ?P (c_mem st1) j (c_gr st1 ! j) u = 0" if "j < engines G" "u \<noteq> Empty" for j u
    using t b that by (simp add: steps_to_def)
  have b2: "balance G (pending (dram (c_mem st2))) (c_mem st2) j (c_gr st2 ! j) u = 0" if "j < engines G" "u \<noteq> Empty" for j u
    using b1 [OF that] e(4,5) that(1) by (simp add: balance_def end_of_cycle_def dr lines_way_union Let_def)
  have "one_cycle md G st st1 st2 evs"
    unfolding one_cycle_def using W e t f tq by (auto simp: cycle_step_def mem_round_def)
  moreover have "good md G tw st1" using s1 d b1 by (auto simp: good_def dr)
  moreover have "good md G tw st2" using e(2,3) b2 by (auto simp: good_def)
  ultimately show ?thesis by blast
qed

definition live_run :: "F_MODE \<Rightarrow> sim_env \<Rightarrow> u64 \<Rightarrow> (nat \<Rightarrow> 'd sim) \<Rightarrow> (nat \<Rightarrow> 'd sim) \<Rightarrow> (nat \<Rightarrow> (u64 \<times> bool) list) \<Rightarrow> bool" where
  "live_run md G tw S T E \<longleftrightarrow> (\<forall>n. good md G tw (S n) \<and> good md G tw (T n) \<and> one_cycle md G (S n) (T n) (S (Suc n)) (E n))"

lemma live_run_exists:
  assumes env: "env_ok md G" and g: "good md G tw st"
  shows "\<exists>S T E. S 0 = st \<and> live_run md G tw S T E"
proof -
  let ?Q = "\<lambda>st st2. \<exists>st1 evs. one_cycle md G st st1 st2 evs \<and> good md G tw st1"
  have "\<exists>S. \<forall>n. (good md G tw (S n) \<and> (n = 0 \<longrightarrow> S n = st)) \<and> ?Q (S n) (S (Suc n))"
  proof (rule dependent_nat_choice)
    show "\<exists>x. good md G tw x \<and> (0 = 0 \<longrightarrow> x = st)" using g by auto
    fix x and n :: nat
    assume "good md G tw x \<and> (n = 0 \<longrightarrow> x = st)"
    then show "\<exists>y. (good md G tw y \<and> (Suc n = 0 \<longrightarrow> y = st)) \<and> ?Q x y" using good_cycle [OF env, of tw x] by auto
  qed
  then obtain S where S: "\<And>n. good md G tw (S n)" "S 0 = st" "\<And>n. ?Q (S n) (S (Suc n))" by blast
  from S(3) obtain T E where "\<And>n. one_cycle md G (S n) (T n) (S (Suc n)) (E n) \<and> good md G tw (T n)" by metis
  with S(1) have "live_run md G tw S T E" by (simp add: live_run_def)
  with S(2) show ?thesis by blast
qed

end

section \<open>The quiet end of a run\<close>

lemma work_end: "end_of_cycle G evs st st' \<Longrightarrow> work md G j st' = work md G j st"
  using left_cong [of "c_fr st'" j "c_fr st"] by (simp add: end_of_cycle_def work_def work_parts_def Let_def)

text \<open>Transactions other than reads of the lines in \<open>W\<close>.\<close>

definition strange :: "sim_env \<Rightarrow> u64 set \<Rightarrow> u64 \<times> bool \<Rightarrow> bool" where
  "strange G W e \<longleftrightarrow> snd e \<or> fst e \<notin> W \<or> fst e < xw_ele_addr_start (arch_info G)"

lemma reads_of_strange: "t \<in> reads_of G W \<Longrightarrow> \<not> strange G W (trans_of t)"
  by (auto simp: reads_of_def strange_def trans_of_def read_tr_def)

lemma card_all_wanted: "finite (all_wanted md G fr n) \<and> card (all_wanted md G fr n) \<le> 2 * n"
proof (induction n)
  case 0
  then show ?case by (simp add: all_wanted_def)
next
  case (Suc n)
  have "card (wanted md G fr n) \<le> card (if fq fr ! n = [] then {} else {hd (fq fr ! n)}) + card (if header_wait md fr n then {header G fr n} else {})"
    unfolding wanted_def by (rule card_Un_le)
  also have "\<dots> \<le> 2" by simp
  finally have w: "card (wanted md G fr n) \<le> 2" "finite (wanted md G fr n)" by (simp_all add: wanted_def)
  have "card (all_wanted md G fr (Suc n)) \<le> card (all_wanted md G fr n) + card (wanted md G fr n)"
    unfolding all_wanted_Suc by (rule card_Un_le)
  with w Suc show ?case by (simp add: all_wanted_Suc)
qed

context dram_live
begin

lemma eventually_quiet:
  assumes run: "live_run md G tw S T E"
  shows "\<exists>N. \<forall>n \<ge> N. quiet_steps md G (engines G) (S n) (T n)"
proof -
  have C: "one_cycle md G (S n) (T n) (S (Suc n)) (E n)" for n using run by (simp add: live_run_def)
  have w: "work md G j (S (Suc n)) = work md G j (T n)" for n j
    using C [of n] work_end by (metis one_cycle_def)
  have le: "work md G j (T n) \<le> work md G j (S n)" if "j < engines G" for n j
    using C [of n] that by (simp add: one_cycle_def steps_to_def)
  let ?f = "\<lambda>n. \<Sum>j < engines G. work md G j (S n)"
  have dec: "?f (Suc n) \<le> ?f n" for n unfolding w by (intro sum_mono) (simp add: le)
  from nat_seq_const [of 0 ?f] dec obtain M where M: "\<And>n. M \<le> n \<Longrightarrow> ?f n = ?f M" by blast
  have "quiet_steps md G (engines G) (S n) (T n)" if "M \<le> n" for n
  proof -
    have "(\<Sum>j < engines G. work md G j (T n)) = ?f n" using M [of "Suc n"] M [of n] that w by simp
    then have "work md G j (T n) = work md G j (S n)" if "j < engines G" for j
      by (rule sum_mono_inv) (use that le in auto)
    then show ?thesis using C [of n] by (simp add: one_cycle_def)
  qed
  then show ?thesis by blast
qed

text \<open>The parts of the state that no longer change, and the memory's view of the run.\<close>

lemma quiet_same:
  assumes run: "live_run md G tw S T E" and q: "\<And>n. N \<le> n \<Longrightarrow> quiet_steps md G (engines G) (S n) (T n)" and n: "N \<le> n"
  shows "fq (c_fr (S n)) = fq (c_fr (S N))" and "frs (c_fr (S n)) = frs (c_fr (S N))" and "pq (c_fr (S n)) = pq (c_fr (S N))"
    and "c_si (S n) = c_si (S N)" and "j < engines G \<Longrightarrow> gr_pos (col_idx G ! j) (c_gr (S n) ! j) = gr_pos (col_idx G ! j) (c_gr (S N) ! j)"
proof -
  have "fq (c_fr (S n)) = fq (c_fr (S N)) \<and> frs (c_fr (S n)) = frs (c_fr (S N)) \<and> pq (c_fr (S n)) = pq (c_fr (S N)) \<and>
    c_si (S n) = c_si (S N) \<and> (\<forall>j < engines G. gr_pos (col_idx G ! j) (c_gr (S n) ! j) = gr_pos (col_idx G ! j) (c_gr (S N) ! j))"
    using n
  proof (induction n rule: nat_induct_at_least)
    case (Suc n)
    have "end_of_cycle G (E n) (T n) (S (Suc n))" using run by (simp add: live_run_def one_cycle_def)
    with q [OF Suc.hyps] Suc.IH show ?case
      by (simp add: end_of_cycle_def quiet_steps_def engine_quiet_def Let_def)
  qed simp
  then show "fq (c_fr (S n)) = fq (c_fr (S N))" "frs (c_fr (S n)) = frs (c_fr (S N))" "pq (c_fr (S n)) = pq (c_fr (S N))"
    "c_si (S n) = c_si (S N)" "j < engines G \<Longrightarrow> gr_pos (col_idx G ! j) (c_gr (S n) ! j) = gr_pos (col_idx G ! j) (c_gr (S N) ! j)"
    by blast+
qed

lemma run_completes:
  assumes run: "live_run md G tw S T E" and e: "e \<in># way (S n)"
  shows "\<exists>k \<ge> n. e \<in> set (E k)"
proof -
  let ?d = "\<lambda>n. dram (c_mem (S n))" and ?q = "\<lambda>n. tq (c_mem (S n))"
  have "mem_run mem_round ?d ?q (\<lambda>n. drop (length (?q n)) (tq (c_mem (T n)))) E"
    using run by (simp add: mem_run_def live_run_def one_cycle_def)
  moreover have "inv (?d 0)" using run by (simp add: live_run_def good_def)
  moreover have "e \<in># pending (?d n) + mset (map trans_of (?q n))" using e by (simp add: on_way_def)
  ultimately show ?thesis by (rule completed)
qed

text \<open>Only the lines the engines wait for remain on their way.\<close>

lemma strange_gone:
  assumes run: "live_run md G tw S T E" and q: "\<And>n. N \<le> n \<Longrightarrow> quiet_steps md G (engines G) (S n) (T n)"
  defines "W \<equiv> all_wanted md G (c_fr (S N)) (engines G)"
  shows "\<exists>M \<ge> N. \<forall>n \<ge> M. \<forall>e \<in># way (T n). \<not> strange G W e"
proof -
  let ?b = "\<lambda>M. filter_mset (strange G W) M"
  have C: "one_cycle md G (S n) (T n) (S (Suc n)) (E n)" for n using run by (simp add: live_run_def)
  have T: "?b (way (T n)) = ?b (way (S n))" if "N \<le> n" for n
  proof -
    have "all_wanted md G (c_fr (S n)) (engines G) = W"
      unfolding W_def by (rule all_wanted_cong [OF quiet_same(1,2) [OF run q that]])
    with q [OF that] obtain ts where ts: "tq (c_mem (T n)) = tq (c_mem (S n)) @ ts" "set ts \<subseteq> reads_of G W"
      by (auto simp: quiet_steps_def Let_def)
    have "dram (c_mem (T n)) = dram (c_mem (S n))" using C [of n] by (simp add: one_cycle_def steps_to_def)
    then have "way (T n) = way (S n) + mset (map trans_of ts)" using ts(1) by (simp add: on_way_def)
    moreover have "?b (mset (map trans_of ts)) = {#}"
      using ts(2) reads_of_strange by (auto simp: filter_mset_eq_conv)
    ultimately show ?thesis by simp
  qed
  have S: "size (?b (way (S (Suc n)))) + size (?b (mset (E n))) = size (?b (way (S n)))" if "N \<le> n" for n
  proof -
    have "way (T n) = way (S (Suc n)) + mset (E n)" using C [of n] by (simp add: one_cycle_def)
    then have "?b (way (S n)) = ?b (way (S (Suc n))) + ?b (mset (E n))" using T [OF that] by simp
    then show ?thesis by simp
  qed
  have "\<exists>M \<ge> N. \<forall>n \<ge> M. size (?b (way (S n))) = 0"
  proof (rule nat_seq_zero)
    show "size (?b (way (S (Suc n)))) \<le> size (?b (way (S n)))" if "N \<le> n" for n using S [OF that] by linarith
    fix n
    assume n: "N \<le> n" and "0 < size (?b (way (S n)))"
    then obtain e where e: "e \<in># way (S n)" "strange G W e" by (auto simp: size_eq_0_iff_empty filter_mset_eq_conv simp flip: neq0_conv)
    from run_completes [OF run e(1)] obtain k where k: "n \<le> k" "e \<in> set (E k)" by blast
    then have "e \<in># ?b (mset (E k))" using e(2) by simp
    then have "0 < size (?b (mset (E k)))" by (metis nonempty_has_size empty_not_add_mset multi_member_split)
    then show "\<exists>k \<ge> n. size (?b (way (S (Suc k)))) < size (?b (way (S k)))" using S [of k] n k(1) by (intro exI [of _ k]) simp
  qed
  then obtain M where M: "N \<le> M" "\<And>n. M \<le> n \<Longrightarrow> ?b (way (S n)) = {#}" by auto
  have "\<not> strange G W e" if "M \<le> n" "e \<in># way (T n)" for n e
    using T [of n] M that by (auto simp: filter_mset_eq_conv)
  with M(1) show ?thesis by blast
qed

end

section \<open>No engine waits\<close>

lemma way_small:
  assumes f: "fetch_inv G P (fr, c, m)" and s: "\<forall>e \<in># on_way P m. \<not> strange G W e" and W: "finite W"
  shows "length (tq m) \<le> card W"
proof -
  let ?M = "on_way P m" and ?F = "feature_reads G (on_way P m)"
  have all: "{#e \<in># ?M. \<not> snd e \<and> xw_ele_addr_start (arch_info G) \<le> fst e#} = ?M"
    using s by (auto simp: strange_def filter_mset_eq_conv not_less)
  have fin: "finite (requested fr)" and w: "?F + mset (mem_fq m) = mset_set (requested fr)"
    using f by (auto simp: fetch_inv_def on_the_way_def on_way_def)
  have "count ?F a \<le> count (mset_set W) a" for a
  proof (cases "a \<in># ?F")
    case True
    then have "a \<in> W" using s unfolding feature_reads_def all by (auto simp: strange_def)
    moreover have "count ?F a \<le> count (mset_set (requested fr)) a" unfolding w [symmetric] by simp
    moreover have "count (mset_set (requested fr)) a \<le> 1" using fin by (cases "a \<in> requested fr") simp_all
    ultimately show ?thesis using W by simp
  qed (simp add: not_in_iff)
  then have "?F \<subseteq># mset_set W" by (simp add: subseteq_mset_def)
  from size_mset_mono [OF this] have "size ?M \<le> card W" unfolding feature_reads_def all by simp
  then show ?thesis by (simp add: on_way_def)
qed

context dram_live
begin

lemma quiet_idle:
  assumes run: "live_run md G tw S T E" and q: "\<And>n. N \<le> n \<Longrightarrow> quiet_steps md G (engines G) (S n) (T n)"
    and lim: "2 * engines G < REQUEST_LIMIT"
  shows "\<exists>M \<ge> N. \<forall>n \<ge> M. E n = [] \<and> way (S n) = {#} \<and> length (tq (c_mem (T n))) < REQUEST_LIMIT \<and>
    all_wanted md G (c_fr (S n)) (engines G) = {}"
proof -
  define W where "W = all_wanted md G (c_fr (S N)) (engines G)"
  have W: "finite W" "card W < REQUEST_LIMIT" using card_all_wanted [of md G "c_fr (S N)" "engines G"] lim by (auto simp: W_def)
  from strange_gone [OF run q] obtain M where M: "N \<le> M" "\<And>n e. M \<le> n \<Longrightarrow> e \<in># way (T n) \<Longrightarrow> \<not> strange G W e"
    unfolding W_def by blast
  have C: "steps_to md G (pending (dram (c_mem (S n)))) {..<engines G} (S n) (T n)" "end_of_cycle G (E n) (T n) (S (Suc n))"
    "way (T n) = way (S (Suc n)) + mset (E n)" for n using run by (simp_all add: live_run_def one_cycle_def)
  have F: "fetch_inv G (pending (dram (c_mem (T n)))) (c_fr (T n), c_cah (T n), c_mem (T n))" for n
    using run by (auto simp: live_run_def good_def sys_inv_def)
  have same: "all_wanted md G (c_fr (S n)) (engines G) = W" if "M \<le> n" for n
    unfolding W_def by (rule all_wanted_cong [OF quiet_same(1,2) [OF run q]]) (use that M(1) in auto)
  have room: "length (tq (c_mem (T n))) < REQUEST_LIMIT" if "M \<le> n" for n
    using way_small [OF F [of n] _ W(1)] M(2) [OF that] W(2) by fastforce
  have wait: "W \<inter> cached (c_cah (S n)) = {}" "W \<subseteq> requested (c_fr (T n))" if "M \<le> n" for n
  proof -
    have "engine_quiet md G (S n) (T n) j" if "j < engines G" for j
      using q [of n] M(1) \<open>M \<le> n\<close> that by (simp add: quiet_steps_def Let_def)
    then have "wanted md G (c_fr (S n)) j \<inter> cached (c_cah (S n)) = {} \<and> wanted md G (c_fr (S n)) j \<subseteq> requested (c_fr (T n))"
      if "j < engines G" for j using that room [OF \<open>M \<le> n\<close>] by (simp add: engine_quiet_def Let_def)
    then show "W \<inter> cached (c_cah (S n)) = {}" "W \<subseteq> requested (c_fr (T n))"
      unfolding same [OF that, symmetric] all_wanted_def by blast+
  qed
  have ev: "\<not> strange G W e" if "M \<le> n" "e \<in> set (E n)" for n e
    using M(2) [OF that(1), of e] that(2) by (simp add: C(3))
  have fq: "mset (mem_fq (c_mem (S (Suc n)))) = image_mset fst (mset (E n))" if "M \<le> n" for n
  proof -
    have "{#e \<in># mset (E n). \<not> snd e \<and> xw_ele_addr_start (arch_info G) \<le> fst e#} = mset (E n)"
      using ev [OF that] by (auto simp: strange_def filter_mset_eq_conv not_less)
    then show ?thesis using C(2) [of n] by (simp add: end_of_cycle_def feature_reads_def Let_def)
  qed
  have none: "E n = []" if "M \<le> n" for n
  proof (rule ccontr)
    assume "E n \<noteq> []"
    let ?as = "mem_fq (c_mem (S (Suc n)))"
    have "?as \<noteq> []" using fq [OF that] \<open>E n \<noteq> []\<close> by auto
    have "set ?as = fst ` set (E n)" using arg_cong [OF fq [OF that], of set_mset] by simp
    then have "last ?as \<in> W" using last_in_set [OF \<open>?as \<noteq> []\<close>] ev [OF that] by (auto simp: strange_def)
    moreover have "mem_fq (c_mem (T (Suc n))) = ?as" using C(1) [of "Suc n"] by (simp add: steps_to_def)
    then have "last ?as \<in> cached (c_cah (S (Suc (Suc n))))" using C(2) [of "Suc n"] \<open>?as \<noteq> []\<close> by (simp add: end_of_cycle_def Let_def)
    moreover have "M \<le> Suc (Suc n)" using that by simp
    ultimately show False using wait(1) by blast
  qed
  have empty: "way (S n) = {#}" if "M \<le> n" for n
  proof (rule ccontr)
    assume "way (S n) \<noteq> {#}"
    then obtain e where "e \<in># way (S n)" by blast
    from run_completes [OF run this] obtain k where "n \<le> k" "e \<in> set (E k)" by blast
    with none [of k] that show False by simp
  qed
  have "W = {}"
  proof -
    let ?n = "Suc M"
    have "mem_fq (c_mem (T ?n)) = []" using fq [of M] none [of M] C(1) [of ?n] by (simp add: steps_to_def)
    moreover have "way (T ?n) = {#}" using C(3) [of ?n] none [of ?n] empty [of "Suc ?n"] by simp
    ultimately have "mset_set (requested (c_fr (T ?n))) = {#}"
      using F [of ?n] by (simp add: fetch_inv_def on_the_way_def on_way_def feature_reads_def)
    then have "requested (c_fr (T ?n)) = {}" using F [of ?n] by (simp add: fetch_inv_def mset_set_empty_iff)
    then show ?thesis using wait(2) [of ?n] by simp
  qed
  with M(1) none empty room same show ?thesis by blast
qed

end

section \<open>All the work is done\<close>

text \<open>An engine whose edges are all passed on, with empty queues, has written all its lines.\<close>

lemma engine_done:
  assumes L: "linked md G st trs ent out ws" and env: "env_ok md G" and i: "i < engines G"
    and pos: "gr_pos (col_idx G ! i) (c_gr st ! i) = all_edges G i"
    and idle: "fq (c_fr st) ! i = []" "pq (c_fr st) ! i = []" "pq_read_need (frs (c_fr st) ! i)" "wq (c_si st ! i) = []"
  shows "length (ws i) = engine_writes G i"
proof -
  let ?rp = "row_ptr G ! i" and ?ci = "col_idx G ! i" and ?B = "nat (bf (arch_info G))"
  have E: "engine_ok G i" "csr_ok ?rp ?ci" "folds_ok G"
    using env i by (auto simp: env_ok_def engine_env_def engine_ok_def Let_def)
  have l: "gr_run G i (c_gr st ! i) (c_mem st) (trs i)" "edges (trs i) = ent i"
    "fr_run G md (c_fr st, c_cah st, c_mem st) ent out" using L i by (auto simp: linked_def)
  have "out i @ pend md G (c_fr st) i = concat (map (edge_signals md G) (ent i))" using fr_run_inv [OF l(3)] i by simp
  then have "out i = concat (map (edge_signals md G) (ent i))" using idle by (simp add: pend_def stat_signals_def)
  then have "zeros (out i) = length (filter is_last (ent i))" by (simp add: zeros_signals)
  also have "ent i = map (edge_at ?rp ?ci i) [0..<?B * length ?ci]"
    using gr_run_inv [OF l(1) E(1)] l(2) pos by (simp add: all_edges_def)
  finally have z: "zeros (out i) = ?B * nonzero_rows ?rp" using row_ends_all [OF E(2)] by simp
  have "0 \<le> total_urb (data_info G)" using E(3) by (auto simp: folds_ok_def Let_def intro: order_trans [rotated])
  then have n: "nat (lines_after G (int (nonzero_rows ?rp)) (zeros (out i))) = engine_writes G i"
    unfolding z lines_after_folds [OF E(3) refl le_refl] by (simp add: engine_writes_def nat_mult_distrib)
  have "length (ws i @ wq (c_si st ! i)) = engine_writes G i"
    using linked_simd [OF L env i] n by (simp add: simd_at_def Let_def)
  then show ?thesis using idle(4) by simp
qed

lemma new_reqs_zero:
  assumes "GraphReader_new G i = Inr r"
  shows "reqs G i t r = 0"
proof -
  have "row_reqs G i r = 0" "col_reqs G i r = 0"
    using assms by (auto simp: GraphReader_new_def row_reqs_def col_reqs_def req_count_def Let_def split: if_splits)
  then show ?thesis by (cases t) simp_all
qed

context dram_live
begin

lemma quiet_received:
  assumes env: "env_ok md G" and run: "live_run md G tw S T E"
    and q: "\<And>n. M \<le> n \<Longrightarrow> quiet_steps md G (engines G) (S n) (T n)"
    and idle: "\<And>n. M \<le> n \<Longrightarrow> E n = [] \<and> way (S n) = {#} \<and> length (tq (c_mem (T n))) < REQUEST_LIMIT" and j: "j < engines G"
  shows "\<exists>n \<ge> M. reci_over (c_gr (S n) ! j)"
proof -
  have C: "steps_to md G (pending (dram (c_mem (S n)))) {..<engines G} (S n) (T n)" "end_of_cycle G (E n) (T n) (S (Suc n))" for n
    using run by (simp_all add: live_run_def one_cycle_def)
  have mono: "reci_over (c_gr (S (Suc n)) ! j)" if "reci_over (c_gr (S n) ! j)" for n
    using C [of n] that j by (simp add: steps_to_def end_of_cycle_def)
  have rq: "rq (c_mem (S (Suc n))) ! j = (if reci_over (c_gr (S n) ! j) then rq (c_mem (S n)) ! j else tl (rq (c_mem (S n)) ! j))"
    if "M \<le> n" for n
    using q [OF that] C(2) [of n] idle [OF that] j by (simp add: quiet_steps_def end_of_cycle_def Let_def)
  let ?f = "\<lambda>n. if reci_over (c_gr (S n) ! j) then 0 else length (rq (c_mem (S n)) ! j)"
  have "\<exists>K \<ge> M. \<forall>n \<ge> K. ?f n = 0"
  proof (rule nat_seq_zero)
    show "?f (Suc n) \<le> ?f n" if "M \<le> n" for n using rq [OF that] mono [of n] by auto
    show "\<exists>k \<ge> n. ?f (Suc k) < ?f k" if "M \<le> n" "0 < ?f n" for n
      using rq [OF that(1)] that(2) by (intro exI [of _ n]) (auto split: if_splits)
  qed
  then obtain K where K: "M \<le> K" "?f K = 0" by blast
  show ?thesis
  proof (cases "reci_over (c_gr (S K) ! j)")
    case False
    let ?s = "S (Suc K)" and ?r = "c_gr (S (Suc K)) ! j"
    have E: "engine_env md G j" "engine_ok G j" using env j by (auto simp: env_ok_def engine_env_def Let_def)
    have good: "good md G tw ?s" using run by (simp add: live_run_def)
    then obtain trs ent out ws where "linked md G ?s trs ent out ws" by (auto simp: good_def sys_inv_def)
    then have gr: "gr_run G j ?r (c_mem ?s) (trs j)" using j by (simp add: linked_def)
    have "?r = c_gr (T K) ! j" using C(2) [of K] by (simp add: end_of_cycle_def)
    then have over: "v_req_over ?r" "e_req_over ?r"
      using q [OF K(1)] idle [OF K(1)] j by (simp_all add: quiet_steps_def engine_quiet_def Let_def)
    have "rq (c_mem ?s) ! j = []" using rq [OF K(1)] K(2) False by simp
    moreover have "way ?s = {#}" using idle [of "Suc K"] K(1) by simp
    moreover have "balance G (pending (dram (c_mem ?s))) (c_mem ?s) j ?r t = 0" if "t \<noteq> Empty" for t
      using good j that by (simp add: good_def)
    ultimately have g: "got G j t ?r = int (reqs G j t ?r)" if "t \<noteq> Empty" for t
      using that by (simp add: balance_def)
    have "reci_over ?r"
      using over row_reqs_run(3) [OF E(1) gr] col_reqs_run(2) [OF E(1) gr] g [of Row] g [of Column] g [of Value]
      by (intro got_all [OF gr_run_got [OF gr E(2)] E(2)]) simp_all
    then show ?thesis using K(1) by (intro exI [of _ "Suc K"]) simp
  qed (use K(1) in blast)
qed

lemma live_run_done:
  assumes env: "env_ok md G" and run: "live_run md G tw S T E" and lim: "2 * engines G < REQUEST_LIMIT"
  shows "\<exists>M. \<forall>n \<ge> M. total_write (c_mem (S n)) = tw - of_nat (total_writes G)"
proof -
  from eventually_quiet [OF run] obtain N where N: "\<And>n. N \<le> n \<Longrightarrow> quiet_steps md G (engines G) (S n) (T n)" by blast
  from quiet_idle [OF run N lim] obtain M where M: "N \<le> M" "\<And>n. M \<le> n \<Longrightarrow> E n = [] \<and> way (S n) = {#} \<and>
    length (tq (c_mem (T n))) < REQUEST_LIMIT \<and> all_wanted md G (c_fr (S n)) (engines G) = {}" by blast
  have q: "quiet_steps md G (engines G) (S n) (T n)" if "M \<le> n" for n using N M(1) that by simp
  have pos: "gr_pos (col_idx G ! j) (c_gr (S n) ! j) = all_edges G j" if j: "j < engines G" and n: "M \<le> n" for j n
  proof -
    from quiet_received [OF env run q _ j] M(2) obtain k where k: "M \<le> k" "reci_over (c_gr (S k) ! j)" by blast
    have "reci_over (c_gr (T k) ! j)" using run k(2) j by (simp add: live_run_def one_cycle_def steps_to_def)
    moreover have "engine_quiet md G (S k) (T k) j" using q [OF k(1)] j by (simp add: quiet_steps_def Let_def)
    ultimately have "gr_pos (col_idx G ! j) (c_gr (S k) ! j) = all_edges G j" by (simp add: engine_quiet_def Let_def)
    then show ?thesis using quiet_same(5) [OF run q n j] quiet_same(5) [OF run q k(1) j] by simp
  qed
  have "total_write (c_mem (S n)) = tw - of_nat (total_writes G)" if n: "M \<le> n" for n
  proof -
    have "good md G tw (S n)" using run by (simp add: live_run_def)
    then obtain ws "done" where s: "sys_inv md G tw (pending (dram (c_mem (S n)))) (S n) ws done"
      by (auto simp: good_def)
    then obtain trs ent out where L: "linked md G (S n) trs ent out ws" by (auto simp: sys_inv_def)
    have "length (ws j) = engine_writes G j" if j: "j < engines G" for j
    proof -
      have w: "wanted md G (c_fr (S n)) j = {}" using M(2) [OF n] j by (auto simp: all_wanted_def)
      have "engine_quiet md G (S n) (T n) j" using q [OF n] j by (simp add: quiet_steps_def Let_def)
      then have "pq (c_fr (S n)) ! j = []" "pq_read_need (frs (c_fr (S n)) ! j)" "wq (c_si (S n) ! j) = []"
        using w M(2) [OF n] by (simp_all add: engine_quiet_def Let_def)
      moreover have "fq (c_fr (S n)) ! j = []" using w by (auto simp: wanted_def split: if_splits)
      ultimately show ?thesis using engine_done [OF L env j pos [OF j n]] by blast
    qed
    then have "(\<Sum>j < engines G. length (ws j)) = total_writes G" by (simp add: total_writes_def)
    moreover have "writes_in (way (S n)) = 0" using M(2) [OF n] by (simp add: writes_in_def)
    ultimately show ?thesis using s by (simp add: sys_inv_def)
  qed
  then show ?thesis by blast
qed

text \<open>From a fresh controller the loop reaches a cycle that leaves no write outstanding.\<close>

lemma good_new:
  assumes env: "env_ok md G" "0 < n_of_engine (arch_info G)" and d: "inv d" "pending d = {#}"
    and st: "Controller_new G d tw = Inr st"
  shows "good md G tw (st\<lparr>c_fr := ModeChange (c_fr st) md\<rparr>)"
proof -
  from Controller_new_inv [OF env, of d tw] st have s: "c_mem st = Memory_new G d tw"
    "\<And>j. j < engines G \<Longrightarrow> GraphReader_new G j = Inr (c_gr st ! j)"
    "sys_inv md G tw {#} (st\<lparr>c_fr := ModeChange (c_fr st) md\<rparr>) (\<lambda>_. []) 0" by auto
  have "balance G {#} (Memory_new G d tw) j (c_gr st ! j) t = 0" if j: "j < engines G" for j t
  proof -
    have "engine_ok G j" using env(1) j by (auto simp: env_ok_def engine_env_def Let_def)
    with got_new(2) [OF s(2) [OF j]] new_reqs_zero [OF s(2) [OF j]] j show ?thesis
      by (simp add: balance_def Memory_new_def on_way_def)
  qed
  with s d show ?thesis by (auto simp: good_def Memory_new_def)
qed

lemma live_cycles:
  assumes env: "env_ok md G" "0 < n_of_engine (arch_info G)" and d: "inv d" "pending d = {#}" and lim: "2 * engines G < REQUEST_LIMIT"
    and st: "Controller_new G d (of_nat (total_writes G)) = Inr st"
  shows "\<exists>S. S 0 = st\<lparr>c_fr := ModeChange (c_fr st) md\<rparr> \<and> (\<forall>n. cycle_step G D (S n) = Inr (S (Suc n))) \<and>
    (\<exists>n. total_write (c_mem (S (Suc n))) = 0)"
proof -
  from live_run_exists [OF env(1) good_new [OF env d st]] obtain S T E where
    S: "S 0 = st\<lparr>c_fr := ModeChange (c_fr st) md\<rparr>" "live_run md G (of_nat (total_writes G)) S T E" by blast
  from live_run_done [OF env(1) S(2) lim] obtain M where "\<And>n. M \<le> n \<Longrightarrow> total_write (c_mem (S n)) = 0" by auto
  then have "total_write (c_mem (S (Suc M))) = 0" by simp
  moreover have "cycle_step G D (S n) = Inr (S (Suc n))" for n using S(2) by (simp add: live_run_def one_cycle_def)
  ultimately show ?thesis using S(1) by blast
qed

end

end
