(* ===== verification/Dram_Common.thy ===== *)
theory Dram_Common
  imports Sim_Prelude "HOL-Library.Signed_Division"
begin

text \<open>
  The shared types and helper functions of the DRAM simulator, \<open>src/DRAMsim3/src/common.h\<close> and
  \<open>common.cc\<close>: addresses, commands, transactions, bit fields, the base-two logarithm and the
  string splitter.
\<close>

unbundle bit_operations_syntax

section \<open>Integer conversions\<close>

text \<open>
  A conversion to a 32-bit \<open>int\<close> keeps the low 32 bits as a signed number. Integer division
  truncates towards zero and is undefined for a zero divisor; a shift of a 64-bit value by a negative
  amount or by 64 and more is undefined.
\<close>

definition to_int32 :: "int \<Rightarrow> int" where
  "to_int32 x = signed_take_bit 31 x"

definition cdiv :: "int \<Rightarrow> int \<Rightarrow> int res" where
  "cdiv a b = (if b = 0 then Inl DivByZero else Inr (a sdiv b))"

definition cmod :: "int \<Rightarrow> int \<Rightarrow> int res" where
  "cmod a b = (if b = 0 then Inl DivByZero else Inr (a smod b))"

definition shr64 :: "u64 \<Rightarrow> int \<Rightarrow> u64 res" where
  "shr64 x p = (if 0 \<le> p \<and> p < 64 then Inr (drop_bit (nat p) x) else Inl BadConv)"

lemma shr64_Inr [simp]: "shr64 x p = Inr y \<longleftrightarrow> 0 \<le> p \<and> p < 64 \<and> y = drop_bit (nat p) x"
  by (auto simp: shr64_def)

lemma to_int32_id: "- (2 ^ 31) \<le> x \<Longrightarrow> x < 2 ^ 31 \<Longrightarrow> to_int32 x = x"
  by (simp add: to_int32_def signed_take_bit_int_eq_self)

lemma to_int32_range: "- (2 ^ 31) \<le> to_int32 x \<and> to_int32 x < 2 ^ 31"
  unfolding to_int32_def
  using signed_take_bit_int_less_exp [of 31 x] signed_take_bit_int_greater_eq_minus_exp [of 31 x]
  by simp

lemma sdiv_nonneg: "0 \<le> (a::int) \<Longrightarrow> 0 \<le> b \<Longrightarrow> a sdiv b = a div b"
  by (auto simp: signed_divide_int_def sgn_if)

section \<open>Addresses, commands and transactions\<close>

record Address =
  ad_channel :: int
  ad_rank :: int
  ad_bankgroup :: int
  ad_bank :: int
  ad_row :: int
  ad_column :: int

definition Address_none :: Address where
  "Address_none = \<lparr>ad_channel = -1, ad_rank = -1, ad_bankgroup = -1, ad_bank = -1, ad_row = -1,
     ad_column = -1\<rparr>"

datatype CommandType =
    READ | READ_PRECHARGE | WRITE | WRITE_PRECHARGE | ACTIVATE | PRECHARGE | REFRESH_BANK | REFRESH
  | SREF_ENTER | SREF_EXIT | CMD_SIZE

record Command =
  cmd_type :: CommandType
  cmd_addr :: Address
  hex_addr :: u64

definition Command_none :: Command where
  "Command_none = \<lparr>cmd_type = CMD_SIZE, cmd_addr = Address_none, hex_addr = 0\<rparr>"

definition IsValid :: "Command \<Rightarrow> bool" where
  "IsValid c \<longleftrightarrow> cmd_type c \<noteq> CMD_SIZE"

definition IsRefresh :: "Command \<Rightarrow> bool" where
  "IsRefresh c \<longleftrightarrow> cmd_type c = REFRESH \<or> cmd_type c = REFRESH_BANK"

definition IsRead :: "Command \<Rightarrow> bool" where
  "IsRead c \<longleftrightarrow> cmd_type c = READ \<or> cmd_type c = READ_PRECHARGE"

definition IsWrite :: "Command \<Rightarrow> bool" where
  "IsWrite c \<longleftrightarrow> cmd_type c = WRITE \<or> cmd_type c = WRITE_PRECHARGE"

definition IsReadWrite :: "Command \<Rightarrow> bool" where
  "IsReadWrite c \<longleftrightarrow> IsRead c \<or> IsWrite c"

definition IsRankCMD :: "Command \<Rightarrow> bool" where
  "IsRankCMD c \<longleftrightarrow> cmd_type c = REFRESH \<or> cmd_type c = SREF_ENTER \<or> cmd_type c = SREF_EXIT"

lemmas cmd_defs = IsValid_def IsRefresh_def IsRead_def IsWrite_def IsReadWrite_def IsRankCMD_def

lemma IsValid_none [simp]: "\<not> IsValid Command_none"
  by (simp add: IsValid_def Command_none_def)

abbreviation c_rank :: "Command \<Rightarrow> int" where "c_rank c \<equiv> ad_rank (cmd_addr c)"
abbreviation c_bankgroup :: "Command \<Rightarrow> int" where "c_bankgroup c \<equiv> ad_bankgroup (cmd_addr c)"
abbreviation c_bank :: "Command \<Rightarrow> int" where "c_bank c \<equiv> ad_bank (cmd_addr c)"
abbreviation c_row :: "Command \<Rightarrow> int" where "c_row c \<equiv> ad_row (cmd_addr c)"
abbreviation c_column :: "Command \<Rightarrow> int" where "c_column c \<equiv> ad_column (cmd_addr c)"

record DTransaction =
  tr_addr :: u64
  added_cycle :: u64
  complete_cycle :: u64
  tr_write :: bool

definition DTransaction_new :: "u64 \<Rightarrow> bool \<Rightarrow> DTransaction" where
  "DTransaction_new a w = \<lparr>tr_addr = a, added_cycle = 0, complete_cycle = 0, tr_write = w\<rparr>"

section \<open>Helper functions\<close>

text \<open>The shift amounts of \<open>ModuloWidth\<close> and \<open>GetBitInPos\<close> are undefined from 64 on.\<close>

definition ModuloWidth :: "u64 \<Rightarrow> nat \<Rightarrow> nat \<Rightarrow> 32 word res" where
  "ModuloWidth a bit_width pos =
     res_bind (shr64 a (int pos)) (\<lambda>store.
     res_bind (shr64 store (int bit_width)) (\<lambda>a1.
     Inr (ucast (store XOR push_bit bit_width a1))))"

definition GetBitInPos :: "u64 \<Rightarrow> int \<Rightarrow> int res" where
  "GetBitInPos bits pos = res_bind (shr64 bits pos) (\<lambda>x. Inr (uint (x AND 1)))"

function log2_loop :: "int \<Rightarrow> int \<Rightarrow> int" where
  "log2_loop p i = (if p > 1 then log2_loop (p sdiv 2) (i + 1) else i)"
  by pat_completeness auto
termination
  by (relation "measure (\<lambda>(p, _). nat p)") (auto simp: sdiv_nonneg)

declare log2_loop.simps [simp del]

definition LogBase2 :: "int \<Rightarrow> int" where
  "LogBase2 power_of_two = log2_loop power_of_two 0"

text \<open>\<open>std::getline\<close> with a delimiter: the items between delimiters; a trailing empty item does not exist.\<close>

fun getline_items :: "char \<Rightarrow> string \<Rightarrow> string \<Rightarrow> string list" where
  "getline_items d acc [] = (if acc = [] then [] else [rev acc])"
| "getline_items d acc (c # cs) =
     (if c = d then rev acc # getline_items d [] cs else getline_items d (c # acc) cs)"

definition StringSplit :: "string \<Rightarrow> char \<Rightarrow> string list" where
  "StringSplit s delim = [item \<leftarrow> getline_items delim [] s. item \<noteq> []]"

section \<open>Properties\<close>

lemma log2_loop_step: "1 < p \<Longrightarrow> log2_loop p i = log2_loop (p div 2) (i + 1)"
  by (subst log2_loop.simps) (simp add: sdiv_nonneg)

lemma log2_loop_end: "p \<le> 1 \<Longrightarrow> log2_loop p i = i"
  by (subst log2_loop.simps) simp

lemma log2_loop_bounds:
  "1 \<le> p \<Longrightarrow> \<exists>k. log2_loop p i = i + int k \<and> 2 ^ k \<le> p \<and> p < 2 ^ (k + 1)"
proof (induction "nat p" arbitrary: p i rule: less_induct)
  case less
  show ?case
  proof (cases "1 < p")
    case True
    then have "nat (p div 2) < nat p" "1 \<le> p div 2" by auto
    from less.hyps [OF this, of "i + 1"] obtain k where
      k: "log2_loop (p div 2) (i + 1) = i + 1 + int k" "2 ^ k \<le> p div 2" "p div 2 < 2 ^ (k + 1)"
      by blast
    have "2 ^ (k + 1) \<le> p" "p < 2 ^ (k + 2)" using k(2,3) by auto
    with k(1) True show ?thesis by (intro exI [of _ "k + 1"]) (simp add: log2_loop_step)
  next
    case False
    with less.prems have "p = 1" by simp
    then show ?thesis by (simp add: log2_loop_end)
  qed
qed

lemma LogBase2_bounds:
  assumes "1 \<le> p"
  shows "0 \<le> LogBase2 p" and "2 ^ nat (LogBase2 p) \<le> p" and "p < 2 ^ (nat (LogBase2 p) + 1)"
  using log2_loop_bounds [OF assms, of 0] by (auto simp: LogBase2_def)

lemma LogBase2_le1: "p \<le> 1 \<Longrightarrow> LogBase2 p = 0"
  by (simp add: LogBase2_def log2_loop_end)

lemma LogBase2_nonneg: "0 \<le> LogBase2 p"
  using LogBase2_bounds(1) [of p] LogBase2_le1 [of p] by linarith

lemma LogBase2_power [simp]: "LogBase2 (2 ^ k) = int k"
proof -
  have b: "(1::int) \<le> 2 ^ k" by simp
  let ?l = "nat (LogBase2 (2 ^ k))"
  have "(2::int) ^ ?l \<le> 2 ^ k" "(2::int) ^ k < 2 ^ (?l + 1)"
    using LogBase2_bounds [OF b] by auto
  then have "?l \<le> k" and "k < ?l + 1"
    using power_less_imp_less_exp [of "2::int" k "?l + 1"] by simp_all
  then have "?l = k" by simp
  then show ?thesis using LogBase2_bounds(1) [OF b] by linarith
qed

end
