(* ===== verification/Dram_Config.thy ===== *)
theory Dram_Config
  imports Dram_Common
begin

text \<open>
  The configuration of the DRAM simulator, \<open>src/DRAMsim3/src/configuration.h\<close> and
  \<open>configuration.cc\<close>: the protocol, the structure, system, timing and address-mapping parameters
  read from a configuration file, and the mapping of a byte address to channel, rank, bank group,
  bank, row and column. The file itself is read by the third-party \<open>INIReader\<close>, which is the
  argument \<open>R\<close>: its four getters. The floating-point parameters (\<open>tCK\<close> and the energies), the
  output names and the thermal parameters have no part in the behaviour modelled here.
\<close>

section \<open>The model\<close>

datatype DRAMProtocol =
    DDR3 | DDR4 | GDDR5 | GDDR5X | GDDR6 | LPDDR | LPDDR3 | LPDDR4 | HBM | HBM2 | HMC | PROTO_SIZE

datatype RefreshPolicy =
    RANK_LEVEL_SIMULTANEOUS | RANK_LEVEL_STAGGERED | BANK_LEVEL_STAGGERED | POLICY_SIZE

text \<open>The members of class \<open>Config\<close>, in the order of the header.\<close>

record ConfigStructure =
  protocol :: DRAMProtocol
  channel_size :: int
  channels :: int
  ranks :: int
  banks :: int
  bankgroups :: int
  banks_per_group :: int
  rows :: int
  columns :: int
  device_width :: int
  bus_width :: int
  devices_per_rank :: int
  BL :: int

record ConfigMapping = ConfigStructure +
  shift_bits :: int
  ch_pos :: int
  ra_pos :: int
  bg_pos :: int
  ba_pos :: int
  ro_pos :: int
  co_pos :: int
  ch_mask :: u64
  ra_mask :: u64
  bg_mask :: u64
  ba_mask :: u64
  ro_mask :: u64
  co_mask :: u64

record ConfigTiming = ConfigMapping +
  burst_cycle :: int
  AL :: int
  CL :: int
  CWL :: int
  RL :: int
  WL :: int
  tCCD_L :: int
  tCCD_S :: int
  tRTRS :: int
  tRTP :: int
  tWTR_L :: int
  tWTR_S :: int
  tWR :: int
  tRP :: int
  tRRD_L :: int
  tRRD_S :: int
  tRAS :: int
  tRCD :: int

record ConfigTiming2 = ConfigTiming +
  tRFC :: int
  tRC :: int
  tCKE :: int
  tCKESR :: int
  tXS :: int
  tXP :: int
  tRFCb :: int
  tREFI :: int
  tREFIb :: int
  tFAW :: int
  tRPRE :: int
  tWPRE :: int
  read_delay :: int
  write_delay :: int
  tPPD :: int
  t32AW :: int
  tRCDRD :: int
  tRCDWR :: int

record Config = ConfigTiming2 +
  num_links :: int
  num_dies :: int
  link_width :: int
  link_speed :: int
  block_size :: int
  xbar_queue_depth :: int
  address_mapping :: string
  queue_structure :: string
  row_buf_policy :: string
  refresh_policy :: RefreshPolicy
  cmd_queue_size :: int
  unified_queue :: bool
  trans_queue_size :: int
  write_buf_size :: int
  enable_self_refresh :: bool
  sref_threshold :: int
  aggressive_precharging_enabled :: bool
  enable_hbm_dual_cmd :: bool
  epoch_period :: int
  request_size_bytes :: int
  ideal_memory_latency :: int

definition IsGDDR :: "('a) ConfigStructure_scheme \<Rightarrow> bool" where
  "IsGDDR c \<longleftrightarrow> protocol c = GDDR5 \<or> protocol c = GDDR5X \<or> protocol c = GDDR6"

definition IsHBM :: "('a) ConfigStructure_scheme \<Rightarrow> bool" where
  "IsHBM c \<longleftrightarrow> protocol c = HBM \<or> protocol c = HBM2"

definition IsHMC :: "('a) ConfigStructure_scheme \<Rightarrow> bool" where
  "IsHMC c \<longleftrightarrow> protocol c = HMC"

text \<open>The getters of \<open>INIReader\<close>: section, option and default to the value read.\<close>

record ini_reader =
  ini_error :: int
  ini_string :: "string \<Rightarrow> string \<Rightarrow> string \<Rightarrow> string"
  ini_integer :: "string \<Rightarrow> string \<Rightarrow> int \<Rightarrow> int"
  ini_boolean :: "string \<Rightarrow> string \<Rightarrow> bool \<Rightarrow> bool"

definition GetInteger :: "ini_reader \<Rightarrow> string \<Rightarrow> string \<Rightarrow> int \<Rightarrow> int" where
  "GetInteger R sec opt d = to_int32 (ini_integer R sec opt d)"

definition protocol_pairs :: "(string \<times> DRAMProtocol) list" where
  "protocol_pairs = [(''DDR3'', DDR3), (''DDR4'', DDR4), (''GDDR5'', GDDR5), (''GDDR5X'', GDDR5X),
     (''GDDR6'', GDDR6), (''LPDDR'', LPDDR), (''LPDDR3'', LPDDR3), (''LPDDR4'', LPDDR4),
     (''HBM'', HBM), (''HBM2'', HBM2), (''HMC'', HMC)]"

definition GetDRAMProtocol :: "string \<Rightarrow> DRAMProtocol res" where
  "GetDRAMProtocol s = (case map_of protocol_pairs s of None \<Rightarrow> Inl Abrupt | Some p \<Rightarrow> Inr p)"

definition InitSystemParams :: "ini_reader \<Rightarrow> Config \<Rightarrow> Config res" where
  "InitSystemParams R c =
     (let ref_policy = ini_string R ''system'' ''refresh_policy'' ''RANK_LEVEL_STAGGERED'' in
      res_bind (if ref_policy = ''RANK_LEVEL_SIMULTANEOUS'' then Inr RANK_LEVEL_SIMULTANEOUS
                else if ref_policy = ''RANK_LEVEL_STAGGERED'' then Inr RANK_LEVEL_STAGGERED
                else if ref_policy = ''BANK_LEVEL_STAGGERED'' then Inr BANK_LEVEL_STAGGERED
                else Inl Abrupt) (\<lambda>p.
      Inr (c\<lparr>
        channel_size := GetInteger R ''system'' ''channel_size'' 1024,
        channels := GetInteger R ''system'' ''channels'' 1,
        bus_width := GetInteger R ''system'' ''bus_width'' 64,
        address_mapping := ini_string R ''system'' ''address_mapping'' ''chrobabgraco'',
        queue_structure := ini_string R ''system'' ''queue_structure'' ''PER_BANK'',
        row_buf_policy := ini_string R ''system'' ''row_buf_policy'' ''OPEN_PAGE'',
        cmd_queue_size := GetInteger R ''system'' ''cmd_queue_size'' 16,
        trans_queue_size := GetInteger R ''system'' ''trans_queue_size'' 32,
        unified_queue := ini_boolean R ''system'' ''unified_queue'' False,
        write_buf_size := GetInteger R ''system'' ''write_buf_size'' 16,
        refresh_policy := p,
        enable_self_refresh := ini_boolean R ''system'' ''enable_self_refresh'' False,
        sref_threshold := GetInteger R ''system'' ''sref_threshold'' 1000,
        aggressive_precharging_enabled :=
          ini_boolean R ''system'' ''aggressive_precharging_enabled'' False\<rparr>)))"

text \<open>The burst length in cycles and the burst length used for capacities, per protocol.\<close>

definition burst_params :: "DRAMProtocol \<Rightarrow> int \<Rightarrow> int \<times> int" where
  "burst_params p bl =
     (let per = (if p = GDDR5 then 4 else if p = GDDR5X then 8 else if p = GDDR6 then 16 else 2);
          dflt = (if p = HBM \<or> p = HBM2 then 4 else 8)
      in (if bl = 0 then 0 else bl sdiv per, if bl = 0 then dflt else bl))"

definition InitDRAMParams :: "ini_reader \<Rightarrow> Config \<Rightarrow> Config res" where
  "InitDRAMParams R c =
     res_bind (GetDRAMProtocol (ini_string R ''dram_structure'' ''protocol'' ''DDR3'')) (\<lambda>p.
     let bg = GetInteger R ''dram_structure'' ''bankgroups'' 2;
         bpg = GetInteger R ''dram_structure'' ''banks_per_group'' 2;
         bankgroup_enable = ini_boolean R ''dram_structure'' ''bankgroup_enable'' True;
         c1 = c\<lparr>protocol := p,
           bankgroups := (if bankgroup_enable then bg else 1),
           banks_per_group := (if bankgroup_enable then bpg else bpg * bg)\<rparr>;
         c2 = c1\<lparr>banks := bankgroups c1 * banks_per_group c1,
           rows := GetInteger R ''dram_structure'' ''rows'' (2 ^ 16),
           columns := GetInteger R ''dram_structure'' ''columns'' (2 ^ 10),
           device_width := GetInteger R ''dram_structure'' ''device_width'' 8,
           num_dies := GetInteger R ''dram_structure'' ''num_dies'' 1,
           enable_hbm_dual_cmd :=
             (ini_boolean R ''dram_structure'' ''hbm_dual_cmd'' True \<and> IsHBM c1),
           num_links := GetInteger R ''hmc'' ''num_links'' 4,
           link_width := GetInteger R ''hmc'' ''link_width'' 16,
           link_speed := GetInteger R ''hmc'' ''link_speed'' 15000,
           block_size := GetInteger R ''hmc'' ''block_size'' 64,
           xbar_queue_depth := GetInteger R ''hmc'' ''xbar_queue_depth'' 16\<rparr>
     in res_bind (if IsHMC c2 then cdiv (block_size c2 * 8) (device_width c2)
                  else Inr (GetInteger R ''dram_structure'' ''BL'' 8)) (\<lambda>bl.
        let (bc, bl') = burst_params p bl
        in Inr (c2\<lparr>BL := bl', burst_cycle := bc,
                   columns := (if IsGDDR c2 then columns c2 * bl'
                               else if IsHBM c2 then columns c2 * 2 else columns c2)\<rparr>)))"

definition CalculateSize :: "Config \<Rightarrow> Config res" where
  "CalculateSize c =
     res_bind (cdiv (bus_width c) (device_width c)) (\<lambda>dpr.
     let page_size = (columns c * device_width c) sdiv 8;
         megs_per_bank = (page_size * (rows c sdiv 1024)) sdiv 1024;
         megs_per_rank = megs_per_bank * banks c * dpr;
         c1 = c\<lparr>devices_per_rank := dpr\<rparr>
     in if megs_per_rank > channel_size c1 then Inr (c1\<lparr>ranks := 1, channel_size := megs_per_rank\<rparr>)
        else res_bind (cdiv (channel_size c1) megs_per_rank) (\<lambda>rk.
             Inr (c1\<lparr>ranks := rk, channel_size := rk * megs_per_rank\<rparr>)))"

text \<open>The two-character fields of the mapping string.\<close>

fun field_tokens :: "string \<Rightarrow> string list" where
  "field_tokens (a # b # cs) = [a, b] # field_tokens cs"
| "field_tokens [a] = [[a]]"
| "field_tokens [] = []"

fun field_loop :: "(string \<Rightarrow> int option) \<Rightarrow> string list \<Rightarrow> int \<Rightarrow> (string \<Rightarrow> int option) \<Rightarrow>
    (string \<Rightarrow> int option) res" where
  "field_loop widths [] pos fp = Inr fp"
| "field_loop widths (token # ts) pos fp =
     (case widths token of None \<Rightarrow> Inl Abrupt
      | Some w \<Rightarrow> field_loop widths ts (pos + w) (fp(token \<mapsto> pos)))"

text \<open>\<open>map::at\<close> throws for a missing key; \<open>1 << w\<close> of an \<open>int\<close> is undefined outside \<open>0 \<le> w < 31\<close>.\<close>

definition map_at :: "(string \<Rightarrow> int option) \<Rightarrow> string \<Rightarrow> int res" where
  "map_at m k = (case m k of None \<Rightarrow> Inl (Thrown ''out_of_range'') | Some v \<Rightarrow> Inr v)"

definition mask_of :: "int \<Rightarrow> u64 res" where
  "mask_of w = (if 0 \<le> w \<and> w < 31 then Inr (2 ^ nat w - 1) else Inl BadConv)"

definition field_widths :: "Config \<Rightarrow> string \<Rightarrow> int option" where
  "field_widths c = [''ch'' \<mapsto> LogBase2 (channels c), ''ra'' \<mapsto> LogBase2 (ranks c),
     ''bg'' \<mapsto> LogBase2 (bankgroups c), ''ba'' \<mapsto> LogBase2 (banks_per_group c),
     ''ro'' \<mapsto> LogBase2 (rows c), ''co'' \<mapsto> LogBase2 (columns c) - LogBase2 (BL c)]"

definition SetAddressMapping :: "Config \<Rightarrow> Config res" where
  "SetAddressMapping c0 =
     (let req = (bus_width c0 sdiv 8) * BL c0;
          c = c0\<lparr>request_size_bytes := req, shift_bits := LogBase2 req\<rparr>;
          W = field_widths c
      in if length (address_mapping c) \<noteq> 12 then Inl Abrupt
         else res_bind (field_loop W (rev (field_tokens (address_mapping c))) 0 Map.empty) (\<lambda>P.
           res_bind (map_at P ''ch'') (\<lambda>ch. res_bind (map_at P ''ra'') (\<lambda>ra.
           res_bind (map_at P ''bg'') (\<lambda>bg. res_bind (map_at P ''ba'') (\<lambda>ba.
           res_bind (map_at P ''ro'') (\<lambda>ro. res_bind (map_at P ''co'') (\<lambda>co.
           res_bind (mask_of (LogBase2 (channels c))) (\<lambda>chm.
           res_bind (mask_of (LogBase2 (ranks c))) (\<lambda>ram.
           res_bind (mask_of (LogBase2 (bankgroups c))) (\<lambda>bgm.
           res_bind (mask_of (LogBase2 (banks_per_group c))) (\<lambda>bam.
           res_bind (mask_of (LogBase2 (rows c))) (\<lambda>rom.
           res_bind (mask_of (LogBase2 (columns c) - LogBase2 (BL c))) (\<lambda>com.
           Inr (c\<lparr>ch_pos := ch, ra_pos := ra, bg_pos := bg, ba_pos := ba, ro_pos := ro, co_pos := co,
                  ch_mask := chm, ra_mask := ram, bg_mask := bgm, ba_mask := bam, ro_mask := rom,
                  co_mask := com\<rparr>)))))))))))))))"

definition InitTimingParams :: "ini_reader \<Rightarrow> Config \<Rightarrow> Config" where
  "InitTimingParams R c =
     (let T = GetInteger R ''timing'';
          c1 = c\<lparr>AL := T ''AL'' 0, CL := T ''CL'' 12, CWL := T ''CWL'' 12, tCCD_L := T ''tCCD_L'' 6,
            tCCD_S := T ''tCCD_S'' 4, tRTRS := T ''tRTRS'' 2, tRTP := T ''tRTP'' 5,
            tWTR_L := T ''tWTR_L'' 5, tWTR_S := T ''tWTR_S'' 5, tWR := T ''tWR'' 10,
            tRP := T ''tRP'' 10, tRRD_L := T ''tRRD_L'' 4, tRRD_S := T ''tRRD_S'' 4,
            tRAS := T ''tRAS'' 24, tRCD := T ''tRCD'' 10\<rparr>;
          c2 = c1\<lparr>tRFC := T ''tRFC'' 74, tRC := tRAS c1 + tRP c1, tCKE := T ''tCKE'' 6,
            tCKESR := T ''tCKESR'' 12, tXS := T ''tXS'' 432, tXP := T ''tXP'' 8,
            tRFCb := T ''tRFCb'' 20, tREFI := T ''tREFI'' 7800, tREFIb := T ''tREFIb'' 1950,
            tFAW := T ''tFAW'' 50, tRPRE := T ''tRPRE'' 1, tWPRE := T ''tWPRE'' 1,
            tPPD := T ''tPPD'' 0, t32AW := T ''t32AW'' 330, tRCDRD := T ''tRCDRD'' 24,
            tRCDWR := T ''tRCDWR'' 20, ideal_memory_latency := T ''ideal_memory_latency'' 10\<rparr>;
          c3 = c2\<lparr>RL := AL c2 + CL c2, WL := AL c2 + CWL c2\<rparr>
      in c3\<lparr>read_delay := RL c3 + burst_cycle c3, write_delay := WL c3 + burst_cycle c3\<rparr>)"

definition InitOtherParams :: "ini_reader \<Rightarrow> Config \<Rightarrow> Config" where
  "InitOtherParams R c = c\<lparr>epoch_period := GetInteger R ''other'' ''epoch_period'' 100000\<rparr>"

text \<open>The members are indeterminate before the constructor runs: \<open>c0\<close> holds whatever was there.\<close>

definition Config_new :: "ini_reader \<Rightarrow> Config \<Rightarrow> Config res" where
  "Config_new R c0 =
     (if ini_error R < 0 then Inl Abrupt
      else res_bind (InitSystemParams R c0) (\<lambda>c1.
           res_bind (InitDRAMParams R c1) (\<lambda>c2.
           res_bind (CalculateSize c2) (\<lambda>c3.
           res_bind (SetAddressMapping c3) (\<lambda>c4.
           Inr (InitOtherParams R (InitTimingParams R c4)))))))"

definition AddressMapping :: "('a) ConfigMapping_scheme \<Rightarrow> u64 \<Rightarrow> Address res" where
  "AddressMapping c hex =
     res_bind (shr64 hex (shift_bits c)) (\<lambda>h.
     res_bind (shr64 h (ch_pos c)) (\<lambda>ch. res_bind (shr64 h (ra_pos c)) (\<lambda>ra.
     res_bind (shr64 h (bg_pos c)) (\<lambda>bg. res_bind (shr64 h (ba_pos c)) (\<lambda>ba.
     res_bind (shr64 h (ro_pos c)) (\<lambda>ro. res_bind (shr64 h (co_pos c)) (\<lambda>co.
     Inr \<lparr>ad_channel = uint (ch AND ch_mask c), ad_rank = uint (ra AND ra_mask c),
          ad_bankgroup = uint (bg AND bg_mask c), ad_bank = uint (ba AND ba_mask c),
          ad_row = uint (ro AND ro_mask c), ad_column = uint (co AND co_mask c)\<rparr>)))))))"

section \<open>The address mapping\<close>

text \<open>
  The bit fields of a successful configuration: the six tokens of the mapping string, from the least
  significant field on, take consecutive bit ranges.
\<close>

fun fields_at :: "(string \<Rightarrow> int option) \<Rightarrow> (string \<Rightarrow> int option) \<Rightarrow> string list \<Rightarrow> int \<Rightarrow> bool" where
  "fields_at W P [] pos = True"
| "fields_at W P (t # ts) pos =
     (P t = Some pos \<and> (\<exists>w. W t = Some w \<and> fields_at W P ts (pos + w)))"

lemma field_loop_other:
  "field_loop W ts pos P = Inr P' \<Longrightarrow> t \<notin> set ts \<Longrightarrow> P' t = P t"
proof (induction ts arbitrary: pos P)
  case Nil
  then show ?case by simp
next
  case (Cons a ts)
  then show ?case by (auto split: option.splits)
qed

lemma field_loop_dom:
  "field_loop W ts pos P = Inr P' \<Longrightarrow> P' t \<noteq> None \<Longrightarrow> t \<in> set ts \<or> P t \<noteq> None"
  by (metis field_loop_other)

lemma field_loop_fields:
  "field_loop W ts pos P = Inr P' \<Longrightarrow> distinct ts \<Longrightarrow> fields_at W P' ts pos"
proof (induction ts arbitrary: pos P)
  case Nil
  then show ?case by simp
next
  case (Cons a ts)
  then show ?case using field_loop_other [of W ts _ _ P' a] by (auto split: option.splits)
qed

lemma take_bit_split_iff:
  fixes x y :: "'a::len word"
  shows "take_bit (m + n) x = take_bit (m + n) y \<longleftrightarrow>
    take_bit m x = take_bit m y \<and> take_bit n (drop_bit m x) = take_bit n (drop_bit m y)"
  (is "?l \<longleftrightarrow> ?a \<and> ?b")
proof
  assume l: ?l
  have "take_bit m (take_bit (m + n) x) = take_bit m (take_bit (m + n) y)"
    "drop_bit m (take_bit (m + n) x) = drop_bit m (take_bit (m + n) y)" using l by simp_all
  then show "?a \<and> ?b" by (simp add: drop_bit_take_bit)
next
  assume ab: "?a \<and> ?b"
  show ?l
  proof (rule bit_eqI)
    fix i
    show "bit (take_bit (m + n) x) i = bit (take_bit (m + n) y) i"
    proof (cases "i < m")
      case True
      have "bit (take_bit m x) i = bit (take_bit m y) i" using ab by simp
      with True show ?thesis by (simp add: bit_take_bit_iff)
    next
      case False
      have "bit (take_bit n (drop_bit m x)) (i - m) = bit (take_bit n (drop_bit m y)) (i - m)"
        using ab by simp
      with False show ?thesis by (auto simp: bit_take_bit_iff bit_drop_bit_eq)
    qed
  qed
qed

text \<open>The value of one field of a line number, and when all fields of two line numbers agree.\<close>

definition field_val :: "u64 \<Rightarrow> int \<Rightarrow> int \<Rightarrow> u64" where
  "field_val h pos w = take_bit (nat w) (drop_bit (nat pos) h)"

definition token_eq :: "(string \<Rightarrow> int option) \<Rightarrow> (string \<Rightarrow> int option) \<Rightarrow> u64 \<Rightarrow> u64 \<Rightarrow> string \<Rightarrow> bool" where
  "token_eq W P h h' t \<longleftrightarrow> field_val h (the (P t)) (the (W t)) = field_val h' (the (P t)) (the (W t))"

lemma fields_at_sum:
  "fields_at W P ts pos \<Longrightarrow> (\<And>t w. t \<in> set ts \<Longrightarrow> W t = Some w \<Longrightarrow> 0 \<le> w) \<Longrightarrow>
   0 \<le> (\<Sum>t\<leftarrow>ts. the (W t))"
proof (induction ts arbitrary: pos)
  case Nil
  then show ?case by simp
next
  case (Cons t ts)
  from Cons.prems(1) obtain w where w: "W t = Some w" "fields_at W P ts (pos + w)" by auto
  have "0 \<le> w" using Cons.prems(2) [of t w] w by simp
  moreover have "0 \<le> (\<Sum>t\<leftarrow>ts. the (W t))"
    by (rule Cons.IH [OF w(2)]) (use Cons.prems(2) in auto)
  ultimately show ?case using w by simp
qed

lemma fields_at_agree:
  "fields_at W P ts pos \<Longrightarrow> 0 \<le> pos \<Longrightarrow> (\<And>t w. t \<in> set ts \<Longrightarrow> W t = Some w \<Longrightarrow> 0 \<le> w) \<Longrightarrow>
   (\<forall>t \<in> set ts. token_eq W P h h' t) \<longleftrightarrow>
   field_val h pos (\<Sum>t\<leftarrow>ts. the (W t)) = field_val h' pos (\<Sum>t\<leftarrow>ts. the (W t))"
proof (induction ts arbitrary: pos)
  case Nil
  then show ?case by (simp add: field_val_def)
next
  case (Cons t ts)
  from Cons.prems obtain w where w: "W t = Some w" "P t = Some pos" "fields_at W P ts (pos + w)"
    by auto
  have w0: "0 \<le> w" using Cons.prems(3) [of t w] w by simp
  have s0: "0 \<le> (\<Sum>t\<leftarrow>ts. the (W t))"
    by (rule fields_at_sum [OF w(3)]) (use Cons.prems(3) in auto)
  have "(\<forall>t \<in> set ts. token_eq W P h h' t) \<longleftrightarrow>
    field_val h (pos + w) (\<Sum>t\<leftarrow>ts. the (W t)) = field_val h' (pos + w) (\<Sum>t\<leftarrow>ts. the (W t))"
    by (intro Cons.IH [OF w(3)]) (use Cons.prems w0 in auto)
  moreover have "nat (w + (\<Sum>t\<leftarrow>ts. the (W t))) = nat w + nat (\<Sum>t\<leftarrow>ts. the (W t))"
    using w0 s0 by (rule nat_add_distrib)
  moreover have "nat (pos + w) = nat w + nat pos" using Cons.prems(2) w0 by simp
  ultimately show ?case using w
    by (simp add: token_eq_def field_val_def take_bit_split_iff)
qed

lemma field_tokens_12: "length s = 12 \<Longrightarrow> length (field_tokens s) = 6"
  by (auto simp: numeral_eq_Suc length_Suc_conv)

lemma uint_field:
  "mask_of w = Inr m \<Longrightarrow> uint (drop_bit n h AND m) = uint (field_val h (int n) w)"
  by (auto simp: mask_of_def field_val_def take_bit_eq_mask mask_eq_exp_minus_1 split: if_splits)

lemma field_val_less:
  "0 \<le> w \<Longrightarrow> uint (field_val h p w) < 2 ^ nat w"
  by (simp add: field_val_def unsigned_take_bit_eq)

definition field_names :: "string list" where
  "field_names = [''ch'', ''ra'', ''bg'', ''ba'', ''ro'', ''co'']"

text \<open>What the mapping parameters of a constructed configuration satisfy.\<close>

definition mapping_ok :: "Config \<Rightarrow> bool" where
  "mapping_ok C \<longleftrightarrow> (\<exists>P ts. distinct ts \<and> set ts = set field_names \<and> fields_at (field_widths C) P ts 0 \<and>
     P ''ch'' = Some (ch_pos C) \<and> P ''ra'' = Some (ra_pos C) \<and> P ''bg'' = Some (bg_pos C) \<and>
     P ''ba'' = Some (ba_pos C) \<and> P ''ro'' = Some (ro_pos C) \<and> P ''co'' = Some (co_pos C)) \<and>
   mask_of (LogBase2 (channels C)) = Inr (ch_mask C) \<and> mask_of (LogBase2 (ranks C)) = Inr (ra_mask C) \<and>
   mask_of (LogBase2 (bankgroups C)) = Inr (bg_mask C) \<and>
   mask_of (LogBase2 (banks_per_group C)) = Inr (ba_mask C) \<and>
   mask_of (LogBase2 (rows C)) = Inr (ro_mask C) \<and>
   mask_of (LogBase2 (columns C) - LogBase2 (BL C)) = Inr (co_mask C) \<and> 0 \<le> shift_bits C"

lemma map_at_Inr [simp]: "map_at m k = Inr v \<longleftrightarrow> m k = Some v"
  by (auto simp: map_at_def split: option.splits)

lemma SetAddressMapping_ok:
  assumes "SetAddressMapping c = Inr C"
  shows "mapping_ok C"
proof -
  let ?c = "c\<lparr>request_size_bytes := (bus_width c sdiv 8) * BL c, shift_bits := LogBase2 ((bus_width c sdiv 8) * BL c)\<rparr>"
  let ?ts = "rev (field_tokens (address_mapping c))"
  from assms obtain P where l: "length (address_mapping c) = 12"
    and P: "field_loop (field_widths ?c) ?ts 0 Map.empty = Inr P"
      "P ''ch'' = Some (ch_pos C)" "P ''ra'' = Some (ra_pos C)" "P ''bg'' = Some (bg_pos C)"
      "P ''ba'' = Some (ba_pos C)" "P ''ro'' = Some (ro_pos C)" "P ''co'' = Some (co_pos C)"
    and M: "mask_of (LogBase2 (channels C)) = Inr (ch_mask C)"
      "mask_of (LogBase2 (ranks C)) = Inr (ra_mask C)"
      "mask_of (LogBase2 (bankgroups C)) = Inr (bg_mask C)"
      "mask_of (LogBase2 (banks_per_group C)) = Inr (ba_mask C)"
      "mask_of (LogBase2 (rows C)) = Inr (ro_mask C)"
      "mask_of (LogBase2 (columns C) - LogBase2 (BL C)) = Inr (co_mask C)"
    and W: "field_widths C = field_widths ?c" and S: "shift_bits C = LogBase2 ((bus_width c sdiv 8) * BL c)"
    by (auto simp: SetAddressMapping_def Let_def field_widths_def split: if_splits)
  have sub: "set field_names \<subseteq> set ?ts"
    using field_loop_dom [OF P(1)] P(2-) by (auto simp: field_names_def)
  have n: "card (set field_names) = 6" by (simp add: field_names_def)
  have "length ?ts = 6" using field_tokens_12 [OF l] by simp
  then have "card (set ?ts) \<le> 6" by (metis card_length)
  then have eq: "set ?ts = set field_names"
    using card_seteq [OF _ sub] n by simp
  then have d: "distinct ?ts"
    using n \<open>length ?ts = 6\<close> by (metis card_distinct)
  have "\<exists>P ts. distinct ts \<and> set ts = set field_names \<and> fields_at (field_widths C) P ts 0 \<and>
     P ''ch'' = Some (ch_pos C) \<and> P ''ra'' = Some (ra_pos C) \<and> P ''bg'' = Some (bg_pos C) \<and>
     P ''ba'' = Some (ba_pos C) \<and> P ''ro'' = Some (ro_pos C) \<and> P ''co'' = Some (co_pos C)"
    using field_loop_fields [OF P(1) d] d eq P(2-) W
    by (intro exI [of _ P] exI [of _ ?ts]) simp
  with M S LogBase2_nonneg show ?thesis unfolding mapping_ok_def by metis
qed

lemma mapping_ok_cong:
  assumes "mapping_ok c" and "channels C = channels c" "ranks C = ranks c" "bankgroups C = bankgroups c"
    "banks_per_group C = banks_per_group c" "rows C = rows c" "columns C = columns c" "BL C = BL c"
    "ch_pos C = ch_pos c" "ra_pos C = ra_pos c" "bg_pos C = bg_pos c" "ba_pos C = ba_pos c"
    "ro_pos C = ro_pos c" "co_pos C = co_pos c" "ch_mask C = ch_mask c" "ra_mask C = ra_mask c"
    "bg_mask C = bg_mask c" "ba_mask C = ba_mask c" "ro_mask C = ro_mask c" "co_mask C = co_mask c"
    "shift_bits C = shift_bits c"
  shows "mapping_ok C"
  using assms by (simp add: mapping_ok_def field_widths_def)

lemma Config_new_mapping:
  assumes "Config_new R c0 = Inr C"
  shows "mapping_ok C"
proof -
  from assms obtain c3 c4 where "SetAddressMapping c3 = Inr c4"
    and C: "C = InitOtherParams R (InitTimingParams R c4)"
    by (auto simp: Config_new_def split: if_splits)
  then have "mapping_ok c4" by (simp add: SetAddressMapping_ok)
  then show ?thesis
    by (rule mapping_ok_cong) (simp_all add: C InitOtherParams_def InitTimingParams_def Let_def)
qed

lemma AddressMapping_Inr:
  "AddressMapping C a = Inr ad \<Longrightarrow> mapping_ok C \<Longrightarrow>
   0 \<le> ch_pos C \<and> 0 \<le> ra_pos C \<and> 0 \<le> bg_pos C \<and> 0 \<le> ba_pos C \<and> 0 \<le> ro_pos C \<and> 0 \<le> co_pos C \<and>
   (let h = drop_bit (nat (shift_bits C)) a in
    ad = \<lparr>ad_channel = uint (field_val h (ch_pos C) (LogBase2 (channels C))),
          ad_rank = uint (field_val h (ra_pos C) (LogBase2 (ranks C))),
          ad_bankgroup = uint (field_val h (bg_pos C) (LogBase2 (bankgroups C))),
          ad_bank = uint (field_val h (ba_pos C) (LogBase2 (banks_per_group C))),
          ad_row = uint (field_val h (ro_pos C) (LogBase2 (rows C))),
          ad_column = uint (field_val h (co_pos C) (LogBase2 (columns C) - LogBase2 (BL C)))\<rparr>)"
  unfolding mapping_ok_def AddressMapping_def Let_def
  by (clarsimp simp: uint_field simp del: drop_bit_drop_bit)

text \<open>The fields are within the device: the masks never exceed the counts, powers of two or not.\<close>

definition in_device :: "Config \<Rightarrow> Address \<Rightarrow> bool" where
  "in_device C ad \<longleftrightarrow> 0 \<le> ad_channel ad \<and> ad_channel ad < channels C \<and> 0 \<le> ad_rank ad \<and> ad_rank ad < ranks C \<and>
     0 \<le> ad_bankgroup ad \<and> ad_bankgroup ad < bankgroups C \<and> 0 \<le> ad_bank ad \<and> ad_bank ad < banks_per_group C \<and>
     0 \<le> ad_row ad \<and> ad_row ad < rows C"

lemma field_val_LogBase2: "1 \<le> n \<Longrightarrow> uint (field_val h p (LogBase2 n)) < n"
  using field_val_less [of "LogBase2 n" h p] LogBase2_bounds [of n] by linarith

lemma AddressMapping_in_device_at:
  assumes "AddressMapping C a = Inr ad" and "mapping_ok C" and "1 \<le> channels C" "1 \<le> ranks C"
    "1 \<le> bankgroups C" "1 \<le> banks_per_group C" "1 \<le> rows C"
  shows "in_device C ad"
  using AddressMapping_Inr [OF assms(1,2)] assms(3-) by (simp add: in_device_def Let_def field_val_LogBase2)


lemma field_val_eq_iff: "uint (field_val h p w) = uint (field_val h' p w) \<longleftrightarrow> field_val h p w = field_val h' p w"
  by (simp add: word_uint_eq_iff)

lemma field_widths_simps:
  "field_widths C ''ch'' = Some (LogBase2 (channels C))"
  "field_widths C ''ra'' = Some (LogBase2 (ranks C))"
  "field_widths C ''bg'' = Some (LogBase2 (bankgroups C))"
  "field_widths C ''ba'' = Some (LogBase2 (banks_per_group C))"
  "field_widths C ''ro'' = Some (LogBase2 (rows C))"
  "field_widths C ''co'' = Some (LogBase2 (columns C) - LogBase2 (BL C))"
  by (simp_all add: field_widths_def)

definition line_bits :: "Config \<Rightarrow> int" where
  "line_bits C = (\<Sum>t\<leftarrow>field_names. the (field_widths C t))"

lemma mapping_okE:
  assumes "mapping_ok C"
    and "\<lbrakk>mask_of (LogBase2 (channels C)) = Inr (ch_mask C); mask_of (LogBase2 (ranks C)) = Inr (ra_mask C);
      mask_of (LogBase2 (bankgroups C)) = Inr (bg_mask C);
      mask_of (LogBase2 (banks_per_group C)) = Inr (ba_mask C);
      mask_of (LogBase2 (rows C)) = Inr (ro_mask C);
      mask_of (LogBase2 (columns C) - LogBase2 (BL C)) = Inr (co_mask C); 0 \<le> shift_bits C\<rbrakk> \<Longrightarrow> Q"
  shows Q
  using assms unfolding mapping_ok_def by blast

lemma field_widths_nonneg:
  assumes "mapping_ok C" and "t \<in> set field_names"
  shows "\<exists>w. field_widths C t = Some w \<and> 0 \<le> w"
  using assms(1) by (rule mapping_okE)
    (use assms(2) in \<open>auto simp: field_names_def field_widths_simps mask_of_def split: if_splits\<close>)

lemma mapping_ok_fields:
  assumes "mapping_ok C"
  obtains P ts where "set ts = set field_names" "fields_at (field_widths C) P ts 0"
    "(\<Sum>t\<leftarrow>ts. the (field_widths C t)) = line_bits C"
    "P ''ch'' = Some (ch_pos C)" "P ''ra'' = Some (ra_pos C)" "P ''bg'' = Some (bg_pos C)"
    "P ''ba'' = Some (ba_pos C)" "P ''ro'' = Some (ro_pos C)" "P ''co'' = Some (co_pos C)"
proof -
  from assms obtain P ts where ts: "distinct ts" "set ts = set field_names"
      "fields_at (field_widths C) P ts 0"
    and P: "P ''ch'' = Some (ch_pos C)" "P ''ra'' = Some (ra_pos C)" "P ''bg'' = Some (bg_pos C)"
      "P ''ba'' = Some (ba_pos C)" "P ''ro'' = Some (ro_pos C)" "P ''co'' = Some (co_pos C)"
    unfolding mapping_ok_def by auto
  have "mset ts = mset field_names"
    using ts by (intro set_eq_iff_mset_eq_distinct [THEN iffD1]) (auto simp: field_names_def)
  then have "(\<Sum>t\<leftarrow>ts. the (field_widths C t)) = line_bits C"
    unfolding line_bits_def by (metis mset_map sum_mset_sum_list)
  with ts P that show thesis by blast
qed

lemma AddressMapping_eq_iff:
  assumes "mapping_ok C" and "AddressMapping C a = Inr x" and "AddressMapping C b = Inr y"
  shows "x = y \<longleftrightarrow> take_bit (nat (line_bits C)) (drop_bit (nat (shift_bits C)) a) =
    take_bit (nat (line_bits C)) (drop_bit (nat (shift_bits C)) b)"
proof -
  let ?h = "drop_bit (nat (shift_bits C)) a" and ?h' = "drop_bit (nat (shift_bits C)) b"
  let ?W = "field_widths C"
  from mapping_ok_fields [OF assms(1)] obtain P ts where ts: "set ts = set field_names"
      "fields_at ?W P ts 0" "(\<Sum>t\<leftarrow>ts. the (?W t)) = line_bits C"
    and P: "P ''ch'' = Some (ch_pos C)" "P ''ra'' = Some (ra_pos C)" "P ''bg'' = Some (bg_pos C)"
      "P ''ba'' = Some (ba_pos C)" "P ''ro'' = Some (ro_pos C)" "P ''co'' = Some (co_pos C)" .
  have W: "0 \<le> w" if "t \<in> set ts" "?W t = Some w" for t w
    using field_widths_nonneg [OF assms(1), of t] that ts(1) by auto
  have "x = y \<longleftrightarrow> (\<forall>t \<in> set ts. token_eq ?W P ?h ?h' t)"
    unfolding ts(1) field_names_def token_eq_def
    using AddressMapping_Inr [OF assms(2,1)] AddressMapping_Inr [OF assms(3,1)]
    by (simp add: P field_widths_simps Let_def field_val_eq_iff del: drop_bit_drop_bit)
  also have "\<dots> \<longleftrightarrow> field_val ?h 0 (\<Sum>t\<leftarrow>ts. the (?W t)) = field_val ?h' 0 (\<Sum>t\<leftarrow>ts. the (?W t))"
    by (rule fields_at_agree [OF ts(2)]) (use W in auto)
  finally show ?thesis by (simp add: field_val_def ts(3))
qed

lemma fields_at_range:
  "fields_at W P ts pos \<Longrightarrow> (\<And>t w. t \<in> set ts \<Longrightarrow> W t = Some w \<Longrightarrow> 0 \<le> w) \<Longrightarrow> t \<in> set ts \<Longrightarrow>
   pos \<le> the (P t) \<and> the (P t) \<le> pos + (\<Sum>t\<leftarrow>ts. the (W t))"
proof (induction ts arbitrary: pos)
  case Nil
  then show ?case by simp
next
  case (Cons a ts)
  from Cons.prems(1) obtain w where w: "W a = Some w" "P a = Some pos" "fields_at W P ts (pos + w)" by auto
  have w0: "0 \<le> w" using Cons.prems(2) [of a w] w by simp
  show ?case
  proof (cases "t \<in> set ts")
    case True
    with Cons.IH [OF w(3)] Cons.prems(2) w w0 show ?thesis by force
  next
    case False
    with Cons.prems(3) have [simp]: "t = a" by simp
    have "0 \<le> (\<Sum>t\<leftarrow>ts. the (W t))"
      by (rule fields_at_sum [OF w(3)]) (use Cons.prems(2) in auto)
    with w w0 show ?thesis by simp
  qed
qed

lemma AddressMapping_total:
  assumes "mapping_ok C" and "shift_bits C < 64" and "line_bits C < 64"
  shows "\<exists>ad. AddressMapping C a = Inr ad"
proof -
  from mapping_ok_fields [OF assms(1)] obtain P ts where ts: "set ts = set field_names"
      "fields_at (field_widths C) P ts 0" "(\<Sum>t\<leftarrow>ts. the (field_widths C t)) = line_bits C"
    and P: "P ''ch'' = Some (ch_pos C)" "P ''ra'' = Some (ra_pos C)" "P ''bg'' = Some (bg_pos C)"
      "P ''ba'' = Some (ba_pos C)" "P ''ro'' = Some (ro_pos C)" "P ''co'' = Some (co_pos C)" .
  have r: "0 \<le> the (P t) \<and> the (P t) < 64" if "t \<in> set field_names" for t
    using fields_at_range [OF ts(2), of t] field_widths_nonneg [OF assms(1)] that ts assms(3) by force
  have "0 \<le> shift_bits C" using assms(1) by (rule mapping_okE)
  moreover have "shr64 h p = Inr (drop_bit (nat p) h)" if "0 \<le> p" "p < 64" for h p
    using that by simp
  moreover note r [of "''ch''"] r [of "''ra''"] r [of "''bg''"] r [of "''ba''"] r [of "''ro''"] r [of "''co''"]
  ultimately show ?thesis using assms(2)
    by (simp only: AddressMapping_def P field_names_def option.sel list.set insert_iff simp_thms
      res_bind_Inr sum.inject)
qed

section \<open>The default configuration\<close>

text \<open>
  A reader for a file in which no option is set, every getter answers with the default; and the
  configuration built from it: one rank of a DDR3 device. \<open>Config_zero\<close> is one possible content of
  the members before construction.
\<close>

definition ini_defaults :: ini_reader where
  "ini_defaults = \<lparr>ini_error = 0, ini_string = (\<lambda>_ _ d. d), ini_integer = (\<lambda>_ _ d. d),
     ini_boolean = (\<lambda>_ _ d. d)\<rparr>"

definition Config_zero :: Config where
  "Config_zero = \<lparr>protocol = DDR3, channel_size = 0, channels = 0, ranks = 0, banks = 0, bankgroups = 0,
     banks_per_group = 0, rows = 0, columns = 0, device_width = 0, bus_width = 0, devices_per_rank =
     0, BL = 0, shift_bits = 0, ch_pos = 0, ra_pos = 0, bg_pos = 0, ba_pos = 0, ro_pos = 0, co_pos =
     0, ch_mask = 0, ra_mask = 0, bg_mask = 0, ba_mask = 0, ro_mask = 0, co_mask = 0, burst_cycle =
     0, AL = 0, CL = 0, CWL = 0, RL = 0, WL = 0, tCCD_L = 0, tCCD_S = 0, tRTRS = 0, tRTP = 0, tWTR_L
     = 0, tWTR_S = 0, tWR = 0, tRP = 0, tRRD_L = 0, tRRD_S = 0, tRAS = 0, tRCD = 0, tRFC = 0, tRC =
     0, tCKE = 0, tCKESR = 0, tXS = 0, tXP = 0, tRFCb = 0, tREFI = 0, tREFIb = 0, tFAW = 0, tRPRE =
     0, tWPRE = 0, read_delay = 0, write_delay = 0, tPPD = 0, t32AW = 0, tRCDRD = 0, tRCDWR = 0,
     num_links = 0, num_dies = 0, link_width = 0, link_speed = 0, block_size = 0, xbar_queue_depth =
     0, address_mapping = '''', queue_structure = '''', row_buf_policy = '''', refresh_policy =
     RANK_LEVEL_STAGGERED, cmd_queue_size = 0, unified_queue = False, trans_queue_size = 0,
     write_buf_size = 0, enable_self_refresh = False, sref_threshold = 0,
     aggressive_precharging_enabled = False, enable_hbm_dual_cmd = False, epoch_period = 0,
     request_size_bytes = 0, ideal_memory_latency = 0\<rparr>"

definition config_default :: Config where
  "config_default = \<lparr>protocol = DDR3, channel_size = 2048, channels = 1, ranks = 1,
     banks = 4, bankgroups = 2, banks_per_group = 2, rows = 65536,
     columns = 1024, device_width = 8, bus_width = 64,
     devices_per_rank = 8, BL = 8, shift_bits = 6, ch_pos = 25,
     ra_pos = 7, bg_pos = 7, ba_pos = 8, ro_pos = 9, co_pos = 0,
     ch_mask = 0, ra_mask = 0, bg_mask = 1, ba_mask = 1, ro_mask = 65535,
     co_mask = 127, burst_cycle = 4, AL = 0, CL = 12, CWL = 12, RL = 12,
     WL = 12, tCCD_L = 6, tCCD_S = 4, tRTRS = 2, tRTP = 5, tWTR_L = 5,
     tWTR_S = 5, tWR = 10, tRP = 10, tRRD_L = 4, tRRD_S = 4, tRAS = 24,
     tRCD = 10, tRFC = 74, tRC = 34, tCKE = 6, tCKESR = 12, tXS = 432,
     tXP = 8, tRFCb = 20, tREFI = 7800, tREFIb = 1950, tFAW = 50,
     tRPRE = 1, tWPRE = 1, read_delay = 16, write_delay = 16, tPPD = 0,
     t32AW = 330, tRCDRD = 24, tRCDWR = 20, num_links = 4, num_dies = 1,
     link_width = 16, link_speed = 15000, block_size = 64,
     xbar_queue_depth = 16, address_mapping = ''chrobabgraco'',
     queue_structure = ''PER_BANK'', row_buf_policy = ''OPEN_PAGE'',
     refresh_policy = RANK_LEVEL_STAGGERED, cmd_queue_size = 16,
     unified_queue = False, trans_queue_size = 32, write_buf_size = 16,
     enable_self_refresh = False, sref_threshold = 1000,
     aggressive_precharging_enabled = False, enable_hbm_dual_cmd = False,
     epoch_period = 100000, request_size_bytes = 64, ideal_memory_latency = 10\<rparr>"

lemma LogBase2_numerals [simp]: "LogBase2 1 = 0" "LogBase2 2 = 1" "LogBase2 8 = 3" "LogBase2 64 = 6"
  "LogBase2 1024 = 10" "LogBase2 65536 = 16"
  using LogBase2_power [of 0] LogBase2_power [of 1] LogBase2_power [of 3] LogBase2_power [of 6]
    LogBase2_power [of 10] LogBase2_power [of 16] by simp_all

lemma Config_default: "Config_new ini_defaults Config_zero = Inr config_default"
  by code_simp


text \<open>
  C18. The address mapping of every configuration that constructs is total, stays inside the device
  and is injective on lines: provided the mapped bits fit in an address, every byte address gets a
  channel, rank, bank group, bank and row below the configured counts (whether or not these are
  powers of two), and two addresses get the same location exactly when they agree on the
  \<open>line_bits\<close> bits above the offset inside a request.
\<close>

theorem address_mapping:
  assumes "Config_new R c0 = Inr C" and "shift_bits C < 64" and "line_bits C < 64"
    and "1 \<le> channels C" "1 \<le> ranks C" "1 \<le> bankgroups C" "1 \<le> banks_per_group C" "1 \<le> rows C"
  shows "\<exists>ad. AddressMapping C a = Inr ad \<and> in_device C ad \<and>
    (\<forall>b. AddressMapping C b = Inr ad \<longleftrightarrow>
       take_bit (nat (line_bits C)) (drop_bit (nat (shift_bits C)) b) =
       take_bit (nat (line_bits C)) (drop_bit (nat (shift_bits C)) a))"
proof -
  note ok = Config_new_mapping [OF assms(1)]
  from AddressMapping_total [OF ok assms(2,3)] obtain f where f: "\<And>b. AddressMapping C b = Inr (f b)"
    by metis
  have "in_device C (f a)" by (rule AddressMapping_in_device_at [OF f ok assms(4-)])
  with AddressMapping_eq_iff [OF ok f f] f show ?thesis by auto
qed

lemma config_default_fields:
  "channels config_default = 1" "ranks config_default = 1" "bankgroups config_default = 2"
  "banks_per_group config_default = 2" "rows config_default = 65536" "shift_bits config_default = 6"
  "line_bits config_default = 25"
  by (simp_all add: config_default_def line_bits_def field_names_def field_widths_def)

theorem address_mapping_witness:
  "\<exists>ad. AddressMapping config_default 4096 = Inr ad \<and> in_device config_default ad"
  using address_mapping [OF Config_default] by (auto simp: config_default_fields)

end
