(* ===== verification/Dram_Timing.thy ===== *)
theory Dram_Timing
  imports Dram_Config
begin

text \<open>
  The command-to-command delays of the DRAM simulator, \<open>src/DRAMsim3/src/timing.cc\<close>: for every
  issued command type, the commands it delays and by how much, in the same bank, in the other banks of
  the bank group, in the other bank groups of the rank, in the other ranks and, for rank commands, in
  the whole rank. A table indexed by the command type is a function of the command type; an entry the
  constructor does not assign stays empty.
\<close>

section \<open>Delays\<close>

text \<open>With a single bank group the short delays replace the long ones.\<close>

definition read_to_read_l :: "Config \<Rightarrow> int" where
  "read_to_read_l c = max (burst_cycle c) (if bankgroups c = 1 then tCCD_S c else tCCD_L c)"

definition read_to_read_s :: "Config \<Rightarrow> int" where
  "read_to_read_s c = max (burst_cycle c) (tCCD_S c)"

definition read_to_read_o :: "Config \<Rightarrow> int" where
  "read_to_read_o c = burst_cycle c + tRTRS c"

definition read_to_write :: "Config \<Rightarrow> int" where
  "read_to_write c = RL c + burst_cycle c - WL c + tRTRS c"

definition read_to_write_o :: "Config \<Rightarrow> int" where
  "read_to_write_o c = read_delay c + burst_cycle c + tRTRS c - write_delay c"

definition read_to_precharge :: "Config \<Rightarrow> int" where
  "read_to_precharge c = AL c + tRTP c"

definition readp_to_act :: "Config \<Rightarrow> int" where
  "readp_to_act c = AL c + burst_cycle c + tRTP c + tRP c"

definition write_to_read_l :: "Config \<Rightarrow> int" where
  "write_to_read_l c = write_delay c + (if bankgroups c = 1 then tWTR_S c else tWTR_L c)"

definition write_to_read_s :: "Config \<Rightarrow> int" where
  "write_to_read_s c = write_delay c + tWTR_S c"

definition write_to_read_o :: "Config \<Rightarrow> int" where
  "write_to_read_o c = write_delay c + burst_cycle c + tRTRS c - read_delay c"

definition write_to_write_l :: "Config \<Rightarrow> int" where
  "write_to_write_l c = max (burst_cycle c) (if bankgroups c = 1 then tCCD_S c else tCCD_L c)"

definition write_to_write_s :: "Config \<Rightarrow> int" where
  "write_to_write_s c = max (burst_cycle c) (tCCD_S c)"

definition write_to_write_o :: "Config \<Rightarrow> int" where
  "write_to_write_o c = burst_cycle c"

definition write_to_precharge :: "Config \<Rightarrow> int" where
  "write_to_precharge c = WL c + burst_cycle c + tWR c"

definition precharge_to_activate :: "Config \<Rightarrow> int" where
  "precharge_to_activate c = tRP c"

definition precharge_to_precharge :: "Config \<Rightarrow> int" where
  "precharge_to_precharge c = tPPD c"

definition read_to_activate :: "Config \<Rightarrow> int" where
  "read_to_activate c = read_to_precharge c + precharge_to_activate c"

definition write_to_activate :: "Config \<Rightarrow> int" where
  "write_to_activate c = write_to_precharge c + precharge_to_activate c"

definition activate_to_activate :: "Config \<Rightarrow> int" where
  "activate_to_activate c = tRC c"

definition activate_to_activate_l :: "Config \<Rightarrow> int" where
  "activate_to_activate_l c = (if bankgroups c = 1 then tRRD_S c else tRRD_L c)"

definition activate_to_activate_s :: "Config \<Rightarrow> int" where
  "activate_to_activate_s c = tRRD_S c"

definition activate_to_precharge :: "Config \<Rightarrow> int" where
  "activate_to_precharge c = tRAS c"

definition activate_to_read :: "Config \<Rightarrow> int" where
  "activate_to_read c = (if IsGDDR c \<or> IsHBM c then tRCDRD c else tRCD c - AL c)"

definition activate_to_write :: "Config \<Rightarrow> int" where
  "activate_to_write c = (if IsGDDR c \<or> IsHBM c then tRCDWR c else tRCD c - AL c)"

definition activate_to_refresh :: "Config \<Rightarrow> int" where
  "activate_to_refresh c = tRC c"

definition refresh_to_refresh :: "Config \<Rightarrow> int" where
  "refresh_to_refresh c = tREFI c"

definition refresh_to_activate :: "Config \<Rightarrow> int" where
  "refresh_to_activate c = tRFC c"

definition refresh_to_activate_bank :: "Config \<Rightarrow> int" where
  "refresh_to_activate_bank c = tRFCb c"

definition self_refresh_entry_to_exit :: "Config \<Rightarrow> int" where
  "self_refresh_entry_to_exit c = tCKESR c"

definition self_refresh_exit :: "Config \<Rightarrow> int" where
  "self_refresh_exit c = tXS c"

section \<open>Tables\<close>

type_synonym timing_table = "CommandType \<Rightarrow> (CommandType \<times> int) list"

definition same_bank_table :: "Config \<Rightarrow> timing_table" where
  "same_bank_table c t = (case t of
     READ \<Rightarrow> [(READ, read_to_read_l c), (WRITE, read_to_write c), (READ_PRECHARGE, read_to_read_l c),
              (WRITE_PRECHARGE, read_to_write c), (PRECHARGE, read_to_precharge c)]
   | WRITE \<Rightarrow> [(READ, write_to_read_l c), (WRITE, write_to_write_l c),
               (READ_PRECHARGE, write_to_read_l c), (WRITE_PRECHARGE, write_to_write_l c),
               (PRECHARGE, write_to_precharge c)]
   | READ_PRECHARGE \<Rightarrow> [(ACTIVATE, readp_to_act c), (REFRESH, read_to_activate c),
                        (REFRESH_BANK, read_to_activate c), (SREF_ENTER, read_to_activate c)]
   | WRITE_PRECHARGE \<Rightarrow> [(ACTIVATE, write_to_activate c), (REFRESH, write_to_activate c),
                         (REFRESH_BANK, write_to_activate c), (SREF_ENTER, write_to_activate c)]
   | ACTIVATE \<Rightarrow> [(ACTIVATE, activate_to_activate c), (READ, activate_to_read c),
                  (WRITE, activate_to_write c), (READ_PRECHARGE, activate_to_read c),
                  (WRITE_PRECHARGE, activate_to_write c), (PRECHARGE, activate_to_precharge c)]
   | PRECHARGE \<Rightarrow> [(ACTIVATE, precharge_to_activate c), (REFRESH, precharge_to_activate c),
                   (REFRESH_BANK, precharge_to_activate c), (SREF_ENTER, precharge_to_activate c)]
   | _ \<Rightarrow> [])"

definition other_banks_same_bankgroup_table :: "Config \<Rightarrow> timing_table" where
  "other_banks_same_bankgroup_table c t = (case t of
     READ \<Rightarrow> [(READ, read_to_read_l c), (WRITE, read_to_write c), (READ_PRECHARGE, read_to_read_l c),
              (WRITE_PRECHARGE, read_to_write c)]
   | WRITE \<Rightarrow> [(READ, write_to_read_l c), (WRITE, write_to_write_l c),
               (READ_PRECHARGE, write_to_read_l c), (WRITE_PRECHARGE, write_to_write_l c)]
   | READ_PRECHARGE \<Rightarrow> [(READ, read_to_read_l c), (WRITE, read_to_write c),
                        (READ_PRECHARGE, read_to_read_l c), (WRITE_PRECHARGE, read_to_write c)]
   | WRITE_PRECHARGE \<Rightarrow> [(READ, write_to_read_l c), (WRITE, write_to_write_l c),
                         (READ_PRECHARGE, write_to_read_l c), (WRITE_PRECHARGE, write_to_write_l c)]
   | ACTIVATE \<Rightarrow> [(ACTIVATE, activate_to_activate_l c), (REFRESH_BANK, activate_to_refresh c)]
   | PRECHARGE \<Rightarrow> (if IsGDDR c \<or> protocol c = LPDDR4 then [(PRECHARGE, precharge_to_precharge c)] else [])
   | REFRESH_BANK \<Rightarrow> [(ACTIVATE, refresh_to_activate c), (REFRESH_BANK, refresh_to_refresh c)]
   | _ \<Rightarrow> [])"

definition other_bankgroups_same_rank_table :: "Config \<Rightarrow> timing_table" where
  "other_bankgroups_same_rank_table c t = (case t of
     READ \<Rightarrow> [(READ, read_to_read_s c), (WRITE, read_to_write c), (READ_PRECHARGE, read_to_read_s c),
              (WRITE_PRECHARGE, read_to_write c)]
   | WRITE \<Rightarrow> [(READ, write_to_read_s c), (WRITE, write_to_write_s c),
               (READ_PRECHARGE, write_to_read_s c), (WRITE_PRECHARGE, write_to_write_s c)]
   | READ_PRECHARGE \<Rightarrow> [(READ, read_to_read_s c), (WRITE, read_to_write c),
                        (READ_PRECHARGE, read_to_read_s c), (WRITE_PRECHARGE, read_to_write c)]
   | WRITE_PRECHARGE \<Rightarrow> [(READ, write_to_read_s c), (WRITE, write_to_write_s c),
                         (READ_PRECHARGE, write_to_read_s c), (WRITE_PRECHARGE, write_to_write_s c)]
   | ACTIVATE \<Rightarrow> [(ACTIVATE, activate_to_activate_s c), (REFRESH_BANK, activate_to_refresh c)]
   | PRECHARGE \<Rightarrow> (if IsGDDR c \<or> protocol c = LPDDR4 then [(PRECHARGE, precharge_to_precharge c)] else [])
   | REFRESH_BANK \<Rightarrow> [(ACTIVATE, refresh_to_activate c), (REFRESH_BANK, refresh_to_refresh c)]
   | _ \<Rightarrow> [])"

definition other_ranks_table :: "Config \<Rightarrow> timing_table" where
  "other_ranks_table c t = (case t of
     READ \<Rightarrow> [(READ, read_to_read_o c), (WRITE, read_to_write_o c), (READ_PRECHARGE, read_to_read_o c),
              (WRITE_PRECHARGE, read_to_write_o c)]
   | WRITE \<Rightarrow> [(READ, write_to_read_o c), (WRITE, write_to_write_o c),
               (READ_PRECHARGE, write_to_read_o c), (WRITE_PRECHARGE, write_to_write_o c)]
   | READ_PRECHARGE \<Rightarrow> [(READ, read_to_read_o c), (WRITE, read_to_write_o c),
                        (READ_PRECHARGE, read_to_read_o c), (WRITE_PRECHARGE, read_to_write_o c)]
   | WRITE_PRECHARGE \<Rightarrow> [(READ, write_to_read_o c), (WRITE, write_to_write_o c),
                         (READ_PRECHARGE, write_to_read_o c), (WRITE_PRECHARGE, write_to_write_o c)]
   | _ \<Rightarrow> [])"

definition same_rank_table :: "Config \<Rightarrow> timing_table" where
  "same_rank_table c t = (case t of
     REFRESH_BANK \<Rightarrow> [(ACTIVATE, refresh_to_activate_bank c), (REFRESH, refresh_to_activate_bank c),
                      (REFRESH_BANK, refresh_to_activate_bank c), (SREF_ENTER, refresh_to_activate_bank c)]
   | REFRESH \<Rightarrow> [(ACTIVATE, refresh_to_activate c), (REFRESH, refresh_to_activate c),
                 (SREF_ENTER, refresh_to_activate c)]
   | SREF_ENTER \<Rightarrow> [(SREF_EXIT, self_refresh_entry_to_exit c)]
   | SREF_EXIT \<Rightarrow> [(ACTIVATE, self_refresh_exit c), (REFRESH, self_refresh_exit c),
                   (REFRESH_BANK, self_refresh_exit c), (SREF_ENTER, self_refresh_exit c)]
   | _ \<Rightarrow> [])"

record Timing =
  same_bank :: timing_table
  other_banks_same_bankgroup :: timing_table
  other_bankgroups_same_rank :: timing_table
  other_ranks :: timing_table
  same_rank :: timing_table

definition Timing_new :: "Config \<Rightarrow> Timing" where
  "Timing_new c = \<lparr>same_bank = same_bank_table c,
     other_banks_same_bankgroup = other_banks_same_bankgroup_table c,
     other_bankgroups_same_rank = other_bankgroups_same_rank_table c,
     other_ranks = other_ranks_table c, same_rank = same_rank_table c\<rparr>"

lemmas delay_defs = read_to_read_l_def read_to_read_s_def read_to_read_o_def read_to_write_def
  read_to_write_o_def write_to_read_l_def write_to_read_s_def write_to_read_o_def
  write_to_write_l_def write_to_write_s_def write_to_write_o_def

end
