(* ===== verification/Dram_Bank.thy ===== *)
theory Dram_Bank
  imports Dram_Timing
begin

text \<open>
  A DRAM bank, \<open>src/DRAMsim3/src/bankstate.cc\<close>: its state, the open row, the row hits since the
  activation and, per command type, the earliest time at which it may be issued.
\<close>

section \<open>The model\<close>

datatype bank_st = OPEN | CLOSED | SREF | PD | STATE_SIZE

text \<open>
  The vector \<open>cmd_timing_\<close>, indexed by the command type; the last slot is never used.
\<close>

datatype cmd_times = Times u64 u64 u64 u64 u64 u64 u64 u64 u64 u64 u64

fun ct_get :: "cmd_times \<Rightarrow> CommandType \<Rightarrow> u64" where
  "ct_get (Times a b c d e f g h i j k) t = (case t of READ \<Rightarrow> a | READ_PRECHARGE \<Rightarrow> b | WRITE \<Rightarrow> c
     | WRITE_PRECHARGE \<Rightarrow> d | ACTIVATE \<Rightarrow> e | PRECHARGE \<Rightarrow> f | REFRESH_BANK \<Rightarrow> g | REFRESH \<Rightarrow> h
     | SREF_ENTER \<Rightarrow> i | SREF_EXIT \<Rightarrow> j | CMD_SIZE \<Rightarrow> k)"

fun ct_set :: "cmd_times \<Rightarrow> CommandType \<Rightarrow> u64 \<Rightarrow> cmd_times" where
  "ct_set (Times a b c d e f g h i j k) t v = (case t of READ \<Rightarrow> Times v b c d e f g h i j k
     | READ_PRECHARGE \<Rightarrow> Times a v c d e f g h i j k | WRITE \<Rightarrow> Times a b v d e f g h i j k
     | WRITE_PRECHARGE \<Rightarrow> Times a b c v e f g h i j k | ACTIVATE \<Rightarrow> Times a b c d v f g h i j k
     | PRECHARGE \<Rightarrow> Times a b c d e v g h i j k | REFRESH_BANK \<Rightarrow> Times a b c d e f v h i j k
     | REFRESH \<Rightarrow> Times a b c d e f g v i j k | SREF_ENTER \<Rightarrow> Times a b c d e f g h v j k
     | SREF_EXIT \<Rightarrow> Times a b c d e f g h i v k | CMD_SIZE \<Rightarrow> Times a b c d e f g h i j v)"

lemma ct_get_set: "ct_get (ct_set ts t v) u = (if u = t then v else ct_get ts u)"
  by (cases ts; cases t; cases u) auto

record BankState =
  bs_state :: bank_st
  bs_timing :: cmd_times
  open_row :: int
  row_hit_count :: int

definition BankState_new :: BankState where
  "BankState_new = \<lparr>bs_state = CLOSED, bs_timing = Times 0 0 0 0 0 0 0 0 0 0 0, open_row = -1, row_hit_count = 0\<rparr>"

definition cmd_timing :: "BankState \<Rightarrow> CommandType \<Rightarrow> u64" where
  "cmd_timing b = ct_get (bs_timing b)"

definition IsRowOpen :: "BankState \<Rightarrow> bool" where
  "IsRowOpen b \<longleftrightarrow> bs_state b = OPEN"

text \<open>The command the bank needs next for a requested command; an unknown combination aborts.\<close>

definition required_type :: "BankState \<Rightarrow> Command \<Rightarrow> CommandType res" where
  "required_type b cmd = (case bs_state b of
     CLOSED \<Rightarrow> (case cmd_type cmd of
         READ \<Rightarrow> Inr ACTIVATE | READ_PRECHARGE \<Rightarrow> Inr ACTIVATE
       | WRITE \<Rightarrow> Inr ACTIVATE | WRITE_PRECHARGE \<Rightarrow> Inr ACTIVATE
       | REFRESH \<Rightarrow> Inr REFRESH | REFRESH_BANK \<Rightarrow> Inr REFRESH_BANK | SREF_ENTER \<Rightarrow> Inr SREF_ENTER
       | _ \<Rightarrow> Inl Abrupt)
   | OPEN \<Rightarrow>
       if IsReadWrite cmd then
         (if c_row cmd = open_row b then Inr (cmd_type cmd) else Inr PRECHARGE)
       else (case cmd_type cmd of
         REFRESH \<Rightarrow> Inr PRECHARGE | REFRESH_BANK \<Rightarrow> Inr PRECHARGE | SREF_ENTER \<Rightarrow> Inr PRECHARGE
       | _ \<Rightarrow> Inl Abrupt)
   | SREF \<Rightarrow> if IsReadWrite cmd then Inr SREF_EXIT else Inl Abrupt
   | PD \<Rightarrow> Inl Abrupt
   | STATE_SIZE \<Rightarrow> Inl Abrupt)"

definition bank_GetReadyCommand :: "BankState \<Rightarrow> Command \<Rightarrow> u64 \<Rightarrow> Command res" where
  "bank_GetReadyCommand b cmd clk =
     res_bind (required_type b cmd) (\<lambda>rt.
     if rt \<noteq> CMD_SIZE \<and> cmd_timing b rt \<le> clk
     then Inr \<lparr>cmd_type = rt, cmd_addr = cmd_addr cmd, hex_addr = hex_addr cmd\<rparr>
     else Inr Command_none)"

definition bank_UpdateState :: "Command \<Rightarrow> BankState \<Rightarrow> BankState res" where
  "bank_UpdateState cmd b = (case bs_state b of
     OPEN \<Rightarrow> (case cmd_type cmd of
         READ \<Rightarrow> Inr (b\<lparr>row_hit_count := row_hit_count b + 1\<rparr>)
       | WRITE \<Rightarrow> Inr (b\<lparr>row_hit_count := row_hit_count b + 1\<rparr>)
       | READ_PRECHARGE \<Rightarrow> Inr (b\<lparr>bs_state := CLOSED, open_row := -1, row_hit_count := 0\<rparr>)
       | WRITE_PRECHARGE \<Rightarrow> Inr (b\<lparr>bs_state := CLOSED, open_row := -1, row_hit_count := 0\<rparr>)
       | PRECHARGE \<Rightarrow> Inr (b\<lparr>bs_state := CLOSED, open_row := -1, row_hit_count := 0\<rparr>)
       | _ \<Rightarrow> Inl Abrupt)
   | CLOSED \<Rightarrow> (case cmd_type cmd of
         REFRESH \<Rightarrow> Inr b | REFRESH_BANK \<Rightarrow> Inr b
       | ACTIVATE \<Rightarrow> Inr (b\<lparr>bs_state := OPEN, open_row := c_row cmd\<rparr>)
       | SREF_ENTER \<Rightarrow> Inr (b\<lparr>bs_state := SREF\<rparr>)
       | _ \<Rightarrow> Inl Abrupt)
   | SREF \<Rightarrow> (case cmd_type cmd of SREF_EXIT \<Rightarrow> Inr (b\<lparr>bs_state := CLOSED\<rparr>) | _ \<Rightarrow> Inl Abrupt)
   | PD \<Rightarrow> Inl Abrupt
   | STATE_SIZE \<Rightarrow> Inl Abrupt)"

definition bank_UpdateTiming :: "CommandType \<Rightarrow> u64 \<Rightarrow> BankState \<Rightarrow> BankState" where
  "bank_UpdateTiming t time b = b\<lparr>bs_timing := ct_set (bs_timing b) t (max (cmd_timing b t) time)\<rparr>"

text \<open>The loop over a list of delays that every timing update of the channel runs on a bank.\<close>

definition apply_timing :: "(CommandType \<times> int) list \<Rightarrow> u64 \<Rightarrow> BankState \<Rightarrow> BankState" where
  "apply_timing L clk b = fold (\<lambda>(t, d). bank_UpdateTiming t (clk + of_int d)) L b"

section \<open>Properties\<close>

lemma bank_UpdateTiming_simps [simp]:
  "cmd_timing (bank_UpdateTiming t u b) = (cmd_timing b)(t := max (cmd_timing b t) u)"
  "bs_state (bank_UpdateTiming t u b) = bs_state b"
  "open_row (bank_UpdateTiming t u b) = open_row b"
  "row_hit_count (bank_UpdateTiming t u b) = row_hit_count b"
  by (simp_all add: bank_UpdateTiming_def cmd_timing_def ct_get_set fun_eq_iff)

lemma apply_timing_simps [simp]:
  "bs_state (apply_timing L clk b) = bs_state b"
  "open_row (apply_timing L clk b) = open_row b"
  "row_hit_count (apply_timing L clk b) = row_hit_count b"
  by (induction L arbitrary: b) (auto simp: apply_timing_def)

lemma apply_timing_Cons: "apply_timing ((t, d) # L) clk b = apply_timing L clk (bank_UpdateTiming t (clk + of_int d) b)"
  by (simp add: apply_timing_def)

lemma apply_timing_mono: "cmd_timing b t \<le> cmd_timing (apply_timing L clk b) t"
proof (induction L arbitrary: b)
  case Nil
  then show ?case by (simp add: apply_timing_def)
next
  case (Cons a L)
  obtain u d where a: "a = (u, d)" by (cases a)
  have "cmd_timing b t \<le> cmd_timing (bank_UpdateTiming u (clk + of_int d) b) t"
    by simp
  also have "\<dots> \<le> cmd_timing (apply_timing (a # L) clk b) t"
    unfolding a apply_timing_Cons by (rule Cons.IH)
  finally show ?case .
qed

lemma apply_timing_enforces:
  "(t, d) \<in> set L \<Longrightarrow> clk + of_int d \<le> cmd_timing (apply_timing L clk b) t"
proof (induction L arbitrary: b)
  case Nil
  then show ?case by simp
next
  case (Cons a L)
  show ?case
  proof (cases "(t, d) \<in> set L")
    case True
    then show ?thesis using Cons.IH by (cases a) (simp add: apply_timing_Cons)
  next
    case False
    with Cons.prems have a: "a = (t, d)" by simp
    have "clk + of_int d \<le> cmd_timing (bank_UpdateTiming t (clk + of_int d) b) t"
      by simp
    also have "\<dots> \<le> cmd_timing (apply_timing (a # L) clk b) t"
      unfolding a apply_timing_Cons by (rule apply_timing_mono)
    finally show ?thesis .
  qed
qed

lemma cmd_timing_upd [simp]:
  "cmd_timing (b\<lparr>bs_state := s\<rparr>) = cmd_timing b" "cmd_timing (b\<lparr>open_row := r\<rparr>) = cmd_timing b"
  "cmd_timing (b\<lparr>row_hit_count := n\<rparr>) = cmd_timing b"
  by (simp_all add: cmd_timing_def)

text \<open>What a ready command says about the bank.\<close>

lemma bank_ready_cases:
  assumes "bank_GetReadyCommand b cmd clk = Inr c" and "IsValid c"
  shows "required_type b cmd = Inr (cmd_type c)" and "cmd_timing b (cmd_type c) \<le> clk"
    and "cmd_addr c = cmd_addr cmd" and "hex_addr c = hex_addr cmd"
  using assms by (auto simp: bank_GetReadyCommand_def split: if_splits)

text \<open>A command the bank offers is one it executes.\<close>

lemma bank_ready_executes:
  assumes "bank_GetReadyCommand b cmd clk = Inr c" and "IsValid c" and "bs_state b \<noteq> SREF"
  shows "\<exists>b'. bank_UpdateState c b = Inr b' \<and> bs_state b' \<noteq> PD \<and> bs_state b' \<noteq> STATE_SIZE"
  using bank_ready_cases [OF assms(1,2)] assms(3)
  by (auto simp: required_type_def bank_UpdateState_def cmd_defs split: bank_st.splits CommandType.splits if_splits)

end
