(* ===== verification/Dram_Channel.thy ===== *)
theory Dram_Channel
  imports Dram_Bank
begin

text \<open>
  The state of a DRAM channel, \<open>src/DRAMsim3/src/channel_state.cc\<close>: the banks of every rank, the
  waiting refreshes, the self-refresh flags and the activation windows; which command is ready, and
  how an issued command changes states and earliest times.
\<close>

section \<open>The model\<close>

type_synonym bank_array = "BankState list list list"

record ChannelState =
  rank_idle_cycles :: "int list"
  rank_is_sref :: "bool list"
  bank_states :: bank_array
  refresh_q :: "Command list"
  four_aw :: "u64 list list"
  thirty_two_aw :: "u64 list list"

definition ChannelState_new :: "Config \<Rightarrow> ChannelState" where
  "ChannelState_new C = \<lparr>rank_idle_cycles = replicate (nat (ranks C)) 0,
     rank_is_sref = replicate (nat (ranks C)) False,
     bank_states = replicate (nat (ranks C)) (replicate (nat (bankgroups C))
       (replicate (nat (banks_per_group C)) BankState_new)),
     refresh_q = [], four_aw = replicate (nat (ranks C)) [],
     thirty_two_aw = replicate (nat (ranks C)) []\<rparr>"

text \<open>Access and update of one bank; the nested loops over the banks of a rank as lists of indices.\<close>

definition bank_at :: "bank_array \<Rightarrow> int \<Rightarrow> int \<Rightarrow> int \<Rightarrow> BankState res" where
  "bank_at B r j k = res_bind (vgeti B r) (\<lambda>rs. res_bind (vgeti rs j) (\<lambda>bs. vgeti bs k))"

definition upd_bank :: "(BankState \<Rightarrow> BankState res) \<Rightarrow> int \<times> int \<times> int \<Rightarrow> bank_array \<Rightarrow> bank_array res" where
  "upd_bank f = (\<lambda>(r, j, k) B.
     res_bind (vgeti B r) (\<lambda>rs. res_bind (vgeti rs j) (\<lambda>bs. res_bind (vgeti bs k) (\<lambda>b.
     res_bind (f b) (\<lambda>b'. Inr (B[nat r := rs[nat j := bs[nat k := b']]])))))) "

definition iota :: "int \<Rightarrow> int list" where
  "iota n = map int [0..<nat n]"

definition rank_banks :: "Config \<Rightarrow> int \<Rightarrow> (int \<times> int \<times> int) list" where
  "rank_banks C r = [(r, j, k). j \<leftarrow> iota (bankgroups C), k \<leftarrow> iota (banks_per_group C)]"

definition IsAllBankIdleInRank :: "Config \<Rightarrow> ChannelState \<Rightarrow> int \<Rightarrow> bool res" where
  "IsAllBankIdleInRank C cs r =
     res_fold (\<lambda>(r, j, k) idle. if idle then res_bind (bank_at (bank_states cs) r j k) (\<lambda>b. Inr (\<not> IsRowOpen b))
                                else Inr False) (rank_banks C r) True"

definition IsRWPendingOnRef :: "ChannelState \<Rightarrow> Command \<Rightarrow> bool res" where
  "IsRWPendingOnRef cs cmd =
     res_bind (bank_at (bank_states cs) (c_rank cmd) (c_bankgroup cmd) (c_bank cmd)) (\<lambda>b.
     Inr (IsRowOpen b \<and> row_hit_count b = 0 \<and> open_row b = c_row cmd))"

text \<open>Removing the first waiting refresh that satisfies a test.\<close>

fun erase_first :: "('a \<Rightarrow> bool) \<Rightarrow> 'a list \<Rightarrow> 'a list" where
  "erase_first p [] = []"
| "erase_first p (x # xs) = (if p x then xs else x # erase_first p xs)"

definition BankNeedRefresh :: "int \<Rightarrow> int \<Rightarrow> int \<Rightarrow> bool \<Rightarrow> ChannelState \<Rightarrow> ChannelState" where
  "BankNeedRefresh r j k need cs =
     (if need then cs\<lparr>refresh_q := refresh_q cs @
        [\<lparr>cmd_type = REFRESH_BANK, cmd_addr = Address_none\<lparr>ad_rank := r, ad_bankgroup := j, ad_bank := k\<rparr>,
          hex_addr = - 1\<rparr>]\<rparr>
      else cs\<lparr>refresh_q := erase_first (\<lambda>c. c_rank c = r \<and> c_bankgroup c = j \<and> c_bank c = k) (refresh_q cs)\<rparr>)"

definition RankNeedRefresh :: "int \<Rightarrow> bool \<Rightarrow> ChannelState \<Rightarrow> ChannelState" where
  "RankNeedRefresh r need cs =
     (if need then cs\<lparr>refresh_q := refresh_q cs @
        [\<lparr>cmd_type = REFRESH, cmd_addr = Address_none\<lparr>ad_rank := r\<rparr>, hex_addr = - 1\<rparr>]\<rparr>
      else cs\<lparr>refresh_q := erase_first (\<lambda>c. c_rank c = r) (refresh_q cs)\<rparr>)"

definition IsFAWReady :: "ChannelState \<Rightarrow> int \<Rightarrow> u64 \<Rightarrow> bool res" where
  "IsFAWReady cs r t = res_bind (vgeti (four_aw cs) r) (\<lambda>w.
     Inr (\<not> (w \<noteq> [] \<and> t < hd w \<and> 4 \<le> length w)))"

definition Is32AWReady :: "ChannelState \<Rightarrow> int \<Rightarrow> u64 \<Rightarrow> bool res" where
  "Is32AWReady cs r t = res_bind (vgeti (thirty_two_aw cs) r) (\<lambda>w.
     Inr (\<not> (w \<noteq> [] \<and> t < hd w \<and> 32 \<le> length w)))"

definition ActivationWindowOk :: "Config \<Rightarrow> ChannelState \<Rightarrow> int \<Rightarrow> u64 \<Rightarrow> bool res" where
  "ActivationWindowOk C cs r t =
     res_bind (IsFAWReady cs r t) (\<lambda>tfaw_ok.
     if IsGDDR C then (if \<not> tfaw_ok then Inr False else Is32AWReady cs r t) else Inr tfaw_ok)"

definition push_window :: "u64 \<Rightarrow> int \<Rightarrow> u64 list \<Rightarrow> u64 list" where
  "push_window t d w = (if w \<noteq> [] \<and> hd w \<le> t then tl w else w) @ [t + of_int d]"

definition UpdateActivationTimes :: "Config \<Rightarrow> int \<Rightarrow> u64 \<Rightarrow> ChannelState \<Rightarrow> ChannelState res" where
  "UpdateActivationTimes C r t cs =
     res_bind (vgeti (four_aw cs) r) (\<lambda>w.
     let cs1 = cs\<lparr>four_aw := (four_aw cs)[nat r := push_window t (tFAW C) w]\<rparr>
     in if IsGDDR C then
          res_bind (vgeti (thirty_two_aw cs1) r) (\<lambda>v.
          Inr (cs1\<lparr>thirty_two_aw := (thirty_two_aw cs1)[nat r := push_window t (t32AW C) v]\<rparr>))
        else Inr cs1)"

text \<open>The loop of \<open>GetReadyCommand\<close> for a command to a whole rank.\<close>

fun rank_ready :: "Config \<Rightarrow> bank_array \<Rightarrow> Command \<Rightarrow> u64 \<Rightarrow> (int \<times> int \<times> int) list \<Rightarrow> Command \<Rightarrow> int \<Rightarrow>
    Command res" where
  "rank_ready C B cmd clk [] ready_cmd num_ready =
     Inr (if num_ready = banks C then ready_cmd else Command_none)"
| "rank_ready C B cmd clk ((r, j, k) # bs) _ num_ready =
     res_bind (bank_at B r j k) (\<lambda>b. res_bind (bank_GetReadyCommand b cmd clk) (\<lambda>ready_cmd.
     if \<not> IsValid ready_cmd then rank_ready C B cmd clk bs ready_cmd num_ready
     else if cmd_type ready_cmd \<noteq> cmd_type cmd then
       Inr (ready_cmd\<lparr>cmd_addr := Address_none\<lparr>ad_rank := c_rank cmd, ad_bankgroup := j, ad_bank := k\<rparr>\<rparr>)
     else rank_ready C B cmd clk bs ready_cmd (num_ready + 1)))"

definition GetReadyCommand :: "Config \<Rightarrow> ChannelState \<Rightarrow> Command \<Rightarrow> u64 \<Rightarrow> Command res" where
  "GetReadyCommand C cs cmd clk =
     (if IsRankCMD cmd then
        rank_ready C (bank_states cs) cmd clk (rank_banks C (c_rank cmd)) Command_none 0
      else
        res_bind (bank_at (bank_states cs) (c_rank cmd) (c_bankgroup cmd) (c_bank cmd)) (\<lambda>b.
        res_bind (bank_GetReadyCommand b cmd clk) (\<lambda>ready_cmd.
        if \<not> IsValid ready_cmd then Inr Command_none
        else if cmd_type ready_cmd = ACTIVATE then
          res_bind (ActivationWindowOk C cs (c_rank ready_cmd) clk) (\<lambda>ok.
          Inr (if ok then ready_cmd else Command_none))
        else Inr ready_cmd)))"

definition upd_banks :: "(BankState \<Rightarrow> BankState res) \<Rightarrow> (int \<times> int \<times> int) list \<Rightarrow> ChannelState \<Rightarrow> ChannelState res" where
  "upd_banks f coords cs =
     res_bind (res_fold (upd_bank f) coords (bank_states cs)) (\<lambda>B. Inr (cs\<lparr>bank_states := B\<rparr>))"

definition UpdateState :: "Config \<Rightarrow> Command \<Rightarrow> ChannelState \<Rightarrow> ChannelState res" where
  "UpdateState C cmd cs =
     (if IsRankCMD cmd then
        res_bind (upd_banks (bank_UpdateState cmd) (rank_banks C (c_rank cmd)) cs) (\<lambda>cs1.
        if IsRefresh cmd then Inr (RankNeedRefresh (c_rank cmd) False cs1)
        else if cmd_type cmd = SREF_ENTER then
          res_bind (vseti (rank_is_sref cs1) (c_rank cmd) True) (\<lambda>s. Inr (cs1\<lparr>rank_is_sref := s\<rparr>))
        else if cmd_type cmd = SREF_EXIT then
          res_bind (vseti (rank_is_sref cs1) (c_rank cmd) False) (\<lambda>s. Inr (cs1\<lparr>rank_is_sref := s\<rparr>))
        else Inr cs1)
      else
        res_bind (upd_banks (bank_UpdateState cmd) [(c_rank cmd, c_bankgroup cmd, c_bank cmd)] cs) (\<lambda>cs1.
        if IsRefresh cmd then Inr (BankNeedRefresh (c_rank cmd) (c_bankgroup cmd) (c_bank cmd) False cs1)
        else Inr cs1))"

text \<open>The timing updates: a list of delays applied to each bank of a list.\<close>

definition timing_banks :: "(CommandType \<times> int) list \<Rightarrow> u64 \<Rightarrow> (int \<times> int \<times> int) list \<Rightarrow> bank_array \<Rightarrow>
    bank_array res" where
  "timing_banks L clk = res_fold (\<lambda>p. res_fold (\<lambda>(t, d).
     upd_bank (\<lambda>b. Inr (bank_UpdateTiming t (clk + of_int d) b)) p) L)"

definition UpdateSameBankTiming :: "Address \<Rightarrow> (CommandType \<times> int) list \<Rightarrow> u64 \<Rightarrow> bank_array \<Rightarrow> bank_array res" where
  "UpdateSameBankTiming ad L clk = timing_banks L clk [(ad_rank ad, ad_bankgroup ad, ad_bank ad)]"

definition UpdateOtherBanksSameBankgroupTiming ::
  "Config \<Rightarrow> Address \<Rightarrow> (CommandType \<times> int) list \<Rightarrow> u64 \<Rightarrow> bank_array \<Rightarrow> bank_array res" where
  "UpdateOtherBanksSameBankgroupTiming C ad L clk = timing_banks L clk
     [(ad_rank ad, ad_bankgroup ad, k). k \<leftarrow> iota (banks_per_group C), k \<noteq> ad_bank ad]"

definition UpdateOtherBankgroupsSameRankTiming ::
  "Config \<Rightarrow> Address \<Rightarrow> (CommandType \<times> int) list \<Rightarrow> u64 \<Rightarrow> bank_array \<Rightarrow> bank_array res" where
  "UpdateOtherBankgroupsSameRankTiming C ad L clk = timing_banks L clk
     [(ad_rank ad, j, k). j \<leftarrow> iota (bankgroups C), j \<noteq> ad_bankgroup ad, k \<leftarrow> iota (banks_per_group C)]"

definition UpdateOtherRanksTiming ::
  "Config \<Rightarrow> Address \<Rightarrow> (CommandType \<times> int) list \<Rightarrow> u64 \<Rightarrow> bank_array \<Rightarrow> bank_array res" where
  "UpdateOtherRanksTiming C ad L clk = timing_banks L clk
     [(i, j, k). i \<leftarrow> iota (ranks C), i \<noteq> ad_rank ad, j \<leftarrow> iota (bankgroups C), k \<leftarrow> iota (banks_per_group C)]"

definition UpdateSameRankTiming ::
  "Config \<Rightarrow> Address \<Rightarrow> (CommandType \<times> int) list \<Rightarrow> u64 \<Rightarrow> bank_array \<Rightarrow> bank_array res" where
  "UpdateSameRankTiming C ad L clk = timing_banks L clk (rank_banks C (ad_rank ad))"

definition UpdateTiming :: "Config \<Rightarrow> Timing \<Rightarrow> Command \<Rightarrow> u64 \<Rightarrow> ChannelState \<Rightarrow> ChannelState res" where
  "UpdateTiming C T cmd clk cs =
     (let t = cmd_type cmd; ad = cmd_addr cmd in
      if t = CMD_SIZE then Inl Abrupt
      else if IsRankCMD cmd then
        res_bind (UpdateSameRankTiming C ad (same_rank T t) clk (bank_states cs)) (\<lambda>B.
        Inr (cs\<lparr>bank_states := B\<rparr>))
      else
        res_bind (if t = ACTIVATE then UpdateActivationTimes C (ad_rank ad) clk cs else Inr cs) (\<lambda>cs1.
        res_bind (UpdateSameBankTiming ad (same_bank T t) clk (bank_states cs1)) (\<lambda>B1.
        res_bind (UpdateOtherBanksSameBankgroupTiming C ad (other_banks_same_bankgroup T t) clk B1) (\<lambda>B2.
        res_bind (UpdateOtherBankgroupsSameRankTiming C ad (other_bankgroups_same_rank T t) clk B2) (\<lambda>B3.
        res_bind (UpdateOtherRanksTiming C ad (other_ranks T t) clk B3) (\<lambda>B4.
        Inr (cs1\<lparr>bank_states := B4\<rparr>)))))))"

definition UpdateTimingAndStates :: "Config \<Rightarrow> Timing \<Rightarrow> Command \<Rightarrow> u64 \<Rightarrow> ChannelState \<Rightarrow> ChannelState res" where
  "UpdateTimingAndStates C T cmd clk cs = res_bind (UpdateState C cmd cs) (UpdateTiming C T cmd clk)"

section \<open>Banks by index\<close>

type_synonym coord = "int \<times> int \<times> int"

definition banks_shape :: "Config \<Rightarrow> bank_array \<Rightarrow> bool" where
  "banks_shape C B \<longleftrightarrow> length B = nat (ranks C) \<and>
     (\<forall>rs \<in> set B. length rs = nat (bankgroups C) \<and> (\<forall>bs \<in> set rs. length bs = nat (banks_per_group C)))"

definition in_banks :: "Config \<Rightarrow> coord \<Rightarrow> bool" where
  "in_banks C = (\<lambda>(r, j, k). 0 \<le> r \<and> r < ranks C \<and> 0 \<le> j \<and> j < bankgroups C \<and> 0 \<le> k \<and> k < banks_per_group C)"

definition bank_of :: "bank_array \<Rightarrow> coord \<Rightarrow> BankState" where
  "bank_of B = (\<lambda>(r, j, k). B ! nat r ! nat j ! nat k)"

lemma iota_set [simp]: "set (iota n) = {i. 0 \<le> i \<and> i < n}"
proof -
  have "i \<in> int ` {0..<nat n}" if "0 \<le> i" "i < n" for i
    using that by (intro image_eqI [of _ _ "nat i"]) auto
  then show ?thesis by (auto simp: iota_def)
qed

lemma iota_distinct [simp]: "distinct (iota n)"
  by (simp add: iota_def distinct_map)

lemma rank_banks_set: "set (rank_banks C r) = {(i, j, k). i = r \<and> 0 \<le> j \<and> j < bankgroups C \<and> 0 \<le> k \<and> k < banks_per_group C}"
  by (auto simp: rank_banks_def)

lemma shape_nths:
  assumes "banks_shape C B" and "in_banks C (r, j, k)"
  shows "nat r < length B" "nat j < length (B ! nat r)" "nat k < length (B ! nat r ! nat j)"
proof -
  show r: "nat r < length B" using assms by (auto simp: banks_shape_def in_banks_def)
  then have "B ! nat r \<in> set B" by simp
  with assms show j: "nat j < length (B ! nat r)" by (auto simp: banks_shape_def in_banks_def)
  then have "B ! nat r ! nat j \<in> set (B ! nat r)" by simp
  with assms(1) \<open>B ! nat r \<in> set B\<close> have "length (B ! nat r ! nat j) = nat (banks_per_group C)"
    unfolding banks_shape_def by blast
  with assms(2) show "nat k < length (B ! nat r ! nat j)" by (simp add: in_banks_def)
qed

lemma bank_at_in:
  assumes "banks_shape C B" and "in_banks C (r, j, k)"
  shows "bank_at B r j k = Inr (bank_of B (r, j, k))"
  using shape_nths [OF assms] assms(2) by (simp add: bank_at_def bank_of_def in_banks_def)

text \<open>A computation that changes one bank only.\<close>

definition acts_on :: "Config \<Rightarrow> coord \<Rightarrow> (BankState \<Rightarrow> bool) \<Rightarrow> (BankState \<Rightarrow> BankState) \<Rightarrow>
    (bank_array \<Rightarrow> bank_array res) \<Rightarrow> bool" where
  "acts_on C p P g F \<longleftrightarrow> (\<forall>B. banks_shape C B \<longrightarrow> P (bank_of B p) \<longrightarrow>
     (\<exists>B'. F B = Inr B' \<and> banks_shape C B' \<and> bank_of B' p = g (bank_of B p) \<and>
       (\<forall>q. in_banks C q \<longrightarrow> q \<noteq> p \<longrightarrow> bank_of B' q = bank_of B q)))"

lemma upd_bank_acts:
  assumes "in_banks C p" and "\<And>b. P b \<Longrightarrow> f b = Inr (g b)"
  shows "acts_on C p P g (upd_bank f p)"
proof (cases p)
  case (fields r j k)
  show ?thesis unfolding acts_on_def
  proof (intro allI impI)
    fix B
    assume s: "banks_shape C B" and P: "P (bank_of B p)"
    note n = shape_nths [OF s assms(1) [unfolded fields]]
    let ?B = "B[nat r := (B ! nat r)[nat j := (B ! nat r ! nat j)[nat k := g (bank_of B p)]]]"
    have u: "upd_bank f p B = Inr ?B"
      using n assms fields P by (auto simp: upd_bank_def in_banks_def bank_of_def)
    have rs: "B ! nat r \<in> set B" "B ! nat r ! nat j \<in> set (B ! nat r)" using n by simp_all
    have s': "banks_shape C ?B" unfolding banks_shape_def
    proof (intro conjI ballI)
      show "length ?B = nat (ranks C)" using s by (simp add: banks_shape_def)
      fix x
      assume "x \<in> set ?B"
      then consider "x \<in> set B" | "x = (B ! nat r)[nat j := (B ! nat r ! nat j)[nat k := g (bank_of B p)]]"
        using set_update_subset_insert by fastforce
      then have "length x = nat (bankgroups C) \<and> (\<forall>y \<in> set x. length y = nat (banks_per_group C))"
      proof cases
        case 1
        then show ?thesis using s by (auto simp: banks_shape_def)
      next
        case 2
        have "length (B ! nat r) = nat (bankgroups C)"
          "\<forall>y \<in> set (B ! nat r). length y = nat (banks_per_group C)"
          using s rs(1) by (auto simp: banks_shape_def)
        with 2 rs(2) show ?thesis
          by (auto dest!: set_update_subset_insert [THEN subsetD])
      qed
      then show "length x = nat (bankgroups C)" "\<And>y. y \<in> set x \<Longrightarrow> length y = nat (banks_per_group C)"
        by auto
    qed
    have same: "bank_of ?B p = g (bank_of B p)" using n fields by (simp add: bank_of_def)
    have "bank_of ?B q = bank_of B q" if q: "in_banks C q" "q \<noteq> p" for q
    proof (cases q)
      case f: (fields r' j' k')
      note n' = shape_nths [OF s q(1) [unfolded f]]
      have "0 \<le> r" "0 \<le> j" "0 \<le> k" "0 \<le> r'" "0 \<le> j'" "0 \<le> k'"
        using q(1) assms(1) by (auto simp: f fields in_banks_def)
      then have "nat r' \<noteq> nat r \<or> nat j' \<noteq> nat j \<or> nat k' \<noteq> nat k" using q(2) by (auto simp: f fields)
      then show ?thesis using n n' by (auto simp: bank_of_def f fields nth_list_update)
    qed
    with u s' same show "\<exists>B'. upd_bank f p B = Inr B' \<and> banks_shape C B' \<and> bank_of B' p = g (bank_of B p) \<and>
       (\<forall>q. in_banks C q \<longrightarrow> q \<noteq> p \<longrightarrow> bank_of B' q = bank_of B q)" by blast
  qed
qed

text \<open>The loop rule: a loop over distinct banks changes each of them once and no other.\<close>

lemma res_fold_acts:
  assumes "\<And>p. p \<in> set ps \<Longrightarrow> acts_on C p P g (F p)" and "distinct ps"
    and "\<forall>p \<in> set ps. in_banks C p" and "banks_shape C B" and "\<forall>p \<in> set ps. P (bank_of B p)"
  shows "\<exists>B'. res_fold F ps B = Inr B' \<and> banks_shape C B' \<and>
    (\<forall>q. in_banks C q \<longrightarrow> bank_of B' q = (if q \<in> set ps then g (bank_of B q) else bank_of B q))"
  using assms
proof (induction ps arbitrary: B)
  case Nil
  then show ?case by simp
next
  case (Cons p ps)
  have "acts_on C p P g (F p)" by (rule Cons.prems(1)) simp
  with Cons.prems(4,5) obtain B1 where B1: "F p B = Inr B1" "banks_shape C B1"
    "bank_of B1 p = g (bank_of B p)" "\<And>q. in_banks C q \<Longrightarrow> q \<noteq> p \<Longrightarrow> bank_of B1 q = bank_of B q"
    unfolding acts_on_def by (metis list.set_intros(1))
  have "\<forall>q \<in> set ps. P (bank_of B1 q)" using Cons.prems B1(4) by (metis distinct.simps(2) list.set_intros(2))
  from Cons.IH [OF _ _ _ B1(2) this] Cons.prems(1-3) obtain B2 where "res_fold F ps B1 = Inr B2"
    "banks_shape C B2"
    "\<And>q. in_banks C q \<Longrightarrow> bank_of B2 q = (if q \<in> set ps then g (bank_of B1 q) else bank_of B1 q)"
    by auto
  moreover from this(3) B1(3,4) Cons.prems(2,3)
  have "bank_of B2 q = (if q \<in> set (p # ps) then g (bank_of B q) else bank_of B q)"
    if "in_banks C q" for q
    using that by (metis distinct.simps(2) set_ConsD list.set_intros)
  ultimately show ?case using B1(1) by auto
qed

section \<open>The effect of the updates on each bank\<close>

lemma acts_on_Inr: "acts_on C p P (\<lambda>b. b) Inr"
  by (auto simp: acts_on_def)

lemma acts_on_bind:
  assumes "acts_on C p (\<lambda>_. True) g F" and "acts_on C p (\<lambda>_. True) h G"
  shows "acts_on C p (\<lambda>_. True) (\<lambda>b. h (g b)) (\<lambda>B. res_bind (F B) G)"
  unfolding acts_on_def
proof (intro allI impI)
  fix B
  assume "banks_shape C B"
  with assms(1) obtain B1 where B1: "F B = Inr B1" "banks_shape C B1" "bank_of B1 p = g (bank_of B p)"
    "\<And>q. in_banks C q \<Longrightarrow> q \<noteq> p \<Longrightarrow> bank_of B1 q = bank_of B q"
    unfolding acts_on_def by metis
  with assms(2) obtain B2 where "G B1 = Inr B2" "banks_shape C B2" "bank_of B2 p = h (bank_of B1 p)"
    "\<And>q. in_banks C q \<Longrightarrow> q \<noteq> p \<Longrightarrow> bank_of B2 q = bank_of B1 q"
    unfolding acts_on_def by metis
  with B1 show "\<exists>B'. res_bind (F B) G = Inr B' \<and> banks_shape C B' \<and> bank_of B' p = h (g (bank_of B p)) \<and>
      (\<forall>q. in_banks C q \<longrightarrow> q \<noteq> p \<longrightarrow> bank_of B' q = bank_of B q)" by simp
qed

lemma timing_bank_acts:
  assumes "in_banks C p"
  shows "acts_on C p (\<lambda>_. True) (apply_timing L clk)
    (res_fold (\<lambda>(t, d). upd_bank (\<lambda>b. Inr (bank_UpdateTiming t (clk + of_int d) b)) p) L)"
proof (induction L)
  case Nil
  have "apply_timing [] clk = (\<lambda>b. b)" by (simp add: apply_timing_def fun_eq_iff)
  moreover have "res_fold f [] = Inr" for f :: "'a \<Rightarrow> bank_array \<Rightarrow> bank_array res" by (simp add: fun_eq_iff)
  ultimately show ?case using acts_on_Inr by metis
next
  case (Cons a L)
  obtain t d where a: "a = (t, d)" by (cases a)
  have "acts_on C p (\<lambda>_. True) (bank_UpdateTiming t (clk + of_int d))
      (upd_bank (\<lambda>b. Inr (bank_UpdateTiming t (clk + of_int d) b)) p)"
    by (rule upd_bank_acts [OF assms]) simp
  from acts_on_bind [OF this Cons.IH] show ?case
    by (simp add: a apply_timing_Cons [abs_def] fun_eq_iff [of "res_fold _ _"])
qed

lemma timing_banks_ok:
  assumes "banks_shape C B" and "distinct ps" and "\<forall>p \<in> set ps. in_banks C p"
  shows "\<exists>B'. timing_banks L clk ps B = Inr B' \<and> banks_shape C B' \<and>
    (\<forall>q. in_banks C q \<longrightarrow>
       bank_of B' q = (if q \<in> set ps then apply_timing L clk (bank_of B q) else bank_of B q))"
  unfolding timing_banks_def
  by (rule res_fold_acts [where P = "\<lambda>_. True", OF timing_bank_acts]) (use assms in auto)

text \<open>
  The delays \<open>UpdateTiming\<close> puts on a bank when a command is issued, by the relation of the bank to the
  command: the list for the rank after a rank command, the lists of the other four relations otherwise.
\<close>

definition delays :: "Timing \<Rightarrow> Command \<Rightarrow> coord \<Rightarrow> (CommandType \<times> int) list" where
  "delays T c = (\<lambda>(r, j, k). let t = cmd_type c in
     if IsRankCMD c then (if r = c_rank c then same_rank T t else [])
     else if r \<noteq> c_rank c then other_ranks T t
     else if j \<noteq> c_bankgroup c then other_bankgroups_same_rank T t
     else if k \<noteq> c_bank c then other_banks_same_bankgroup T t
     else same_bank T t)"

text \<open>The banks a command addresses, and commands within the device.\<close>

definition addressed :: "Command \<Rightarrow> coord \<Rightarrow> bool" where
  "addressed c = (\<lambda>(r, j, k). r = c_rank c \<and> (IsRankCMD c \<or> j = c_bankgroup c \<and> k = c_bank c))"

definition cmd_in :: "Config \<Rightarrow> Command \<Rightarrow> bool" where
  "cmd_in C c \<longleftrightarrow> 0 \<le> c_rank c \<and> c_rank c < ranks C \<and>
     (IsRankCMD c \<or> in_banks C (c_rank c, c_bankgroup c, c_bank c))"

definition cs_shape :: "Config \<Rightarrow> ChannelState \<Rightarrow> bool" where
  "cs_shape C cs \<longleftrightarrow> banks_shape C (bank_states cs) \<and> length (four_aw cs) = nat (ranks C) \<and>
     length (thirty_two_aw cs) = nat (ranks C) \<and> length (rank_is_sref cs) = nat (ranks C) \<and>
     length (rank_idle_cycles cs) = nat (ranks C)"

abbreviation cs_bank :: "ChannelState \<Rightarrow> coord \<Rightarrow> BankState" where
  "cs_bank cs \<equiv> bank_of (bank_states cs)"

lemma rank_banks_distinct: "distinct (rank_banks C r)"
proof -
  have "rank_banks C r = map (\<lambda>(j, k). (r, j, k)) (List.product (iota (bankgroups C)) (iota (banks_per_group C)))"
    by (simp add: rank_banks_def product_concat_map map_concat comp_def)
  then show ?thesis by (simp add: distinct_map distinct_product inj_on_def)
qed

lemma distinct_comp2:
  assumes "distinct xs" "distinct ys"
  shows "distinct [(r, j, k). j \<leftarrow> xs, P j, k \<leftarrow> ys]"
proof -
  have "[(r, j, k). j \<leftarrow> xs, P j, k \<leftarrow> ys] = map (\<lambda>(j, k). (r, j, k)) (List.product (filter P xs) ys)"
    by (induction xs) (auto simp: comp_def)
  with assms show ?thesis by (simp add: distinct_map distinct_product inj_on_def)
qed

lemma distinct_comp1:
  assumes "distinct xs"
  shows "distinct [(r, j, k). k \<leftarrow> xs, P k]"
proof -
  have "[(r, j, k). k \<leftarrow> xs, P k] = map (\<lambda>k. (r, j, k)) (filter P xs)"
    by (induction xs) auto
  with assms show ?thesis by (simp add: distinct_map inj_on_def)
qed

lemma distinct_comp3:
  assumes "distinct xs" "distinct ys" "distinct zs"
  shows "distinct [(i, j, k). i \<leftarrow> xs, P i, j \<leftarrow> ys, k \<leftarrow> zs]"
proof -
  have "[(i, j, k). i \<leftarrow> xs, P i, j \<leftarrow> ys, k \<leftarrow> zs] = List.product (filter P xs) (List.product ys zs)"
    by (induction xs) (auto simp: product_concat_map map_concat comp_def)
  with assms show ?thesis by (simp add: distinct_product)
qed

lemma UpdateActivationTimes_ok:
  assumes "cs_shape C cs" and "0 \<le> r" and "r < ranks C"
  shows "\<exists>cs'. UpdateActivationTimes C r t cs = Inr cs' \<and> cs_shape C cs' \<and> bank_states cs' = bank_states cs \<and>
    refresh_q cs' = refresh_q cs \<and> rank_is_sref cs' = rank_is_sref cs \<and>
    rank_idle_cycles cs' = rank_idle_cycles cs \<and>
    four_aw cs' = (four_aw cs)[nat r := push_window t (tFAW C) (four_aw cs ! nat r)]"
  using assms by (auto simp: UpdateActivationTimes_def cs_shape_def Let_def)

lemma UpdateTiming_banks:
  assumes "cmd_in C c" and "\<not> IsRankCMD c" and "banks_shape C B"
  shows "\<exists>B1 B2 B3 B4. UpdateSameBankTiming (cmd_addr c) (same_bank T (cmd_type c)) clk B = Inr B1 \<and>
    UpdateOtherBanksSameBankgroupTiming C (cmd_addr c) (other_banks_same_bankgroup T (cmd_type c)) clk B1 = Inr B2 \<and>
    UpdateOtherBankgroupsSameRankTiming C (cmd_addr c) (other_bankgroups_same_rank T (cmd_type c)) clk B2 = Inr B3 \<and>
    UpdateOtherRanksTiming C (cmd_addr c) (other_ranks T (cmd_type c)) clk B3 = Inr B4 \<and>
    banks_shape C B4 \<and> (\<forall>q. in_banks C q \<longrightarrow> bank_of B4 q = apply_timing (delays T c q) clk (bank_of B q))"
proof -
  let ?a = "cmd_addr c" and ?t = "cmd_type c"
  let ?p1 = "[(ad_rank ?a, ad_bankgroup ?a, ad_bank ?a)]"
  let ?p2 = "[(ad_rank ?a, ad_bankgroup ?a, k). k \<leftarrow> iota (banks_per_group C), k \<noteq> ad_bank ?a]"
  let ?p3 = "[(ad_rank ?a, j, k). j \<leftarrow> iota (bankgroups C), j \<noteq> ad_bankgroup ?a, k \<leftarrow> iota (banks_per_group C)]"
  let ?p4 = "[(i, j, k). i \<leftarrow> iota (ranks C), i \<noteq> ad_rank ?a, j \<leftarrow> iota (bankgroups C), k \<leftarrow> iota (banks_per_group C)]"
  have i: "in_banks C (ad_rank ?a, ad_bankgroup ?a, ad_bank ?a)" using assms(1,2) by (simp add: cmd_in_def)
  have d: "distinct ?p1" "distinct ?p2" "distinct ?p3" "distinct ?p4"
    by (simp, (rule distinct_comp1 distinct_comp2 distinct_comp3; simp)+)
  have r: "\<forall>p \<in> set ?p1. in_banks C p" "\<forall>p \<in> set ?p2. in_banks C p" "\<forall>p \<in> set ?p3. in_banks C p"
    "\<forall>p \<in> set ?p4. in_banks C p" using i by (auto simp: in_banks_def)
  from timing_banks_ok [OF assms(3) d(1) r(1)] obtain B1 where
    B1: "timing_banks (same_bank T ?t) clk ?p1 B = Inr B1" "banks_shape C B1"
      "\<And>q. in_banks C q \<Longrightarrow> bank_of B1 q = (if q \<in> set ?p1 then apply_timing (same_bank T ?t) clk (bank_of B q) else bank_of B q)"
    by blast
  from timing_banks_ok [OF B1(2) d(2) r(2)] obtain B2 where
    B2: "timing_banks (other_banks_same_bankgroup T ?t) clk ?p2 B1 = Inr B2" "banks_shape C B2"
      "\<And>q. in_banks C q \<Longrightarrow> bank_of B2 q = (if q \<in> set ?p2 then apply_timing (other_banks_same_bankgroup T ?t) clk (bank_of B1 q) else bank_of B1 q)"
    by blast
  from timing_banks_ok [OF B2(2) d(3) r(3)] obtain B3 where
    B3: "timing_banks (other_bankgroups_same_rank T ?t) clk ?p3 B2 = Inr B3" "banks_shape C B3"
      "\<And>q. in_banks C q \<Longrightarrow> bank_of B3 q = (if q \<in> set ?p3 then apply_timing (other_bankgroups_same_rank T ?t) clk (bank_of B2 q) else bank_of B2 q)"
    by blast
  from timing_banks_ok [OF B3(2) d(4) r(4)] obtain B4 where
    B4: "timing_banks (other_ranks T ?t) clk ?p4 B3 = Inr B4" "banks_shape C B4"
      "\<And>q. in_banks C q \<Longrightarrow> bank_of B4 q = (if q \<in> set ?p4 then apply_timing (other_ranks T ?t) clk (bank_of B3 q) else bank_of B3 q)"
    by blast
  have "bank_of B4 q = apply_timing (delays T c q) clk (bank_of B q)" if q: "in_banks C q" for q
  proof (cases q)
    case (fields r j k)
    have m: "q \<in> set ?p1 \<longleftrightarrow> r = ad_rank ?a \<and> j = ad_bankgroup ?a \<and> k = ad_bank ?a"
      "q \<in> set ?p2 \<longleftrightarrow> r = ad_rank ?a \<and> j = ad_bankgroup ?a \<and> k \<noteq> ad_bank ?a"
      "q \<in> set ?p3 \<longleftrightarrow> r = ad_rank ?a \<and> j \<noteq> ad_bankgroup ?a"
      "q \<in> set ?p4 \<longleftrightarrow> r \<noteq> ad_rank ?a"
      using q by (auto simp: fields in_banks_def)
    have "delays T c q = (if q \<in> set ?p4 then other_ranks T ?t else if q \<in> set ?p3 then other_bankgroups_same_rank T ?t
        else if q \<in> set ?p2 then other_banks_same_bankgroup T ?t else same_bank T ?t)"
      unfolding m using assms(2) by (simp add: delays_def fields)
    then show ?thesis
      using B1(3) [OF q] B2(3) [OF q] B3(3) [OF q] B4(3) [OF q] unfolding m by (simp split: if_splits)
  qed
  with B1(1) B2(1) B3(1) B4(1,2) show ?thesis
    unfolding UpdateSameBankTiming_def UpdateOtherBanksSameBankgroupTiming_def
      UpdateOtherBankgroupsSameRankTiming_def UpdateOtherRanksTiming_def by blast
qed

definition four_aw_after :: "Config \<Rightarrow> Command \<Rightarrow> u64 \<Rightarrow> u64 list list \<Rightarrow> u64 list list" where
  "four_aw_after C c clk ws =
     (if cmd_type c = ACTIVATE then ws[nat (c_rank c) := push_window clk (tFAW C) (ws ! nat (c_rank c))] else ws)"

lemma UpdateTiming_ok:
  assumes "cmd_in C c" and "IsValid c" and "cs_shape C cs"
  shows "\<exists>cs'. UpdateTiming C T c clk cs = Inr cs' \<and> cs_shape C cs' \<and>
    (\<forall>q. in_banks C q \<longrightarrow> cs_bank cs' q = apply_timing (delays T c q) clk (cs_bank cs q)) \<and>
    refresh_q cs' = refresh_q cs \<and> rank_is_sref cs' = rank_is_sref cs \<and>
    four_aw cs' = four_aw_after C c clk (four_aw cs)"
proof (cases "IsRankCMD c")
  case True
  have "\<forall>p \<in> set (rank_banks C (c_rank c)). in_banks C p"
    using assms(1) by (auto simp: rank_banks_set in_banks_def cmd_in_def)
  from timing_banks_ok [OF _ rank_banks_distinct this] assms(3)
  obtain B where B: "timing_banks (same_rank T (cmd_type c)) clk (rank_banks C (c_rank c)) (bank_states cs) = Inr B"
    "banks_shape C B" "\<And>q. in_banks C q \<Longrightarrow> bank_of B q = (if q \<in> set (rank_banks C (c_rank c))
       then apply_timing (same_rank T (cmd_type c)) clk (cs_bank cs q) else cs_bank cs q)"
    unfolding cs_shape_def by blast
  have "bank_of B q = apply_timing (delays T c q) clk (cs_bank cs q)" if q: "in_banks C q" for q
    using B(3) [OF q] q True by (cases q) (auto simp: delays_def rank_banks_set in_banks_def apply_timing_def)
  with B True assms show ?thesis
    by (auto simp: UpdateTiming_def UpdateSameRankTiming_def Let_def cs_shape_def IsValid_def four_aw_after_def IsRankCMD_def)
next
  case False
  have r: "0 \<le> c_rank c" "c_rank c < ranks C" using assms(1) by (simp_all add: cmd_in_def)
  obtain cs1 where cs1: "(if cmd_type c = ACTIVATE then UpdateActivationTimes C (c_rank c) clk cs else Inr cs) = Inr cs1"
    "cs_shape C cs1" "bank_states cs1 = bank_states cs" "refresh_q cs1 = refresh_q cs"
    "rank_is_sref cs1 = rank_is_sref cs" "four_aw cs1 = four_aw_after C c clk (four_aw cs)"
    using UpdateActivationTimes_ok [OF assms(3) r, of clk] assms(3) that
    unfolding four_aw_after_def by (cases "cmd_type c = ACTIVATE") auto
  have "banks_shape C (bank_states cs1)" using cs1(2) by (simp add: cs_shape_def)
  from UpdateTiming_banks [OF assms(1) False this, of T clk] obtain B1 B2 B3 B4 where
    B: "UpdateSameBankTiming (cmd_addr c) (same_bank T (cmd_type c)) clk (bank_states cs1) = Inr B1"
    "UpdateOtherBanksSameBankgroupTiming C (cmd_addr c) (other_banks_same_bankgroup T (cmd_type c)) clk B1 = Inr B2"
    "UpdateOtherBankgroupsSameRankTiming C (cmd_addr c) (other_bankgroups_same_rank T (cmd_type c)) clk B2 = Inr B3"
    "UpdateOtherRanksTiming C (cmd_addr c) (other_ranks T (cmd_type c)) clk B3 = Inr B4"
    "banks_shape C B4" "\<forall>q. in_banks C q \<longrightarrow> bank_of B4 q = apply_timing (delays T c q) clk (cs_bank cs1 q)"
    by blast
  have "UpdateTiming C T c clk cs = Inr (cs1\<lparr>bank_states := B4\<rparr>)"
    using cs1(1) B(1-4) False assms(2) by (simp add: UpdateTiming_def Let_def IsValid_def)
  with cs1 B(5,6) show ?thesis by (simp add: cs_shape_def)
qed

text \<open>The state change of a command every addressed bank can execute.\<close>

lemma UpdateState_ok:
  assumes "cmd_in C c" and "cs_shape C cs" and "cmd_type c \<noteq> SREF_ENTER" "cmd_type c \<noteq> SREF_EXIT"
    and "\<And>q. in_banks C q \<Longrightarrow> addressed c q \<Longrightarrow> \<exists>b. bank_UpdateState c (cs_bank cs q) = Inr b"
  shows "\<exists>cs'. UpdateState C c cs = Inr cs' \<and> cs_shape C cs' \<and>
    (\<forall>q. in_banks C q \<longrightarrow> (if addressed c q then bank_UpdateState c (cs_bank cs q) = Inr (cs_bank cs' q)
                           else cs_bank cs' q = cs_bank cs q)) \<and>
    set (refresh_q cs') \<subseteq> set (refresh_q cs) \<and> rank_is_sref cs' = rank_is_sref cs \<and> four_aw cs' = four_aw cs"
proof -
  let ?ps = "if IsRankCMD c then rank_banks C (c_rank c) else [(c_rank c, c_bankgroup c, c_bank c)]"
  let ?P = "\<lambda>b. \<exists>b'. bank_UpdateState c b = Inr b'"
  have s: "banks_shape C (bank_states cs)" using assms(2) by (simp add: cs_shape_def)
  have m: "q \<in> set ?ps \<longleftrightarrow> addressed c q" if "in_banks C q" for q
    using that by (auto simp: rank_banks_set addressed_def in_banks_def split: if_splits)
  have r: "\<forall>p \<in> set ?ps. in_banks C p" using assms(1) by (auto simp: rank_banks_set in_banks_def cmd_in_def)
  have u: "acts_on C p ?P (\<lambda>b. projr (bank_UpdateState c b)) (upd_bank (bank_UpdateState c) p)" if "in_banks C p" for p
    by (rule upd_bank_acts [OF that]) auto
  have "\<exists>B'. res_fold (upd_bank (bank_UpdateState c)) ?ps (bank_states cs) = Inr B' \<and> banks_shape C B' \<and>
    (\<forall>q. in_banks C q \<longrightarrow> bank_of B' q = (if q \<in> set ?ps then projr (bank_UpdateState c (cs_bank cs q)) else cs_bank cs q))"
  proof (rule res_fold_acts [where P = ?P, OF u])
    show "\<And>p. p \<in> set ?ps \<Longrightarrow> in_banks C p" "\<forall>p \<in> set ?ps. in_banks C p" using r by blast+
    show "distinct ?ps" using rank_banks_distinct by simp
    show "banks_shape C (bank_states cs)" by (fact s)
    show "\<forall>p \<in> set ?ps. ?P (cs_bank cs p)" using r m assms(5) by blast
  qed
  then obtain B where B: "res_fold (upd_bank (bank_UpdateState c)) ?ps (bank_states cs) = Inr B" "banks_shape C B"
    "\<And>q. in_banks C q \<Longrightarrow> bank_of B q = (if addressed c q then projr (bank_UpdateState c (cs_bank cs q)) else cs_bank cs q)"
    using m by auto
  have u: "upd_banks (bank_UpdateState c) ?ps cs = Inr (cs\<lparr>bank_states := B\<rparr>)"
    using B(1) by (simp add: upd_banks_def)
  have e: "set (erase_first p xs) \<subseteq> set xs" for p :: "Command \<Rightarrow> bool" and xs by (induction xs) auto
  define cs' where "cs' = (if \<not> IsRefresh c then cs\<lparr>bank_states := B\<rparr>
    else if IsRankCMD c then RankNeedRefresh (c_rank c) False (cs\<lparr>bank_states := B\<rparr>)
    else BankNeedRefresh (c_rank c) (c_bankgroup c) (c_bank c) False (cs\<lparr>bank_states := B\<rparr>))"
  have "UpdateState C c cs = Inr cs'"
    using u assms(3,4) by (cases "IsRankCMD c") (simp_all add: UpdateState_def cs'_def)
  moreover have "bank_states cs' = B \<and> set (refresh_q cs') \<subseteq> set (refresh_q cs) \<and>
    rank_is_sref cs' = rank_is_sref cs \<and> four_aw cs' = four_aw cs \<and> thirty_two_aw cs' = thirty_two_aw cs \<and>
    rank_idle_cycles cs' = rank_idle_cycles cs"
    using e by (simp add: cs'_def RankNeedRefresh_def BankNeedRefresh_def)
  moreover have "if addressed c q then bank_UpdateState c (cs_bank cs q) = Inr (bank_of B q) else bank_of B q = cs_bank cs q"
    if "in_banks C q" for q
    using B(3) [OF that] assms(5) [OF that] by (auto split: if_splits)
  ultimately show ?thesis using assms(2) B(2) unfolding cs_shape_def by metis
qed

section \<open>Ready commands\<close>

text \<open>
  The invariant of a channel in which no rank is in self refresh: every bank is open or closed and the
  waiting refreshes are refresh commands within the device.
\<close>

definition bank_ok :: "BankState \<Rightarrow> bool" where
  "bank_ok b \<longleftrightarrow> bs_state b = OPEN \<or> bs_state b = CLOSED"

definition device_ok :: "Config \<Rightarrow> bool" where
  "device_ok C \<longleftrightarrow> 1 \<le> ranks C \<and> 1 \<le> bankgroups C \<and> 1 \<le> banks_per_group C \<and>
     banks C = bankgroups C * banks_per_group C"

definition cs_ok :: "Config \<Rightarrow> ChannelState \<Rightarrow> bool" where
  "cs_ok C cs \<longleftrightarrow> cs_shape C cs \<and> (\<forall>q. in_banks C q \<longrightarrow> bank_ok (cs_bank cs q)) \<and>
     (\<forall>c \<in> set (refresh_q cs). IsRefresh c \<and> cmd_in C c) \<and> (\<forall>s \<in> set (rank_is_sref cs). \<not> s)"

definition window_ok :: "Config \<Rightarrow> ChannelState \<Rightarrow> u64 \<Rightarrow> Command \<Rightarrow> bool" where
  "window_ok C cs clk c \<longleftrightarrow> (cmd_type c = ACTIVATE \<longrightarrow> ActivationWindowOk C cs (c_rank c) clk = Inr True)"

text \<open>A command that may be issued now: every bank it addresses allows and executes it.\<close>

definition ready_for :: "Config \<Rightarrow> ChannelState \<Rightarrow> u64 \<Rightarrow> Command \<Rightarrow> bool" where
  "ready_for C cs clk c \<longleftrightarrow> cmd_in C c \<and> IsValid c \<and> cmd_type c \<noteq> SREF_ENTER \<and> cmd_type c \<noteq> SREF_EXIT \<and>
     window_ok C cs clk c \<and>
     (\<forall>q. in_banks C q \<longrightarrow> addressed c q \<longrightarrow> cmd_timing (cs_bank cs q) (cmd_type c) \<le> clk \<and>
        (\<exists>b. bank_UpdateState c (cs_bank cs q) = Inr b) \<and>
        (IsReadWrite c \<longrightarrow> open_row (cs_bank cs q) = c_row c))"

definition ref_ready :: "bank_array \<Rightarrow> u64 \<Rightarrow> coord \<Rightarrow> bool" where
  "ref_ready B clk p \<longleftrightarrow> bs_state (bank_of B p) = CLOSED \<and> cmd_timing (bank_of B p) REFRESH \<le> clk"

lemma rank_ready_ok:
  assumes "banks_shape C B" and "cmd_type cmd = REFRESH"
    and "\<forall>p \<in> set ps. in_banks C p \<and> bank_ok (bank_of B p) \<and> fst p = c_rank cmd"
  shows "\<exists>c. rank_ready C B cmd clk ps r n = Inr c \<and> (IsValid c \<longrightarrow>
    (\<exists>j k. in_banks C (c_rank cmd, j, k) \<and> bs_state (bank_of B (c_rank cmd, j, k)) = OPEN \<and>
       cmd_timing (bank_of B (c_rank cmd, j, k)) PRECHARGE \<le> clk \<and>
       c = \<lparr>cmd_type = PRECHARGE, cmd_addr = Address_none\<lparr>ad_rank := c_rank cmd, ad_bankgroup := j, ad_bank := k\<rparr>,
            hex_addr = hex_addr cmd\<rparr>) \<or>
    n + int (length (filter (ref_ready B clk) ps)) = banks C \<and> c = (if ps = [] then r else cmd))"
  using assms(3)
proof (induction ps arbitrary: r n)
  case Nil
  then show ?case by auto
next
  case (Cons p ps)
  obtain j k where p: "p = (c_rank cmd, j, k)" using Cons.prems by (cases p) auto
  let ?b = "bank_of B p"
  have at: "bank_at B (c_rank cmd) j k = Inr ?b" using bank_at_in [OF assms(1)] Cons.prems p by auto
  have "bank_ok ?b" using Cons.prems by simp
  then consider (pre) "bs_state ?b = OPEN" "cmd_timing ?b PRECHARGE \<le> clk"
    | (rdy) "ref_ready B clk p" | (wait) "bs_state ?b = OPEN" "\<not> cmd_timing ?b PRECHARGE \<le> clk"
    | (wait2) "bs_state ?b = CLOSED" "\<not> cmd_timing ?b REFRESH \<le> clk"
    by (auto simp: bank_ok_def ref_ready_def)
  then show ?case
  proof cases
    case pre
    then show ?thesis using at assms(2) p Cons.prems
      by (auto simp: bank_GetReadyCommand_def required_type_def cmd_defs)
  next
    case rdy
    then have g: "bank_GetReadyCommand ?b cmd clk = Inr cmd"
      using assms(2) by (simp add: bank_GetReadyCommand_def required_type_def ref_ready_def)
    have "IsValid cmd" using assms(2) by (simp add: IsValid_def)
    with g at p have "rank_ready C B cmd clk (p # ps) r n = rank_ready C B cmd clk ps cmd (n + 1)" by simp
    with Cons.IH [of cmd "n + 1"] Cons.prems rdy show ?thesis by (auto simp: algebra_simps)
  next
    case wait
    then have g: "bank_GetReadyCommand ?b cmd clk = Inr Command_none" "\<not> ref_ready B clk p"
      using assms(2) by (simp_all add: bank_GetReadyCommand_def required_type_def cmd_defs ref_ready_def)
    with at p have "rank_ready C B cmd clk (p # ps) r n = rank_ready C B cmd clk ps Command_none n" by simp
    with Cons.IH [of Command_none n] Cons.prems g(2) show ?thesis by (cases "ps = []") auto
  next
    case wait2
    then have g: "bank_GetReadyCommand ?b cmd clk = Inr Command_none" "\<not> ref_ready B clk p"
      using assms(2) by (simp_all add: bank_GetReadyCommand_def required_type_def cmd_defs ref_ready_def)
    with at p have "rank_ready C B cmd clk (p # ps) r n = rank_ready C B cmd clk ps Command_none n" by simp
    with Cons.IH [of Command_none n] Cons.prems g(2) show ?thesis by (cases "ps = []") auto
  qed
qed

lemma length_rank_banks:
  assumes "device_ok C"
  shows "int (length (rank_banks C r)) = banks C"
proof -
  have "rank_banks C r = map (\<lambda>(j, k). (r, j, k)) (List.product (iota (bankgroups C)) (iota (banks_per_group C)))"
    by (simp add: rank_banks_def product_concat_map map_concat comp_def)
  then have "length (rank_banks C r) = nat (bankgroups C) * nat (banks_per_group C)"
    by (simp add: iota_def)
  then show ?thesis using assms by (simp add: device_ok_def)
qed

lemma rank_GetReady:
  assumes "device_ok C" and "cs_ok C cs" and "cmd_in C cmd" and "cmd_type cmd = REFRESH"
  shows "\<exists>c. GetReadyCommand C cs cmd clk = Inr c \<and>
    (IsValid c \<longrightarrow> ready_for C cs clk c \<and> (c = cmd \<or> cmd_type c = PRECHARGE))"
proof -
  let ?B = "bank_states cs" and ?ps = "rank_banks C (c_rank cmd)"
  have ps: "\<forall>p \<in> set ?ps. in_banks C p \<and> bank_ok (bank_of ?B p) \<and> fst p = c_rank cmd"
    using assms(2,3) by (auto simp: rank_banks_set in_banks_def cmd_in_def cs_ok_def)
  have "banks_shape C ?B" using assms(2) by (simp add: cs_ok_def cs_shape_def)
  from rank_ready_ok [OF this assms(4) ps, of clk Command_none 0] obtain c where
    c: "GetReadyCommand C cs cmd clk = Inr c" and alt: "IsValid c \<Longrightarrow>
    (\<exists>j k. in_banks C (c_rank cmd, j, k) \<and> bs_state (bank_of ?B (c_rank cmd, j, k)) = OPEN \<and>
       cmd_timing (bank_of ?B (c_rank cmd, j, k)) PRECHARGE \<le> clk \<and>
       c = \<lparr>cmd_type = PRECHARGE, cmd_addr = Address_none\<lparr>ad_rank := c_rank cmd, ad_bankgroup := j, ad_bank := k\<rparr>,
            hex_addr = hex_addr cmd\<rparr>) \<or>
    int (length (filter (ref_ready ?B clk) ?ps)) = banks C \<and> c = (if ?ps = [] then Command_none else cmd)"
    using assms(4) by (auto simp: GetReadyCommand_def IsRankCMD_def)
  have "ready_for C cs clk c \<and> (c = cmd \<or> cmd_type c = PRECHARGE)" if v: "IsValid c"
    using alt [OF v]
  proof (elim disjE exE conjE)
    fix j k
    assume "in_banks C (c_rank cmd, j, k)" "bs_state (bank_of ?B (c_rank cmd, j, k)) = OPEN"
       "cmd_timing (bank_of ?B (c_rank cmd, j, k)) PRECHARGE \<le> clk"
       "c = \<lparr>cmd_type = PRECHARGE, cmd_addr = Address_none\<lparr>ad_rank := c_rank cmd, ad_bankgroup := j, ad_bank := k\<rparr>,
            hex_addr = hex_addr cmd\<rparr>"
    then show ?thesis
      by (auto simp: ready_for_def cmd_in_def addressed_def cmd_defs in_banks_def bank_UpdateState_def window_ok_def)
  next
    assume n: "int (length (filter (ref_ready ?B clk) ?ps)) = banks C" and "c = (if ?ps = [] then Command_none else cmd)"
    with v have "c = cmd" by (auto split: if_splits)
    have "length (filter (ref_ready ?B clk) ?ps) = length ?ps"
      using n length_rank_banks [OF assms(1), of "c_rank cmd"] by linarith
    then have "\<forall>p \<in> set ?ps. ref_ready ?B clk p"
      by (metis filter_id_conv length_filter_less less_irrefl)
    then have "bs_state (cs_bank cs q) = CLOSED \<and> cmd_timing (cs_bank cs q) REFRESH \<le> clk"
      if "in_banks C q" "addressed cmd q" for q
      using that assms(4) by (cases q) (auto simp: rank_banks_set in_banks_def addressed_def ref_ready_def)
    with \<open>c = cmd\<close> assms(3,4) show ?thesis
      by (auto simp: ready_for_def cmd_defs bank_UpdateState_def window_ok_def)
  qed
  with c show ?thesis by blast
qed

lemma ActivationWindow_total:
  assumes "cs_shape C cs" and "0 \<le> r" and "r < ranks C"
  shows "\<exists>ok. ActivationWindowOk C cs r t = Inr ok"
  using assms by (auto simp: ActivationWindowOk_def IsFAWReady_def Is32AWReady_def cs_shape_def)

text \<open>What an open or closed bank requires for a read, a write or a refresh.\<close>

lemma required_rw:
  "bank_ok b \<Longrightarrow> IsReadWrite cmd \<Longrightarrow> required_type b cmd =
    Inr (if bs_state b = CLOSED then ACTIVATE else if c_row cmd = open_row b then cmd_type cmd else PRECHARGE)"
  by (cases "cmd_type cmd") (auto simp: bank_ok_def required_type_def cmd_defs)

lemma required_ref:
  "bank_ok b \<Longrightarrow> IsRefresh cmd \<Longrightarrow>
    required_type b cmd = Inr (if bs_state b = CLOSED then cmd_type cmd else PRECHARGE)"
  by (cases "cmd_type cmd") (auto simp: bank_ok_def required_type_def cmd_defs)

lemma bank_ready_total:
  assumes "bank_ok b" and "IsReadWrite cmd \<or> IsRefresh cmd"
  shows "\<exists>c. bank_GetReadyCommand b cmd clk = Inr c"
proof -
  have "\<exists>rt. required_type b cmd = Inr rt"
    using assms required_rw [OF assms(1)] required_ref [OF assms(1)] by blast
  then obtain rt where "required_type b cmd = Inr rt" ..
  then show ?thesis by (cases "rt \<noteq> CMD_SIZE \<and> cmd_timing b rt \<le> clk") (auto simp: bank_GetReadyCommand_def)
qed

lemma execute_open:
  "bs_state b = OPEN \<Longrightarrow> IsReadWrite c \<or> cmd_type c = PRECHARGE \<Longrightarrow> \<exists>b'. bank_UpdateState c b = Inr b'"
  by (cases "cmd_type c") (auto simp: bank_UpdateState_def cmd_defs)

lemma execute_closed:
  "bs_state b = CLOSED \<Longrightarrow> IsRefresh c \<or> cmd_type c = ACTIVATE \<Longrightarrow> \<exists>b'. bank_UpdateState c b = Inr b'"
  by (cases "cmd_type c") (auto simp: bank_UpdateState_def cmd_defs)

lemma bank_ready_valid:
  assumes "bank_GetReadyCommand b cmd clk = Inr c" and "IsValid c" and "bank_ok b"
    and "IsReadWrite cmd \<or> cmd_type cmd = REFRESH_BANK"
  shows "\<not> IsRankCMD c" "cmd_addr c = cmd_addr cmd" "cmd_timing b (cmd_type c) \<le> clk"
    "cmd_type c \<noteq> SREF_ENTER" "cmd_type c \<noteq> SREF_EXIT" "IsReadWrite c \<Longrightarrow> c = cmd" "IsRefresh c \<Longrightarrow> c = cmd"
    "IsReadWrite c \<Longrightarrow> open_row b = c_row c" "\<exists>b'. bank_UpdateState c b = Inr b'"
proof -
  note r = bank_ready_cases [OF assms(1,2)]
  have cc: "cmd_type c = cmd_type cmd \<Longrightarrow> c = cmd" using r by (intro Command.equality) auto
  have cl: "\<exists>b'. bank_UpdateState c b = Inr b'"
    if "bs_state b = CLOSED" "IsRefresh c \<or> cmd_type c = ACTIVATE" using that by (rule execute_closed)
  have op: "\<exists>b'. bank_UpdateState c b = Inr b'"
    if "bs_state b = OPEN" "IsReadWrite c \<or> cmd_type c = PRECHARGE" using that by (rule execute_open)
  have all: "\<not> IsRankCMD c \<and> cmd_type c \<noteq> SREF_ENTER \<and> cmd_type c \<noteq> SREF_EXIT \<and> (IsReadWrite c \<longrightarrow> c = cmd) \<and>
    (IsRefresh c \<longrightarrow> c = cmd) \<and> (IsReadWrite c \<longrightarrow> open_row b = c_row c) \<and> (\<exists>b'. bank_UpdateState c b = Inr b')"
  proof (cases "IsReadWrite cmd")
    case True
    then have t: "cmd_type c = (if bs_state b = CLOSED then ACTIVATE else if c_row cmd = open_row b then cmd_type cmd else PRECHARGE)"
      using r(1) required_rw [OF assms(3)] by simp
    consider "bs_state b = CLOSED" "cmd_type c = ACTIVATE"
      | "bs_state b = OPEN" "cmd_type c = PRECHARGE" | "bs_state b = OPEN" "c = cmd" "c_row c = open_row b"
      using t assms(3) cc r(3) by (auto simp: bank_ok_def split: if_splits)
    then show ?thesis
    proof cases
      case 1
      then show ?thesis using cl by (simp add: cmd_defs)
    next
      case 2
      then show ?thesis using op by (simp add: cmd_defs)
    next
      case 3
      then show ?thesis using op True by (auto simp: cmd_defs)
    qed
  next
    case False
    with assms(4) have rb: "cmd_type cmd = REFRESH_BANK" by blast
    then have t: "cmd_type c = (if bs_state b = CLOSED then REFRESH_BANK else PRECHARGE)"
      using r(1) required_ref [OF assms(3), of cmd] by (simp add: IsRefresh_def split: if_splits)
    consider "bs_state b = CLOSED" "c = cmd" | "bs_state b = OPEN" "cmd_type c = PRECHARGE"
      using t assms(3) cc rb by (auto simp: bank_ok_def split: if_splits)
    then show ?thesis
    proof cases
      case 1
      then show ?thesis using cl rb by (simp add: cmd_defs)
    next
      case 2
      then show ?thesis using op by (simp add: cmd_defs)
    qed
  qed
  with r show "\<not> IsRankCMD c" "cmd_addr c = cmd_addr cmd" "cmd_timing b (cmd_type c) \<le> clk"
    "cmd_type c \<noteq> SREF_ENTER" "cmd_type c \<noteq> SREF_EXIT" "IsReadWrite c \<Longrightarrow> c = cmd" "IsRefresh c \<Longrightarrow> c = cmd"
    "IsReadWrite c \<Longrightarrow> open_row b = c_row c" "\<exists>b'. bank_UpdateState c b = Inr b'" by blast+
qed

lemma GetReady_ok:
  assumes "device_ok C" and "cs_ok C cs" and "cmd_in C cmd" and "IsReadWrite cmd \<or> IsRefresh cmd"
  shows "\<exists>c. GetReadyCommand C cs cmd clk = Inr c \<and> (IsValid c \<longrightarrow> ready_for C cs clk c \<and>
    (IsReadWrite c \<longrightarrow> c = cmd) \<and> (IsRefresh c \<longrightarrow> c = cmd) \<and> (IsReadWrite cmd \<longrightarrow> cmd_addr c = cmd_addr cmd))"
proof (cases "cmd_type cmd = REFRESH")
  case True
  from rank_GetReady [OF assms(1-3) True, of clk] True show ?thesis by (auto simp: cmd_defs)
next
  case False
  with assms(4) have nr: "\<not> IsRankCMD cmd" and ty: "IsReadWrite cmd \<or> cmd_type cmd = REFRESH_BANK"
    by (auto simp: cmd_defs)
  let ?q = "(c_rank cmd, c_bankgroup cmd, c_bank cmd)"
  let ?b = "cs_bank cs ?q"
  have q: "in_banks C ?q" using assms(3) nr by (simp add: cmd_in_def)
  have sh: "cs_shape C cs" and ok: "bank_ok ?b" using assms(2) q by (simp_all add: cs_ok_def)
  have at: "bank_at (bank_states cs) (c_rank cmd) (c_bankgroup cmd) (c_bank cmd) = Inr ?b"
    using bank_at_in [OF _ q] sh by (simp add: cs_shape_def)
  from bank_ready_total [OF ok assms(4), of clk] obtain c where c: "bank_GetReadyCommand ?b cmd clk = Inr c" by blast
  show ?thesis
  proof (cases "IsValid c")
    case False
    with c at nr show ?thesis by (simp add: GetReadyCommand_def)
  next
    case v: True
    note f = bank_ready_valid [OF c v ok ty]
    have rk: "0 \<le> c_rank cmd" "c_rank cmd < ranks C" using assms(3) by (simp_all add: cmd_in_def)
    from ActivationWindow_total [OF sh rk, of clk] obtain w where
      w: "ActivationWindowOk C cs (c_rank cmd) clk = Inr w" by blast
    have rf: "ready_for C cs clk c" if wo: "cmd_type c = ACTIVATE \<longrightarrow> w"
      unfolding ready_for_def
    proof (intro conjI allI impI)
      show "cmd_in C c" using f(1,2) q rk by (simp add: cmd_in_def)
      show "IsValid c" "cmd_type c \<noteq> SREF_ENTER" "cmd_type c \<noteq> SREF_EXIT" using v f(4,5) by simp_all
      show "window_ok C cs clk c" using w wo f(2) by (simp add: window_ok_def)
      fix q
      assume "addressed c q"
      then have "q = ?q" using f(1,2) by (cases q) (simp add: addressed_def)
      with f(3,8,9) show "cmd_timing (cs_bank cs q) (cmd_type c) \<le> clk" "\<exists>b. bank_UpdateState c (cs_bank cs q) = Inr b"
        "IsReadWrite c \<Longrightarrow> open_row (cs_bank cs q) = c_row c" by simp_all
    qed
    show ?thesis
    proof (cases "cmd_type c = ACTIVATE \<and> \<not> w")
      case True
      with c at nr v w f(2) show ?thesis by (simp add: GetReadyCommand_def)
    next
      case False
      then have "GetReadyCommand C cs cmd clk = Inr c" using c at nr v w f(2) by (auto simp: GetReadyCommand_def)
      with rf False f show ?thesis by blast
    qed
  qed
qed

text \<open>Issuing a ready command succeeds, keeps the invariant and has the expected effect on each bank.\<close>

lemma bank_UpdateState_ok:
  "bank_UpdateState c b = Inr b' \<Longrightarrow> cmd_type c \<noteq> SREF_ENTER \<Longrightarrow> cmd_type c \<noteq> SREF_EXIT \<Longrightarrow> bank_ok b'"
  by (auto simp: bank_UpdateState_def bank_ok_def split: bank_st.splits CommandType.splits)

lemma bank_UpdateState_timing [simp]: "bank_UpdateState c b = Inr b' \<Longrightarrow> cmd_timing b' = cmd_timing b"
  by (auto simp: bank_UpdateState_def split: bank_st.splits CommandType.splits)

lemma issue_ok:
  assumes "cs_ok C cs" and "ready_for C cs clk c"
  shows "\<exists>cs'. UpdateTimingAndStates C T c clk cs = Inr cs' \<and> cs_ok C cs' \<and>
    (\<forall>q. in_banks C q \<longrightarrow> (\<exists>b. (if addressed c q then bank_UpdateState c (cs_bank cs q) = Inr b else b = cs_bank cs q) \<and>
       cs_bank cs' q = apply_timing (delays T c q) clk b)) \<and>
    four_aw cs' = four_aw_after C c clk (four_aw cs)"
proof -
  note rf = assms(2) [unfolded ready_for_def]
  have sh: "cs_shape C cs" using assms(1) by (simp add: cs_ok_def)
  have ex: "\<exists>b. bank_UpdateState c (cs_bank cs q) = Inr b" if "in_banks C q" "addressed c q" for q
    using rf that by blast
  from UpdateState_ok [OF _ sh _ _ ex] rf obtain cs1 where cs1: "UpdateState C c cs = Inr cs1" "cs_shape C cs1"
    "\<And>q. in_banks C q \<Longrightarrow> (if addressed c q then bank_UpdateState c (cs_bank cs q) = Inr (cs_bank cs1 q)
                           else cs_bank cs1 q = cs_bank cs q)"
    "set (refresh_q cs1) \<subseteq> set (refresh_q cs)" "rank_is_sref cs1 = rank_is_sref cs" "four_aw cs1 = four_aw cs"
    by blast
  from UpdateTiming_ok [OF _ _ cs1(2), of c T clk] rf obtain cs2 where cs2: "UpdateTiming C T c clk cs1 = Inr cs2"
    "cs_shape C cs2" "\<And>q. in_banks C q \<Longrightarrow> cs_bank cs2 q = apply_timing (delays T c q) clk (cs_bank cs1 q)"
    "refresh_q cs2 = refresh_q cs1" "rank_is_sref cs2 = rank_is_sref cs1"
    "four_aw cs2 = four_aw_after C c clk (four_aw cs1)" by blast
  have "bank_ok (cs_bank cs1 q)" if q: "in_banks C q" for q
  proof (cases "addressed c q")
    case True
    with cs1(3) [OF q] have "bank_UpdateState c (cs_bank cs q) = Inr (cs_bank cs1 q)" by simp
    then show ?thesis by (rule bank_UpdateState_ok) (use rf in blast)+
  next
    case False
    with cs1(3) [OF q] assms(1) q show ?thesis unfolding cs_ok_def by metis
  qed
  then have "bank_ok (cs_bank cs2 q)" if "in_banks C q" for q
    using cs2(3) that by (simp add: bank_ok_def)
  then have "cs_ok C cs2" using cs1(4,5) cs2(2,4,5) assms(1) unfolding cs_ok_def by auto
  moreover have "\<exists>b. (if addressed c q then bank_UpdateState c (cs_bank cs q) = Inr b else b = cs_bank cs q) \<and>
      cs_bank cs2 q = apply_timing (delays T c q) clk b" if "in_banks C q" for q
    using cs1(3) [OF that] cs2(3) [OF that] by (intro exI [of _ "cs_bank cs1 q"]) auto
  ultimately show ?thesis using cs1(1,6) cs2(1,6) by (auto simp: UpdateTimingAndStates_def)
qed

lemma ChannelState_new_ok: "cs_ok C (ChannelState_new C)"
proof -
  have "bank_of (bank_states (ChannelState_new C)) q = BankState_new" if "in_banks C q" for q
    using that by (cases q) (auto simp: ChannelState_new_def bank_of_def in_banks_def)
  then show ?thesis
    by (auto simp: cs_ok_def cs_shape_def banks_shape_def ChannelState_new_def bank_ok_def BankState_new_def)
qed

end
