(* ===== verification/Dram_Stats.thy ===== *)
theory Dram_Stats
  imports Dram_Config "HOL-Library.AList"
begin

text \<open>
  The statistics of a DRAM controller, \<open>src/DRAMsim3/src/simple_stats.h\<close> and \<open>simple_stats.cc\<close>:
  counters, counters per rank and histograms, kept per epoch and accumulated at its end. The
  floating-point results (energies, bandwidth, averages) and the printing are not modelled. A map of
  the code is an association list; reading a missing key gives the default, as \<open>operator[]\<close> does.
\<close>

section \<open>The model\<close>

definition al_get :: "'v \<Rightarrow> (string \<times> 'v) list \<Rightarrow> string \<Rightarrow> 'v" where
  "al_get d xs k = (case map_of xs k of None \<Rightarrow> d | Some v \<Rightarrow> v)"

lemma al_get_update [simp]: "al_get d (AList.update k v xs) k' = (if k' = k then v else al_get d xs k')"
  by (simp add: al_get_def update_conv')

type_synonym histo = "(int \<times> u64) list"

record SimpleStats =
  counters :: "(string \<times> u64) list"
  epoch_counters :: "(string \<times> u64) list"
  vec_counters :: "(string \<times> u64 list) list"
  epoch_vec_counters :: "(string \<times> u64 list) list"
  histo_bounds :: "(string \<times> int \<times> int) list"
  bin_widths :: "(string \<times> int) list"
  histo_counts :: "(string \<times> histo) list"
  epoch_histo_counts :: "(string \<times> histo) list"
  histo_bins :: "(string \<times> u64 list) list"
  epoch_histo_bins :: "(string \<times> u64 list) list"

text \<open>\<open>emplace\<close> keeps an existing entry.\<close>

definition emplace :: "string \<Rightarrow> 'v \<Rightarrow> (string \<times> 'v) list \<Rightarrow> (string \<times> 'v) list" where
  "emplace k v xs = (if k \<in> fst ` set xs then xs else xs @ [(k, v)])"

definition InitCounter :: "string \<Rightarrow> SimpleStats \<Rightarrow> SimpleStats" where
  "InitCounter name s = s\<lparr>counters := emplace name 0 (counters s),
     epoch_counters := emplace name 0 (epoch_counters s)\<rparr>"

definition InitVecCounter :: "int \<Rightarrow> string \<Rightarrow> SimpleStats \<Rightarrow> SimpleStats" where
  "InitVecCounter vec_len name s = s\<lparr>
     vec_counters := emplace name (replicate (nat vec_len) 0) (vec_counters s),
     epoch_vec_counters := emplace name (replicate (nat vec_len) 0) (epoch_vec_counters s)\<rparr>"

definition InitHistoStat :: "string \<times> int \<times> int \<times> int \<Rightarrow> SimpleStats \<Rightarrow> SimpleStats" where
  "InitHistoStat = (\<lambda>(name, start_val, end_val, num_bins) s. s\<lparr>
     bin_widths := emplace name ((end_val - start_val) sdiv num_bins) (bin_widths s),
     histo_bounds := emplace name (start_val, end_val) (histo_bounds s),
     histo_counts := emplace name [] (histo_counts s),
     epoch_histo_counts := emplace name [] (epoch_histo_counts s),
     histo_bins := emplace name (replicate (nat num_bins + 2) 0) (histo_bins s),
     epoch_histo_bins := emplace name (replicate (nat num_bins + 2) 0) (epoch_histo_bins s)\<rparr>)"

definition counter_names :: "string list" where
  "counter_names = [''num_cycles'', ''epoch_num'', ''num_reads_done'', ''num_writes_done'',
     ''num_write_buf_hits'', ''num_read_row_hits'', ''num_write_row_hits'', ''num_read_cmds'',
     ''num_write_cmds'', ''num_act_cmds'', ''num_pre_cmds'', ''num_ondemand_pres'', ''num_ref_cmds'',
     ''num_refb_cmds'', ''num_srefe_cmds'', ''num_srefx_cmds'', ''hbm_dual_cmds'']"

definition vec_names :: "string list" where
  "vec_names = [''all_bank_idle_cycles'', ''rank_active_cycles'', ''sref_cycles'']"

definition SimpleStats_new :: "Config \<Rightarrow> SimpleStats" where
  "SimpleStats_new C =
     fold InitHistoStat [(''read_latency'', 0, 200, 10), (''write_latency'', 0, 200, 10),
         (''interarrival_latency'', 0, 100, 10)]
       (fold (InitVecCounter (ranks C)) vec_names
         (fold InitCounter counter_names
           \<lparr>counters = [], epoch_counters = [], vec_counters = [], epoch_vec_counters = [],
            histo_bounds = [], bin_widths = [], histo_counts = [], epoch_histo_counts = [],
            histo_bins = [], epoch_histo_bins = []\<rparr>))"

definition Increment :: "string \<Rightarrow> SimpleStats \<Rightarrow> SimpleStats" where
  "Increment name s = s\<lparr>epoch_counters := AList.update name (al_get 0 (epoch_counters s) name + 1) (epoch_counters s)\<rparr>"

definition IncrementVecBy :: "string \<Rightarrow> int \<Rightarrow> int \<Rightarrow> SimpleStats \<Rightarrow> SimpleStats res" where
  "IncrementVecBy name pos num s =
     (let v = al_get [] (epoch_vec_counters s) name in
      res_bind (vgeti v pos) (\<lambda>x.
      Inr (s\<lparr>epoch_vec_counters := AList.update name (v[nat pos := x + of_int num]) (epoch_vec_counters s)\<rparr>)))"

definition IncrementVec :: "string \<Rightarrow> int \<Rightarrow> SimpleStats \<Rightarrow> SimpleStats res" where
  "IncrementVec name pos s = IncrementVecBy name pos 1 s"

text \<open>Adding to the count of a value in a histogram; a missing value starts at zero.\<close>

fun histo_add :: "int \<Rightarrow> u64 \<Rightarrow> histo \<Rightarrow> histo" where
  "histo_add v n [] = [(v, n)]"
| "histo_add v n ((w, m) # h) = (if w = v then (w, m + n) # h else (w, m) # histo_add v n h)"

definition AddValue :: "string \<Rightarrow> int \<Rightarrow> SimpleStats \<Rightarrow> SimpleStats" where
  "AddValue name v s = s\<lparr>epoch_histo_counts :=
     AList.update name (histo_add v 1 (al_get [] (epoch_histo_counts s) name)) (epoch_histo_counts s)\<rparr>"

definition Reset :: "SimpleStats \<Rightarrow> SimpleStats" where
  "Reset s = s\<lparr>counters := map (\<lambda>(k, _). (k, 0)) (counters s),
     epoch_counters := map (\<lambda>(k, _). (k, 0)) (epoch_counters s),
     vec_counters := map (\<lambda>(k, v). (k, map (\<lambda>_. 0) v)) (vec_counters s),
     epoch_vec_counters := map (\<lambda>(k, v). (k, map (\<lambda>_. 0) v)) (epoch_vec_counters s),
     histo_counts := map (\<lambda>(k, _). (k, [])) (histo_counts s),
     epoch_histo_counts := map (\<lambda>(k, _). (k, [])) (epoch_histo_counts s)\<rparr>"

text \<open>The accumulation at the end of an epoch.\<close>

definition vec_add :: "nat \<Rightarrow> u64 list \<Rightarrow> u64 list \<Rightarrow> u64 list res" where
  "vec_add n xs ys = res_fold (\<lambda>i xs. res_bind (vget xs i) (\<lambda>x. res_bind (vget ys i) (\<lambda>y.
     vset xs i (x + y)))) [0..<n] xs"

definition UpdateCounters :: "SimpleStats \<Rightarrow> SimpleStats res" where
  "UpdateCounters s =
     (let cs = fold (\<lambda>(k, n) cs. AList.update k (al_get 0 cs k + n) cs) (epoch_counters s) (counters s)
      in res_bind (res_fold (\<lambda>(k, v) vs. res_bind (vec_add (length v) (al_get [] vs k) v) (\<lambda>w. Inr (AList.update k w vs)))
           (epoch_vec_counters s) (vec_counters s)) (\<lambda>vs.
         Inr (s\<lparr>counters := cs, vec_counters := vs\<rparr>)))"

definition bin_index :: "int \<times> int \<Rightarrow> int \<Rightarrow> nat \<Rightarrow> int \<Rightarrow> int res" where
  "bin_index bounds width n v =
     (if v < fst bounds then Inr 0 else if v > snd bounds then Inr (int n - 1)
      else res_bind (cdiv (v - fst bounds) width) (\<lambda>q. Inr (q + 1)))"

definition fill_bins :: "int \<times> int \<Rightarrow> int \<Rightarrow> histo \<Rightarrow> u64 list \<Rightarrow> u64 list res" where
  "fill_bins bounds width h bins =
     res_fold (\<lambda>(v, n) bins. res_bind (bin_index bounds width (length bins) v) (\<lambda>i.
       res_bind (vgeti bins i) (\<lambda>b. vseti bins i (b + n)))) h (map (\<lambda>_. 0) bins)"

definition UpdateHistoBins :: "SimpleStats \<Rightarrow> SimpleStats res" where
  "UpdateHistoBins s =
     res_bind (res_fold (\<lambda>(name, _) s.
         res_bind (fill_bins (al_get (0, 0) (histo_bounds s) name) (al_get 0 (bin_widths s) name)
             (al_get [] (epoch_histo_counts s) name) (al_get [] (epoch_histo_bins s) name)) (\<lambda>b.
         Inr (s\<lparr>epoch_histo_bins := AList.update name b (epoch_histo_bins s)\<rparr>)))
       (epoch_histo_bins s) s) (\<lambda>s1.
     res_fold (\<lambda>(name, h) s.
         let fc = fold (\<lambda>(v, n). histo_add v n) h (al_get [] (histo_counts s) name)
         in res_bind (vec_add (length (al_get [] (histo_bins s) name)) (al_get [] (histo_bins s) name)
               (al_get [] (epoch_histo_bins s) name)) (\<lambda>fb.
            Inr (s\<lparr>histo_counts := AList.update name fc (histo_counts s),
                   histo_bins := AList.update name fb (histo_bins s)\<rparr>)))
       (epoch_histo_counts s1) s1)"

definition UpdateEpochStats :: "SimpleStats \<Rightarrow> SimpleStats res" where
  "UpdateEpochStats s =
     res_bind (UpdateCounters s) (\<lambda>s1. res_bind (UpdateHistoBins s1) (\<lambda>s2.
     Inr (s2\<lparr>epoch_counters := map (\<lambda>(k, _). (k, 0)) (epoch_counters s2),
             epoch_vec_counters := map (\<lambda>(k, v). (k, map (\<lambda>_. 0) v)) (epoch_vec_counters s2),
             epoch_histo_counts := map (\<lambda>(k, _). (k, [])) (epoch_histo_counts s2)\<rparr>)))"

definition UpdateFinalStats :: "SimpleStats \<Rightarrow> SimpleStats res" where
  "UpdateFinalStats s = res_bind (UpdateCounters s) UpdateHistoBins"

section \<open>Well-formed statistics\<close>

definition bins_fit :: "int \<times> int \<Rightarrow> int \<Rightarrow> nat \<Rightarrow> bool" where
  "bins_fit b w n \<longleftrightarrow> 0 < w \<and> 1 \<le> n \<and> (snd b - fst b) div w + 1 < int n"

definition bins_ok :: "SimpleStats \<Rightarrow> bool" where
  "bins_ok s \<longleftrightarrow> (\<forall>n. n \<in> fst ` set (epoch_histo_bins s) \<longrightarrow>
     bins_fit (al_get (0, 0) (histo_bounds s) n) (al_get 0 (bin_widths s) n) (length (al_get [] (epoch_histo_bins s) n)))"

definition stats_ok :: "Config \<Rightarrow> SimpleStats \<Rightarrow> bool" where
  "stats_ok C s \<longleftrightarrow>
     (\<forall>n \<in> set vec_names. length (al_get [] (epoch_vec_counters s) n) = nat (ranks C)) \<and>
     (\<forall>(k, v) \<in> set (epoch_vec_counters s). length v = length (al_get [] (vec_counters s) k)) \<and>
     bins_ok s \<and> (\<forall>n. length (al_get [] (histo_bins s) n) = length (al_get [] (epoch_histo_bins s) n))"

lemma set_update: "(k', v') \<in> set (AList.update k v xs) \<Longrightarrow> (k', v') = (k, v) \<or> (k', v') \<in> set xs"
  by (induction xs) (auto split: if_splits)

lemma fst_set_update: "fst ` set (AList.update k v xs) = insert k (fst ` set xs)"
  by (induction xs) auto

lemma vec_add_ok:
  assumes "n \<le> length xs" and "n \<le> length ys"
  shows "\<exists>zs. vec_add n xs ys = Inr zs \<and> length zs = length xs"
  unfolding vec_add_def by (rule res_fold_inv) (use assms in auto)

lemma fill_bins_ok:
  assumes "bins_fit b w (length bins)"
  shows "\<exists>bs. fill_bins b w h bins = Inr bs \<and> length bs = length bins"
  unfolding fill_bins_def
proof (rule res_fold_inv, goal_cases)
  case 1
  show ?case by simp
next
  case (2 x bs)
  obtain v n where x: "x = (v, n)" by (cases x)
  have w: "0 < w" "1 \<le> length bs" "(snd b - fst b) div w + 1 < int (length bs)"
    using assms 2 by (auto simp: bins_fit_def)
  have "\<exists>i. bin_index b w (length bs) v = Inr i \<and> 0 \<le> i \<and> i < int (length bs)"
  proof (cases "v < fst b \<or> v > snd b")
    case True
    then show ?thesis using w by (auto simp: bin_index_def)
  next
    case False
    then have "(v - fst b) div w \<le> (snd b - fst b) div w" "0 \<le> (v - fst b) div w"
      using w(1) by (auto simp: zdiv_mono1 pos_imp_zdiv_nonneg_iff)
    with False w show ?thesis by (auto simp: bin_index_def cdiv_def sdiv_nonneg)
  qed
  then obtain i where "bin_index b w (length bs) v = Inr i" "0 \<le> i" "i < int (length bs)" by blast
  with 2 x show ?case by auto
qed

lemma Increment_ok: "stats_ok C s \<Longrightarrow> stats_ok C (Increment n s)"
  by (simp add: stats_ok_def bins_ok_def Increment_def)

lemma AddValue_ok: "stats_ok C s \<Longrightarrow> stats_ok C (AddValue n v s)"
  by (simp add: stats_ok_def bins_ok_def AddValue_def)

lemma IncrementVec_ok:
  assumes "stats_ok C s" and "n \<in> set vec_names" and "0 \<le> i" "i < ranks C"
  shows "\<exists>s'. IncrementVec n i s = Inr s' \<and> stats_ok C s'"
proof -
  let ?v = "al_get [] (epoch_vec_counters s) n"
  let ?s = "s\<lparr>epoch_vec_counters := AList.update n (?v[nat i := ?v ! nat i + 1]) (epoch_vec_counters s)\<rparr>"
  have len: "length ?v = nat (ranks C)" using assms(1,2) by (simp add: stats_ok_def)
  then have "IncrementVec n i s = Inr ?s"
    using assms(3,4) by (simp add: IncrementVec_def IncrementVecBy_def Let_def)
  moreover have "nat (ranks C) = length (al_get [] (vec_counters s) n)"
  proof -
    have "?v \<noteq> []" using len assms(3,4) by auto
    then have "(n, ?v) \<in> set (epoch_vec_counters s)"
      by (auto simp: al_get_def map_of_SomeD split: option.splits)
    then show ?thesis using assms(1) len unfolding stats_ok_def by fastforce
  qed
  then have "stats_ok C ?s"
    using assms(1) len unfolding stats_ok_def bins_ok_def by (auto dest!: set_update)
  ultimately show ?thesis by blast
qed

lemma UpdateCounters_ok:
  assumes "stats_ok C s"
  shows "\<exists>s'. UpdateCounters s = Inr s' \<and> stats_ok C s'"
proof -
  let ?F = "\<lambda>(k, v) vs. res_bind (vec_add (length v) (al_get [] vs k) v) (\<lambda>w. Inr (AList.update k w vs))"
  let ?P = "\<lambda>vs. \<forall>(k, v) \<in> set (epoch_vec_counters s). length v = length (al_get [] vs k)"
  have "\<exists>vs. res_fold ?F (epoch_vec_counters s) (vec_counters s) = Inr vs \<and> ?P vs"
  proof (rule res_fold_inv, goal_cases)
    case 1
    show ?case using assms by (simp add: stats_ok_def)
  next
    case (2 x vs)
    obtain k v where x: "x = (k, v)" by (cases x)
    then have "length v \<le> length (al_get [] vs k)" using 2 by auto
    from vec_add_ok [OF this order.refl] obtain w where
      w: "vec_add (length v) (al_get [] vs k) v = Inr w" "length w = length (al_get [] vs k)" by blast
    have "?P (AList.update k w vs)" using 2(2) w(2) by auto
    with w x show ?case by auto
  qed
  then obtain vs where "res_fold ?F (epoch_vec_counters s) (vec_counters s) = Inr vs" "?P vs" by blast
  then show ?thesis using assms by (simp add: UpdateCounters_def Let_def stats_ok_def bins_ok_def)
qed

definition same_frame :: "SimpleStats \<Rightarrow> SimpleStats \<Rightarrow> bool" where
  "same_frame s t \<longleftrightarrow> counters t = counters s \<and> epoch_counters t = epoch_counters s \<and>
     vec_counters t = vec_counters s \<and> epoch_vec_counters t = epoch_vec_counters s \<and>
     histo_bounds t = histo_bounds s \<and> bin_widths t = bin_widths s \<and> epoch_histo_counts t = epoch_histo_counts s"

lemma epoch_bins_ok:
  assumes "stats_ok C s"
  shows "\<exists>s'. res_fold (\<lambda>(name, _) s.
         res_bind (fill_bins (al_get (0, 0) (histo_bounds s) name) (al_get 0 (bin_widths s) name)
             (al_get [] (epoch_histo_counts s) name) (al_get [] (epoch_histo_bins s) name)) (\<lambda>b.
         Inr (s\<lparr>epoch_histo_bins := AList.update name b (epoch_histo_bins s)\<rparr>)))
       (epoch_histo_bins s) s = Inr s' \<and>
     (stats_ok C s' \<and> same_frame s s' \<and> fst ` set (epoch_histo_bins s') = fst ` set (epoch_histo_bins s))"
proof (rule res_fold_inv, goal_cases)
  case 1
  show ?case using assms by (simp add: same_frame_def)
next
  case (2 x t)
  obtain n bs where x: "x = (n, bs)" by (cases x)
  then have n: "n \<in> fst ` set (epoch_histo_bins t)" using 2 by force
  then have "bins_fit (al_get (0, 0) (histo_bounds t) n) (al_get 0 (bin_widths t) n) (length (al_get [] (epoch_histo_bins t) n))"
    using 2(2) unfolding stats_ok_def bins_ok_def by blast
  from fill_bins_ok [OF this] obtain b where
    b: "fill_bins (al_get (0, 0) (histo_bounds t) n) (al_get 0 (bin_widths t) n) (al_get [] (epoch_histo_counts t) n)
       (al_get [] (epoch_histo_bins t) n) = Inr b" "length b = length (al_get [] (epoch_histo_bins t) n)" by blast
  have keys: "fst ` set (AList.update n b (epoch_histo_bins t)) = fst ` set (epoch_histo_bins t)"
    unfolding fst_set_update using n by (rule insert_absorb)
  have "bins_ok (t\<lparr>epoch_histo_bins := AList.update n b (epoch_histo_bins t)\<rparr>)"
    using 2(2) b(2) keys unfolding stats_ok_def bins_ok_def by simp
  then have "stats_ok C (t\<lparr>epoch_histo_bins := AList.update n b (epoch_histo_bins t)\<rparr>)"
    using 2(2) b(2) by (simp add: stats_ok_def)
  moreover note keys
  ultimately show ?case using b(1) x 2(2) by (simp add: same_frame_def)
qed

lemma UpdateHistoBins_ok:
  assumes "stats_ok C s"
  shows "\<exists>s'. UpdateHistoBins s = Inr s' \<and> stats_ok C s' \<and> same_frame s s'"
proof -
  from epoch_bins_ok [OF assms] obtain s1 where s1: "res_fold (\<lambda>(name, _) s.
         res_bind (fill_bins (al_get (0, 0) (histo_bounds s) name) (al_get 0 (bin_widths s) name)
             (al_get [] (epoch_histo_counts s) name) (al_get [] (epoch_histo_bins s) name)) (\<lambda>b.
         Inr (s\<lparr>epoch_histo_bins := AList.update name b (epoch_histo_bins s)\<rparr>)))
       (epoch_histo_bins s) s = Inr s1" "stats_ok C s1" "same_frame s s1" by blast
  let ?F = "\<lambda>(name, h) s.
         let fc = fold (\<lambda>(v, n). histo_add v n) h (al_get [] (histo_counts s) name)
         in res_bind (vec_add (length (al_get [] (histo_bins s) name)) (al_get [] (histo_bins s) name)
               (al_get [] (epoch_histo_bins s) name)) (\<lambda>fb.
            Inr (s\<lparr>histo_counts := AList.update name fc (histo_counts s),
                   histo_bins := AList.update name fb (histo_bins s)\<rparr>))"
  have "\<exists>s2. res_fold ?F (epoch_histo_counts s1) s1 = Inr s2 \<and> (stats_ok C s2 \<and> same_frame s1 s2)"
  proof (rule res_fold_inv, goal_cases)
    case 1
    show ?case using s1(2) by (simp add: same_frame_def)
  next
    case (2 x t)
    obtain n h where x: "x = (n, h)" by (cases x)
    have "length (al_get [] (histo_bins t) n) \<le> length (al_get [] (epoch_histo_bins t) n)"
      using 2(2) by (simp add: stats_ok_def)
    from vec_add_ok [OF order.refl this] obtain fb where
      fb: "vec_add (length (al_get [] (histo_bins t) n)) (al_get [] (histo_bins t) n) (al_get [] (epoch_histo_bins t) n) = Inr fb"
        "length fb = length (al_get [] (histo_bins t) n)" by blast
    then show ?case using 2(2) x by (auto simp: Let_def stats_ok_def bins_ok_def same_frame_def)
  qed
  with s1 show ?thesis by (auto simp: UpdateHistoBins_def same_frame_def)
qed

lemma map_of_map_zero: "map_of (map (\<lambda>(k, v). (k, f v)) xs) k = map_option f (map_of xs k)"
  by (induction xs) auto

lemma UpdateEpochStats_ok:
  assumes "stats_ok C s"
  shows "\<exists>s'. UpdateEpochStats s = Inr s' \<and> stats_ok C s'"
proof -
  from UpdateCounters_ok [OF assms] obtain s1 where s1: "UpdateCounters s = Inr s1" "stats_ok C s1" by blast
  from UpdateHistoBins_ok [OF s1(2)] obtain s2 where s2: "UpdateHistoBins s1 = Inr s2" "stats_ok C s2" by blast
  have "length (al_get [] (map (\<lambda>(k, v). (k, map (\<lambda>_. 0::u64) v)) xs) n) = length (al_get [] xs n)"
    for xs :: "(string \<times> u64 list) list" and n
    by (simp add: al_get_def map_of_map_zero split: option.splits)
  with s1 s2 show ?thesis by (auto simp: UpdateEpochStats_def stats_ok_def bins_ok_def)
qed

lemma SimpleStats_new_ok: "stats_ok C (SimpleStats_new C)"
  by (simp add: stats_ok_def bins_ok_def SimpleStats_new_def vec_names_def counter_names_def InitHistoStat_def
    InitVecCounter_def InitCounter_def emplace_def al_get_def bins_fit_def sdiv_nonneg)

section \<open>Nothing is lost between epochs\<close>

lemma al_get_Cons: "al_get d ((k', v) # xs) k = (if k = k' then v else al_get d xs k)"
  by (simp add: al_get_def)

lemma counters_fold:
  "distinct (map fst es) \<Longrightarrow> al_get 0 (fold (\<lambda>(k, n) cs. AList.update k (al_get 0 cs k + n) cs) es cs) k =
     al_get 0 cs k + (al_get 0 es k :: u64)"
proof (induction es arbitrary: cs)
  case Nil
  then show ?case by (simp add: al_get_def)
next
  case (Cons e es)
  obtain k' n where e: "e = (k', n)" by (cases e)
  have "al_get 0 es k' = 0" using Cons.prems e
    by (auto simp: al_get_def dest: map_of_SomeD split: option.splits) (metis fst_conv image_eqI)
  with Cons.IH [of "AList.update k' (al_get 0 cs k' + n) cs"] Cons.prems e show ?case
    by (auto simp: al_get_Cons)
qed

text \<open>
  C25. Statistics. The end of an epoch never fails on well-formed statistics, and it moves every epoch
  counter into the overall counter without loss: afterwards the overall value has grown by exactly
  what the epoch counted and the epoch starts at zero.
\<close>

theorem epoch_counters_moved:
  assumes "stats_ok C s" and "distinct (map fst (epoch_counters s))"
  shows "\<exists>s'. UpdateEpochStats s = Inr s' \<and> stats_ok C s' \<and>
    (\<forall>n. al_get 0 (counters s') n = al_get 0 (counters s) n + al_get 0 (epoch_counters s) n) \<and>
    (\<forall>n. al_get 0 (epoch_counters s') n = 0)"
proof -
  from UpdateEpochStats_ok [OF assms(1)] obtain s' where s': "UpdateEpochStats s = Inr s'" "stats_ok C s'" by blast
  from s'(1) obtain s1 s2 where u: "UpdateCounters s = Inr s1" "UpdateHistoBins s1 = Inr s2"
    and e: "s' = s2\<lparr>epoch_counters := map (\<lambda>(k, _). (k, 0)) (epoch_counters s2),
             epoch_vec_counters := map (\<lambda>(k, v). (k, map (\<lambda>_. 0) v)) (epoch_vec_counters s2),
             epoch_histo_counts := map (\<lambda>(k, _). (k, [])) (epoch_histo_counts s2)\<rparr>"
    by (auto simp: UpdateEpochStats_def)
  have "counters s2 = counters s1" using UpdateHistoBins_ok [of C s1] UpdateCounters_ok [OF assms(1)] u
    by (auto simp: same_frame_def)
  moreover have "al_get 0 (counters s1) n = al_get 0 (counters s) n + al_get 0 (epoch_counters s) n" for n
    using u(1) counters_fold [OF assms(2)] by (auto simp: UpdateCounters_def Let_def)
  moreover have "al_get 0 (map (\<lambda>(k, _). (k, 0)) xs) n = (0::u64)" for xs :: "(string \<times> u64) list" and n
    by (simp add: al_get_def map_of_map_zero split: option.splits)
  ultimately show ?thesis using s' e by simp
qed

theorem epoch_counters_moved_witness:
  "\<exists>s'. UpdateEpochStats (Increment ''num_cycles'' (SimpleStats_new config_default)) = Inr s' \<and>
     al_get 0 (counters s') ''num_cycles'' = 1"
proof -
  let ?s = "Increment ''num_cycles'' (SimpleStats_new config_default)"
  have "distinct (map fst (epoch_counters ?s))" "al_get 0 (counters ?s) ''num_cycles'' = 0"
    "al_get 0 (epoch_counters ?s) ''num_cycles'' = 1" by code_simp+
  with epoch_counters_moved [OF Increment_ok [OF SimpleStats_new_ok], of "''num_cycles''" config_default]
  show ?thesis by auto
qed

end
