(* ===== verification/Dram_Queue.thy ===== *)
theory Dram_Queue
  imports Dram_Channel Dram_Stats
begin

text \<open>
  The command queues and the refresh generator of a DRAM controller,
  \<open>src/DRAMsim3/src/command_queue.cc\<close> and \<open>refresh.cc\<close>: queues per bank or per rank, the choice of
  the first ready command in round-robin order over the queues, and the periodic insertion of refreshes.
\<close>

section \<open>The command queues\<close>

datatype QueueStructure = PER_RANK | PER_BANK | QS_SIZE

record CommandQueue =
  rank_q_empty :: "bool list"
  q_structure :: QueueStructure
  queues :: "Command list list"
  ref_q_indices :: "int set"
  is_in_ref :: bool
  num_queues :: int
  queue_size :: u64
  queue_idx :: int
  q_clk :: u64

definition CommandQueue_new :: "Config \<Rightarrow> CommandQueue res" where
  "CommandQueue_new C =
     res_bind (if queue_structure C = ''PER_BANK'' then Inr (PER_BANK, banks C * ranks C)
               else if queue_structure C = ''PER_RANK'' then Inr (PER_RANK, ranks C)
               else Inl Abrupt) (\<lambda>(qs, n).
     if cmd_queue_size C < 0 then Inl (Thrown ''length_error'')
     else Inr \<lparr>rank_q_empty = replicate (nat (ranks C)) True, q_structure = qs,
       queues = replicate (nat n) [], ref_q_indices = {}, is_in_ref = False, num_queues = n,
       queue_size = of_int (cmd_queue_size C), queue_idx = 0, q_clk = 0\<rparr>)"

definition GetQueueIndex :: "Config \<Rightarrow> CommandQueue \<Rightarrow> int \<Rightarrow> int \<Rightarrow> int \<Rightarrow> int" where
  "GetQueueIndex C q r j k =
     (if q_structure q = PER_RANK then r else r * banks C + j * banks_per_group C + k)"

definition GetQueue :: "Config \<Rightarrow> CommandQueue \<Rightarrow> int \<Rightarrow> int \<Rightarrow> int \<Rightarrow> Command list res" where
  "GetQueue C q r j k = vgeti (queues q) (GetQueueIndex C q r j k)"

definition QueueEmpty :: "CommandQueue \<Rightarrow> bool" where
  "QueueEmpty q \<longleftrightarrow> (\<forall>l \<in> set (queues q). l = [])"

definition QueueUsage :: "CommandQueue \<Rightarrow> int" where
  "QueueUsage q = (\<Sum>l\<leftarrow>queues q. int (length l))"

definition WillAcceptCommand :: "Config \<Rightarrow> CommandQueue \<Rightarrow> int \<Rightarrow> int \<Rightarrow> int \<Rightarrow> bool res" where
  "WillAcceptCommand C q r j k =
     res_bind (GetQueue C q r j k) (\<lambda>l. Inr (of_nat (length l) < queue_size q))"

definition AddCommand :: "Config \<Rightarrow> Command \<Rightarrow> CommandQueue \<Rightarrow> (bool \<times> CommandQueue) res" where
  "AddCommand C cmd q =
     res_bind (GetQueue C q (c_rank cmd) (c_bankgroup cmd) (c_bank cmd)) (\<lambda>l.
     if of_nat (length l) < queue_size q then
       res_bind (vseti (rank_q_empty q) (c_rank cmd) False) (\<lambda>re.
       Inr (True, q\<lparr>queues := (queues q)[nat (GetQueueIndex C q (c_rank cmd) (c_bankgroup cmd) (c_bank cmd)) := l @ [cmd]],
                    rank_q_empty := re\<rparr>))
     else Inr (False, q))"

definition next_idx :: "CommandQueue \<Rightarrow> int" where
  "next_idx q = (if queue_idx q + 1 = num_queues q then 0 else queue_idx q + 1)"

definition GetNextQueue :: "CommandQueue \<Rightarrow> (Command list \<times> CommandQueue) res" where
  "GetNextQueue q = res_bind (vgeti (queues q) (next_idx q)) (\<lambda>l. Inr (l, q\<lparr>queue_idx := next_idx q\<rparr>))"

definition GetRefQIndices :: "Config \<Rightarrow> Command \<Rightarrow> CommandQueue \<Rightarrow> CommandQueue res" where
  "GetRefQIndices C ref q =
     (if cmd_type ref = REFRESH then
        if q_structure q = PER_BANK then
          res_fold (\<lambda>i q. res_bind (cdiv i (banks C)) (\<lambda>d.
            Inr (if d = c_rank ref then q\<lparr>ref_q_indices := insert i (ref_q_indices q)\<rparr> else q))) (iota (num_queues q)) q
        else Inr (q\<lparr>ref_q_indices := insert (c_rank ref) (ref_q_indices q)\<rparr>)
      else Inr (q\<lparr>ref_q_indices :=
        insert (GetQueueIndex C q (c_rank ref) (c_bankgroup ref) (c_bank ref)) (ref_q_indices q)\<rparr>))"

text \<open>
  \<open>front ()\<close> of the waiting refreshes is undefined when there are none; the caller has checked that.
\<close>

definition FinishRefresh :: "Config \<Rightarrow> ChannelState \<Rightarrow> CommandQueue \<Rightarrow> (Command \<times> CommandQueue) res" where
  "FinishRefresh C cs q = (case refresh_q cs of [] \<Rightarrow> Inl EmptyPop
     | ref # _ \<Rightarrow>
         res_bind (if \<not> is_in_ref q then
                     res_bind (GetRefQIndices C ref q) (\<lambda>q1. Inr (q1\<lparr>is_in_ref := True\<rparr>))
                   else Inr q) (\<lambda>q1.
         res_bind (GetReadyCommand C cs ref (q_clk q1)) (\<lambda>cmd.
         Inr (cmd, if IsRefresh cmd then q1\<lparr>ref_q_indices := {}, is_in_ref := False\<rparr> else q1))))"

definition same_bank_cmd :: "Command \<Rightarrow> Command \<Rightarrow> bool" where
  "same_bank_cmd c d \<longleftrightarrow> c_rank c = c_rank d \<and> c_bankgroup c = c_bankgroup d \<and> c_bank c = c_bank d"

text \<open>
  The iterator \<open>cmd_it\<close> splits the queue into the commands before it and the rest, which starts with
  the command itself.
\<close>

definition ArbitratePrecharge ::
  "ChannelState \<Rightarrow> Command list \<Rightarrow> Command \<Rightarrow> Command list \<Rightarrow> SimpleStats \<Rightarrow> (bool \<times> SimpleStats) res" where
  "ArbitratePrecharge cs prevs cmd rest st =
     (if \<exists>p \<in> set prevs. same_bank_cmd p cmd then Inr (False, st)
      else res_bind (bank_at (bank_states cs) (c_rank cmd) (c_bankgroup cmd) (c_bank cmd)) (\<lambda>b.
        let pending_row_hits_exist = (\<exists>p \<in> set (cmd # rest). c_row p = open_row b \<and> same_bank_cmd p cmd);
            rowhit_limit_reached = (4 \<le> row_hit_count b)
        in if \<not> pending_row_hits_exist \<or> rowhit_limit_reached
           then Inr (True, Increment ''num_ondemand_pres'' st) else Inr (False, st)))"

definition HasRWDependency :: "Command list \<Rightarrow> Command \<Rightarrow> bool" where
  "HasRWDependency prevs cmd \<longleftrightarrow> (\<exists>p \<in> set prevs. IsRead p \<and> c_row p = c_row cmd \<and> c_column p = c_column cmd \<and>
     c_bank p = c_bank cmd \<and> c_bankgroup p = c_bankgroup cmd)"

fun first_ready :: "Config \<Rightarrow> ChannelState \<Rightarrow> u64 \<Rightarrow> Command list \<Rightarrow> Command list \<Rightarrow> SimpleStats \<Rightarrow>
    (Command \<times> SimpleStats) res" where
  "first_ready C cs clk prevs [] st = Inr (Command_none, st)"
| "first_ready C cs clk prevs (it # rest) st =
     res_bind (GetReadyCommand C cs it clk) (\<lambda>cmd.
     if \<not> IsValid cmd then first_ready C cs clk (prevs @ [it]) rest st
     else if cmd_type cmd = PRECHARGE then
       res_bind (ArbitratePrecharge cs prevs it rest st) (\<lambda>(ok, st1).
       if ok then Inr (cmd, st1) else first_ready C cs clk (prevs @ [it]) rest st1)
     else if IsWrite cmd \<and> HasRWDependency prevs it then first_ready C cs clk (prevs @ [it]) rest st
     else Inr (cmd, st))"

definition GetFirstReadyInQueue ::
  "Config \<Rightarrow> ChannelState \<Rightarrow> u64 \<Rightarrow> Command list \<Rightarrow> SimpleStats \<Rightarrow> (Command \<times> SimpleStats) res" where
  "GetFirstReadyInQueue C cs clk queue st = first_ready C cs clk [] queue st"

definition same_request :: "Command \<Rightarrow> Command \<Rightarrow> bool" where
  "same_request cmd c \<longleftrightarrow> hex_addr cmd = hex_addr c \<and> cmd_type cmd = cmd_type c"

definition EraseRWCommand :: "Config \<Rightarrow> Command \<Rightarrow> CommandQueue \<Rightarrow> CommandQueue res" where
  "EraseRWCommand C cmd q =
     res_bind (GetQueue C q (c_rank cmd) (c_bankgroup cmd) (c_bank cmd)) (\<lambda>l.
     if \<exists>c \<in> set l. same_request cmd c then
       Inr (q\<lparr>queues := (queues q)[nat (GetQueueIndex C q (c_rank cmd) (c_bankgroup cmd) (c_bank cmd)) :=
              erase_first (same_request cmd) l]\<rparr>)
     else Inl ExitCall)"

text \<open>The round-robin loop over the queues, at most \<open>n\<close> more of them.\<close>

fun issue_loop :: "Config \<Rightarrow> ChannelState \<Rightarrow> nat \<Rightarrow> CommandQueue \<Rightarrow> SimpleStats \<Rightarrow>
    (Command \<times> CommandQueue \<times> SimpleStats) res" where
  "issue_loop C cs 0 q st = Inr (Command_none, q, st)"
| "issue_loop C cs (Suc n) q st =
     res_bind (GetNextQueue q) (\<lambda>(queue, q1).
     if is_in_ref q1 \<and> queue_idx q1 \<in> ref_q_indices q1 then issue_loop C cs n q1 st
     else res_bind (GetFirstReadyInQueue C cs (q_clk q1) queue st) (\<lambda>(cmd, st1).
       if IsValid cmd then
         res_bind (if IsReadWrite cmd then EraseRWCommand C cmd q1 else Inr q1) (\<lambda>q2. Inr (cmd, q2, st1))
       else issue_loop C cs n q1 st1))"

definition GetCommandToIssue ::
  "Config \<Rightarrow> ChannelState \<Rightarrow> CommandQueue \<Rightarrow> SimpleStats \<Rightarrow> (Command \<times> CommandQueue \<times> SimpleStats) res" where
  "GetCommandToIssue C cs q st = issue_loop C cs (nat (num_queues q)) q st"

definition CommandQueue_ClockTick :: "CommandQueue \<Rightarrow> CommandQueue" where
  "CommandQueue_ClockTick q = q\<lparr>q_clk := q_clk q + 1\<rparr>"

section \<open>The refresh generator\<close>

record RefreshGen =
  r_clk :: u64
  refresh_interval :: int
  next_rank :: int
  next_bg :: int
  next_bank :: int

definition Refresh_new :: "Config \<Rightarrow> RefreshGen res" where
  "Refresh_new C =
     res_bind (case refresh_policy C of RANK_LEVEL_SIMULTANEOUS \<Rightarrow> Inr (tREFI C)
               | BANK_LEVEL_STAGGERED \<Rightarrow> Inr (tREFIb C)
               | _ \<Rightarrow> cdiv (tREFI C) (ranks C)) (\<lambda>i.
     Inr \<lparr>r_clk = 0, refresh_interval = i, next_rank = 0, next_bg = 0, next_bank = 0\<rparr>)"

definition IterateNext :: "Config \<Rightarrow> RefreshGen \<Rightarrow> RefreshGen res" where
  "IterateNext C f = (case refresh_policy C of
     RANK_LEVEL_STAGGERED \<Rightarrow> res_bind (cmod (next_rank f + 1) (ranks C)) (\<lambda>r. Inr (f\<lparr>next_rank := r\<rparr>))
   | BANK_LEVEL_STAGGERED \<Rightarrow>
       res_bind (cmod (next_bg f + 1) (bankgroups C)) (\<lambda>g.
       if g \<noteq> 0 then Inr (f\<lparr>next_bg := g\<rparr>)
       else res_bind (cmod (next_bank f + 1) (banks_per_group C)) (\<lambda>b.
         if b \<noteq> 0 then Inr (f\<lparr>next_bg := g, next_bank := b\<rparr>)
         else res_bind (cmod (next_rank f + 1) (ranks C)) (\<lambda>r.
           Inr (f\<lparr>next_bg := g, next_bank := b, next_rank := r\<rparr>))))
   | _ \<Rightarrow> Inl Abrupt)"

text \<open>The loop of the simultaneous policy stops at the first rank that is not in self refresh.\<close>

fun first_awake :: "bool list \<Rightarrow> int list \<Rightarrow> int option res" where
  "first_awake s [] = Inr None"
| "first_awake s (i # is) = res_bind (vgeti s i) (\<lambda>b. if b then first_awake s is else Inr (Some i))"

definition InsertRefresh :: "Config \<Rightarrow> RefreshGen \<Rightarrow> ChannelState \<Rightarrow> (RefreshGen \<times> ChannelState) res" where
  "InsertRefresh C f cs = (case refresh_policy C of
     RANK_LEVEL_SIMULTANEOUS \<Rightarrow>
       res_bind (first_awake (rank_is_sref cs) (iota (ranks C))) (\<lambda>i.
       Inr (f, case i of None \<Rightarrow> cs | Some r \<Rightarrow> RankNeedRefresh r True cs))
   | RANK_LEVEL_STAGGERED \<Rightarrow>
       res_bind (vgeti (rank_is_sref cs) (next_rank f)) (\<lambda>s.
       res_bind (IterateNext C f) (\<lambda>f1. Inr (f1, if s then cs else RankNeedRefresh (next_rank f) True cs)))
   | BANK_LEVEL_STAGGERED \<Rightarrow>
       res_bind (vgeti (rank_is_sref cs) (next_rank f)) (\<lambda>s.
       res_bind (IterateNext C f) (\<lambda>f1.
       Inr (f1, if s then cs else BankNeedRefresh (next_rank f) (next_bg f) (next_bank f) True cs)))
   | POLICY_SIZE \<Rightarrow> Inl Abrupt)"

definition Refresh_ClockTick :: "Config \<Rightarrow> RefreshGen \<Rightarrow> ChannelState \<Rightarrow> (RefreshGen \<times> ChannelState) res" where
  "Refresh_ClockTick C f cs =
     (let i = (of_int (refresh_interval f) :: u64) in
      if i = 0 then Inl DivByZero
      else res_bind (if r_clk f mod i = 0 \<and> 0 < r_clk f then InsertRefresh C f cs else Inr (f, cs)) (\<lambda>(f1, cs1).
        Inr (f1\<lparr>r_clk := r_clk f1 + 1\<rparr>, cs1)))"

section \<open>The invariant of the queues\<close>

definition queue_count :: "Config \<Rightarrow> CommandQueue \<Rightarrow> int" where
  "queue_count C q = (if q_structure q = PER_RANK then ranks C else banks C * ranks C)"

text \<open>Every queued command is a read or write within the device, in the queue of its bank.\<close>

definition q_ok :: "Config \<Rightarrow> CommandQueue \<Rightarrow> bool" where
  "q_ok C q \<longleftrightarrow> num_queues q = queue_count C q \<and> length (queues q) = nat (queue_count C q) \<and>
     0 \<le> queue_idx q \<and> queue_idx q < num_queues q \<and> length (rank_q_empty q) = nat (ranks C) \<and>
     (\<forall>i < length (queues q). \<forall>c \<in> set (queues q ! i). IsReadWrite c \<and> cmd_in C c \<and>
        GetQueueIndex C q (c_rank c) (c_bankgroup c) (c_bank c) = int i)"

text \<open>The requests in the queues: address and direction.\<close>

definition request :: "Command \<Rightarrow> u64 \<times> bool" where
  "request c = (hex_addr c, IsWrite c)"

definition queued :: "CommandQueue \<Rightarrow> (u64 \<times> bool) multiset" where
  "queued q = mset (map request (concat (queues q)))"

lemma queue_frame [simp]:
  "queue_count C (q\<lparr>queue_idx := x\<rparr>) = queue_count C q" "GetQueueIndex C (q\<lparr>queue_idx := x\<rparr>) = GetQueueIndex C q"
  "queue_count C (q\<lparr>queues := l\<rparr>) = queue_count C q" "GetQueueIndex C (q\<lparr>queues := l\<rparr>) = GetQueueIndex C q"
  "queue_count C (q\<lparr>ref_q_indices := s\<rparr>) = queue_count C q"
  "GetQueueIndex C (q\<lparr>ref_q_indices := s\<rparr>) = GetQueueIndex C q"
  "queue_count C (q\<lparr>is_in_ref := b\<rparr>) = queue_count C q" "GetQueueIndex C (q\<lparr>is_in_ref := b\<rparr>) = GetQueueIndex C q"
  "queue_count C (q\<lparr>q_clk := t\<rparr>) = queue_count C q" "GetQueueIndex C (q\<lparr>q_clk := t\<rparr>) = GetQueueIndex C q"
  "queue_count C (q\<lparr>rank_q_empty := e\<rparr>) = queue_count C q"
  "GetQueueIndex C (q\<lparr>rank_q_empty := e\<rparr>) = GetQueueIndex C q"
  by (simp_all add: queue_count_def GetQueueIndex_def fun_eq_iff)

lemma queue_index_range:
  assumes "device_ok C" and "in_banks C (r, j, k)"
  shows "0 \<le> GetQueueIndex C q r j k \<and> GetQueueIndex C q r j k < queue_count C q"
proof (cases "q_structure q = PER_RANK")
  case True
  then show ?thesis using assms by (simp add: GetQueueIndex_def queue_count_def in_banks_def)
next
  case False
  have b: "banks C = bankgroups C * banks_per_group C" "1 \<le> banks_per_group C" "1 \<le> bankgroups C"
    using assms(1) by (auto simp: device_ok_def)
  have r: "0 \<le> r" "r \<le> ranks C - 1" "0 \<le> j" "j \<le> bankgroups C - 1" "0 \<le> k" "k \<le> banks_per_group C - 1"
    using assms(2) by (auto simp: in_banks_def)
  have "j * banks_per_group C \<le> (bankgroups C - 1) * banks_per_group C"
    using r b by (intro mult_right_mono) auto
  then have jk: "j * banks_per_group C + k \<le> banks C - 1" using r b(1) by (simp add: algebra_simps)
  have "0 \<le> banks C" using b by simp
  then have "r * banks C \<le> (ranks C - 1) * banks C" using r by (intro mult_right_mono) auto
  with jk have "r * banks C + j * banks_per_group C + k < banks C * ranks C" by (simp add: algebra_simps)
  moreover have "0 \<le> r * banks C + j * banks_per_group C + k" using r b \<open>0 \<le> banks C\<close> by simp
  ultimately show ?thesis using False by (simp add: GetQueueIndex_def queue_count_def)
qed

lemma rw_in_banks: "cmd_in C c \<Longrightarrow> IsReadWrite c \<Longrightarrow> in_banks C (c_rank c, c_bankgroup c, c_bank c)"
  by (auto simp: cmd_in_def cmd_defs)

lemma queue_at:
  assumes "device_ok C" and "q_ok C q" and "in_banks C (r, j, k)"
  shows "GetQueue C q r j k = Inr (queues q ! nat (GetQueueIndex C q r j k))"
    and "nat (GetQueueIndex C q r j k) < length (queues q)"
  using queue_index_range [OF assms(1,3), of q] assms(2) by (auto simp: GetQueue_def q_ok_def)

lemma ArbitratePrecharge_ok:
  assumes "cs_ok C cs" and "cmd_in C cmd" and "IsReadWrite cmd" and "stats_ok C st"
  shows "\<exists>ok st'. ArbitratePrecharge cs prevs cmd rest st = Inr (ok, st') \<and> stats_ok C st'"
proof -
  have "bank_at (bank_states cs) (c_rank cmd) (c_bankgroup cmd) (c_bank cmd) =
      Inr (cs_bank cs (c_rank cmd, c_bankgroup cmd, c_bank cmd))"
    using bank_at_in [OF _ rw_in_banks [OF assms(2,3)]] assms(1) by (simp add: cs_ok_def cs_shape_def)
  then show ?thesis using assms(4) Increment_ok by (auto simp: ArbitratePrecharge_def Let_def)
qed

lemma first_ready_ok:
  assumes "device_ok C" and "cs_ok C cs" and "\<forall>c \<in> set l. IsReadWrite c \<and> cmd_in C c" and "stats_ok C st"
  shows "\<exists>c st'. first_ready C cs clk prevs l st = Inr (c, st') \<and> stats_ok C st' \<and>
    (IsValid c \<longrightarrow> ready_for C cs clk c \<and> \<not> IsRefresh c \<and> (IsReadWrite c \<longrightarrow> c \<in> set l))"
  using assms(3,4)
proof (induction l arbitrary: prevs st)
  case Nil
  then show ?case by simp
next
  case (Cons it rest)
  have it: "cmd_in C it" "IsReadWrite it" using Cons.prems by auto
  from GetReady_ok [OF assms(1,2) it(1), of clk] it(2) obtain c where c: "GetReadyCommand C cs it clk = Inr c"
    "IsValid c \<Longrightarrow> ready_for C cs clk c \<and> (IsReadWrite c \<longrightarrow> c = it) \<and> (IsRefresh c \<longrightarrow> c = it)" by blast
  have nr: "\<not> IsRefresh c" if "IsValid c" using c(2) [OF that] it(2) by (auto simp: cmd_defs)
  have skip: "\<exists>c st'. first_ready C cs clk (prevs @ [it]) rest st1 = Inr (c, st') \<and> stats_ok C st' \<and>
    (IsValid c \<longrightarrow> ready_for C cs clk c \<and> \<not> IsRefresh c \<and> (IsReadWrite c \<longrightarrow> c \<in> set (it # rest)))" if "stats_ok C st1" for st1
    using Cons.IH [OF _ that, of "prevs @ [it]"] Cons.prems(1) by fastforce
  consider (inv) "\<not> IsValid c" | (pre) "IsValid c" "cmd_type c = PRECHARGE"
    | (dep) "IsValid c" "cmd_type c \<noteq> PRECHARGE" "IsWrite c \<and> HasRWDependency prevs it"
    | (take) "IsValid c" "cmd_type c \<noteq> PRECHARGE" "\<not> (IsWrite c \<and> HasRWDependency prevs it)" by blast
  then show ?case
  proof cases
    case inv
    then have "first_ready C cs clk prevs (it # rest) st = first_ready C cs clk (prevs @ [it]) rest st"
      using c(1) by simp
    with skip [OF Cons.prems(2)] show ?thesis by simp
  next
    case pre
    from ArbitratePrecharge_ok [OF assms(2) it Cons.prems(2)] obtain ok st1 where
      a: "ArbitratePrecharge cs prevs it rest st = Inr (ok, st1)" "stats_ok C st1" by blast
    then have e: "first_ready C cs clk prevs (it # rest) st =
        (if ok then Inr (c, st1) else first_ready C cs clk (prevs @ [it]) rest st1)"
      using c(1) pre by simp
    show ?thesis unfolding e using skip [OF a(2)] c(2) [OF pre(1)] pre a(2) nr by (cases ok) (auto simp: cmd_defs)
  next
    case dep
    then have "first_ready C cs clk prevs (it # rest) st = first_ready C cs clk (prevs @ [it]) rest st"
      using c(1) by simp
    with skip [OF Cons.prems(2)] show ?thesis by simp
  next
    case take
    then have e: "first_ready C cs clk prevs (it # rest) st = Inr (c, st)" using c(1) by auto
    show ?thesis unfolding e using c(2) [OF take(1)] nr [OF take(1)] Cons.prems(2) by auto
  qed
qed

lemma erase_first_mset:
  "c \<in> set l \<Longrightarrow> mset (map request l) = add_mset (request c) (mset (map request (erase_first (same_request c) l)))"
proof (induction l)
  case Nil
  then show ?case by simp
next
  case (Cons x l)
  have "same_request c x \<Longrightarrow> request x = request c" by (simp add: same_request_def request_def cmd_defs)
  moreover have "same_request c c" by (simp add: same_request_def)
  ultimately show ?case using Cons by auto
qed

lemma set_erase_first: "set (erase_first p l) \<subseteq> set l"
  by (induction l) auto

lemma mset_concat_update:
  "i < length xss \<Longrightarrow> mset (concat (xss[i := ys])) + mset (xss ! i) = mset (concat xss) + mset ys"
proof (induction xss arbitrary: i)
  case Nil
  then show ?case by simp
next
  case (Cons a xss)
  show ?case
  proof (cases i)
    case 0
    then show ?thesis by (simp add: ac_simps)
  next
    case (Suc n)
    with Cons.IH [of n] Cons.prems show ?thesis by (simp add: ac_simps)
  qed
qed

lemma EraseRW_ok:
  assumes "device_ok C" and "q_ok C q" and "i < length (queues q)" and "c \<in> set (queues q ! i)"
  shows "\<exists>q'. EraseRWCommand C c q = Inr q' \<and> q_ok C q' \<and> queued q = add_mset (request c) (queued q') \<and>
    q_clk q' = q_clk q"
proof -
  have c: "IsReadWrite c" "cmd_in C c" "GetQueueIndex C q (c_rank c) (c_bankgroup c) (c_bank c) = int i"
    using assms(2-4) by (auto simp: q_ok_def)
  let ?l = "queues q ! i" and ?e = "erase_first (same_request c) (queues q ! i)"
  let ?q = "q\<lparr>queues := (queues q)[i := ?e]\<rparr>"
  have "same_request c c" by (simp add: same_request_def)
  then have "EraseRWCommand C c q = Inr ?q"
    using queue_at(1) [OF assms(1,2) rw_in_banks [OF c(2,1)]] c(3) assms(4) by (auto simp: EraseRWCommand_def)
  moreover have "q_ok C ?q"
    using assms(2,3) set_erase_first [of "same_request c" ?l]
    by (auto simp: q_ok_def nth_list_update)
  moreover have "queued q = add_mset (request c) (queued ?q)"
  proof -
    let ?m = "map (map request) (queues q)"
    have "mset (concat (?m[i := map request ?e])) + mset (?m ! i) = mset (concat ?m) + mset (map request ?e)"
      by (rule mset_concat_update) (use assms(3) in simp)
    then have "mset (concat (?m[i := map request ?e])) + add_mset (request c) (mset (map request ?e)) =
        mset (concat ?m) + mset (map request ?e)"
      using erase_first_mset [OF assms(4)] assms(3) by simp
    then have "add_mset (request c) (mset (concat (?m[i := map request ?e]))) = mset (concat ?m)" by simp
    moreover have "?m[i := map request ?e] = map (map request) ((queues q)[i := ?e])" by (simp add: map_update)
    ultimately show ?thesis by (simp add: queued_def map_concat)
  qed
  ultimately show ?thesis by auto
qed

lemma GetNextQueue_ok:
  assumes "q_ok C q"
  shows "GetNextQueue q = Inr (queues q ! nat (next_idx q), q\<lparr>queue_idx := next_idx q\<rparr>)"
    and "q_ok C (q\<lparr>queue_idx := next_idx q\<rparr>)" and "nat (next_idx q) < length (queues q)"
proof -
  have i: "0 \<le> next_idx q" "next_idx q < queue_count C q" using assms by (auto simp: next_idx_def q_ok_def)
  then show "nat (next_idx q) < length (queues q)" using assms by (auto simp: q_ok_def)
  with i show "GetNextQueue q = Inr (queues q ! nat (next_idx q), q\<lparr>queue_idx := next_idx q\<rparr>)"
    by (simp add: GetNextQueue_def)
  show "q_ok C (q\<lparr>queue_idx := next_idx q\<rparr>)" using i assms by (simp add: q_ok_def)
qed

definition issues :: "Config \<Rightarrow> ChannelState \<Rightarrow> CommandQueue \<Rightarrow> Command \<Rightarrow> CommandQueue \<Rightarrow> bool" where
  "issues C cs q c q' \<longleftrightarrow> q_ok C q' \<and> q_clk q' = q_clk q \<and>
     (IsValid c \<longrightarrow> ready_for C cs (q_clk q) c \<and> \<not> IsRefresh c) \<and>
     queued q = (if IsReadWrite c then add_mset (request c) (queued q') else queued q')"

lemma issue_loop_ok:
  assumes "device_ok C" and "cs_ok C cs" and "q_ok C q" and "stats_ok C st"
  shows "\<exists>c q' st'. issue_loop C cs n q st = Inr (c, q', st') \<and> stats_ok C st' \<and> issues C cs q c q'"
  using assms(3,4)
proof (induction n arbitrary: q st)
  case 0
  then show ?case by (auto simp: issues_def Command_none_def cmd_defs)
next
  case (Suc n)
  let ?q = "q\<lparr>queue_idx := next_idx q\<rparr>" and ?l = "queues q ! nat (next_idx q)"
  note nq = GetNextQueue_ok [OF Suc.prems(1)]
  have skip: "\<exists>c q' st'. issue_loop C cs n ?q st1 = Inr (c, q', st') \<and> stats_ok C st' \<and> issues C cs q c q'"
    if "stats_ok C st1" for st1
    using Suc.IH [OF nq(2) that] by (auto simp: issues_def queued_def)
  show ?case
  proof (cases "is_in_ref q \<and> next_idx q \<in> ref_q_indices q")
    case True
    then have e: "issue_loop C cs (Suc n) q st = issue_loop C cs n ?q st" using nq(1) by simp
    show ?thesis unfolding e by (rule skip [OF Suc.prems(2)])
  next
    case False
    have "\<forall>c \<in> set ?l. IsReadWrite c \<and> cmd_in C c" using Suc.prems(1) nq(3) unfolding q_ok_def by blast
    from first_ready_ok [OF assms(1,2) this Suc.prems(2), of "q_clk q" "[]"] obtain c st1 where
      c: "GetFirstReadyInQueue C cs (q_clk q) ?l st = Inr (c, st1)" "stats_ok C st1"
        "IsValid c \<Longrightarrow> ready_for C cs (q_clk q) c \<and> \<not> IsRefresh c \<and> (IsReadWrite c \<longrightarrow> c \<in> set ?l)"
      unfolding GetFirstReadyInQueue_def by blast
    show ?thesis
    proof (cases "IsValid c")
      case v: False
      then have e: "issue_loop C cs (Suc n) q st = issue_loop C cs n ?q st1" using nq(1) c(1) False by auto
      show ?thesis unfolding e by (rule skip [OF c(2)])
    next
      case v: True
      show ?thesis
      proof (cases "IsReadWrite c")
        case rw: True
        from EraseRW_ok [OF assms(1) nq(2) _ , of "nat (next_idx q)" c] nq(3) c(3) [OF v] rw obtain q' where
          q': "EraseRWCommand C c ?q = Inr q'" "q_ok C q'" "queued ?q = add_mset (request c) (queued q')" "q_clk q' = q_clk ?q"
          by auto
        have e: "issue_loop C cs (Suc n) q st = Inr (c, q', st1)" using nq(1) c(1) False v rw q'(1) by auto
        show ?thesis unfolding e using q' c v rw by (auto simp: issues_def queued_def)
      next
        case rw: False
        have e: "issue_loop C cs (Suc n) q st = Inr (c, ?q, st1)" using nq(1) c(1) False v rw by auto
        show ?thesis unfolding e using nq(2) c v rw by (auto simp: issues_def queued_def)
      qed
    qed
  qed
qed

lemma GetCommandToIssue_ok:
  assumes "device_ok C" and "cs_ok C cs" and "q_ok C q" and "stats_ok C st"
  shows "\<exists>c q' st'. GetCommandToIssue C cs q st = Inr (c, q', st') \<and> stats_ok C st' \<and> issues C cs q c q'"
  unfolding GetCommandToIssue_def by (rule issue_loop_ok [OF assms])

lemma GetRefQIndices_ok:
  assumes "device_ok C"
  shows "\<exists>s. GetRefQIndices C ref q = Inr (q\<lparr>ref_q_indices := s\<rparr>)"
proof -
  have b: "banks C \<noteq> 0" using assms by (auto simp: device_ok_def)
  have "\<exists>s. res_fold (\<lambda>i q. res_bind (cdiv i (banks C)) (\<lambda>d.
      Inr (if d = c_rank ref then q\<lparr>ref_q_indices := insert i (ref_q_indices q)\<rparr> else q))) xs q = Inr (q\<lparr>ref_q_indices := s\<rparr>)"
    for xs and q :: CommandQueue
  proof (induction xs arbitrary: q)
    case Nil
    show ?case by (intro exI [of _ "ref_q_indices q"]) simp
  next
    case (Cons i xs)
    let ?q = "if i sdiv banks C = c_rank ref then q\<lparr>ref_q_indices := insert i (ref_q_indices q)\<rparr> else q"
    from Cons.IH [of ?q] b show ?case by (auto simp: cdiv_def split: if_splits)
  qed
  then show ?thesis by (auto simp: GetRefQIndices_def)
qed

lemma FinishRefresh_ok:
  assumes "device_ok C" and "cs_ok C cs" and "q_ok C q" and "refresh_q cs \<noteq> []"
  shows "\<exists>c q'. FinishRefresh C cs q = Inr (c, q') \<and> q_ok C q' \<and> queued q' = queued q \<and> q_clk q' = q_clk q \<and>
    (IsValid c \<longrightarrow> ready_for C cs (q_clk q) c \<and> \<not> IsReadWrite c)"
proof -
  obtain ref rest where rq: "refresh_q cs = ref # rest" using assms(4) by (cases "refresh_q cs") auto
  have ref: "IsRefresh ref" "cmd_in C ref" using assms(2) rq by (auto simp: cs_ok_def)
  obtain s where s: "GetRefQIndices C ref q = Inr (q\<lparr>ref_q_indices := s\<rparr>)" using GetRefQIndices_ok [OF assms(1)] by blast
  from GetReady_ok [OF assms(1,2) ref(2), of "q_clk q"] ref(1) obtain c where
    c: "GetReadyCommand C cs ref (q_clk q) = Inr c"
      "IsValid c \<Longrightarrow> ready_for C cs (q_clk q) c \<and> (IsReadWrite c \<longrightarrow> c = ref)" by blast
  have nrw: "\<not> IsReadWrite c" if "IsValid c" using c(2) [OF that] ref(1) by (auto simp: cmd_defs)
  define q1 where "q1 = (if \<not> is_in_ref q then q\<lparr>ref_q_indices := s, is_in_ref := True\<rparr> else q)"
  define q2 where "q2 = (if IsRefresh c then q1\<lparr>ref_q_indices := {}, is_in_ref := False\<rparr> else q1)"
  have "q_clk q1 = q_clk q" by (simp add: q1_def)
  then have e: "FinishRefresh C cs q = Inr (c, q2)"
    using s c(1) by (simp add: FinishRefresh_def rq q1_def q2_def)
  show ?thesis unfolding e using assms(3) c(2) nrw
    by (auto simp: q1_def q2_def q_ok_def queued_def)
qed

lemma AddCommand_ok:
  assumes "device_ok C" and "q_ok C q" and "IsReadWrite cmd" and "cmd_in C cmd"
    and "WillAcceptCommand C q (c_rank cmd) (c_bankgroup cmd) (c_bank cmd) = Inr True"
  shows "\<exists>q'. AddCommand C cmd q = Inr (True, q') \<and> q_ok C q' \<and> queued q' = add_mset (request cmd) (queued q) \<and>
    q_clk q' = q_clk q"
proof -
  let ?i = "GetQueueIndex C q (c_rank cmd) (c_bankgroup cmd) (c_bank cmd)"
  let ?l = "queues q ! nat ?i"
  note at = queue_at [OF assms(1,2) rw_in_banks [OF assms(4,3)]]
  have len: "of_nat (length ?l) < queue_size q" using assms(5) at(1) by (simp add: WillAcceptCommand_def)
  have r: "0 \<le> c_rank cmd" "nat (c_rank cmd) < length (rank_q_empty q)"
    using assms(2,4) by (auto simp: cmd_in_def q_ok_def)
  let ?q = "q\<lparr>queues := (queues q)[nat ?i := ?l @ [cmd]], rank_q_empty := (rank_q_empty q)[nat (c_rank cmd) := False]\<rparr>"
  have "AddCommand C cmd q = Inr (True, ?q)" using at(1) len r by (simp add: AddCommand_def)
  moreover have i0: "0 \<le> ?i" using queue_index_range [OF assms(1) rw_in_banks [OF assms(4,3)]] by simp
  then have "q_ok C ?q" using assms(2-4) at(2)
    by (auto simp: q_ok_def nth_list_update)
  moreover have "queued ?q = add_mset (request cmd) (queued q)"
  proof -
    let ?m = "map (map request) (queues q)"
    have "mset (concat (?m[nat ?i := ?m ! nat ?i @ [request cmd]])) = mset (concat ?m) + mset [request cmd]"
      by (rule concat_upd_mset) (use at(2) in simp)
    moreover have "?m[nat ?i := ?m ! nat ?i @ [request cmd]] = map (map request) ((queues q)[nat ?i := ?l @ [cmd]])"
      using at(2) by (simp add: map_update)
    ultimately show ?thesis by (simp add: queued_def map_concat)
  qed
  ultimately show ?thesis by auto
qed

lemma WillAcceptCommand_ok:
  assumes "device_ok C" and "q_ok C q" and "in_banks C (r, j, k)"
  shows "\<exists>ok. WillAcceptCommand C q r j k = Inr ok"
  using queue_at(1) [OF assms] by (simp add: WillAcceptCommand_def)

lemma CommandQueue_new_ok:
  assumes "device_ok C" and "0 \<le> cmd_queue_size C" and "queue_structure C = ''PER_BANK'' \<or> queue_structure C = ''PER_RANK''"
  shows "\<exists>q. CommandQueue_new C = Inr q \<and> q_ok C q \<and> queued q = {#} \<and> q_clk q = 0"
proof -
  have "0 < banks C" "0 < ranks C" using assms(1) by (auto simp: device_ok_def)
  then have p: "0 < banks C * ranks C" by simp
  from assms(3) show ?thesis
  proof
    assume "queue_structure C = ''PER_BANK''"
    then show ?thesis using assms(2) p by (simp add: CommandQueue_new_def q_ok_def queued_def queue_count_def)
  next
    assume "queue_structure C = ''PER_RANK''"
    then show ?thesis using assms(2) \<open>0 < ranks C\<close>
      by (simp add: CommandQueue_new_def q_ok_def queued_def queue_count_def)
  qed
qed

section \<open>The refresh generator stays within the device\<close>

definition refresh_ok :: "Config \<Rightarrow> RefreshGen \<Rightarrow> bool" where
  "refresh_ok C f \<longleftrightarrow> in_banks C (next_rank f, next_bg f, next_bank f) \<and> (of_int (refresh_interval f) :: u64) \<noteq> 0"

lemma cmod_next: "0 \<le> a \<Longrightarrow> 0 < b \<Longrightarrow> cmod (a + 1) b = Inr ((a + 1) mod b) \<and> 0 \<le> (a + 1) mod b \<and> (a + 1) mod b < (b::int)"
  by (simp add: cmod_def signed_modulo_int_def sdiv_nonneg sgn_if minus_div_mult_eq_mod)

lemma IterateNext_ok:
  assumes "device_ok C" and "refresh_ok C f" and "refresh_policy C = RANK_LEVEL_STAGGERED \<or> refresh_policy C = BANK_LEVEL_STAGGERED"
  shows "\<exists>f'. IterateNext C f = Inr f' \<and> refresh_ok C f'"
proof -
  have d: "0 < ranks C" "0 < bankgroups C" "0 < banks_per_group C" using assms(1) by (auto simp: device_ok_def)
  have n: "0 \<le> next_rank f" "0 \<le> next_bg f" "0 \<le> next_bank f" using assms(2) by (auto simp: refresh_ok_def in_banks_def)
  from assms(3) show ?thesis
  proof
    assume "refresh_policy C = RANK_LEVEL_STAGGERED"
    then show ?thesis using cmod_next [OF n(1) d(1)] assms(2) by (simp add: IterateNext_def refresh_ok_def in_banks_def)
  next
    assume p: "refresh_policy C = BANK_LEVEL_STAGGERED"
    let ?g = "(next_bg f + 1) mod bankgroups C" and ?b = "(next_bank f + 1) mod banks_per_group C"
    show ?thesis
      using p cmod_next [OF n(1) d(1)] cmod_next [OF n(2) d(2)] cmod_next [OF n(3) d(3)] assms(2)
      by (cases "?g = 0"; cases "?b = 0") (simp_all add: IterateNext_def refresh_ok_def in_banks_def)
  qed
qed

lemma RankNeed_ok: "cs_ok C cs \<Longrightarrow> 0 \<le> r \<Longrightarrow> r < ranks C \<Longrightarrow> cs_ok C (RankNeedRefresh r True cs)"
  by (auto simp: cs_ok_def cs_shape_def RankNeedRefresh_def cmd_in_def cmd_defs Address_none_def)

lemma BankNeed_ok: "cs_ok C cs \<Longrightarrow> in_banks C (r, j, k) \<Longrightarrow> cs_ok C (BankNeedRefresh r j k True cs)"
  by (auto simp: cs_ok_def cs_shape_def BankNeedRefresh_def cmd_in_def cmd_defs Address_none_def in_banks_def)

lemma awake_at:
  assumes "\<forall>b \<in> set s. \<not> b" and "nat i < length s" and "0 \<le> i"
  shows "vgeti s i = Inr False"
proof -
  have "s ! nat i \<in> set s" using assms(2) by (rule nth_mem)
  with assms(1) have "\<not> s ! nat i" by blast
  with assms(2,3) show ?thesis by (simp add: vgeti_def vget_def)
qed

lemma first_awake_ok:
  assumes "length s = nat n" and "\<forall>b \<in> set s. \<not> b" and "0 < n"
  shows "first_awake s (iota n) = Inr (Some 0)"
proof -
  have "iota n = 0 # map int [1..<nat n]" using assms(3) by (simp add: iota_def upt_conv_Cons)
  moreover have "vgeti s 0 = Inr False" by (rule awake_at [OF assms(2)]) (use assms in auto)
  ultimately show ?thesis by simp
qed

lemma Refresh_tick_ok:
  assumes "device_ok C" and "cs_ok C cs" and "refresh_ok C f" and "refresh_policy C \<noteq> POLICY_SIZE"
  shows "\<exists>f' cs'. Refresh_ClockTick C f cs = Inr (f', cs') \<and> refresh_ok C f' \<and> cs_ok C cs'"
proof -
  have n: "in_banks C (next_rank f, next_bg f, next_bank f)" and i: "(of_int (refresh_interval f) :: u64) \<noteq> 0"
    using assms(3) by (auto simp: refresh_ok_def)
  have sl: "length (rank_is_sref cs) = nat (ranks C)" "\<forall>b \<in> set (rank_is_sref cs). \<not> b" "0 < ranks C"
    using assms(1,2) by (auto simp: cs_ok_def cs_shape_def device_ok_def)
  have "nat (next_rank f) < length (rank_is_sref cs)" "0 \<le> next_rank f" using n sl by (auto simp: in_banks_def)
  then have s: "vgeti (rank_is_sref cs) (next_rank f) = Inr False" by (intro awake_at [OF sl(2)])
  have "\<exists>f' cs'. InsertRefresh C f cs = Inr (f', cs') \<and> refresh_ok C f' \<and> cs_ok C cs'"
  proof (cases "refresh_policy C")
    case RANK_LEVEL_SIMULTANEOUS
    then show ?thesis using first_awake_ok [OF sl] RankNeed_ok [OF assms(2), of 0] sl(3) assms(3)
      by (simp add: InsertRefresh_def)
  next
    case RANK_LEVEL_STAGGERED
    then show ?thesis using IterateNext_ok [OF assms(1,3)] s RankNeed_ok [OF assms(2), of "next_rank f"] n
      by (auto simp: InsertRefresh_def in_banks_def)
  next
    case BANK_LEVEL_STAGGERED
    then show ?thesis using IterateNext_ok [OF assms(1,3)] s BankNeed_ok [OF assms(2) n]
      by (auto simp: InsertRefresh_def)
  next
    case POLICY_SIZE
    then show ?thesis using assms(4) by simp
  qed
  then obtain f1 cs1 where ir: "InsertRefresh C f cs = Inr (f1, cs1)" "refresh_ok C f1" "cs_ok C cs1" by blast
  show ?thesis
  proof (cases "r_clk f mod of_int (refresh_interval f) = 0 \<and> 0 < r_clk f")
    case True
    then show ?thesis using ir i by (simp add: Refresh_ClockTick_def Let_def refresh_ok_def)
  next
    case False
    then show ?thesis using assms(2,3) i by (auto simp: Refresh_ClockTick_def Let_def refresh_ok_def)
  qed
qed

end
