(* ===== verification/Dram_Controller.thy ===== *)
theory Dram_Controller
  imports Dram_Queue
begin

text \<open>
  The memory controller of a DRAM channel, \<open>src/DRAMsim3/src/controller.cc\<close>: it takes transactions,
  turns them into commands, issues at most one command (two for HBM) per cycle and returns completed
  transactions. The command trace and the thermal model, both compiled in only by option, are left out.
\<close>

section \<open>The model\<close>

datatype RowBufPolicy = OPEN_PAGE | CLOSE_PAGE | RBP_SIZE

text \<open>
  A \<open>multimap\<close> from addresses is the list of its entries in insertion order. The queues' capacity is
  the reserved size: they are only pushed to below it, so it never grows.
\<close>

record DController =
  ct_id :: int
  ct_clk :: u64
  ct_stats :: SimpleStats
  ct_channel :: ChannelState
  ct_queue :: CommandQueue
  ct_refresh :: RefreshGen
  is_unified_queue :: bool
  unified_q :: "DTransaction list"
  read_queue :: "DTransaction list"
  write_buffer :: "DTransaction list"
  pending_rd_q :: "(u64 \<times> DTransaction) list"
  pending_wr_q :: "(u64 \<times> DTransaction) list"
  return_queue :: "DTransaction list"
  row_policy :: RowBufPolicy
  last_trans_clk :: u64
  write_draining :: int

definition capacity :: "Config \<Rightarrow> nat" where
  "capacity C = nat (trans_queue_size C)"

definition DController_new :: "Config \<Rightarrow> int \<Rightarrow> DController res" where
  "DController_new C channel =
     res_bind (CommandQueue_new C) (\<lambda>q. res_bind (Refresh_new C) (\<lambda>f.
     if trans_queue_size C < 0 then Inl (Thrown ''length_error'')
     else Inr \<lparr>ct_id = channel, ct_clk = 0, ct_stats = SimpleStats_new C, ct_channel = ChannelState_new C,
       ct_queue = q, ct_refresh = f, is_unified_queue = unified_queue C, unified_q = [], read_queue = [],
       write_buffer = [], pending_rd_q = [], pending_wr_q = [], return_queue = [],
       row_policy = (if row_buf_policy C = ''CLOSE_PAGE'' then CLOSE_PAGE else OPEN_PAGE),
       last_trans_clk = 0, write_draining = 0\<rparr>))"

text \<open>The first transaction of the return queue that is complete, and the queue without it.\<close>

fun take_done :: "u64 \<Rightarrow> DTransaction list \<Rightarrow> (DTransaction \<times> DTransaction list) option" where
  "take_done clk [] = None"
| "take_done clk (t # ts) =
     (if complete_cycle t \<le> clk then Some (t, ts)
      else case take_done clk ts of None \<Rightarrow> None | Some (d, r) \<Rightarrow> Some (d, t # r))"

definition latency :: "u64 \<Rightarrow> int" where
  "latency x = to_int32 (uint x)"

definition ReturnDoneTrans :: "u64 \<Rightarrow> DController \<Rightarrow> ((u64 \<times> bool) option \<times> DController)" where
  "ReturnDoneTrans clk ct = (case take_done clk (return_queue ct) of
     None \<Rightarrow> (None, ct)
   | Some (t, r) \<Rightarrow>
       (Some (tr_addr t, tr_write t), ct\<lparr>return_queue := r,
          ct_stats := (if tr_write t then Increment ''num_writes_done'' (ct_stats ct)
            else AddValue ''read_latency'' (latency (ct_clk ct - added_cycle t))
                   (Increment ''num_reads_done'' (ct_stats ct)))\<rparr>))"

definition ct_WillAcceptTransaction :: "Config \<Rightarrow> DController \<Rightarrow> bool \<Rightarrow> bool" where
  "ct_WillAcceptTransaction C ct w \<longleftrightarrow>
     (if is_unified_queue ct then length (unified_q ct) < capacity C
      else if \<not> w then length (read_queue ct) < capacity C
      else length (write_buffer ct) < capacity C)"

definition key_count :: "(u64 \<times> 'a) list \<Rightarrow> u64 \<Rightarrow> nat" where
  "key_count m a = length (filter (\<lambda>e. fst e = a) m)"

definition ct_AddTransaction :: "DTransaction \<Rightarrow> DController \<Rightarrow> DController" where
  "ct_AddTransaction trans0 ct0 =
     (let trans = trans0\<lparr>added_cycle := ct_clk ct0\<rparr>;
          ct = ct0\<lparr>ct_stats := AddValue ''interarrival_latency'' (latency (ct_clk ct0 - last_trans_clk ct0)) (ct_stats ct0),
                   last_trans_clk := ct_clk ct0\<rparr>;
          done = trans\<lparr>complete_cycle := ct_clk ct + 1\<rparr>
      in if tr_write trans then
           let ct1 = (if key_count (pending_wr_q ct) (tr_addr trans) = 0 then
                 let ct1 = ct\<lparr>pending_wr_q := pending_wr_q ct @ [(tr_addr trans, trans)]\<rparr>
                 in if is_unified_queue ct then ct1\<lparr>unified_q := unified_q ct1 @ [trans]\<rparr>
                    else ct1\<lparr>write_buffer := write_buffer ct1 @ [trans]\<rparr>
               else ct)
           in ct1\<lparr>return_queue := return_queue ct1 @ [done]\<rparr>
         else if 0 < key_count (pending_wr_q ct) (tr_addr trans) then
           ct\<lparr>return_queue := return_queue ct @ [done]\<rparr>
         else
           let ct1 = ct\<lparr>pending_rd_q := pending_rd_q ct @ [(tr_addr trans, trans)]\<rparr>
           in if key_count (pending_rd_q ct1) (tr_addr trans) = 1 then
                if is_unified_queue ct then ct1\<lparr>unified_q := unified_q ct1 @ [trans]\<rparr>
                else ct1\<lparr>read_queue := read_queue ct1 @ [trans]\<rparr>
              else ct1)"

definition TransToCommand :: "Config \<Rightarrow> DController \<Rightarrow> DTransaction \<Rightarrow> Command res" where
  "TransToCommand C ct t =
     res_bind (AddressMapping C (tr_addr t)) (\<lambda>ad.
     Inr \<lparr>cmd_type = (if row_policy ct = OPEN_PAGE then (if tr_write t then WRITE else READ)
                      else (if tr_write t then WRITE_PRECHARGE else READ_PRECHARGE)),
          cmd_addr = ad, hex_addr = tr_addr t\<rparr>)"

text \<open>The scheduling loop over a transaction queue; \<open>prevs\<close> are the transactions already passed over.\<close>

fun schedule_loop :: "Config \<Rightarrow> DController \<Rightarrow> DTransaction list \<Rightarrow> DTransaction list \<Rightarrow>
    (DController \<times> DTransaction list) res" where
  "schedule_loop C ct prevs [] = Inr (ct, prevs)"
| "schedule_loop C ct prevs (it # rest) =
     res_bind (TransToCommand C ct it) (\<lambda>cmd.
     res_bind (WillAcceptCommand C (ct_queue ct) (c_rank cmd) (c_bankgroup cmd) (c_bank cmd)) (\<lambda>ok.
     if \<not> ok then schedule_loop C ct (prevs @ [it]) rest
     else if \<not> is_unified_queue ct \<and> IsWrite cmd \<and> 0 < key_count (pending_rd_q ct) (tr_addr it) then
       Inr (ct\<lparr>write_draining := 0\<rparr>, prevs @ it # rest)
     else
       let ct1 = (if \<not> is_unified_queue ct \<and> IsWrite cmd
                  then ct\<lparr>write_draining := write_draining ct - 1\<rparr> else ct)
       in res_bind (AddCommand C cmd (ct_queue ct1)) (\<lambda>(_, q).
          Inr (ct1\<lparr>ct_queue := q\<rparr>, prevs @ rest))))"

definition drain_check :: "Config \<Rightarrow> DController \<Rightarrow> DController" where
  "drain_check C ct =
     (if write_draining ct = 0 \<and> \<not> is_unified_queue ct \<and>
         (capacity C \<le> length (write_buffer ct) \<or> 8 < length (write_buffer ct) \<and> QueueEmpty (ct_queue ct))
      then ct\<lparr>write_draining := int (length (write_buffer ct))\<rparr> else ct)"

definition ScheduleTransaction :: "Config \<Rightarrow> DController \<Rightarrow> DController res" where
  "ScheduleTransaction C ct0 =
     (let ct = drain_check C ct0 in
      if is_unified_queue ct then
        res_bind (schedule_loop C ct [] (unified_q ct)) (\<lambda>(ct1, q). Inr (ct1\<lparr>unified_q := q\<rparr>))
      else if 0 < write_draining ct then
        res_bind (schedule_loop C ct [] (write_buffer ct)) (\<lambda>(ct1, q). Inr (ct1\<lparr>write_buffer := q\<rparr>))
      else
        res_bind (schedule_loop C ct [] (read_queue ct)) (\<lambda>(ct1, q). Inr (ct1\<lparr>read_queue := q\<rparr>)))"

definition hit_stats :: "ChannelState \<Rightarrow> Command \<Rightarrow> string \<Rightarrow> SimpleStats \<Rightarrow> SimpleStats res" where
  "hit_stats cs cmd name st =
     res_bind (bank_at (bank_states cs) (c_rank cmd) (c_bankgroup cmd) (c_bank cmd)) (\<lambda>b.
     Inr (if row_hit_count b \<noteq> 0 then Increment name st else st))"

definition UpdateCommandStats :: "ChannelState \<Rightarrow> Command \<Rightarrow> SimpleStats \<Rightarrow> SimpleStats res" where
  "UpdateCommandStats cs cmd st = (case cmd_type cmd of
     READ \<Rightarrow> hit_stats cs cmd ''num_read_row_hits'' (Increment ''num_read_cmds'' st)
   | READ_PRECHARGE \<Rightarrow> hit_stats cs cmd ''num_read_row_hits'' (Increment ''num_read_cmds'' st)
   | WRITE \<Rightarrow> hit_stats cs cmd ''num_write_row_hits'' (Increment ''num_write_cmds'' st)
   | WRITE_PRECHARGE \<Rightarrow> hit_stats cs cmd ''num_write_row_hits'' (Increment ''num_write_cmds'' st)
   | ACTIVATE \<Rightarrow> Inr (Increment ''num_act_cmds'' st)
   | PRECHARGE \<Rightarrow> Inr (Increment ''num_pre_cmds'' st)
   | REFRESH \<Rightarrow> Inr (Increment ''num_ref_cmds'' st)
   | REFRESH_BANK \<Rightarrow> Inr (Increment ''num_refb_cmds'' st)
   | SREF_ENTER \<Rightarrow> Inr (Increment ''num_srefe_cmds'' st)
   | SREF_EXIT \<Rightarrow> Inr (Increment ''num_srefx_cmds'' st)
   | CMD_SIZE \<Rightarrow> Inl Abrupt)"

text \<open>All pending reads of an address complete together, in the order in which they came.\<close>

definition return_reads :: "Config \<Rightarrow> u64 \<Rightarrow> DController \<Rightarrow> DController res" where
  "return_reads C a ct =
     (if key_count (pending_rd_q ct) a = 0 then Inl ExitCall
      else Inr (ct\<lparr>return_queue := return_queue ct @
             map (\<lambda>e. (snd e)\<lparr>complete_cycle := ct_clk ct + of_int (read_delay C)\<rparr>) (filter (\<lambda>e. fst e = a) (pending_rd_q ct)),
           pending_rd_q := filter (\<lambda>e. fst e \<noteq> a) (pending_rd_q ct)\<rparr>))"

definition finish_write :: "Config \<Rightarrow> u64 \<Rightarrow> DController \<Rightarrow> DController res" where
  "finish_write C a ct = (case find (\<lambda>e. fst e = a) (pending_wr_q ct) of
     None \<Rightarrow> Inl ExitCall
   | Some e \<Rightarrow> Inr (ct\<lparr>ct_stats := AddValue ''write_latency''
         (latency (ct_clk ct - added_cycle (snd e) + of_int (write_delay C))) (ct_stats ct),
       pending_wr_q := erase_first (\<lambda>e. fst e = a) (pending_wr_q ct)\<rparr>))"

definition IssueCommand :: "Config \<Rightarrow> Timing \<Rightarrow> Command \<Rightarrow> DController \<Rightarrow> DController res" where
  "IssueCommand C T cmd ct =
     res_bind (if IsRead cmd then return_reads C (hex_addr cmd) ct
               else if IsWrite cmd then finish_write C (hex_addr cmd) ct else Inr ct) (\<lambda>ct1.
     res_bind (UpdateCommandStats (ct_channel ct1) cmd (ct_stats ct1)) (\<lambda>st.
     res_bind (UpdateTimingAndStates C T cmd (ct_clk ct1) (ct_channel ct1)) (\<lambda>cs.
     Inr (ct1\<lparr>ct_stats := st, ct_channel := cs\<rparr>))))"

section \<open>One cycle\<close>

text \<open>The choice and issue of commands; the flag tells whether one was issued.\<close>

definition next_command :: "Config \<Rightarrow> DController \<Rightarrow> (Command \<times> DController) res" where
  "next_command C ct =
     res_bind (GetCommandToIssue C (ct_channel ct) (ct_queue ct) (ct_stats ct)) (\<lambda>(cmd, q, st).
     Inr (cmd, ct\<lparr>ct_queue := q, ct_stats := st\<rparr>))"

definition choose_command :: "Config \<Rightarrow> DController \<Rightarrow> (Command \<times> DController) res" where
  "choose_command C ct =
     res_bind (if refresh_q (ct_channel ct) \<noteq> [] then
                 res_bind (FinishRefresh C (ct_channel ct) (ct_queue ct)) (\<lambda>(cmd, q).
                 Inr (cmd, ct\<lparr>ct_queue := q\<rparr>))
               else Inr (Command_none, ct)) (\<lambda>(cmd, ct1).
     if \<not> IsValid cmd then next_command C ct1 else Inr (cmd, ct1))"

definition second_command :: "Config \<Rightarrow> Timing \<Rightarrow> Command \<Rightarrow> DController \<Rightarrow> DController res" where
  "second_command C T cmd ct =
     res_bind (next_command C ct) (\<lambda>(second_cmd, ct1).
     if IsValid second_cmd \<and> IsReadWrite second_cmd \<noteq> IsReadWrite cmd then
       res_bind (IssueCommand C T second_cmd ct1) (\<lambda>ct2.
       Inr (ct2\<lparr>ct_stats := Increment ''hbm_dual_cmds'' (ct_stats ct2)\<rparr>))
     else Inr ct1)"

definition issue_phase :: "Config \<Rightarrow> Timing \<Rightarrow> DController \<Rightarrow> (bool \<times> DController) res" where
  "issue_phase C T ct =
     res_bind (choose_command C ct) (\<lambda>(cmd, ct1).
     if IsValid cmd then
       res_bind (IssueCommand C T cmd ct1) (\<lambda>ct2.
       res_bind (if enable_hbm_dual_cmd C then second_command C T cmd ct2 else Inr ct2) (\<lambda>ct3.
       Inr (True, ct3)))
     else Inr (False, ct1))"

definition idle_update :: "Config \<Rightarrow> int \<Rightarrow> DController \<Rightarrow> DController res" where
  "idle_update C i ct =
     (let cs = ct_channel ct in
      res_bind (vgeti (rank_is_sref cs) i) (\<lambda>s.
      if s then res_bind (IncrementVec ''sref_cycles'' i (ct_stats ct)) (\<lambda>st. Inr (ct\<lparr>ct_stats := st\<rparr>))
      else res_bind (IsAllBankIdleInRank C cs i) (\<lambda>idle.
        res_bind (IncrementVec (if idle then ''all_bank_idle_cycles'' else ''rank_active_cycles'') i (ct_stats ct)) (\<lambda>st.
        res_bind (vgeti (rank_idle_cycles cs) i) (\<lambda>n.
        Inr (ct\<lparr>ct_stats := st, ct_channel := cs\<lparr>rank_idle_cycles :=
               (rank_idle_cycles cs)[nat i := (if idle then n + 1 else 0)]\<rparr>\<rparr>))))))"

text \<open>The self-refresh loop stops after the first command it issues.\<close>

fun sref_loop :: "Config \<Rightarrow> Timing \<Rightarrow> int list \<Rightarrow> DController \<Rightarrow> DController res" where
  "sref_loop C T [] ct = Inr ct"
| "sref_loop C T (i # is) ct =
     (let cs = ct_channel ct;
          attempt = (\<lambda>ty. let cmd0 = \<lparr>cmd_type = ty, cmd_addr = Address_none\<lparr>ad_rank := i\<rparr>, hex_addr = - 1\<rparr>
                 in res_bind (GetReadyCommand C cs cmd0 (ct_clk ct)) (\<lambda>cmd.
                    if IsValid cmd then IssueCommand C T cmd ct else sref_loop C T is ct))
      in res_bind (vgeti (rank_is_sref cs) i) (\<lambda>s.
         res_bind (vgeti (rank_q_empty (ct_queue ct)) i) (\<lambda>e.
         res_bind (vgeti (rank_idle_cycles cs) i) (\<lambda>n.
         if s then (if \<not> e then attempt SREF_EXIT else sref_loop C T is ct)
         else if e \<and> sref_threshold C \<le> n then attempt SREF_ENTER else sref_loop C T is ct))))"

definition ct_ClockTick :: "Config \<Rightarrow> Timing \<Rightarrow> DController \<Rightarrow> DController res" where
  "ct_ClockTick C T ct =
     res_bind (Refresh_ClockTick C (ct_refresh ct) (ct_channel ct)) (\<lambda>(f, cs).
     res_bind (issue_phase C T (ct\<lparr>ct_refresh := f, ct_channel := cs\<rparr>)) (\<lambda>(cmd_issued, ct1).
     res_bind (res_fold (idle_update C) (iota (ranks C)) ct1) (\<lambda>ct2.
     res_bind (if enable_self_refresh C \<and> \<not> cmd_issued then sref_loop C T (iota (ranks C)) ct2 else Inr ct2) (\<lambda>ct3.
     res_bind (ScheduleTransaction C ct3) (\<lambda>ct4.
     Inr (ct4\<lparr>ct_clk := ct_clk ct4 + 1, ct_queue := CommandQueue_ClockTick (ct_queue ct4),
              ct_stats := Increment ''num_cycles'' (ct_stats ct4)\<rparr>))))))"

definition ct_PrintEpochStats :: "DController \<Rightarrow> DController res" where
  "ct_PrintEpochStats ct =
     res_bind (UpdateEpochStats (Increment ''epoch_num'' (ct_stats ct))) (\<lambda>st. Inr (ct\<lparr>ct_stats := st\<rparr>))"

end
