(* ===== verification/Dram_Controller_Inv.thy ===== *)
theory Dram_Controller_Inv
  imports Dram_Controller
begin

text \<open>
  The invariant of the DRAM controller: no operation fails, and the transactions it has taken are
  those it has returned together with those still pending.
\<close>

section \<open>The invariant\<close>

definition tr_req :: "DTransaction \<Rightarrow> u64 \<times> bool" where
  "tr_req t = (tr_addr t, tr_write t)"

text \<open>The requests on their way to the banks: in the transaction queues and in the command queues.\<close>

definition transq :: "DController \<Rightarrow> DTransaction list" where
  "transq ct = unified_q ct @ read_queue ct @ write_buffer ct"

definition reqs :: "DController \<Rightarrow> (u64 \<times> bool) multiset" where
  "reqs ct = queued (ct_queue ct) + mset (map tr_req (transq ct))"

text \<open>At most one request per address and direction is on its way, and only for a pending entry.\<close>

definition reqs_ok :: "DController \<Rightarrow> bool" where
  "reqs_ok ct \<longleftrightarrow> (\<forall>a. count (reqs ct) (a, False) \<le> (if a \<in> fst ` set (pending_rd_q ct) then 1 else 0) \<and>
     count (reqs ct) (a, True) \<le> (if a \<in> fst ` set (pending_wr_q ct) then 1 else 0))"

definition pend_ok :: "DController \<Rightarrow> bool" where
  "pend_ok ct \<longleftrightarrow> (\<forall>e \<in> set (pending_rd_q ct). tr_req (snd e) = (fst e, False))"

text \<open>The transactions taken and not yet returned.\<close>

definition ct_pending :: "DController \<Rightarrow> (u64 \<times> bool) multiset" where
  "ct_pending ct = mset (map (\<lambda>e. tr_req (snd e)) (pending_rd_q ct)) + mset (map tr_req (return_queue ct))"

definition ct_inv :: "Config \<Rightarrow> DController \<Rightarrow> bool" where
  "ct_inv C ct \<longleftrightarrow> cs_ok C (ct_channel ct) \<and> q_ok C (ct_queue ct) \<and> stats_ok C (ct_stats ct) \<and>
     refresh_ok C (ct_refresh ct) \<and> q_clk (ct_queue ct) = ct_clk ct \<and> reqs_ok ct \<and> pend_ok ct"

text \<open>The configurations the invariant is for: self refresh is not enabled.\<close>

definition ctrl_cfg :: "Config \<Rightarrow> bool" where
  "ctrl_cfg C \<longleftrightarrow> device_ok C \<and> refresh_policy C \<noteq> POLICY_SIZE \<and> \<not> enable_self_refresh C \<and>
     (\<forall>a. \<exists>ad. AddressMapping C a = Inr ad \<and> in_device C ad)"

definition can_issue :: "DController \<Rightarrow> Command \<Rightarrow> bool" where
  "can_issue ct c \<longleftrightarrow>
     (IsRead c \<longrightarrow> hex_addr c \<in> fst ` set (pending_rd_q ct) \<and> count (reqs ct) (hex_addr c, False) = 0) \<and>
     (IsWrite c \<longrightarrow> hex_addr c \<in> fst ` set (pending_wr_q ct) \<and> count (reqs ct) (hex_addr c, True) = 0)"

lemma ctrl_cfg_device: "ctrl_cfg C \<Longrightarrow> device_ok C"
  by (simp add: ctrl_cfg_def)

section \<open>Choosing and issuing a command\<close>

lemma reqs_upd [simp]:
  "reqs (ct\<lparr>ct_stats := st\<rparr>) = reqs ct" "reqs (ct\<lparr>ct_channel := cs\<rparr>) = reqs ct" "reqs (ct\<lparr>ct_refresh := f\<rparr>) = reqs ct"
  "reqs (ct\<lparr>return_queue := rt\<rparr>) = reqs ct" "reqs (ct\<lparr>pending_rd_q := pr\<rparr>) = reqs ct" "reqs (ct\<lparr>pending_wr_q := pw\<rparr>) = reqs ct"
  "reqs (ct\<lparr>ct_clk := t\<rparr>) = reqs ct" "reqs (ct\<lparr>last_trans_clk := t\<rparr>) = reqs ct" "reqs (ct\<lparr>write_draining := n\<rparr>) = reqs ct"
  by (simp_all add: reqs_def transq_def)

lemma reqs_ok_upd [simp]:
  "reqs_ok (ct\<lparr>ct_stats := st\<rparr>) = reqs_ok ct" "reqs_ok (ct\<lparr>return_queue := rt\<rparr>) = reqs_ok ct"
  "pend_ok (ct\<lparr>ct_stats := st\<rparr>) = pend_ok ct" "pend_ok (ct\<lparr>return_queue := rt\<rparr>) = pend_ok ct"
  by (simp_all add: reqs_ok_def pend_ok_def)

lemma reqs_ok_mono:
  assumes "reqs_ok ct" and "reqs ct' \<subseteq># reqs ct" and "pending_rd_q ct' = pending_rd_q ct" "pending_wr_q ct' = pending_wr_q ct"
  shows "reqs_ok ct'"
proof -
  have "count (reqs ct') r \<le> count (reqs ct) r" for r using assms(2) by (rule mset_subset_eq_count)
  then show ?thesis using assms(1) unfolding reqs_ok_def assms(3,4) by (blast intro: order_trans)
qed

text \<open>A removed request leaves none for its address and direction.\<close>

lemma removed_request:
  assumes "reqs_ok ct" and "reqs ct = add_mset r (reqs ct')"
  shows "count (reqs ct') r = 0"
    and "if snd r then fst r \<in> fst ` set (pending_wr_q ct) else fst r \<in> fst ` set (pending_rd_q ct)"
proof -
  obtain a w where r: "r = (a, w)" by (cases r)
  have c: "count (reqs ct) (a, w) = count (reqs ct') (a, w) + 1" using assms(2) r by simp
  have "count (reqs ct) (a, w) \<le> (if w then (if a \<in> fst ` set (pending_wr_q ct) then 1 else 0)
      else (if a \<in> fst ` set (pending_rd_q ct) then 1 else 0))"
    using assms(1) unfolding reqs_ok_def by (cases w) simp_all
  then have "count (reqs ct') (a, w) = 0 \<and> (if w then a \<in> fst ` set (pending_wr_q ct) else a \<in> fst ` set (pending_rd_q ct))"
    unfolding c by (cases w; cases "a \<in> fst ` set (pending_wr_q ct)"; cases "a \<in> fst ` set (pending_rd_q ct)") simp_all
  then show "count (reqs ct') r = 0"
    "if snd r then fst r \<in> fst ` set (pending_wr_q ct) else fst r \<in> fst ` set (pending_rd_q ct)"
    unfolding r by simp_all
qed

definition same_pending :: "DController \<Rightarrow> DController \<Rightarrow> bool" where
  "same_pending ct ct' \<longleftrightarrow> ct_pending ct' = ct_pending ct \<and> ct_clk ct' = ct_clk ct"

lemma same_pending_trans: "same_pending a b \<Longrightarrow> same_pending b c \<Longrightarrow> same_pending a c"
  by (simp add: same_pending_def)

lemma next_command_ok:
  assumes "ctrl_cfg C" and "ct_inv C ct"
  shows "\<exists>c ct'. next_command C ct = Inr (c, ct') \<and> ct_inv C ct' \<and> same_pending ct ct' \<and>
    (IsValid c \<longrightarrow> ready_for C (ct_channel ct') (ct_clk ct') c \<and> can_issue ct' c)"
proof -
  note inv = assms(2) [unfolded ct_inv_def]
  obtain c q st where g: "GetCommandToIssue C (ct_channel ct) (ct_queue ct) (ct_stats ct) = Inr (c, q, st)"
    "stats_ok C st" "issues C (ct_channel ct) (ct_queue ct) c q"
    using GetCommandToIssue_ok [OF ctrl_cfg_device [OF assms(1)], of "ct_channel ct" "ct_queue ct" "ct_stats ct"] inv by blast
  note i = g(3) [unfolded issues_def]
  let ?ct = "ct\<lparr>ct_queue := q, ct_stats := st\<rparr>"
  have r: "reqs ct = (if IsReadWrite c then add_mset (request c) (reqs ?ct) else reqs ?ct)"
    using i by (auto simp: reqs_def transq_def)
  have ok: "reqs_ok ?ct" by (rule reqs_ok_mono [of ct]) (use inv r in auto)
  have "can_issue ?ct c"
  proof (cases "IsReadWrite c")
    case True
    with r have "reqs ct = add_mset (request c) (reqs ?ct)" by simp
    from removed_request [OF _ this] inv True show ?thesis
      by (auto simp: can_issue_def request_def cmd_defs split: if_splits)
  next
    case False
    then show ?thesis by (auto simp: can_issue_def IsReadWrite_def)
  qed
  moreover have "ct_inv C ?ct" using inv ok i g(2) by (simp add: ct_inv_def pend_ok_def)
  ultimately show ?thesis using g(1) i inv
    by (auto simp: next_command_def same_pending_def ct_pending_def)
qed

lemma choose_command_ok:
  assumes "ctrl_cfg C" and "ct_inv C ct"
  shows "\<exists>c ct'. choose_command C ct = Inr (c, ct') \<and> ct_inv C ct' \<and> same_pending ct ct' \<and>
    (IsValid c \<longrightarrow> ready_for C (ct_channel ct') (ct_clk ct') c \<and> can_issue ct' c)"
proof (cases "refresh_q (ct_channel ct) = []")
  case True
  then show ?thesis using next_command_ok [OF assms] by (simp add: choose_command_def)
next
  case False
  note inv = assms(2) [unfolded ct_inv_def]
  obtain c q where f: "FinishRefresh C (ct_channel ct) (ct_queue ct) = Inr (c, q)" "q_ok C q" "queued q = queued (ct_queue ct)"
    "q_clk q = q_clk (ct_queue ct)" "IsValid c \<Longrightarrow> ready_for C (ct_channel ct) (q_clk (ct_queue ct)) c \<and> \<not> IsReadWrite c"
    using FinishRefresh_ok [OF ctrl_cfg_device [OF assms(1)] _ _ False, of "ct_queue ct"] inv by blast
  let ?ct = "ct\<lparr>ct_queue := q\<rparr>"
  have "reqs ?ct = reqs ct" using f(3) by (simp add: reqs_def transq_def)
  then have ok: "ct_inv C ?ct" using inv f(2,4) by (simp add: ct_inv_def pend_ok_def reqs_ok_def)
  have sp: "same_pending ct ?ct" by (simp add: same_pending_def ct_pending_def)
  show ?thesis
  proof (cases "IsValid c")
    case True
    with f(1,5) False ok sp inv show ?thesis
      by (auto simp: choose_command_def can_issue_def IsReadWrite_def)
  next
    case inv: False
    have e: "choose_command C ct = next_command C ?ct" using f(1) False inv by (simp add: choose_command_def)
    show ?thesis unfolding e using next_command_ok [OF assms(1) ok] same_pending_trans [OF sp] by blast
  qed
qed

lemma UpdateCommandStats_ok:
  assumes "cs_ok C cs" and "cmd_in C c" and "IsValid c" and "stats_ok C st"
  shows "\<exists>st'. UpdateCommandStats cs c st = Inr st' \<and> stats_ok C st'"
proof -
  have h: "\<exists>st'. hit_stats cs c n s = Inr st' \<and> stats_ok C st'" if "stats_ok C s" "IsReadWrite c" for n s
  proof -
    have "bank_at (bank_states cs) (c_rank c) (c_bankgroup c) (c_bank c) = Inr (cs_bank cs (c_rank c, c_bankgroup c, c_bank c))"
      using bank_at_in [OF _ rw_in_banks [OF assms(2) that(2)]] assms(1) by (simp add: cs_ok_def cs_shape_def)
    then show ?thesis using that(1) Increment_ok by (auto simp: hit_stats_def)
  qed
  note inc = Increment_ok [OF assms(4)]
  show ?thesis
    using h [OF inc] inc assms(3) by (cases "cmd_type c") (simp_all add: UpdateCommandStats_def cmd_defs)
qed

lemma filter_split_mset:
  "mset (map g (filter (\<lambda>x. \<not> P x) xs)) + mset (map g (filter P xs)) = mset (map g xs)"
  by (induction xs) auto

lemma filter_keys: "b \<noteq> a \<Longrightarrow> b \<in> fst ` set (filter (\<lambda>e. fst e \<noteq> a) m) \<longleftrightarrow> b \<in> fst ` set m"
  by (induction m) auto

lemma return_reads_ok:
  assumes "ct_inv C ct" and "a \<in> fst ` set (pending_rd_q ct)" and "count (reqs ct) (a, False) = 0"
  shows "\<exists>ct'. return_reads C a ct = Inr ct' \<and> ct_inv C ct' \<and> same_pending ct ct' \<and> ct_channel ct' = ct_channel ct"
proof -
  note inv = assms(1) [unfolded ct_inv_def]
  let ?d = "map (\<lambda>e. (snd e)\<lparr>complete_cycle := ct_clk ct + of_int (read_delay C)\<rparr>) (filter (\<lambda>e. fst e = a) (pending_rd_q ct))"
  let ?ct = "ct\<lparr>return_queue := return_queue ct @ ?d, pending_rd_q := filter (\<lambda>e. fst e \<noteq> a) (pending_rd_q ct)\<rparr>"
  have "key_count (pending_rd_q ct) a \<noteq> 0" using assms(2) by (auto simp: key_count_def filter_empty_conv)
  then have e: "return_reads C a ct = Inr ?ct" by (simp add: return_reads_def)
  let ?g = "\<lambda>e. tr_req (snd e)" and ?P = "\<lambda>e. fst e = a"
  have d: "mset (map tr_req ?d) = mset (map ?g (filter ?P (pending_rd_q ct)))" by (simp add: tr_req_def comp_def)
  have "ct_pending ?ct = mset (map ?g (filter (\<lambda>e. \<not> ?P e) (pending_rd_q ct))) + (mset (map tr_req (return_queue ct)) + mset (map tr_req ?d))"
    unfolding ct_pending_def by simp
  also have "\<dots> = (mset (map ?g (filter (\<lambda>e. \<not> ?P e) (pending_rd_q ct))) + mset (map ?g (filter ?P (pending_rd_q ct)))) +
      mset (map tr_req (return_queue ct))"
    unfolding d by (simp only: ac_simps)
  also have "\<dots> = ct_pending ct" unfolding filter_split_mset ct_pending_def ..
  finally have "ct_pending ?ct = ct_pending ct" .
  moreover have "count (reqs ct) (b, False) \<le> (if b \<in> fst ` set (filter (\<lambda>e. fst e \<noteq> a) (pending_rd_q ct)) then 1 else 0)" for b
  proof (cases "b = a")
    case True
    then show ?thesis using assms(3) by simp
  next
    case False
    then show ?thesis using inv unfolding reqs_ok_def filter_keys [OF False] by blast
  qed
  then have "reqs_ok ?ct" using inv unfolding reqs_ok_def by simp
  then have "ct_inv C ?ct" using inv by (simp add: ct_inv_def pend_ok_def)
  ultimately show ?thesis unfolding e by (simp add: same_pending_def)
qed

lemma find_some: "\<exists>x \<in> set xs. P x \<Longrightarrow> \<exists>x. find P xs = Some x"
  by (metis find_None_iff option.exhaust)

lemma erase_first_keys:
  "b \<noteq> a \<Longrightarrow> b \<in> fst ` set (erase_first (\<lambda>e. fst e = a) m) \<longleftrightarrow> b \<in> fst ` set m"
  by (induction m) auto

lemma finish_write_ok:
  assumes "ct_inv C ct" and "a \<in> fst ` set (pending_wr_q ct)" and "count (reqs ct) (a, True) = 0"
  shows "\<exists>ct'. finish_write C a ct = Inr ct' \<and> ct_inv C ct' \<and> same_pending ct ct' \<and> ct_channel ct' = ct_channel ct"
proof -
  note inv = assms(1) [unfolded ct_inv_def]
  obtain x where x: "find (\<lambda>e. fst e = a) (pending_wr_q ct) = Some x"
    using find_some [of "pending_wr_q ct" "\<lambda>e. fst e = a"] assms(2) by auto
  let ?ct = "ct\<lparr>ct_stats := AddValue ''write_latency''
         (latency (ct_clk ct - added_cycle (snd x) + of_int (write_delay C))) (ct_stats ct),
       pending_wr_q := erase_first (\<lambda>e. fst e = a) (pending_wr_q ct)\<rparr>"
  have e: "finish_write C a ct = Inr ?ct" by (simp add: finish_write_def x)
  have "count (reqs ct) (b, True) \<le> (if b \<in> fst ` set (erase_first (\<lambda>e. fst e = a) (pending_wr_q ct)) then 1 else 0)" for b
  proof (cases "b = a")
    case True
    then show ?thesis using assms(3) by simp
  next
    case False
    then show ?thesis using inv unfolding reqs_ok_def erase_first_keys [OF False] by blast
  qed
  then have "reqs_ok ?ct" using inv unfolding reqs_ok_def by simp
  then have "ct_inv C ?ct" using inv by (simp add: ct_inv_def pend_ok_def AddValue_ok)
  then show ?thesis unfolding e by (simp add: same_pending_def ct_pending_def)
qed

lemma IssueCommand_ok:
  assumes "ct_inv C ct" and "ready_for C (ct_channel ct) (ct_clk ct) c" and "can_issue ct c"
  shows "\<exists>ct'. IssueCommand C T c ct = Inr ct' \<and> ct_inv C ct' \<and> same_pending ct ct'"
proof -
  obtain ct1 where ct1: "(if IsRead c then return_reads C (hex_addr c) ct
      else if IsWrite c then finish_write C (hex_addr c) ct else Inr ct) = Inr ct1"
    "ct_inv C ct1" "same_pending ct ct1" "ct_channel ct1 = ct_channel ct"
  proof -
    consider "IsRead c" | "\<not> IsRead c" "IsWrite c" | "\<not> IsRead c" "\<not> IsWrite c" by blast
    then show thesis
    proof cases
      case 1
      with return_reads_ok [OF assms(1), of "hex_addr c"] assms(3) that show thesis by (auto simp: can_issue_def)
    next
      case 2
      with finish_write_ok [OF assms(1), of "hex_addr c"] assms(3) that show thesis by (auto simp: can_issue_def)
    next
      case 3
      with that [of ct] assms(1) show thesis by (simp add: same_pending_def)
    qed
  qed
  have clk: "ct_clk ct1 = ct_clk ct" using ct1(3) by (simp add: same_pending_def)
  note inv = ct1(2) [unfolded ct_inv_def]
  have rf: "ready_for C (ct_channel ct1) (ct_clk ct1) c" using assms(2) ct1(4) clk by simp
  from UpdateCommandStats_ok [of C "ct_channel ct1" c "ct_stats ct1"] inv rf obtain st where
    st: "UpdateCommandStats (ct_channel ct1) c (ct_stats ct1) = Inr st" "stats_ok C st" by (auto simp: ready_for_def)
  from issue_ok [OF _ rf, of T] inv obtain cs where
    cs: "UpdateTimingAndStates C T c (ct_clk ct1) (ct_channel ct1) = Inr cs" "cs_ok C cs" by blast
  have e: "IssueCommand C T c ct = Inr (ct1\<lparr>ct_stats := st, ct_channel := cs\<rparr>)"
    using ct1(1) st(1) cs(1) by (simp add: IssueCommand_def)
  show ?thesis unfolding e using inv st(2) cs(2) ct1(3)
    by (auto simp: ct_inv_def reqs_ok_def pend_ok_def same_pending_def ct_pending_def)
qed


section \<open>One cycle\<close>

lemma second_command_ok:
  assumes "ctrl_cfg C" and "ct_inv C ct"
  shows "\<exists>ct'. second_command C T cmd ct = Inr ct' \<and> ct_inv C ct' \<and> same_pending ct ct'"
proof -
  from next_command_ok [OF assms] obtain c ct1 where n: "next_command C ct = Inr (c, ct1)" "ct_inv C ct1" "same_pending ct ct1"
    "IsValid c \<Longrightarrow> ready_for C (ct_channel ct1) (ct_clk ct1) c \<and> can_issue ct1 c" by blast
  show ?thesis
  proof (cases "IsValid c \<and> IsReadWrite c \<noteq> IsReadWrite cmd")
    case True
    with n(4) IssueCommand_ok [OF n(2), of c T] obtain ct2 where
      ct2: "IssueCommand C T c ct1 = Inr ct2" "ct_inv C ct2" "same_pending ct1 ct2" by blast
    have e: "second_command C T cmd ct = Inr (ct2\<lparr>ct_stats := Increment ''hbm_dual_cmds'' (ct_stats ct2)\<rparr>)"
      using n(1) True ct2(1) by (simp add: second_command_def)
    show ?thesis unfolding e using ct2(2,3) n(3)
      by (simp add: ct_inv_def reqs_ok_def pend_ok_def same_pending_def ct_pending_def Increment_ok)
  next
    case False
    then have e: "second_command C T cmd ct = Inr ct1" using n(1) by (auto simp: second_command_def)
    show ?thesis unfolding e using n(2,3) by simp
  qed
qed

lemma issue_phase_ok:
  assumes "ctrl_cfg C" and "ct_inv C ct"
  shows "\<exists>b ct'. issue_phase C T ct = Inr (b, ct') \<and> ct_inv C ct' \<and> same_pending ct ct'"
proof -
  from choose_command_ok [OF assms] obtain c ct1 where n: "choose_command C ct = Inr (c, ct1)" "ct_inv C ct1" "same_pending ct ct1"
    "IsValid c \<Longrightarrow> ready_for C (ct_channel ct1) (ct_clk ct1) c \<and> can_issue ct1 c" by blast
  show ?thesis
  proof (cases "IsValid c")
    case True
    with n(4) IssueCommand_ok [OF n(2), of c T] obtain ct2 where
      ct2: "IssueCommand C T c ct1 = Inr ct2" "ct_inv C ct2" "same_pending ct1 ct2" by blast
    from second_command_ok [OF assms(1) ct2(2), of T c] obtain ct3 where
      ct3: "second_command C T c ct2 = Inr ct3" "ct_inv C ct3" "same_pending ct2 ct3" by blast
    have e: "issue_phase C T ct = Inr (True, if enable_hbm_dual_cmd C then ct3 else ct2)"
      using n(1) True ct2(1) ct3(1) by (simp add: issue_phase_def)
    show ?thesis unfolding e using ct2(2,3) ct3(2,3) n(3) by (auto simp: same_pending_def)
  next
    case False
    then have e: "issue_phase C T ct = Inr (False, ct1)" using n(1) by (simp add: issue_phase_def)
    show ?thesis unfolding e using n(2,3) by auto
  qed
qed

lemma IsAllBankIdle_ok:
  assumes "cs_ok C cs" and "0 \<le> i" "i < ranks C"
  shows "\<exists>b. IsAllBankIdleInRank C cs i = Inr b"
proof -
  have "\<exists>b. IsAllBankIdleInRank C cs i = Inr b \<and> True" unfolding IsAllBankIdleInRank_def
  proof (rule res_fold_inv, goal_cases)
    case 1
    show ?case ..
  next
    case (2 x s)
    obtain r j k where x: "x = (r, j, k)" by (cases x)
    then have "in_banks C (r, j, k)" using 2(1) assms(2,3) by (auto simp: rank_banks_set in_banks_def)
    then have "bank_at (bank_states cs) r j k = Inr (cs_bank cs (r, j, k))"
      using bank_at_in assms(1) by (auto simp: cs_ok_def cs_shape_def)
    then show ?case by (auto simp: x)
  qed
  then show ?thesis by blast
qed

lemma idle_update_ok:
  assumes "ct_inv C ct" and "0 \<le> i" "i < ranks C"
  shows "\<exists>ct'. idle_update C i ct = Inr ct' \<and> ct_inv C ct' \<and> same_pending ct ct'"
proof -
  note inv = assms(1) [unfolded ct_inv_def]
  let ?cs = "ct_channel ct"
  have cs: "cs_ok C ?cs" using inv by blast
  then have len: "nat i < length (rank_is_sref ?cs)" "nat i < length (rank_idle_cycles ?cs)"
    using assms(2,3) by (auto simp: cs_ok_def cs_shape_def)
  have s: "vgeti (rank_is_sref ?cs) i = Inr False"
    by (rule awake_at) (use cs len assms(2) in \<open>auto simp: cs_ok_def\<close>)
  obtain idle where idle: "IsAllBankIdleInRank C ?cs i = Inr idle" using IsAllBankIdle_ok [OF cs assms(2,3)] by blast
  have "(if idle then ''all_bank_idle_cycles'' else ''rank_active_cycles'') \<in> set vec_names" by (simp add: vec_names_def)
  from IncrementVec_ok [OF _ this assms(2,3), of "ct_stats ct"] inv
  obtain st where st: "IncrementVec (if idle then ''all_bank_idle_cycles'' else ''rank_active_cycles'') i (ct_stats ct) = Inr st"
    "stats_ok C st" by blast
  let ?ct = "ct\<lparr>ct_stats := st, ct_channel := ?cs\<lparr>rank_idle_cycles :=
      (rank_idle_cycles ?cs)[nat i := (if idle then rank_idle_cycles ?cs ! nat i + 1 else 0)]\<rparr>\<rparr>"
  have e: "idle_update C i ct = Inr ?ct"
    using s idle st(1) len assms(2) by (simp add: idle_update_def Let_def)
  have "cs_ok C (ct_channel ?ct)" using cs unfolding cs_ok_def cs_shape_def by auto
  then show ?thesis unfolding e using inv st(2)
    by (simp add: ct_inv_def reqs_ok_def pend_ok_def same_pending_def ct_pending_def)
qed

lemma TransToCommand_ok:
  assumes "ctrl_cfg C"
  shows "\<exists>c. TransToCommand C ct t = Inr c \<and> IsReadWrite c \<and> cmd_in C c \<and> request c = tr_req t"
proof -
  obtain ad where ad: "AddressMapping C (tr_addr t) = Inr ad" "in_device C ad"
    using assms unfolding ctrl_cfg_def by blast
  then show ?thesis
    by (auto simp: TransToCommand_def cmd_in_def in_banks_def in_device_def cmd_defs request_def tr_req_def)
qed

lemma schedule_loop_ok:
  assumes "ctrl_cfg C" and "q_ok C (ct_queue ct)"
  shows "\<exists>q n l'. schedule_loop C ct prevs l = Inr (ct\<lparr>ct_queue := q, write_draining := n\<rparr>, l') \<and> q_ok C q \<and>
    q_clk q = q_clk (ct_queue ct) \<and>
    queued q + mset (map tr_req l') = queued (ct_queue ct) + mset (map tr_req (prevs @ l))"
proof (induction l arbitrary: prevs)
  case Nil
  show ?case using assms(2) by (intro exI [of _ "ct_queue ct"] exI [of _ "write_draining ct"] exI [of _ prevs]) simp
next
  case (Cons it rest)
  from TransToCommand_ok [OF assms(1), of ct it] obtain c where
    c: "TransToCommand C ct it = Inr c" "IsReadWrite c" "cmd_in C c" "request c = tr_req it" by blast
  note dev = ctrl_cfg_device [OF assms(1)]
  from WillAcceptCommand_ok [OF dev assms(2) rw_in_banks [OF c(3,2)]] obtain ok where
    ok: "WillAcceptCommand C (ct_queue ct) (c_rank c) (c_bankgroup c) (c_bank c) = Inr ok" by blast
  consider (full) "\<not> ok"
    | (hold) "ok" "\<not> is_unified_queue ct \<and> IsWrite c \<and> 0 < key_count (pending_rd_q ct) (tr_addr it)"
    | (add) "ok" "\<not> (\<not> is_unified_queue ct \<and> IsWrite c \<and> 0 < key_count (pending_rd_q ct) (tr_addr it))" by blast
  then show ?case
  proof cases
    case full
    then have e: "schedule_loop C ct prevs (it # rest) = schedule_loop C ct (prevs @ [it]) rest" using c(1) ok by simp
    show ?thesis unfolding e using Cons.IH [of "prevs @ [it]"] by simp
  next
    case hold
    then have e: "schedule_loop C ct prevs (it # rest) = Inr (ct\<lparr>ct_queue := ct_queue ct, write_draining := 0\<rparr>, prevs @ it # rest)"
      using c(1) ok by simp
    show ?thesis unfolding e using assms(2) by (intro exI [of _ "ct_queue ct"] exI [of _ 0] exI [of _ "prevs @ it # rest"]) simp
  next
    case add
    from AddCommand_ok [OF dev assms(2) c(2,3)] ok add(1) obtain q where
      q: "AddCommand C c (ct_queue ct) = Inr (True, q)" "q_ok C q" "queued q = add_mset (request c) (queued (ct_queue ct))"
        "q_clk q = q_clk (ct_queue ct)" by auto
    let ?n = "if \<not> is_unified_queue ct \<and> IsWrite c then write_draining ct - 1 else write_draining ct"
    have e: "schedule_loop C ct prevs (it # rest) = Inr (ct\<lparr>ct_queue := q, write_draining := ?n\<rparr>, prevs @ rest)"
      using c(1) ok add q(1) by (auto simp: Let_def)
    show ?thesis unfolding e using q(2-4) c(4) by (intro exI [of _ q] exI [of _ ?n] exI [of _ "prevs @ rest"]) simp
  qed
qed


lemma drain_check_simps [simp]:
  "ct_queue (drain_check C ct) = ct_queue ct" "reqs (drain_check C ct) = reqs ct" "ct_pending (drain_check C ct) = ct_pending ct"
  "unified_q (drain_check C ct) = unified_q ct" "read_queue (drain_check C ct) = read_queue ct"
  "write_buffer (drain_check C ct) = write_buffer ct" "ct_clk (drain_check C ct) = ct_clk ct"
  "ct_channel (drain_check C ct) = ct_channel ct" "ct_stats (drain_check C ct) = ct_stats ct"
  "ct_refresh (drain_check C ct) = ct_refresh ct" "pending_rd_q (drain_check C ct) = pending_rd_q ct"
  "pending_wr_q (drain_check C ct) = pending_wr_q ct"
  by (simp_all add: drain_check_def ct_pending_def)

lemma Schedule_ok:
  assumes "ctrl_cfg C" and "ct_inv C ct0"
  shows "\<exists>ct'. ScheduleTransaction C ct0 = Inr ct' \<and> ct_inv C ct' \<and> same_pending ct0 ct'"
proof -
  define ct where "ct = drain_check C ct0"
  have inv: "ct_inv C ct" using assms(2) by (simp add: ct_def ct_inv_def reqs_ok_def pend_ok_def)
  have qok: "q_ok C (ct_queue ct)" using inv by (simp add: ct_inv_def)
  have sp: "same_pending ct0 ct" by (simp add: same_pending_def ct_def)
  have fin: "ct_inv C ct' \<and> same_pending ct0 ct'"
    if "ct_channel ct' = ct_channel ct" "ct_stats ct' = ct_stats ct" "ct_refresh ct' = ct_refresh ct" "q_ok C (ct_queue ct')"
      "q_clk (ct_queue ct') = q_clk (ct_queue ct)" "ct_clk ct' = ct_clk ct" "reqs ct' = reqs ct"
      "pending_rd_q ct' = pending_rd_q ct" "pending_wr_q ct' = pending_wr_q ct" "return_queue ct' = return_queue ct" for ct'
    using that inv sp by (simp add: ct_inv_def reqs_ok_def pend_ok_def same_pending_def ct_pending_def)
  have loop: "\<exists>q n l'. schedule_loop C ct [] l = Inr (ct\<lparr>ct_queue := q, write_draining := n\<rparr>, l') \<and> q_ok C q \<and>
      q_clk q = q_clk (ct_queue ct) \<and> queued q + mset (map tr_req l') = queued (ct_queue ct) + mset (map tr_req l)" for l
    using schedule_loop_ok [OF assms(1) qok, of "[]" l] by simp
  consider (u) "is_unified_queue ct" | (w) "\<not> is_unified_queue ct" "0 < write_draining ct"
    | (r) "\<not> is_unified_queue ct" "\<not> 0 < write_draining ct" by blast
  then show ?thesis
  proof cases
    case u
    obtain q n l' where l: "schedule_loop C ct [] (unified_q ct) = Inr (ct\<lparr>ct_queue := q, write_draining := n\<rparr>, l')" "q_ok C q"
      "q_clk q = q_clk (ct_queue ct)" "queued q + mset (map tr_req l') = queued (ct_queue ct) + mset (map tr_req (unified_q ct))"
      using loop by blast
    let ?ct = "ct\<lparr>ct_queue := q, write_draining := n, unified_q := l'\<rparr>"
    have e: "ScheduleTransaction C ct0 = Inr ?ct" using l(1) u by (simp add: ScheduleTransaction_def ct_def [symmetric])
    have "reqs ?ct = reqs ct" using l(4) by (simp add: reqs_def transq_def ac_simps)
    then show ?thesis unfolding e using fin [of ?ct] l by simp
  next
    case w
    obtain q n l' where l: "schedule_loop C ct [] (write_buffer ct) = Inr (ct\<lparr>ct_queue := q, write_draining := n\<rparr>, l')" "q_ok C q"
      "q_clk q = q_clk (ct_queue ct)" "queued q + mset (map tr_req l') = queued (ct_queue ct) + mset (map tr_req (write_buffer ct))"
      using loop by blast
    let ?ct = "ct\<lparr>ct_queue := q, write_draining := n, write_buffer := l'\<rparr>"
    have e: "ScheduleTransaction C ct0 = Inr ?ct" using l(1) w by (simp add: ScheduleTransaction_def ct_def [symmetric])
    have "reqs ?ct = reqs ct" using l(4) by (simp add: reqs_def transq_def ac_simps)
    then show ?thesis unfolding e using fin [of ?ct] l by simp
  next
    case r
    obtain q n l' where l: "schedule_loop C ct [] (read_queue ct) = Inr (ct\<lparr>ct_queue := q, write_draining := n\<rparr>, l')" "q_ok C q"
      "q_clk q = q_clk (ct_queue ct)" "queued q + mset (map tr_req l') = queued (ct_queue ct) + mset (map tr_req (read_queue ct))"
      using loop by blast
    let ?ct = "ct\<lparr>ct_queue := q, write_draining := n, read_queue := l'\<rparr>"
    have e: "ScheduleTransaction C ct0 = Inr ?ct" using l(1) r by (simp add: ScheduleTransaction_def ct_def [symmetric])
    have "reqs ?ct = reqs ct" using l(4) by (simp add: reqs_def transq_def ac_simps)
    then show ?thesis unfolding e using fin [of ?ct] l by simp
  qed
qed

lemma ct_tick_ok:
  assumes "ctrl_cfg C" and "ct_inv C ct"
  shows "\<exists>ct'. ct_ClockTick C T ct = Inr ct' \<and> ct_inv C ct' \<and> ct_pending ct' = ct_pending ct"
proof -
  note inv = assms(2) [unfolded ct_inv_def]
  from Refresh_tick_ok [OF ctrl_cfg_device [OF assms(1)], of "ct_channel ct" "ct_refresh ct"] inv assms(1)
  obtain f cs where f: "Refresh_ClockTick C (ct_refresh ct) (ct_channel ct) = Inr (f, cs)" "refresh_ok C f" "cs_ok C cs"
    by (auto simp: ctrl_cfg_def)
  let ?ct = "ct\<lparr>ct_refresh := f, ct_channel := cs\<rparr>"
  have "ct_inv C ?ct" using inv f(2,3) by (simp add: ct_inv_def reqs_ok_def pend_ok_def)
  from issue_phase_ok [OF assms(1) this, of T] obtain b ct1 where
    ct1: "issue_phase C T ?ct = Inr (b, ct1)" "ct_inv C ct1" "same_pending ?ct ct1" by blast
  have "\<exists>ct2. res_fold (idle_update C) (iota (ranks C)) ct1 = Inr ct2 \<and> (ct_inv C ct2 \<and> same_pending ct1 ct2)"
  proof (rule res_fold_inv, goal_cases)
    case 1
    show ?case using ct1(2) by (simp add: same_pending_def)
  next
    case (2 i s)
    then show ?case using idle_update_ok [of C s i] same_pending_trans by fastforce
  qed
  then obtain ct2 where ct2: "res_fold (idle_update C) (iota (ranks C)) ct1 = Inr ct2" "ct_inv C ct2" "same_pending ct1 ct2" by blast
  from Schedule_ok [OF assms(1) ct2(2)] obtain ct3 where
    ct3: "ScheduleTransaction C ct2 = Inr ct3" "ct_inv C ct3" "same_pending ct2 ct3" by blast
  let ?r = "ct3\<lparr>ct_clk := ct_clk ct3 + 1, ct_queue := CommandQueue_ClockTick (ct_queue ct3),
      ct_stats := Increment ''num_cycles'' (ct_stats ct3)\<rparr>"
  have e: "ct_ClockTick C T ct = Inr ?r"
    using f(1) ct1(1) ct2(1) ct3(1) assms(1) by (simp add: ct_ClockTick_def ctrl_cfg_def)
  have "q_ok C (CommandQueue_ClockTick (ct_queue ct3))" "queued (CommandQueue_ClockTick (ct_queue ct3)) = queued (ct_queue ct3)"
    "q_clk (CommandQueue_ClockTick (ct_queue ct3)) = q_clk (ct_queue ct3) + 1"
    using ct3(2) by (simp_all add: CommandQueue_ClockTick_def ct_inv_def q_ok_def queued_def)
  moreover from this(2) have "reqs ?r = reqs ct3" by (simp add: reqs_def transq_def)
  ultimately have "ct_inv C ?r" using ct3(2) by (simp add: ct_inv_def reqs_ok_def pend_ok_def Increment_ok)
  moreover have "ct_pending ?r = ct_pending ct"
    using ct1(3) ct2(3) ct3(3) by (simp add: same_pending_def ct_pending_def)
  ultimately show ?thesis unfolding e by blast
qed


section \<open>Taking and returning transactions\<close>

lemma key_count_0: "key_count m a = 0 \<longleftrightarrow> a \<notin> fst ` set m"
  by (auto simp: key_count_def filter_empty_conv image_iff)

lemma reqs_ok_push:
  assumes "reqs_ok ct" and "reqs ct' = add_mset (a, w) (reqs ct)"
    and "if w then a \<notin> fst ` set (pending_wr_q ct) else a \<notin> fst ` set (pending_rd_q ct)"
    and "fst ` set (pending_rd_q ct') = (if w then fst ` set (pending_rd_q ct) else insert a (fst ` set (pending_rd_q ct)))"
    and "fst ` set (pending_wr_q ct') = (if w then insert a (fst ` set (pending_wr_q ct)) else fst ` set (pending_wr_q ct))"
  shows "reqs_ok ct'"
  unfolding reqs_ok_def
proof
  fix b
  have "count (reqs ct) (b, False) \<le> (if b \<in> fst ` set (pending_rd_q ct) then 1 else 0)"
    "count (reqs ct) (b, True) \<le> (if b \<in> fst ` set (pending_wr_q ct) then 1 else 0)"
    using assms(1) unfolding reqs_ok_def by blast+
  then show "count (reqs ct') (b, False) \<le> (if b \<in> fst ` set (pending_rd_q ct') then 1 else 0) \<and>
      count (reqs ct') (b, True) \<le> (if b \<in> fst ` set (pending_wr_q ct') then 1 else 0)"
    using assms(3) unfolding assms(2,4,5) by (cases w; cases "b = a") auto
qed

lemma ct_Add_ok:
  assumes "ct_inv C ct0" and t: "tr_addr t = a" "tr_write t = w"
  shows "ct_inv C (ct_AddTransaction t ct0) \<and> ct_pending (ct_AddTransaction t ct0) = add_mset (a, w) (ct_pending ct0)"
proof -
  define tr where "tr = t\<lparr>added_cycle := ct_clk ct0\<rparr>"
  define ct where "ct = ct0\<lparr>ct_stats := AddValue ''interarrival_latency'' (latency (ct_clk ct0 - last_trans_clk ct0)) (ct_stats ct0),
      last_trans_clk := ct_clk ct0\<rparr>"
  have tr: "tr_addr tr = a" "tr_write tr = w" "tr_req tr = (a, w)" "tr_req (tr\<lparr>complete_cycle := x\<rparr>) = (a, w)" for x
    using t by (simp_all add: tr_def tr_req_def)
  have inv: "ct_inv C ct" using assms(1) by (simp add: ct_def ct_inv_def reqs_ok_def pend_ok_def AddValue_ok)
  note i = inv [unfolded ct_inv_def]
  have pend: "ct_pending ct = ct_pending ct0" by (simp add: ct_def ct_pending_def)
  have close: "ct_inv C ct'" if "reqs_ok ct'" "pend_ok ct'" "ct_channel ct' = ct_channel ct" "ct_queue ct' = ct_queue ct"
      "ct_stats ct' = ct_stats ct" "ct_refresh ct' = ct_refresh ct" "ct_clk ct' = ct_clk ct" for ct'
    using that i by (simp add: ct_inv_def)
  let ?e = "[(a, tr)]" and ?d = "[tr\<lparr>complete_cycle := ct_clk ct + 1\<rparr>]"
  consider (merge) "w" "a \<in> fst ` set (pending_wr_q ct)" | (wr) "w" "a \<notin> fst ` set (pending_wr_q ct)"
    | (fwd) "\<not> w" "a \<in> fst ` set (pending_wr_q ct)" | (old) "\<not> w" "a \<notin> fst ` set (pending_wr_q ct)" "a \<in> fst ` set (pending_rd_q ct)"
    | (rd) "\<not> w" "a \<notin> fst ` set (pending_wr_q ct)" "a \<notin> fst ` set (pending_rd_q ct)" by blast
  then show ?thesis
  proof cases
    case merge
    then have "ct_AddTransaction t ct0 = ct\<lparr>return_queue := return_queue ct @ ?d\<rparr>"
      using tr by (simp add: ct_AddTransaction_def Let_def tr_def ct_def key_count_0)
    then show ?thesis using i pend tr by (auto simp: ct_pending_def reqs_ok_def pend_ok_def intro!: close)
  next
    case fwd
    then have "ct_AddTransaction t ct0 = ct\<lparr>return_queue := return_queue ct @ ?d\<rparr>"
      using tr by (simp add: ct_AddTransaction_def Let_def tr_def ct_def key_count_0 neq0_conv [symmetric] del: neq0_conv)
    then show ?thesis using i pend tr by (auto simp: ct_pending_def reqs_ok_def pend_ok_def intro!: close)
  next
    case wr
    define ct1 where "ct1 = (if is_unified_queue ct then ct\<lparr>pending_wr_q := pending_wr_q ct @ ?e, unified_q := unified_q ct @ [tr]\<rparr>
        else ct\<lparr>pending_wr_q := pending_wr_q ct @ ?e, write_buffer := write_buffer ct @ [tr]\<rparr>)"
    have e: "ct_AddTransaction t ct0 = ct1\<lparr>return_queue := return_queue ct1 @ ?d\<rparr>"
      using wr tr by (simp add: ct_AddTransaction_def Let_def tr_def ct_def ct1_def key_count_0)
    have "reqs (ct_AddTransaction t ct0) = add_mset (a, w) (reqs ct)"
      using tr(3) by (simp add: e ct1_def reqs_def transq_def)
    then have "reqs_ok (ct_AddTransaction t ct0)"
      by (rule reqs_ok_push [rotated]) (use i wr in \<open>auto simp: e ct1_def\<close>)
    then show ?thesis using i pend tr by (auto simp: e ct1_def ct_pending_def pend_ok_def intro!: close)
  next
    case old
    then have e: "ct_AddTransaction t ct0 = ct\<lparr>pending_rd_q := pending_rd_q ct @ ?e\<rparr>"
      using tr key_count_0 [of "pending_rd_q ct" a] key_count_0 [of "pending_wr_q ct" a]
      by (simp add: ct_AddTransaction_def Let_def tr_def ct_def key_count_def)
    have "fst ` set (pending_rd_q ct @ ?e) = fst ` set (pending_rd_q ct)" using old by auto
    then have "reqs_ok (ct_AddTransaction t ct0)" using i unfolding e reqs_ok_def by simp
    then show ?thesis using i pend tr old by (auto simp: e ct_pending_def pend_ok_def intro!: close)
  next
    case rd
    define ct1 where "ct1 = (if is_unified_queue ct then ct\<lparr>pending_rd_q := pending_rd_q ct @ ?e, unified_q := unified_q ct @ [tr]\<rparr>
        else ct\<lparr>pending_rd_q := pending_rd_q ct @ ?e, read_queue := read_queue ct @ [tr]\<rparr>)"
    have e: "ct_AddTransaction t ct0 = ct1"
      using rd tr key_count_0 [of "pending_rd_q ct" a] key_count_0 [of "pending_wr_q ct" a]
      by (simp add: ct_AddTransaction_def Let_def tr_def ct_def ct1_def key_count_def)
    have "reqs (ct_AddTransaction t ct0) = add_mset (a, w) (reqs ct)"
      using tr(3) by (simp add: e ct1_def reqs_def transq_def)
    then have "reqs_ok (ct_AddTransaction t ct0)"
      by (rule reqs_ok_push [rotated]) (use i rd in \<open>auto simp: e ct1_def\<close>)
    then show ?thesis using i pend tr rd by (auto simp: e ct1_def ct_pending_def pend_ok_def intro!: close)
  qed
qed

lemma take_done_mset: "take_done clk ts = Some (d, r) \<Longrightarrow> mset ts = add_mset d (mset r) \<and> length ts = Suc (length r)"
  by (induction ts arbitrary: d r) (auto split: if_splits option.splits)

lemma Return_ok:
  assumes "ct_inv C ct" and "ReturnDoneTrans clk ct = (e, ct')"
  shows "ct_inv C ct'"
    and "ct_pending ct = (case e of None \<Rightarrow> ct_pending ct' | Some x \<Rightarrow> add_mset x (ct_pending ct'))"
    and "e \<noteq> None \<Longrightarrow> length (return_queue ct) = Suc (length (return_queue ct'))"
proof -
  have *: "ct_inv C ct' \<and> ct_pending ct = (case e of None \<Rightarrow> ct_pending ct' | Some x \<Rightarrow> add_mset x (ct_pending ct')) \<and>
    (e \<noteq> None \<longrightarrow> length (return_queue ct) = Suc (length (return_queue ct')))"
  proof (cases "take_done clk (return_queue ct)")
    case None
    then show ?thesis using assms by (simp add: ReturnDoneTrans_def)
  next
    case (Some x)
    obtain d r where x: "x = (d, r)" by (cases x)
    note m = take_done_mset [OF Some [unfolded x]]
    have "image_mset tr_req (mset (return_queue ct)) = add_mset (tr_req d) (image_mset tr_req (mset r))" using m by simp
    then show ?thesis using assms Some x m
      by (auto simp: ReturnDoneTrans_def ct_inv_def ct_pending_def Increment_ok AddValue_ok tr_req_def)
  qed
  then show "ct_inv C ct'" "ct_pending ct = (case e of None \<Rightarrow> ct_pending ct' | Some x \<Rightarrow> add_mset x (ct_pending ct'))"
    "e \<noteq> None \<Longrightarrow> length (return_queue ct) = Suc (length (return_queue ct'))" by blast+
qed

lemma ct_epoch_ok:
  assumes "ct_inv C ct"
  shows "\<exists>ct'. ct_PrintEpochStats ct = Inr ct' \<and> ct_inv C ct' \<and> ct_pending ct' = ct_pending ct"
proof -
  have "stats_ok C (Increment ''epoch_num'' (ct_stats ct))" using assms by (simp add: ct_inv_def Increment_ok)
  from UpdateEpochStats_ok [OF this] obtain st where
    "UpdateEpochStats (Increment ''epoch_num'' (ct_stats ct)) = Inr st" "stats_ok C st" by blast
  then show ?thesis using assms by (simp add: ct_PrintEpochStats_def ct_inv_def reqs_ok_def pend_ok_def ct_pending_def)
qed

end
