(* ===== verification/Dram_System.thy ===== *)
theory Dram_System
  imports Dram_Controller_Inv Memory
begin

text \<open>
  The DRAM systems, \<open>src/DRAMsim3/src/dram_system.cc\<close>: one controller per channel behind the address
  mapping (\<open>JedecDRAMSystem\<close>), and the ideal memory with a fixed latency (\<open>IdealDRAMSystem\<close>). Both
  provide the contract the simulator's memory front end relies on. A callback is an element of the
  list of completions a tick returns.
\<close>

section \<open>The JEDEC system\<close>

record JedecDRAMSystem =
  js_clk :: u64
  last_req_clk :: u64
  ctrls :: "DController list"

definition GetChannel :: "Config \<Rightarrow> u64 \<Rightarrow> int res" where
  "GetChannel C hex =
     res_bind (shr64 hex (shift_bits C)) (\<lambda>h. res_bind (shr64 h (ch_pos C)) (\<lambda>c.
     Inr (uint (and c (ch_mask C)))))"

definition Jedec_new :: "Config \<Rightarrow> JedecDRAMSystem res" where
  "Jedec_new C =
     (if IsHMC C then Inl Abrupt
      else if channels C < 0 then Inl (Thrown ''length_error'')
      else res_bind (res_fold (\<lambda>i cts. res_bind (DController_new C i) (\<lambda>ct. Inr (cts @ [ct]))) (iota (channels C)) [])
        (\<lambda>cts. Inr \<lparr>js_clk = 0, last_req_clk = 0, ctrls = cts\<rparr>))"

definition Jedec_WillAcceptTransaction :: "Config \<Rightarrow> JedecDRAMSystem \<Rightarrow> u64 \<Rightarrow> bool \<Rightarrow> bool res" where
  "Jedec_WillAcceptTransaction C js a w =
     res_bind (GetChannel C a) (\<lambda>ch. res_bind (vgeti (ctrls js) ch) (\<lambda>ct.
     Inr (ct_WillAcceptTransaction C ct w)))"

definition Jedec_AddTransaction :: "Config \<Rightarrow> JedecDRAMSystem \<Rightarrow> u64 \<Rightarrow> bool \<Rightarrow> JedecDRAMSystem res" where
  "Jedec_AddTransaction C js a w =
     res_bind (GetChannel C a) (\<lambda>ch. res_bind (vgeti (ctrls js) ch) (\<lambda>ct.
     if \<not> ct_WillAcceptTransaction C ct w then Inl AssertFail
     else Inr (js\<lparr>ctrls := (ctrls js)[nat ch := ct_AddTransaction (DTransaction_new a w) ct],
                  last_req_clk := js_clk js\<rparr>)))"

lemma ReturnDoneTrans_shrinks:
  "ReturnDoneTrans clk ct = (Some e, ct') \<Longrightarrow> length (return_queue ct') < length (return_queue ct)"
  by (auto simp: ReturnDoneTrans_def dest: take_done_mset split: option.splits)

text \<open>The loop that returns everything a channel has completed.\<close>

function drain_done :: "u64 \<Rightarrow> DController \<Rightarrow> (u64 \<times> bool) list \<times> DController" where
  "drain_done clk ct = (case ReturnDoneTrans clk ct of
     (None, ct') \<Rightarrow> ([], ct')
   | (Some e, ct') \<Rightarrow> (case drain_done clk ct' of (es, ct2) \<Rightarrow> (e # es, ct2)))"
  by pat_completeness auto
termination
  by (relation "measure (\<lambda>(_, ct). length (return_queue ct))") (auto dest!: sym [of "(Some _, _)"] ReturnDoneTrans_shrinks)

declare drain_done.simps [simp del]

fun drain_all :: "u64 \<Rightarrow> DController list \<Rightarrow> (u64 \<times> bool) list \<times> DController list" where
  "drain_all clk [] = ([], [])"
| "drain_all clk (ct # cts) = (case drain_done clk ct of (es, ct') \<Rightarrow>
     case drain_all clk cts of (fs, cts') \<Rightarrow> (es @ fs, ct' # cts'))"

fun res_map :: "('a \<Rightarrow> 'b res) \<Rightarrow> 'a list \<Rightarrow> 'b list res" where
  "res_map f [] = Inr []"
| "res_map f (x # xs) = res_bind (f x) (\<lambda>y. res_bind (res_map f xs) (\<lambda>ys. Inr (y # ys)))"

definition Jedec_ClockTick :: "Config \<Rightarrow> JedecDRAMSystem \<Rightarrow> (JedecDRAMSystem \<times> (u64 \<times> bool) list) res" where
  "Jedec_ClockTick C js =
     (case drain_all (js_clk js) (ctrls js) of (evs, cts) \<Rightarrow>
      res_bind (res_map (ct_ClockTick C (Timing_new C)) cts) (\<lambda>cts1.
      let clk = js_clk js + 1; period = (of_int (epoch_period C) :: u64)
      in if period = 0 then Inl DivByZero
         else res_bind (if clk mod period = 0 then res_map ct_PrintEpochStats cts1 else Inr cts1) (\<lambda>cts2.
           Inr (js\<lparr>js_clk := clk, ctrls := cts2\<rparr>, evs))))"

definition Jedec_ResetStats :: "JedecDRAMSystem \<Rightarrow> JedecDRAMSystem" where
  "Jedec_ResetStats js = js\<lparr>ctrls := map (\<lambda>ct. ct\<lparr>ct_stats := Reset (ct_stats ct)\<rparr>) (ctrls js)\<rparr>"

definition jedec_ops :: "Config \<Rightarrow> JedecDRAMSystem dram_ops" where
  "jedec_ops C = \<lparr>d_accept = Jedec_WillAcceptTransaction C, d_add = Jedec_AddTransaction C,
     d_tick = Jedec_ClockTick C\<rparr>"

section \<open>The ideal system\<close>

record IdealDRAMSystem =
  is_clk :: u64
  is_latency :: int
  infinite_buffer_q :: "DTransaction list"

definition Ideal_new :: "Config \<Rightarrow> IdealDRAMSystem" where
  "Ideal_new C = \<lparr>is_clk = 0, is_latency = ideal_memory_latency C, infinite_buffer_q = []\<rparr>"

definition Ideal_AddTransaction :: "IdealDRAMSystem \<Rightarrow> u64 \<Rightarrow> bool \<Rightarrow> IdealDRAMSystem" where
  "Ideal_AddTransaction s a w =
     s\<lparr>infinite_buffer_q := infinite_buffer_q s @ [(DTransaction_new a w)\<lparr>added_cycle := is_clk s\<rparr>]\<rparr>"

text \<open>After a completed transaction is erased the loop steps over the one that follows it.\<close>

fun ideal_loop :: "u64 \<Rightarrow> u64 \<Rightarrow> DTransaction list \<Rightarrow> (u64 \<times> bool) list \<times> DTransaction list" where
  "ideal_loop clk lat [] = ([], [])"
| "ideal_loop clk lat (t # ts) =
     (if lat \<le> clk - added_cycle t then
        (case ts of [] \<Rightarrow> ([tr_req t], [])
         | u # us \<Rightarrow> (case ideal_loop clk lat us of (es, r) \<Rightarrow> (tr_req t # es, u # r)))
      else (case ideal_loop clk lat ts of (es, r) \<Rightarrow> (es, t # r)))"

definition Ideal_ClockTick :: "IdealDRAMSystem \<Rightarrow> IdealDRAMSystem \<times> (u64 \<times> bool) list" where
  "Ideal_ClockTick s = (case ideal_loop (is_clk s) (of_int (is_latency s)) (infinite_buffer_q s) of (es, q) \<Rightarrow>
     (s\<lparr>infinite_buffer_q := q, is_clk := is_clk s + 1\<rparr>, es))"

definition ideal_ops :: "IdealDRAMSystem dram_ops" where
  "ideal_ops = \<lparr>d_accept = (\<lambda>_ _ _. Inr True), d_add = (\<lambda>s a w. Inr (Ideal_AddTransaction s a w)),
     d_tick = (\<lambda>s. Inr (Ideal_ClockTick s))\<rparr>"

section \<open>The ideal system provides the contract\<close>

definition ideal_pending :: "IdealDRAMSystem \<Rightarrow> (u64 \<times> bool) multiset" where
  "ideal_pending s = mset (map tr_req (infinite_buffer_q s))"

lemma ideal_loop_mset:
  "ideal_loop clk lat ts = (es, r) \<Longrightarrow> mset (map tr_req ts) = mset (map tr_req r) + mset es"
proof (induction clk lat ts arbitrary: es r rule: ideal_loop.induct)
  case (1 clk lat)
  then show ?case by simp
next
  case (2 clk lat t ts)
  then show ?case by (auto split: if_splits list.splits prod.splits)
qed

interpretation ideal: dram_contract ideal_ops ideal_pending "\<lambda>_. True"
proof (unfold_locales, goal_cases)
  case 1
  then show ?case by (auto simp: ideal_ops_def)
next
  case 2
  then show ?case
    by (simp add: ideal_ops_def Ideal_AddTransaction_def ideal_pending_def tr_req_def DTransaction_new_def)
next
  case (3 d)
  obtain es q where e: "ideal_loop (is_clk d) (of_int (is_latency d)) (infinite_buffer_q d) = (es, q)" by force
  from ideal_loop_mset [OF e] show ?case
    by (simp add: ideal_ops_def Ideal_ClockTick_def e ideal_pending_def)
qed

section \<open>The JEDEC system provides the contract\<close>

definition jedec_cfg :: "Config \<Rightarrow> bool" where
  "jedec_cfg C \<longleftrightarrow> ctrl_cfg C \<and> (of_int (epoch_period C) :: u64) \<noteq> 0"

definition js_inv :: "Config \<Rightarrow> JedecDRAMSystem \<Rightarrow> bool" where
  "js_inv C js \<longleftrightarrow> jedec_cfg C \<and> length (ctrls js) = nat (channels C) \<and> (\<forall>ct \<in> set (ctrls js). ct_inv C ct)"

definition js_pending :: "JedecDRAMSystem \<Rightarrow> (u64 \<times> bool) multiset" where
  "js_pending js = (\<Sum>ct\<leftarrow>ctrls js. ct_pending ct)"

lemma GetChannel_ok:
  assumes "ctrl_cfg C"
  shows "\<exists>ch. GetChannel C a = Inr ch \<and> 0 \<le> ch \<and> ch < channels C"
proof -
  obtain ad where ad: "AddressMapping C a = Inr ad" "in_device C ad" using assms unfolding ctrl_cfg_def by blast
  then have "GetChannel C a = Inr (ad_channel ad)"
    by (auto simp: AddressMapping_def GetChannel_def simp del: drop_bit_drop_bit)
  with ad(2) show ?thesis by (auto simp: in_device_def)
qed

lemma drain_done_ok:
  "drain_done clk ct = (es, ct') \<Longrightarrow> ct_inv C ct \<Longrightarrow> ct_inv C ct' \<and> ct_pending ct = ct_pending ct' + mset es"
proof (induction clk ct arbitrary: es ct' rule: drain_done.induct)
  case (1 clk ct)
  obtain e ct1 where r: "ReturnDoneTrans clk ct = (e, ct1)" by force
  note ok = Return_ok [OF 1(3) r]
  show ?case
  proof (cases e)
    case None
    with 1(2) r ok show ?thesis by (simp add: drain_done.simps [of clk ct])
  next
    case (Some x)
    obtain fs ct2 where d: "drain_done clk ct1 = (fs, ct2)" by force
    with 1(2) r Some have "es = x # fs" "ct' = ct2" by (simp_all add: drain_done.simps [of clk ct])
    with 1(1) [OF r [symmetric] Some d ok(1)] ok(2) Some show ?thesis by simp
  qed
qed

lemma drain_all_ok:
  "drain_all clk cts = (es, cts') \<Longrightarrow> \<forall>ct \<in> set cts. ct_inv C ct \<Longrightarrow>
   length cts' = length cts \<and> (\<forall>ct \<in> set cts'. ct_inv C ct) \<and>
   (\<Sum>ct\<leftarrow>cts. ct_pending ct) = (\<Sum>ct\<leftarrow>cts'. ct_pending ct) + mset es"
proof (induction cts arbitrary: es cts')
  case Nil
  then show ?case by simp
next
  case (Cons ct cts)
  obtain e1 ct1 where d: "drain_done clk ct = (e1, ct1)" by force
  obtain e2 cts1 where a: "drain_all clk cts = (e2, cts1)" by force
  from drain_done_ok [OF d, of C] Cons.IH [OF a] Cons.prems d a show ?case by (auto simp: ac_simps)
qed

lemma res_map_ok:
  assumes "\<forall>ct \<in> set cts. ct_inv C ct"
    and "\<And>ct. ct_inv C ct \<Longrightarrow> \<exists>ct'. f ct = Inr ct' \<and> ct_inv C ct' \<and> ct_pending ct' = ct_pending ct"
  shows "\<exists>cts'. res_map f cts = Inr cts' \<and> length cts' = length cts \<and> (\<forall>ct \<in> set cts'. ct_inv C ct) \<and>
    (\<Sum>ct\<leftarrow>cts'. ct_pending ct) = (\<Sum>ct\<leftarrow>cts. ct_pending ct)"
  using assms(1)
proof (induction cts)
  case Nil
  then show ?case by simp
next
  case (Cons ct cts)
  from assms(2) [of ct] Cons.prems obtain ct' where ct': "f ct = Inr ct'" "ct_inv C ct'" "ct_pending ct' = ct_pending ct" by auto
  from Cons obtain cts' where "res_map f cts = Inr cts'" "length cts' = length cts" "\<forall>ct \<in> set cts'. ct_inv C ct"
    "(\<Sum>ct\<leftarrow>cts'. ct_pending ct) = (\<Sum>ct\<leftarrow>cts. ct_pending ct)" by auto
  with ct' show ?case by simp
qed

lemma sum_pending_update:
  "i < length cts \<Longrightarrow> ct_pending ct' = add_mset x (ct_pending (cts ! i)) \<Longrightarrow>
   (\<Sum>ct\<leftarrow>cts[i := ct']. ct_pending ct) = add_mset x (\<Sum>ct\<leftarrow>cts. ct_pending ct)"
proof (induction cts arbitrary: i)
  case Nil
  then show ?case by simp
next
  case (Cons c cts)
  then show ?case by (cases i) auto
qed

interpretation jedec: dram_contract "jedec_ops C" js_pending "js_inv C" for C
proof (unfold_locales, goal_cases)
  case (1 d a w)
  then have cfg: "ctrl_cfg C" by (simp add: js_inv_def jedec_cfg_def)
  from GetChannel_ok [OF cfg, of a] obtain ch where "GetChannel C a = Inr ch" "0 \<le> ch" "ch < channels C" by blast
  with 1 show ?case by (simp add: jedec_ops_def Jedec_WillAcceptTransaction_def js_inv_def)
next
  case (2 d a w)
  then have cfg: "ctrl_cfg C" by (simp add: js_inv_def jedec_cfg_def)
  from GetChannel_ok [OF cfg, of a] obtain ch where ch: "GetChannel C a = Inr ch" "0 \<le> ch" "ch < channels C" by blast
  let ?ct = "ctrls d ! nat ch"
  have n: "nat ch < length (ctrls d)" using 2(1) ch by (simp add: js_inv_def)
  then have ok: "ct_inv C ?ct" using 2(1) by (simp add: js_inv_def)
  have "ct_WillAcceptTransaction C ?ct w" using 2(2) ch n by (simp add: jedec_ops_def Jedec_WillAcceptTransaction_def)
  then have e: "d_add (jedec_ops C) d a w =
      Inr (d\<lparr>ctrls := (ctrls d)[nat ch := ct_AddTransaction (DTransaction_new a w) ?ct], last_req_clk := js_clk d\<rparr>)"
    using ch n by (simp add: jedec_ops_def Jedec_AddTransaction_def)
  note add = ct_Add_ok [OF ok, of "DTransaction_new a w" a w]
  show ?case unfolding e using 2(1) add n sum_pending_update [OF n]
    by (auto simp: js_inv_def js_pending_def DTransaction_new_def dest!: set_update_subset_insert [THEN subsetD])
next
  case (3 d)
  then have cfg: "ctrl_cfg C" "(of_int (epoch_period C) :: u64) \<noteq> 0" by (simp_all add: js_inv_def jedec_cfg_def)
  obtain es cts where a: "drain_all (js_clk d) (ctrls d) = (es, cts)" by force
  from drain_all_ok [OF a] 3 have d1: "length cts = nat (channels C)" "\<forall>ct \<in> set cts. ct_inv C ct"
    "js_pending d = (\<Sum>ct\<leftarrow>cts. ct_pending ct) + mset es" by (auto simp: js_inv_def js_pending_def)
  from res_map_ok [OF d1(2) ct_tick_ok [OF cfg(1), where T = "Timing_new C"]] obtain cts1 where
    d2: "res_map (ct_ClockTick C (Timing_new C)) cts = Inr cts1" "length cts1 = length cts" "\<forall>ct \<in> set cts1. ct_inv C ct"
      "(\<Sum>ct\<leftarrow>cts1. ct_pending ct) = (\<Sum>ct\<leftarrow>cts. ct_pending ct)" by blast
  from res_map_ok [OF d2(3) ct_epoch_ok] obtain cts2 where
    d3: "res_map ct_PrintEpochStats cts1 = Inr cts2" "length cts2 = length cts1" "\<forall>ct \<in> set cts2. ct_inv C ct"
      "(\<Sum>ct\<leftarrow>cts2. ct_pending ct) = (\<Sum>ct\<leftarrow>cts1. ct_pending ct)" by blast
  let ?clk = "js_clk d + 1"
  have e: "d_tick (jedec_ops C) d = Inr (d\<lparr>js_clk := ?clk,
      ctrls := (if ?clk mod of_int (epoch_period C) = 0 then cts2 else cts1)\<rparr>, es)"
    using a d2(1) d3(1) cfg(2) by (simp add: jedec_ops_def Jedec_ClockTick_def Let_def)
  show ?case unfolding e using 3 d1 d2 d3 by (auto simp: js_inv_def js_pending_def)
qed

section \<open>Systems built from a configuration file\<close>

definition refresh_period :: "Config \<Rightarrow> int" where
  "refresh_period C = (case refresh_policy C of RANK_LEVEL_SIMULTANEOUS \<Rightarrow> tREFI C
     | BANK_LEVEL_STAGGERED \<Rightarrow> tREFIb C | _ \<Rightarrow> tREFI C sdiv ranks C)"

text \<open>
  What a configuration file has to satisfy beyond constructing: positive counts, an address mapping
  that fits in 64 bits, a known queue structure, non-negative queue sizes, periods that are not zero
  and no self refresh.
\<close>

definition device_file_ok :: "Config \<Rightarrow> bool" where
  "device_file_ok C \<longleftrightarrow> 1 \<le> channels C \<and> 1 \<le> ranks C \<and> 1 \<le> bankgroups C \<and> 1 \<le> banks_per_group C \<and> 1 \<le> rows C \<and>
     shift_bits C < 64 \<and> line_bits C < 64 \<and> \<not> enable_self_refresh C \<and> 0 \<le> cmd_queue_size C \<and>
     (queue_structure C = ''PER_BANK'' \<or> queue_structure C = ''PER_RANK'') \<and> 0 \<le> trans_queue_size C \<and>
     (of_int (epoch_period C) :: u64) \<noteq> 0 \<and> (of_int (refresh_period C) :: u64) \<noteq> 0"

definition file_ok :: "Config \<Rightarrow> bool" where
  "file_ok C \<longleftrightarrow> device_file_ok C \<and> \<not> IsHMC C"

lemma Config_new_frame:
  assumes "Config_new R c0 = Inr C"
  shows "banks C = bankgroups C * banks_per_group C" and "refresh_policy C \<noteq> POLICY_SIZE"
proof -
  from assms obtain c1 c2 c3 c4 where c: "InitSystemParams R c0 = Inr c1" "InitDRAMParams R c1 = Inr c2"
    "CalculateSize c2 = Inr c3" "SetAddressMapping c3 = Inr c4" "C = InitOtherParams R (InitTimingParams R c4)"
    by (auto simp: Config_new_def split: if_splits)
  have 1: "refresh_policy c1 \<noteq> POLICY_SIZE"
    using c(1) by (auto simp: InitSystemParams_def Let_def split: if_splits)
  have 2: "banks c2 = bankgroups c2 * banks_per_group c2 \<and> refresh_policy c2 = refresh_policy c1"
    using c(2) unfolding InitDRAMParams_def Let_def by (clarsimp simp: case_prod_beta)
  have 3: "banks c3 = banks c2 \<and> bankgroups c3 = bankgroups c2 \<and> banks_per_group c3 = banks_per_group c2 \<and>
      refresh_policy c3 = refresh_policy c2"
    using c(3) by (auto simp: CalculateSize_def Let_def split: if_splits)
  have 4: "banks c4 = banks c3 \<and> bankgroups c4 = bankgroups c3 \<and> banks_per_group c4 = banks_per_group c3 \<and>
      refresh_policy c4 = refresh_policy c3"
    using c(4) by (auto simp: SetAddressMapping_def Let_def split: if_splits)
  from 1 2 3 4 show "banks C = bankgroups C * banks_per_group C" "refresh_policy C \<noteq> POLICY_SIZE"
    by (simp_all add: c(5) InitOtherParams_def InitTimingParams_def Let_def)
qed

lemma jedec_cfg_file:
  assumes "Config_new R c0 = Inr C" and "device_file_ok C"
  shows "jedec_cfg C"
proof -
  note ok = Config_new_mapping [OF assms(1)] and f = assms(2) [unfolded device_file_ok_def]
  have "\<exists>ad. AddressMapping C a = Inr ad \<and> in_device C ad" for a
    using AddressMapping_total [OF ok, of a] AddressMapping_in_device_at [OF _ ok, of a] f by blast
  with Config_new_frame [OF assms(1)] f show ?thesis
    by (simp add: jedec_cfg_def ctrl_cfg_def device_ok_def)
qed

lemma DController_new_ok:
  assumes "device_ok C" and "refresh_policy C \<noteq> POLICY_SIZE" and "device_file_ok C"
  shows "\<exists>ct. DController_new C i = Inr ct \<and> ct_inv C ct \<and> ct_pending ct = {#}"
proof -
  note f = assms(3) [unfolded device_file_ok_def]
  from CommandQueue_new_ok [OF assms(1)] f obtain q where
    q: "CommandQueue_new C = Inr q" "q_ok C q" "queued q = {#}" "q_clk q = 0" by blast
  have "\<exists>g. Refresh_new C = Inr g \<and> refresh_ok C g"
    using assms(1,2) f by (cases "refresh_policy C")
      (auto simp: Refresh_new_def refresh_ok_def in_banks_def device_ok_def refresh_period_def cdiv_def)
  then obtain g where g: "Refresh_new C = Inr g" "refresh_ok C g" by blast
  show ?thesis using q g f ChannelState_new_ok [of C] SimpleStats_new_ok [of C]
    by (simp add: DController_new_def ct_inv_def reqs_ok_def pend_ok_def reqs_def transq_def ct_pending_def)
qed

text \<open>The loop of the constructors that builds one controller per channel.\<close>

lemma controllers_new_ok:
  assumes "Config_new R c0 = Inr C" and "device_file_ok C"
  shows "\<exists>cts. res_fold (\<lambda>i cts. res_bind (DController_new C i) (\<lambda>ct. Inr (cts @ [ct]))) (iota (channels C)) [] = Inr cts \<and>
    length cts = nat (channels C) \<and> (\<forall>ct \<in> set cts. ct_inv C ct) \<and> (\<Sum>ct\<leftarrow>cts. ct_pending ct) = {#}"
proof -
  note cfg = jedec_cfg_file [OF assms]
  have dev: "device_ok C" "refresh_policy C \<noteq> POLICY_SIZE" using cfg by (auto simp: jedec_cfg_def ctrl_cfg_def)
  let ?F = "\<lambda>i cts. res_bind (DController_new C i) (\<lambda>ct. Inr (cts @ [ct]))"
  have "\<exists>r. res_fold ?F is cts = Inr (cts @ r) \<and> length r = length is \<and> (\<forall>ct \<in> set r. ct_inv C ct) \<and> (\<Sum>ct\<leftarrow>r. ct_pending ct) = {#}"
    for "is" cts
  proof (induction "is" arbitrary: cts)
    case (Cons i "is")
    from DController_new_ok [OF dev assms(2), of i] obtain ct where
      ct: "DController_new C i = Inr ct" "ct_inv C ct" "ct_pending ct = {#}" by blast
    from Cons.IH [of "cts @ [ct]"] obtain r where "res_fold ?F is (cts @ [ct]) = Inr (cts @ [ct] @ r)"
      "length r = length is" "\<forall>ct \<in> set r. ct_inv C ct" "(\<Sum>ct\<leftarrow>r. ct_pending ct) = {#}" by auto
    with ct show ?case by (intro exI [of _ "ct # r"]) simp
  qed simp
  from this [of "iota (channels C)" "[]"] show ?thesis by (simp add: iota_def)
qed

lemma Jedec_new_ok:
  assumes "Config_new R c0 = Inr C" and "file_ok C"
  shows "\<exists>js. Jedec_new C = Inr js \<and> js_inv C js \<and> js_pending js = {#}"
proof -
  have f: "device_file_ok C" "\<not> IsHMC C" "0 \<le> channels C" using assms(2) by (simp_all add: file_ok_def device_file_ok_def)
  from controllers_new_ok [OF assms(1) f(1)] jedec_cfg_file [OF assms(1) f(1)] f(2,3) show ?thesis
    by (auto simp: Jedec_new_def js_inv_def js_pending_def)
qed

lemma file_ok_default: "file_ok config_default"
  by code_simp

section \<open>Requests and completions\<close>

text \<open>
  A client of a memory system: it offers requests, which are added if they are accepted and dropped
  otherwise, and clocks the memory, in any order. The result lists the accepted and the completed ones.
\<close>

datatype dram_op = Request u64 bool | Tick

fun serve :: "'d dram_ops \<Rightarrow> dram_op list \<Rightarrow> 'd \<Rightarrow> ('d \<times> (u64 \<times> bool) list \<times> (u64 \<times> bool) list) res" where
  "serve D [] d = Inr (d, [], [])"
| "serve D (Request a w # os) d = res_bind (d_accept D d a w) (\<lambda>ok.
     if ok then res_bind (d_add D d a w) (\<lambda>d1. res_bind (serve D os d1) (\<lambda>(d', acc, ret). Inr (d', (a, w) # acc, ret)))
     else serve D os d)"
| "serve D (Tick # os) d = res_bind (d_tick D d) (\<lambda>(d1, evs).
     res_bind (serve D os d1) (\<lambda>(d', acc, ret). Inr (d', acc, evs @ ret)))"

context dram_contract
begin

lemma serve_spec:
  assumes "inv d"
  shows "\<exists>d' acc ret. serve D os d = Inr (d', acc, ret) \<and> inv d' \<and> pending d + mset acc = pending d' + mset ret"
  using assms
proof (induction os arbitrary: d)
  case (Cons x os)
  show ?case
  proof (cases x)
    case (Request a w)
    from accept_spec [OF Cons.prems, of a w] obtain b where b: "d_accept D d a w = Inr b" by blast
    show ?thesis
    proof (cases b)
      case True
      with add_spec [OF Cons.prems, of a w] b obtain d1 where
        "d_add D d a w = Inr d1" "inv d1" "pending d1 = add_mset (a, w) (pending d)" by auto
      moreover from this(2) Cons.IH obtain d' acc ret where
        "serve D os d1 = Inr (d', acc, ret)" "inv d'" "pending d1 + mset acc = pending d' + mset ret" by blast
      ultimately show ?thesis using Request b True by simp
    qed (use Cons Request b in auto)
  next
    case Tick
    from tick_spec [OF Cons.prems] obtain d1 evs where
      d1: "d_tick D d = Inr (d1, evs)" "inv d1" "pending d = pending d1 + mset evs" by blast
    from Cons.IH [OF d1(2)] obtain d' acc ret where
      r: "serve D os d1 = Inr (d', acc, ret)" "inv d'" "pending d1 + mset acc = pending d' + mset ret" by blast
    have "pending d + mset acc = (pending d1 + mset acc) + mset evs" unfolding d1(3) by (simp add: ac_simps)
    also have "\<dots> = pending d' + mset (evs @ ret)" unfolding r(3) by (simp add: ac_simps)
    finally show ?thesis using d1(1) r(1,2) Tick by simp
  qed
qed auto

end

text \<open>
  C17. No transaction is lost, made up or completed twice. Built from an accepted configuration file, the
  JEDEC system serves every sequence of requests and clock ticks without a failure, and at any time the
  accepted requests are, as a multiset, the completed ones and those its controllers hold in their queues.
\<close>

theorem jedec_transactions:
  assumes "Config_new R c0 = Inr C" and "file_ok C"
  shows "\<exists>d d' acc ret. Jedec_new C = Inr d \<and> serve (jedec_ops C) os d = Inr (d', acc, ret) \<and>
    mset acc = js_pending d' + mset ret"
  using Jedec_new_ok [OF assms] jedec.serve_spec [of C _ os] by fastforce

theorem jedec_transactions_witness:
  "\<exists>d d' acc ret. Jedec_new config_default = Inr d \<and>
    serve (jedec_ops config_default) (Request 64 True # Request 64 False # Request 4096 False # replicate 100 Tick) d =
      Inr (d', acc, ret) \<and> mset acc = js_pending d' + mset ret"
  by (rule jedec_transactions [OF Config_default file_ok_default])

end
