(* ===== verification/Ideal_Live.thy ===== *)
theory Ideal_Live
  imports Dram_System Memory_Live
begin

text \<open>
  The ideal memory of \<open>src/DRAMsim3/src/dram_system.cc\<close> answers every transaction: although its loop steps
  over the transaction behind a completed one, that transaction has then moved up in the buffer.
\<close>

lemma ideal_loop_at:
  assumes "ideal_loop clk lat ts = (es, r)" and "i < length ts"
  shows "tr_req (ts ! i) \<in> set es \<or>
    (\<exists>j \<le> i. j < length r \<and> r ! j = ts ! i \<and> (lat \<le> clk - added_cycle (ts ! i) \<longrightarrow> j < i))"
  using assms
proof (induction clk lat ts arbitrary: es r i rule: ideal_loop.induct)
  case (2 clk lat t ts)
  show ?case
  proof (cases "lat \<le> clk - added_cycle t")
    case due: True
    show ?thesis
    proof (cases ts)
      case Nil
      with due 2(3,4) show ?thesis by auto
    next
      case (Cons u us)
      obtain es1 r1 where l: "ideal_loop clk lat us = (es1, r1)" by force
      with due Cons 2(3) have e: "es = tr_req t # es1" "r = u # r1" by simp_all
      show ?thesis
      proof (cases i)
        case (Suc k)
        show ?thesis
        proof (cases k)
          case 0
          with Suc Cons e show ?thesis by (intro disjI2 exI [of _ 0]) simp
        next
          case (Suc k')
          have "k' < length us" using 2(4) Cons Suc \<open>i = Suc k\<close> by simp
          from 2(1) [OF due Cons l this] show ?thesis
          proof
            assume "\<exists>j \<le> k'. j < length r1 \<and> r1 ! j = us ! k' \<and> (lat \<le> clk - added_cycle (us ! k') \<longrightarrow> j < k')"
            then obtain j where "j \<le> k'" "j < length r1" "r1 ! j = us ! k'" by blast
            then show ?thesis using Suc \<open>i = Suc k\<close> Cons e by (intro disjI2 exI [of _ "Suc j"]) simp
          qed (use Suc \<open>i = Suc k\<close> Cons e in simp)
        qed
      qed (use e in simp)
    qed
  next
    case False
    obtain es1 r1 where l: "ideal_loop clk lat ts = (es1, r1)" by force
    with False 2(3) have e: "es = es1" "r = t # r1" by simp_all
    show ?thesis
    proof (cases i)
      case 0
      with e False show ?thesis by (intro disjI2 exI [of _ 0]) simp
    next
      case (Suc k)
      with 2(4) have "k < length ts" by simp
      from 2(2) [OF False l this] show ?thesis
      proof
        assume "\<exists>j \<le> k. j < length r1 \<and> r1 ! j = ts ! k \<and> (lat \<le> clk - added_cycle (ts ! k) \<longrightarrow> j < k)"
        then obtain j where "j \<le> k" "j < length r1" "r1 ! j = ts ! k" "lat \<le> clk - added_cycle (ts ! k) \<longrightarrow> j < k" by blast
        then show ?thesis using Suc e by (intro disjI2 exI [of _ "Suc j"]) simp
      qed (use Suc e in simp)
    qed
  qed
qed simp

text \<open>
  The bound: position times the range of the clock, plus the ticks until the transaction is due. A due
  transaction that is stepped over has moved up, even if the 64-bit clock wraps around meanwhile.
\<close>

definition due_in :: "IdealDRAMSystem \<Rightarrow> DTransaction \<Rightarrow> nat" where
  "due_in s t = unat (of_int (is_latency s) :: u64) - unat (is_clk s - added_cycle t)"

definition ideal_at :: "IdealDRAMSystem \<Rightarrow> nat \<Rightarrow> nat" where
  "ideal_at s i = i * 2 ^ 64 + due_in s (infinite_buffer_q s ! i)"

definition ideal_wait :: "IdealDRAMSystem \<Rightarrow> u64 \<times> bool \<Rightarrow> nat" where
  "ideal_wait s t = (LEAST w. \<exists>i < length (infinite_buffer_q s). tr_req (infinite_buffer_q s ! i) = t \<and> ideal_at s i = w)"

lemma ideal_wait_ex:
  assumes "t \<in># ideal_pending s"
  shows "\<exists>i < length (infinite_buffer_q s). tr_req (infinite_buffer_q s ! i) = t \<and> ideal_at s i = ideal_wait s t"
proof -
  from assms obtain i where "i < length (infinite_buffer_q s)" "tr_req (infinite_buffer_q s ! i) = t"
    by (auto simp: ideal_pending_def in_set_conv_nth)
  then have "\<exists>w. \<exists>i < length (infinite_buffer_q s). tr_req (infinite_buffer_q s ! i) = t \<and> ideal_at s i = w" by blast
  from LeastI_ex [OF this] show ?thesis unfolding ideal_wait_def .
qed

lemma ideal_wait_le:
  assumes "i < length (infinite_buffer_q s)" and "tr_req (infinite_buffer_q s ! i) = t"
  shows "ideal_wait s t \<le> ideal_at s i"
  unfolding ideal_wait_def using assms by (intro Least_le) blast

lemma due_in_lt: "due_in s t < 2 ^ 64"
proof -
  have "unat (of_int (is_latency s) :: u64) < 2 ^ 64" using unsigned_less [of "of_int (is_latency s) :: u64", where 'a = nat] by simp
  then show ?thesis by (simp add: due_in_def)
qed

lemma due_in_tick:
  assumes "\<not> of_int (is_latency s) \<le> is_clk s - added_cycle t"
  shows "due_in (s\<lparr>infinite_buffer_q := q, is_clk := is_clk s + 1\<rparr>) t < due_in s t"
proof -
  define a :: u64 where "a = is_clk s - added_cycle t"
  define l :: u64 where "l = of_int (is_latency s)"
  have "a < l" using assms by (simp add: a_def l_def)
  then have lt: "unat a < unat l" by (simp add: word_less_nat_alt)
  have "unat l < 2 ^ 64" using unsigned_less [of l, where 'a = nat] by simp
  with lt have "unat (a + 1) = unat a + 1" by (subst unat_add_lem [THEN iffD1]) auto
  moreover have "due_in (s\<lparr>infinite_buffer_q := q, is_clk := is_clk s + 1\<rparr>) t = unat l - unat (a + 1)"
    by (simp add: due_in_def l_def a_def algebra_simps)
  moreover have "due_in s t = unat l - unat a" by (simp add: due_in_def l_def a_def)
  ultimately show ?thesis using lt by simp
qed

lemma ideal_tick_wait:
  assumes "Ideal_ClockTick s = (s', evs)" and "t \<in># ideal_pending s"
  shows "t \<in> set evs \<or> t \<in># ideal_pending s' \<and> ideal_wait s' t < ideal_wait s t"
proof -
  from ideal_wait_ex [OF assms(2)] obtain i where
    i: "i < length (infinite_buffer_q s)" "tr_req (infinite_buffer_q s ! i) = t" "ideal_at s i = ideal_wait s t" by blast
  obtain es q where l: "ideal_loop (is_clk s) (of_int (is_latency s)) (infinite_buffer_q s) = (es, q)" by force
  then have s': "s' = s\<lparr>infinite_buffer_q := q, is_clk := is_clk s + 1\<rparr>" "evs = es"
    using assms(1) by (simp_all add: Ideal_ClockTick_def)
  from ideal_loop_at [OF l i(1)] show ?thesis
  proof
    assume "\<exists>j \<le> i. j < length q \<and> q ! j = infinite_buffer_q s ! i \<and>
      (of_int (is_latency s) \<le> is_clk s - added_cycle (infinite_buffer_q s ! i) \<longrightarrow> j < i)"
    then obtain j where j: "j \<le> i" "j < length q" "q ! j = infinite_buffer_q s ! i"
      "of_int (is_latency s) \<le> is_clk s - added_cycle (infinite_buffer_q s ! i) \<longrightarrow> j < i" by blast
    let ?u = "infinite_buffer_q s ! i"
    have at: "ideal_at s' j = j * 2 ^ 64 + due_in s' ?u" using j(3) s' by (simp add: ideal_at_def)
    have "infinite_buffer_q s ! i \<in> set q" using j(2,3) by (metis nth_mem)
    then have "t \<in># ideal_pending s'" using i(2) s' by (auto simp: ideal_pending_def)
    note p = this
    have "ideal_at s' j < ideal_at s i"
    proof (cases "of_int (is_latency s) \<le> is_clk s - added_cycle ?u")
      case True
      then have "Suc j \<le> i" using j(4) by simp
      then have "Suc j * 2 ^ 64 \<le> i * 2 ^ 64" by (rule mult_le_mono1)
      with due_in_lt [of s' ?u] show ?thesis unfolding at ideal_at_def [of s i] by simp
    next
      case False
      have "j * 2 ^ 64 \<le> i * 2 ^ 64" using j(1) by (rule mult_le_mono1)
      with due_in_tick [OF False, of q] show ?thesis unfolding at ideal_at_def [of s i] by (simp add: s'(1))
    qed
    moreover have "ideal_wait s' t \<le> ideal_at s' j" using j(2,3) i(2) s' by (intro ideal_wait_le) simp_all
    ultimately show ?thesis using i(3) p by simp
  qed (simp add: i(2) s'(2))
qed

lemma ideal_add_wait:
  assumes "t \<in># ideal_pending s"
  shows "ideal_wait (Ideal_AddTransaction s a w) t \<le> ideal_wait s t"
proof -
  from ideal_wait_ex [OF assms] obtain i where
    i: "i < length (infinite_buffer_q s)" "tr_req (infinite_buffer_q s ! i) = t" "ideal_at s i = ideal_wait s t" by blast
  let ?s = "Ideal_AddTransaction s a w"
  have "infinite_buffer_q ?s ! i = infinite_buffer_q s ! i" "i < length (infinite_buffer_q ?s)" "ideal_at ?s i = ideal_at s i"
    using i(1) by (simp_all add: Ideal_AddTransaction_def ideal_at_def due_in_def nth_append)
  then show ?thesis using ideal_wait_le [of i ?s t] i(2,3) by simp
qed

interpretation ideal_live: dram_live ideal_ops ideal_pending "\<lambda>_. True" ideal_wait
proof (unfold_locales, goal_cases)
  case (1 d d' evs t)
  then show ?case using ideal_tick_wait [of d d' evs t] by (simp add: ideal_ops_def)
next
  case (2 d a w d' t)
  then show ?case using ideal_add_wait [of t d a w] by (auto simp: ideal_ops_def)
next
  case 3
  then show ?case by (simp add: ideal_ops_def)
qed

end
