(* ===== verification/Sim_Correct.thy ===== *)
theory Sim_Correct
  imports Sim_System Dram_System
begin

text \<open>
  The accelerator on top of the DRAM simulator: the theorems about the main loop, proved once inside
  the contract of the memory, on the JEDEC system of a configuration file and on the ideal memory.
\<close>

section \<open>The main loop, cycle by cycle\<close>

text \<open>The state after \<open>n\<close> iterations of the loop in \<open>GCNInference\<close>.\<close>

fun cycles :: "sim_env \<Rightarrow> 'd dram_ops \<Rightarrow> nat \<Rightarrow> 'd sim \<Rightarrow> 'd sim res" where
  "cycles G D 0 st = Inr st"
| "cycles G D (Suc n) st = res_bind (cycle_step G D st) (cycles G D n)"

definition started :: "F_MODE \<Rightarrow> 'd sim \<Rightarrow> 'd sim" where
  "started md st = st\<lparr>c_fr := ModeChange (c_fr st) md\<rparr>"

text \<open>The loop stops exactly after the first iteration that leaves no write outstanding.\<close>

lemma inference_loop_at:
  assumes "cycles G D (Suc n) st = Inr st'" and "total_write (c_mem st') = 0"
    and "\<And>m s. m < n \<Longrightarrow> cycles G D (Suc m) st = Inr s \<Longrightarrow> total_write (c_mem s) \<noteq> 0"
  shows "inference_loop G D c st = Some (Inr (c + 1 + of_nat n, st'))"
  using assms
proof (induction n arbitrary: c st)
  case 0
  then show ?case by (subst inference_loop.simps) (auto split: sum.splits)
next
  case (Suc n)
  from Suc.prems(1) obtain s1 where s1: "cycle_step G D st = Inr s1" "cycles G D (Suc n) s1 = Inr st'"
    by (cases "cycle_step G D st") auto
  have "total_write (c_mem s1) \<noteq> 0" using Suc.prems(3) [of 0 s1] s1(1) by simp
  moreover have "inference_loop G D (c + 1) s1 = Some (Inr (c + 1 + 1 + of_nat n, st'))"
  proof (rule Suc.IH [OF s1(2) Suc.prems(2)])
    fix m s assume "m < n" "cycles G D (Suc m) s1 = Inr s"
    with Suc.prems(3) [of "Suc m" s] s1(1) show "total_write (c_mem s) \<noteq> 0" by simp
  qed
  ultimately show ?case using s1(1) by (subst inference_loop.simps) (simp add: algebra_simps)
qed

text \<open>The loop ends with iteration \<open>n + 1\<close> in the state \<open>s\<close>: the first iteration that leaves no write outstanding.\<close>

definition ends_at :: "sim_env \<Rightarrow> 'd dram_ops \<Rightarrow> 'd sim \<Rightarrow> nat \<Rightarrow> 'd sim \<Rightarrow> bool" where
  "ends_at G D st n s \<longleftrightarrow> cycles G D (Suc n) st = Inr s \<and> total_write (c_mem s) = 0 \<and>
     (\<forall>m < n. \<forall>s'. cycles G D (Suc m) st = Inr s' \<longrightarrow> total_write (c_mem s') \<noteq> 0)"

text \<open>
  The outcome of the simulation in a state: every output line of every engine has been written, in
  order, and no write is queued or in the memory; every engine has passed on all edges of the folds that
  have output lines, and the signals of all lines of these edges have reached its SIMD unit.
\<close>

definition finished :: "F_MODE \<Rightarrow> sim_env \<Rightarrow> (u64 \<times> bool) multiset \<Rightarrow> 'd sim \<Rightarrow> bool" where
  "finished md G P st \<longleftrightarrow> (\<exists>trs ent out ws. linked md G st trs ent out ws \<and> all_written G st ws \<and> all_passed md G ent out) \<and>
     writes_in (on_way P (c_mem st)) = 0"

context dram_contract
begin

lemma cycles_inv:
  assumes "env_ok md G" and "inv (dram (c_mem st))" and "sys_inv md G tw (pending (dram (c_mem st))) st ws done"
  shows "\<exists>st' ws' done'. cycles G D n st = Inr st' \<and> inv (dram (c_mem st')) \<and>
    sys_inv md G tw (pending (dram (c_mem st'))) st' ws' done'"
  using assms(2,3)
proof (induction n arbitrary: st ws "done")
  case (Suc n)
  from cycle_step_inv [OF assms(1) Suc.prems(2,1)] obtain s1 ws1 d1 where
    "cycle_step G D st = Inr s1" "inv (dram (c_mem s1))" "sys_inv md G tw (pending (dram (c_mem s1))) s1 ws1 d1" by blast
  with Suc.IH [of s1 ws1 d1] show ?case by simp
qed auto

lemma cycles_ok:
  assumes env: "env_ok md G" "0 < n_of_engine (arch_info G)" "total_writes G < 2 ^ 64"
    and d: "inv d" "pending d = {#}"
  shows "\<exists>st. Controller_new G d (of_nat (total_writes G)) = Inr st \<and>
    (\<forall>n. \<exists>st'. cycles G D n (started md st) = Inr st' \<and>
       (total_write (c_mem st') = 0 \<longrightarrow> finished md G (pending (dram (c_mem st'))) st'))"
proof -
  from Controller_new_inv [OF env(1,2), of d "of_nat (total_writes G)"] obtain st where
    st: "Controller_new G d (of_nat (total_writes G)) = Inr st" "dram (c_mem st) = d"
      "sys_inv md G (of_nat (total_writes G)) {#} (started md st) (\<lambda>_. []) 0"
    by (auto simp: started_def Memory_new_def)
  have "\<exists>st'. cycles G D n (started md st) = Inr st' \<and>
       (total_write (c_mem st') = 0 \<longrightarrow> finished md G (pending (dram (c_mem st'))) st')" for n
  proof -
    from cycles_inv [OF env(1), of "started md st" "of_nat (total_writes G)"] st(2,3) d obtain st' ws k where
      s: "cycles G D n (started md st) = Inr st'" "sys_inv md G (of_nat (total_writes G)) (pending (dram (c_mem st'))) st' ws k"
      by (fastforce simp: started_def)
    have "finished md G (pending (dram (c_mem st'))) st'" if "total_write (c_mem st') = 0"
    proof -
      obtain trs ent out where L: "linked md G st' trs ent out ws" using s(2) by (auto simp: sys_inv_def)
      show ?thesis using sys_done [OF s(2) env(1) that env(3)] L written_passed [OF L env(1)] by (auto simp: finished_def)
    qed
    with s(1) show ?thesis by blast
  qed
  with st(1) show ?thesis by blast
qed

end

section \<open>The simulator on the DRAM model\<close>


lemma env_small_lines:
  assumes "c \<in> {0, 1, 2}" and "0 \<le> v" and "v < bf (arch_info env_small)"
  shows "lines_ok MAT env_small c v"
proof -
  have "v = 0 \<or> v = 1" using assms(2,3) by (auto simp: env_small_def arch_small_def)
  moreover have "list_all (\<lambda>c. lines_ok MAT env_small c 0 \<and> lines_ok MAT env_small c 1) [0, 1, 2]" by code_simp
  ultimately show ?thesis using assms(1) by auto
qed

lemma env_small_engine:
  assumes "i < engines env_small"
  shows "engine_env MAT env_small i"
proof -
  have i: "i = 0 \<or> i = 1" using assms by (auto simp: env_small_def arch_small_def)
  let ?d = "data_index env_small ! i"
  have "engine_ok env_small i"
    using i by (auto simp: engine_ok_def csr_ok_def env_small_def arch_small_def)
  moreover have "array_ok (row_addr_start ?d) (row_addr_end ?d) 1" "array_ok (col_addr_start ?d) (col_addr_end ?d) 1"
    "array_ok (value_addr_start ?d) (value_addr_end ?d) 1"
    using i by (auto simp: array_ok_def CACHE_LINE_BYTE_def env_small_def)
  moreover have "lines_for (row_ptr env_small ! i) = 1" "lines_for (col_idx env_small ! i) = 1"
    using i by (auto simp: lines_for_def env_small_def)
  moreover have "\<forall>c \<in> set (col_idx env_small ! i). \<forall>v. 0 \<le> v \<and> v < bf (arch_info env_small) \<longrightarrow> lines_ok MAT env_small c v"
    using i env_small_lines by (auto simp: env_small_def)
  moreover have "di_row ?d - zero_row ?d = int (nonzero_rows (row_ptr env_small ! i))"
    using i by (auto simp: nonzero_rows_def env_small_def upt_conv_Cons)
  ultimately show ?thesis unfolding engine_env_def Let_def by simp
qed

lemma region_chain_two:
  "region_chain st en lo hi [a, b] \<longleftrightarrow> lo \<le> st a \<and> st a \<le> en a \<and> en a \<le> hi \<and> lo \<le> st b \<and> st b \<le> en b \<and> en b \<le> hi \<and>
     en a \<le> st b"
proof -
  have "(\<forall>i j. i < j \<longrightarrow> j < length [a, b] \<longrightarrow> en ([a, b] ! i) \<le> st ([a, b] ! j)) \<longleftrightarrow> en a \<le> st b" (is "?l \<longleftrightarrow> _")
  proof
    assume ?l
    from this [rule_format, of 0 1] show "en a \<le> st b" by simp
  qed (auto simp: less_Suc_eq)
  then show ?thesis unfolding region_chain_def by auto
qed

lemma env_small_env: "env_ok MAT env_small"
proof -
  have "layout_ok env_small"
    by (simp add: layout_ok_def region_chain_two env_small_def arch_small_def)
  moreover have "addr_ok env_small" by (simp add: addr_ok_def env_small_def arch_small_def)
  moreover have "cache_ok (arch_info env_small)" "folds_ok env_small"
    by (simp_all add: cache_ok_def folds_ok_def env_small_def arch_small_def Let_def)
  ultimately show ?thesis using env_small_engine by (simp add: env_ok_def)
qed

lemma total_writes_small: "total_writes env_small = 12"
  by code_simp


end
