(* ===== verification/Prep_Text.thy ===== *)
theory Prep_Text
  imports Sim_Types Float32 Dram_Common
begin

text \<open>
  Reading the input of the simulator, \<open>src/src/preprocessor.cc\<close>: the string helpers (\<open>split\<close>, the
  number parser of the standard library), the ini table, the graph and feature files and the list of
  pinned vertices. A file is its text, or \<open>None\<close> when it cannot be opened.
\<close>

section \<open>Standard library\<close>

text \<open>\<open>std::string::find\<close>: the position of the first occurrence.\<close>

fun find_sub :: "string \<Rightarrow> string \<Rightarrow> nat option" where
  "find_sub d [] = (if d = [] then Some 0 else None)"
| "find_sub d (c # cs) = (if take (length d) (c # cs) = d then Some 0 else map_option Suc (find_sub d cs))"

text \<open>
  \<open>std::stoi\<close>: white space, an optional sign, at least one digit, anything after the digits is
  ignored; no digit throws \<open>invalid_argument\<close>, a value outside \<open>int\<close> throws \<open>out_of_range\<close>.
\<close>

definition is_space :: "char \<Rightarrow> bool" where
  "is_space c \<longleftrightarrow> c = CHR '' '' \<or> (9 \<le> (of_char c :: nat) \<and> (of_char c :: nat) \<le> 13)"

definition is_digit :: "char \<Rightarrow> bool" where
  "is_digit c \<longleftrightarrow> 48 \<le> (of_char c :: nat) \<and> (of_char c :: nat) \<le> 57"

definition digits_val :: "string \<Rightarrow> int" where
  "digits_val ds = foldl (\<lambda>a c. 10 * a + (of_char c - 48)) 0 ds"

definition stoi :: "string \<Rightarrow> int res" where
  "stoi s = (let t = dropWhile is_space s;
       neg = (t \<noteq> [] \<and> hd t = CHR ''-'');
       u = (if t \<noteq> [] \<and> (hd t = CHR ''-'' \<or> hd t = CHR ''+'') then tl t else t);
       ds = takeWhile is_digit u;
       v = (if neg then - digits_val ds else digits_val ds)
     in if ds = [] then Inl (Thrown ''stoi'')
        else if v < - (2 ^ 31) \<or> 2 ^ 31 \<le> v then Inl (Thrown ''stoi'')
        else Inr v)"

text \<open>
  A text file read line by line. \<open>read_line\<close> is one \<open>std::getline(file, line)\<close>: on a stream that has
  already hit the end, \<open>line\<close> keeps its old value.
\<close>

type_synonym text_file = "string option"

fun read_line :: "string \<times> bool \<Rightarrow> string \<Rightarrow> string \<times> string \<times> bool" where
  "read_line (rest, eof) line =
     (if eof then (line, rest, True)
      else case find_sub [CHR 0x0A] rest of None \<Rightarrow> (rest, [], True)
           | Some p \<Rightarrow> (take p rest, drop (p + 1) rest, False))"

definition lines_of :: "string \<Rightarrow> string list" where
  "lines_of s = getline_items (CHR 0x0A) [] s"

text \<open>The numbers of a line: \<open>while (getline(ss, temp, ' ')) v.push_back(stoi(temp))\<close>.\<close>

definition line_ints :: "string \<Rightarrow> int list res" where
  "line_ints line = res_fold (\<lambda>temp v. res_bind (stoi temp) (\<lambda>n. Inr (v @ [n]))) (getline_items (CHR '' '') [] line) []"

section \<open>Splitting\<close>

text \<open>\<open>split\<close>: the non-empty tokens between the delimiters.\<close>

function split_loop :: "string \<Rightarrow> string \<Rightarrow> nat \<Rightarrow> string list \<Rightarrow> string list" where
  "split_loop str delim prev tokens =
     (let pos = (case find_sub delim (drop prev str) of None \<Rightarrow> length str | Some p \<Rightarrow> prev + p);
          token = take (pos - prev) (drop prev str);
          tokens' = (if token \<noteq> [] then tokens @ [token] else tokens);
          prev' = pos + length delim
      in if pos < length str \<and> prev' < length str \<and> delim \<noteq> [] then split_loop str delim prev' tokens' else tokens')"
  by pat_completeness auto
termination
  by (relation "measure (\<lambda>(str, delim, prev, tokens). length str - prev)")
    (auto split: option.splits simp: neq_Nil_conv)

declare split_loop.simps [simp del]

definition split :: "string \<Rightarrow> string \<Rightarrow> string list" where
  "split str delim = split_loop str delim 0 []"

section \<open>The state of the preprocessor\<close>

text \<open>
  The process-wide variables the simulation reads, extended by the log and by the private members of
  \<open>Preprocessor\<close>: the feature matrix and the ini table.
\<close>

record prep = sim_env +
  log_info :: LogInfo
  xw :: "int list list"
  m_table :: "string \<rightharpoonup> string"

abbreviation upd_arch :: "(ArchInfo \<Rightarrow> ArchInfo) \<Rightarrow> prep \<Rightarrow> prep" where
  "upd_arch f p \<equiv> p\<lparr>arch_info := f (arch_info p)\<rparr>"

abbreviation upd_data :: "(DataInfo \<Rightarrow> DataInfo) \<Rightarrow> prep \<Rightarrow> prep" where
  "upd_data f p \<equiv> p\<lparr>data_info := f (data_info p)\<rparr>"

abbreviation upd_log :: "(LogInfo \<Rightarrow> LogInfo) \<Rightarrow> prep \<Rightarrow> prep" where
  "upd_log f p \<equiv> p\<lparr>log_info := f (log_info p)\<rparr>"

abbreviation n_eng :: "prep \<Rightarrow> nat" where
  "n_eng p \<equiv> nat (n_of_engine (arch_info p))"

section \<open>The ini file\<close>

text \<open>
  A line \<open>key = value\<close> or \<open>key=value\<close>. For a line without \<open>=\<close> the position is \<open>npos\<close>, the largest
  \<open>size_t\<close>: the key is the whole line, and \<open>npos + 1\<close> wraps around to zero, so the value is the whole
  line as well.
\<close>

definition ini_entry :: "string \<Rightarrow> string \<times> string" where
  "ini_entry line =
     (case find_sub '' = '' line of Some p \<Rightarrow> (take p line, drop (p + 3) line)
      | None \<Rightarrow> (case find_sub ''='' line of Some p \<Rightarrow> (take p line, drop (p + 1) line) | None \<Rightarrow> (line, line)))"

definition ReadIni :: "text_file \<Rightarrow> prep \<Rightarrow> prep res" where
  "ReadIni ini_file p = (case ini_file of None \<Rightarrow> Inl (Thrown ''Cannot open inifile'')
     | Some s \<Rightarrow> Inr (p\<lparr>m_table := fold (\<lambda>line t. case ini_entry line of (k, v) \<Rightarrow> t(k \<mapsto> v)) (lines_of s) (m_table p)\<rparr>))"

definition Contain :: "prep \<Rightarrow> string \<Rightarrow> bool" where
  "Contain p name \<longleftrightarrow> m_table p name \<noteq> None"

definition GetString :: "prep \<Rightarrow> string \<Rightarrow> string res" where
  "GetString p name = (case m_table p name of None \<Rightarrow> Inl (Thrown (name @ '' Not exist.''))
     | Some v \<Rightarrow> Inr (if CHR 0x22 \<notin> set v then v else take (length v - 2) (drop 1 v)))"

definition GetInt :: "prep \<Rightarrow> string \<Rightarrow> int res" where
  "GetInt p name = (case m_table p name of None \<Rightarrow> Inl (Thrown (name @ ''Not exist.'')) | Some v \<Rightarrow> stoi v)"

text \<open>\<open>front\<close> and \<open>back\<close> of an empty vector are undefined.\<close>

definition vfront :: "'a list \<Rightarrow> 'a res" where
  "vfront xs = (if xs = [] then Inl EmptyPop else Inr (hd xs))"

definition vback :: "'a list \<Rightarrow> 'a res" where
  "vback xs = (if xs = [] then Inl EmptyPop else Inr (last xs))"

definition parse_cache :: "prep \<Rightarrow> (int \<times> int \<times> int) res" where
  "parse_cache p =
     res_bind (GetInt p ''CacheSize'') (\<lambda>size.
     res_bind (GetString p ''UnitSize'') (\<lambda>unit.
     let cs = (if unit = ''KB'' then size * 1024 else size * (1024 * 1024)) in
     res_bind (GetInt p ''CacheWay'') (\<lambda>way.
     res_bind (cdiv cs way) (\<lambda>q. res_bind (cdiv q 64) (\<lambda>set. Inr (cs, way, set))))))"

definition parse_mem :: "string \<Rightarrow> string res" where
  "parse_mem mem = res_bind (vback (split mem ''/'')) (\<lambda>ini_name. vfront (split ini_name ''_''))"

definition ParseIni :: "prep \<Rightarrow> prep res" where
  "ParseIni p =
     res_bind (parse_cache p) (\<lambda>(cs, way, cset).
     res_bind (GetInt p ''NumberOfEngine'') (\<lambda>n.
     res_bind (GetInt p ''BF'') (\<lambda>b.
     res_bind (GetString p ''MemoryType'') (\<lambda>mem.
     res_bind (parse_mem mem) (\<lambda>mem_name.
     Inr (upd_log (\<lambda>l. l\<lparr>engine_n := n, log_mem_type := mem_name, log_cache_size := cs sdiv (1024 * 1024), log_bf := b\<rparr>)
       (upd_arch (\<lambda>a. a\<lparr>cache_size := cs, cache_way := way, cache_set := cset, n_of_engine := n, bf := b,
          d_value_addr_start := 0, mem_type := mem\<rparr>) p)))))))"

section \<open>The graph and the features\<close>

definition read_graph :: "text_file \<Rightarrow> (int list \<times> int list) res" where
  "read_graph a_file = (case a_file of None \<Rightarrow> Inl (Thrown ''Cannot open A file'')
     | Some s \<Rightarrow>
         (let (line1, st1) = read_line (s, False) []; (line2, _) = read_line st1 line1
          in res_bind (line_ints line1) (\<lambda>rp. res_bind (line_ints line2) (\<lambda>ci. Inr (rp, ci)))))"

definition read_xw :: "text_file \<Rightarrow> int list list res" where
  "read_xw xw_file = (case xw_file of None \<Rightarrow> Inl (Thrown ''Cannot open XW file'')
     | Some s \<Rightarrow> res_fold (\<lambda>line m. res_bind (line_ints line) (\<lambda>r. Inr (m @ [r]))) (lines_of s) [])"

definition ReadData :: "text_file \<Rightarrow> text_file \<Rightarrow> prep \<Rightarrow> prep res" where
  "ReadData a_file xw_file p =
     res_bind (read_graph a_file) (\<lambda>(rp, ci).
     let h = int (length rp) - 1 in
     res_bind (read_xw xw_file) (\<lambda>m.
     res_bind (vget (xw p @ m) 0) (\<lambda>row0.
     let w = int (length row0) in
     res_bind (ceil_fdiv w CACHE_LINE_COUNT) (\<lambda>tu.
     res_bind (ceil_fdiv2 w (bf (arch_info p)) CACHE_LINE_COUNT) (\<lambda>u.
     Inr (upd_log (\<lambda>l. l\<lparr>feature_length := w, log_urb := u\<rparr>)
       (upd_arch (\<lambda>a. a\<lparr>urb := u\<rparr>)
         (upd_data (\<lambda>d. d\<lparr>num_v := h, num_e := int (length ci), a_h := h, a_w := h, x_h := h,
              w_w := w, w_h := w, x_w := w, total_urb := tu\<rparr>)
           (p\<lparr>row_ptr := row_ptr p @ [rp], col_idx := col_idx p @ [ci], xw := xw p @ m\<rparr>)))))))))"

text \<open>The pinned vertices, a \<open>std::set\<close>: distinct and ordered. A missing file is ignored.\<close>

definition set_insert :: "int \<Rightarrow> int list \<Rightarrow> int list" where
  "set_insert x xs = (if x \<in> set xs then xs else insort x xs)"

definition ReadDAVC :: "string \<Rightarrow> text_file \<Rightarrow> prep \<Rightarrow> prep res" where
  "ReadDAVC path davc_file p =
     (if path = [] then Inr p
      else case davc_file of None \<Rightarrow> Inr p
      | Some s \<Rightarrow> (let (line, _) = read_line (s, False) []
          in res_bind (line_ints line) (\<lambda>vs. Inr (p\<lparr>davc_list := fold set_insert vs (davc_list p)\<rparr>))))"

end
