(* ===== verification/Prep_Graph.thy ===== *)
theory Prep_Graph
  imports Prep_Text
begin

text \<open>
  Distributing the graph, \<open>LAC\<close> and \<open>Tiling\<close> of \<open>src/src/preprocessor.cc\<close>: the rows of the adjacency
  matrix in compressed form are dealt out to the engines in chunks, and the rows of every engine are
  cut into column tiles. Both are shown to compute what they mean on the rows as lists of columns.
\<close>

section \<open>LAC\<close>

text \<open>The chunk width: \<open>-1\<close> stands for one chunk per engine, \<open>0\<close> for one chunk per engine and tile.\<close>

definition lac_width_of :: "prep \<Rightarrow> int res" where
  "lac_width_of p = (let n = n_of_engine (arch_info p) in
     res_bind (if lac_width (arch_info p) = -1 then ceil_fdiv (a_h (data_info p)) n else Inr (lac_width (arch_info p))) (\<lambda>w.
     if w = 0 then ceil_fdiv2 (a_h (data_info p)) (n_tiles (data_info p)) n else Inr w))"

definition lac_index :: "int \<Rightarrow> int \<Rightarrow> nat \<Rightarrow> int res" where
  "lac_index lw n i = res_bind (cdiv (int i) lw) (\<lambda>q. cmod q n)"

text \<open>The columns from \<open>a\<close> up to \<open>b\<close> appended to \<open>c\<close>.\<close>

definition push_cols :: "int list \<Rightarrow> int \<Rightarrow> int \<Rightarrow> int list \<Rightarrow> int list res" where
  "push_cols ci a b c = res_fold (\<lambda>j c. res_bind (vgeti ci j) (\<lambda>x. Inr (c @ [x]))) [a..b - 1] c"

definition lac_row :: "int list \<Rightarrow> int list \<Rightarrow> int \<Rightarrow> int \<Rightarrow> nat \<Rightarrow> int list list \<times> int list list \<times> int list \<Rightarrow>
    (int list list \<times> int list list \<times> int list) res" where
  "lac_row rp ci lw n i = (\<lambda>(rps, cis, acm).
     res_bind (lac_index lw n i) (\<lambda>k.
     res_bind (vget rp (i + 1)) (\<lambda>b. res_bind (vget rp i) (\<lambda>a.
     res_bind (vgeti acm k) (\<lambda>e.
     res_bind (vseti acm k (e + (b - a))) (\<lambda>acm'.
     res_bind (vgeti rps k) (\<lambda>r. res_bind (vseti rps k (r @ [e + (b - a)])) (\<lambda>rps'.
     res_bind (vgeti cis k) (\<lambda>c. res_bind (push_cols ci a b c) (\<lambda>c'. res_bind (vseti cis k c') (\<lambda>cis'.
     Inr (rps', cis', acm'))))))))))))"

fun zero_rows :: "int list \<Rightarrow> int" where
  "zero_rows (a # b # r) = (if b = a then 1 else 0) + zero_rows (b # r)"
| "zero_rows _ = 0"

text \<open>The row counts of an engine.\<close>

definition row_counts :: "int \<Rightarrow> int list \<Rightarrow> DataIndex \<Rightarrow> DataIndex" where
  "row_counts tu rp d = d\<lparr>di_row := int (length rp) - 1, zero_row := zero_rows rp,
     di_total_write := (int (length rp) - 1 - zero_rows rp) * tu\<rparr>"

definition count_rows :: "int \<Rightarrow> int list list \<Rightarrow> nat \<Rightarrow> DataIndex list \<Rightarrow> DataIndex list res" where
  "count_rows tu rps n ds = res_fold (\<lambda>i ds. res_bind (vget rps i) (\<lambda>rp. res_bind (vget ds i) (\<lambda>d.
     vset ds i (row_counts tu rp d)))) [0..<n] ds"

definition LAC :: "prep \<Rightarrow> prep res" where
  "LAC p = (let n = n_of_engine (arch_info p) in
     res_bind (lac_width_of p) (\<lambda>lw.
     res_bind (vget (row_ptr p) 0) (\<lambda>rp. res_bind (vget (col_idx p) 0) (\<lambda>ci.
     if n < 0 then Inl (Thrown ''std::bad_array_new_length'') else if rp = [] then Inl OutOfRange else
     res_bind (res_fold (lac_row rp ci lw n) [0..<length rp - 1]
        (replicate (nat n) [0], replicate (nat n) [], replicate (nat n) 0)) (\<lambda>(rps, cis, _).
     res_bind (count_rows (total_urb (data_info p)) rps (nat n) (data_index p)) (\<lambda>ds.
     Inr (upd_arch (\<lambda>a. a\<lparr>lac_width := lw\<rparr>) (p\<lparr>row_ptr := rps, col_idx := cis, data_index := ds\<rparr>))))))))"

section \<open>Tiling\<close>

text \<open>\<open>std::to_string\<close>.\<close>

fun digits_of :: "nat \<Rightarrow> string" where
  "digits_of n = (if n < 10 then [char_of (48 + n)] else digits_of (n div 10) @ [char_of (48 + n mod 10)])"

declare digits_of.simps [simp del]

definition to_string :: "int \<Rightarrow> string" where
  "to_string i = (if i < 0 then CHR ''-'' # digits_of (nat (- i)) else digits_of (nat i))"

text \<open>
  A column goes to the first tile whose bound exceeds its tile index; a column beyond the last tile is
  dropped. The bounds \<open>t_unit\<close> are \<open>1, 2, ..., n_tiles\<close>.
\<close>

definition tile_of :: "nat \<Rightarrow> int \<Rightarrow> nat option" where
  "tile_of nt t = find (\<lambda>l. t < int l + 1) [0..<nt]"

definition tile_edge :: "int \<Rightarrow> nat \<Rightarrow> int \<Rightarrow> int list \<times> int list list \<Rightarrow> (int list \<times> int list list) res" where
  "tile_edge unit_v nt c = (\<lambda>(acm, es). res_bind (cdiv c unit_v) (\<lambda>t. Inr (case tile_of nt t of None \<Rightarrow> (acm, es)
     | Some l \<Rightarrow> (acm[l := acm ! l + 1], es[l := es ! l @ [c]]))))"

definition tile_row :: "int \<Rightarrow> nat \<Rightarrow> int list \<Rightarrow> int list \<Rightarrow> nat \<Rightarrow> int list list \<times> int list list \<Rightarrow>
    (int list list \<times> int list list) res" where
  "tile_row unit_v nt rp ci j = (\<lambda>(vs, es).
     res_bind (vget rp j) (\<lambda>a. res_bind (vget rp (j + 1)) (\<lambda>b.
     res_bind (res_fold (\<lambda>k s. res_bind (vgeti ci k) (\<lambda>c. tile_edge unit_v nt c s)) [a..b - 1] (replicate nt 0, es)) (\<lambda>(acm, es').
     Inr (map2 (\<lambda>v a. v @ [a]) vs acm, es')))))"

fun scan_acm :: "int \<Rightarrow> int list \<Rightarrow> int list" where
  "scan_acm a [] = []"
| "scan_acm a (x # xs) = (a + x) # scan_acm (a + x) xs"

definition tile_engine :: "int \<Rightarrow> nat \<Rightarrow> int list \<Rightarrow> int list \<Rightarrow> (int list \<times> int list) res" where
  "tile_engine unit_v nt rp ci = (if rp = [] then Inl OutOfRange else
     res_bind (res_fold (tile_row unit_v nt rp ci) [0..<length rp - 1] (replicate nt [], replicate nt [])) (\<lambda>(vs, es).
     Inr (0 # scan_acm 0 (concat vs), concat es)))"

definition Tiling :: "prep \<Rightarrow> prep res" where
  "Tiling p = (let nt = n_tiles (data_info p); n = nat (n_of_engine (arch_info p));
       p1 = upd_log (\<lambda>l. l\<lparr>tiling_info := to_string nt\<rparr>) p in
     if nt > 1 then
       res_bind (ceil_fdiv (a_w (data_info p)) nt) (\<lambda>unit_v.
       res_bind (res_fold (\<lambda>i (rps, cis). res_bind (vget (row_ptr p) i) (\<lambda>rp. res_bind (vget (col_idx p) i) (\<lambda>ci.
           res_bind (tile_engine unit_v (nat nt) rp ci) (\<lambda>(rp', ci'). Inr (rps @ [rp'], cis @ [ci']))))) [0..<n] ([], [])) (\<lambda>(rps, cis).
       res_bind (count_rows (total_urb (data_info p)) rps n (data_index p)) (\<lambda>ds.
       Inr (p1\<lparr>row_ptr := rps, col_idx := cis, data_index := ds\<rparr>))))
     else Inr p1)"

section \<open>Compressed rows as lists of rows\<close>

text \<open>
  The meaning of a compressed graph: \<open>csr_rows\<close> are its rows as lists of columns, \<open>csr_of\<close> compresses
  a list of rows, and on well-formed arrays the two are inverse.
\<close>

definition csr_of :: "int list list \<Rightarrow> int list \<times> int list" where
  "csr_of rows = (0 # scan_acm 0 (map (\<lambda>r. int (length r)) rows), concat rows)"

definition row_of_csr :: "int list \<Rightarrow> int list \<Rightarrow> nat \<Rightarrow> int list" where
  "row_of_csr rp ci j = take (nat (rp ! (j + 1) - rp ! j)) (drop (nat (rp ! j)) ci)"

definition csr_rows :: "int list \<Rightarrow> int list \<Rightarrow> int list list" where
  "csr_rows rp ci = map (row_of_csr rp ci) [0..<length rp - 1]"

definition csr_wf :: "int list \<Rightarrow> int list \<Rightarrow> bool" where
  "csr_wf rp ci \<longleftrightarrow> rp \<noteq> [] \<and> rp ! 0 = 0 \<and> sorted rp \<and> rp ! (length rp - 1) = int (length ci)"

lemma scan_acm_snoc: "scan_acm a (xs @ [x]) = scan_acm a xs @ [a + sum_list xs + x]"
  by (induction xs arbitrary: a) auto

lemma length_scan_acm [simp]: "length (scan_acm a xs) = length xs"
  by (induction xs arbitrary: a) auto

lemma sum_lengths: "sum_list (map (\<lambda>r. int (length r)) rows) = int (length (concat rows))"
  by (induction rows) auto

lemma csr_of_Nil [simp]: "csr_of [] = ([0], [])"
  by (simp add: csr_of_def)

lemma csr_of_snoc:
  "csr_of (rows @ [r]) = (fst (csr_of rows) @ [int (length (concat rows)) + int (length r)], snd (csr_of rows) @ r)"
  by (simp add: csr_of_def scan_acm_snoc sum_lengths)

lemma snd_csr_of [simp]: "snd (csr_of rows) = concat rows"
  by (simp add: csr_of_def)

lemma csr_wf_le:
  assumes "csr_wf rp ci" and "j < length rp"
  shows "0 \<le> rp ! j" and "rp ! j \<le> int (length ci)"
  using assms sorted_nth_mono [of rp 0 j] sorted_nth_mono [of rp j "length rp - 1"]
  by (auto simp: csr_wf_def)

lemma csr_wf_of: "csr_wf (fst (csr_of rows)) (snd (csr_of rows))"
proof (induction rows rule: rev_induct)
  case (snoc r rows)
  let ?rp = "fst (csr_of rows)"
  have ne: "?rp \<noteq> []" by (simp add: csr_of_def)
  have l: "last ?rp = int (length (concat rows))"
    using snoc ne by (simp add: csr_wf_def last_conv_nth)
  have "x \<le> last ?rp" if "x \<in> set ?rp" for x
    using that csr_wf_le(2) [OF snoc] unfolding l by (auto simp: in_set_conv_nth)
  then have "sorted (?rp @ [int (length (concat rows)) + int (length r)])"
    using snoc l by (force simp: csr_wf_def sorted_append)
  with snoc ne show ?case by (simp add: csr_wf_def csr_of_snoc nth_append)
qed (simp add: csr_wf_def)

lemma csr_wf_Suc:
  assumes "csr_wf rp ci" and "Suc j < length rp"
  shows "rp ! j \<le> rp ! Suc j"
  using assms sorted_nth_mono [of rp j "Suc j"] by (auto simp: csr_wf_def)

lemma csr_of_prefix:
  assumes w: "csr_wf rp ci" and "k < length rp"
  shows "csr_of (map (row_of_csr rp ci) [0..<k]) = (take (Suc k) rp, take (nat (rp ! k)) ci)"
  using assms(2)
proof (induction k)
  case 0
  then show ?case using w by (cases rp) (auto simp: csr_wf_def)
next
  case (Suc k)
  let ?R = "map (row_of_csr rp ci) [0..<k]"
  have IH: "csr_of ?R = (take (Suc k) rp, take (nat (rp ! k)) ci)" using Suc by simp
  have b: "0 \<le> rp ! k" "rp ! k \<le> rp ! Suc k" "rp ! Suc k \<le> int (length ci)"
    using csr_wf_le [OF w] csr_wf_Suc [OF w] Suc.prems by auto
  have "concat ?R = take (nat (rp ! k)) ci" using IH snd_csr_of [of ?R] by simp
  then have c: "int (length (concat ?R)) = rp ! k" using b by simp
  have r: "int (length (row_of_csr rp ci k)) = rp ! Suc k - rp ! k" using b by (simp add: row_of_csr_def)
  have t: "take (nat (rp ! Suc k)) ci = take (nat (rp ! k)) ci @ row_of_csr rp ci k"
    using b by (simp add: row_of_csr_def take_add [symmetric] nat_add_distrib [symmetric])
  have "csr_of (map (row_of_csr rp ci) [0..<Suc k]) =
      (take (Suc k) rp @ [rp ! k + (rp ! Suc k - rp ! k)], take (nat (rp ! k)) ci @ row_of_csr rp ci k)"
    using csr_of_snoc [of ?R "row_of_csr rp ci k"] unfolding c r IH by simp
  also have "\<dots> = (take (Suc (Suc k)) rp, take (nat (rp ! Suc k)) ci)"
    using Suc.prems t by (simp add: take_Suc_conv_app_nth)
  finally show ?case .
qed

lemma csr_of_rows:
  assumes "csr_wf rp ci"
  shows "csr_of (csr_rows rp ci) = (rp, ci)"
proof -
  have "length rp - 1 < length rp" "Suc (length rp - 1) = length rp" using assms by (auto simp: csr_wf_def)
  with csr_of_prefix [OF assms, of "length rp - 1"] assms show ?thesis by (simp add: csr_rows_def csr_wf_def)
qed

lemma length_fst_csr_of [simp]: "length (fst (csr_of rows)) = Suc (length rows)"
  by (simp add: csr_of_def)

lemma csr_of_inj: "csr_of rows = csr_of rows' \<Longrightarrow> rows = rows'"
proof (induction rows arbitrary: rows' rule: rev_induct)
  case Nil
  then show ?case using length_fst_csr_of [of rows'] length_fst_csr_of [of "[]"] by (metis Suc_inject length_0_conv)
next
  case (snoc r rows)
  have l: "length rows' = Suc (length rows)"
    using snoc.prems length_fst_csr_of by (metis Suc_inject length_append_singleton)
  then obtain rs q where r': "rows' = rs @ [q]" by (metis length_Suc_conv_rev)
  have 1: "fst (csr_of rows) = fst (csr_of rs)"
    using snoc.prems l by (simp add: r' csr_of_snoc)
  have "csr_wf (fst (csr_of rows)) (concat rows)" "csr_wf (fst (csr_of rs)) (concat rs)"
    using csr_wf_of [of rows] csr_wf_of [of rs] by simp_all
  then have "length (concat rows) = length (concat rs)" using 1 by (simp add: csr_wf_def)
  then have "concat rows = concat rs" "r = q" using snoc.prems by (auto simp: r' csr_of_snoc)
  with 1 snoc.IH [of rs] show ?case by (simp add: r' prod_eq_iff)
qed

lemma csr_rows_of [simp]: "csr_rows (fst (csr_of rows)) (snd (csr_of rows)) = rows"
  by (metis csr_of_inj csr_of_rows csr_wf_of prod.collapse)

section \<open>What LAC computes\<close>

lemma res_fold_snoc: "res_fold f (xs @ [x]) s = res_bind (res_fold f xs s) (f x)"
proof -
  have "res_fold f [x] = f x"
  proof
    show "res_fold f [x] s = f x s" for s by (cases "f x s") auto
  qed
  then show ?thesis by (simp add: res_fold_append)
qed

lemma push_cols_ok:
  assumes "0 \<le> a" and "a \<le> b" and "b \<le> int (length ci)"
  shows "push_cols ci a b c = Inr (c @ take (nat (b - a)) (drop (nat a) ci))"
  using assms
proof (induction "nat (b - a)" arbitrary: b)
  case 0
  then show ?case by (simp add: push_cols_def)
next
  case (Suc m)
  then have b: "a \<le> b - 1" "m = nat (b - 1 - a)" "b - 1 \<le> int (length ci)" by auto
  from Suc.hyps(1) [OF b(2) Suc.prems(1) b(1,3)]
  have IH: "push_cols ci a (b - 1) c = Inr (c @ take (nat (b - 1 - a)) (drop (nat a) ci))" .
  have "nat (b - a) = Suc (nat (b - 1 - a))" "nat a + nat (b - 1 - a) = nat (b - 1)" "nat (b - 1) < length ci"
    using b Suc.prems by auto
  then have t: "take (nat (b - a)) (drop (nat a) ci) = take (nat (b - 1 - a)) (drop (nat a) ci) @ [ci ! nat (b - 1)]"
    by (simp add: take_Suc_conv_app_nth)
  have u: "[a..b - 1] = [a..b - 1 - 1] @ [b - 1]" using b(1) upto_rec2 [of a "b - 1"] by simp
  have "push_cols ci a b c = res_bind (push_cols ci a (b - 1) c) (\<lambda>c. res_bind (vgeti ci (b - 1)) (\<lambda>x. Inr (c @ [x])))"
    by (simp add: push_cols_def u res_fold_snoc)
  then show ?case unfolding IH t using b Suc.prems by simp
qed

text \<open>The rows of an engine: every \<open>n\<close>-th chunk of \<open>lw\<close> rows.\<close>

definition lac_engine :: "int \<Rightarrow> int \<Rightarrow> nat \<Rightarrow> nat" where
  "lac_engine lw n k = nat (int k div lw mod n)"

definition lac_rows :: "int \<Rightarrow> int \<Rightarrow> (nat \<Rightarrow> int list) \<Rightarrow> nat \<Rightarrow> nat \<Rightarrow> int list list" where
  "lac_rows lw n row m e = map row (filter (\<lambda>k. lac_engine lw n k = e) [0..<m])"

lemma lac_rows_Suc:
  "lac_rows lw n row (Suc m) e = lac_rows lw n row m e @ (if lac_engine lw n m = e then [row m] else [])"
  by (simp add: lac_rows_def)

lemma smod_nonneg: "0 \<le> (a::int) \<Longrightarrow> 0 < b \<Longrightarrow> a smod b = a mod b"
  by (auto simp: signed_modulo_int_def sgn_if)

lemma lac_index_ok: "0 < lw \<Longrightarrow> 0 < n \<Longrightarrow> lac_index lw n i = Inr (int (lac_engine lw n i))"
  by (simp add: lac_index_def lac_engine_def cdiv_def cmod_def sdiv_nonneg smod_nonneg pos_imp_zdiv_nonneg_iff)

lemma lac_engine_less: "0 < n \<Longrightarrow> lac_engine lw n i < nat n"
  by (simp add: lac_engine_def nat_less_eq_zless)

lemma map_upt_update:
  assumes "k < N" and "\<And>e. e < N \<Longrightarrow> e \<noteq> k \<Longrightarrow> g e = f e" and "g k = v"
  shows "(map f [0..<N])[k := v] = map g [0..<N]"
  using assms by (intro nth_equalityI) (auto simp: nth_list_update)

lemma lac_loop:
  assumes w: "csr_wf rp ci" and p: "0 < lw" "0 < n" and "m \<le> length rp - 1"
  defines "R \<equiv> lac_rows lw n (row_of_csr rp ci)"
  shows "res_fold (lac_row rp ci lw n) [0..<m] (replicate (nat n) [0], replicate (nat n) [], replicate (nat n) 0) =
    Inr (map (\<lambda>e. fst (csr_of (R m e))) [0..<nat n], map (\<lambda>e. concat (R m e)) [0..<nat n],
         map (\<lambda>e. int (length (concat (R m e)))) [0..<nat n])"
  using assms(4)
proof (induction m)
  case 0
  then show ?case by (simp add: R_def lac_rows_def map_replicate_const)
next
  case (Suc m)
  define k where "k = lac_engine lw n m"
  let ?r = "row_of_csr rp ci m"
  have k: "k < nat n" "lac_index lw n m = Inr (int k)"
    using lac_engine_less [OF p(2), of lw m] lac_index_ok [OF p, of m] by (auto simp: k_def)
  have b: "Suc m < length rp" "0 \<le> rp ! m" "rp ! m \<le> rp ! Suc m" "rp ! Suc m \<le> int (length ci)"
    using csr_wf_le [OF w] csr_wf_Suc [OF w] Suc.prems by auto
  have r: "int (length ?r) = rp ! Suc m - rp ! m" using b by (simp add: row_of_csr_def)
  have pc: "push_cols ci (rp ! m) (rp ! Suc m) c = Inr (c @ ?r)" for c
    using push_cols_ok [OF b(2-4)] by (simp add: row_of_csr_def)
  have S: "R (Suc m) e = R m e @ (if k = e then [?r] else [])" for e
    by (simp add: R_def lac_rows_Suc k_def)
  have 1: "(map (\<lambda>e. fst (csr_of (R m e))) [0..<nat n])[k := fst (csr_of (R m k)) @ [int (length (concat (R m k))) + int (length ?r)]] =
      map (\<lambda>e. fst (csr_of (R (Suc m) e))) [0..<nat n]"
    by (rule map_upt_update [OF k(1)]) (simp_all add: S csr_of_snoc)
  have 2: "(map (\<lambda>e. concat (R m e)) [0..<nat n])[k := concat (R m k) @ ?r] = map (\<lambda>e. concat (R (Suc m) e)) [0..<nat n]"
    by (rule map_upt_update [OF k(1)]) (simp_all add: S)
  have 3: "(map (\<lambda>e. int (length (concat (R m e)))) [0..<nat n])[k := int (length (concat (R m k))) + int (length ?r)] =
      map (\<lambda>e. int (length (concat (R (Suc m) e)))) [0..<nat n]"
    by (rule map_upt_update [OF k(1)]) (simp_all add: S)
  have "lac_row rp ci lw n m (map (\<lambda>e. fst (csr_of (R m e))) [0..<nat n], map (\<lambda>e. concat (R m e)) [0..<nat n],
      map (\<lambda>e. int (length (concat (R m e)))) [0..<nat n]) =
    Inr (map (\<lambda>e. fst (csr_of (R (Suc m) e))) [0..<nat n], map (\<lambda>e. concat (R (Suc m) e)) [0..<nat n],
      map (\<lambda>e. int (length (concat (R (Suc m) e)))) [0..<nat n])"
    using k b(1) unfolding 1 [symmetric] 2 [symmetric] 3 [symmetric] r by (simp add: lac_row_def pc)
  with Suc show ?case by (simp add: res_fold_append)
qed

lemma count_rows_ok:
  assumes "length rps = n" and "length ds = n"
  shows "count_rows tu rps n ds = Inr (map2 (row_counts tu) rps ds)"
proof -
  have "res_fold (\<lambda>i ds. res_bind (vget rps i) (\<lambda>rp. res_bind (vget ds i) (\<lambda>d. vset ds i (row_counts tu rp d)))) [0..<k] ds =
      Inr (map2 (row_counts tu) (take k rps) (take k ds) @ drop k ds)" if "k \<le> n" for k
    using that
  proof (induction k)
    case (Suc k)
    then have k: "k < length rps" "k < length ds" using assms by auto
    have "(map2 (row_counts tu) (take k rps) (take k ds) @ drop k ds) ! k = ds ! k"
      "(map2 (row_counts tu) (take k rps) (take k ds) @ drop k ds)[k := v] =
         map2 (row_counts tu) (take k rps) (take k ds) @ v # drop (Suc k) ds" for v
      using k by (auto simp: nth_append list_update_append Cons_nth_drop_Suc [symmetric])
    moreover have "map2 (row_counts tu) (take (Suc k) rps) (take (Suc k) ds) =
        map2 (row_counts tu) (take k rps) (take k ds) @ [row_counts tu (rps ! k) (ds ! k)]"
      using k by (simp add: take_Suc_conv_app_nth)
    ultimately show ?case using Suc k by (simp add: res_fold_append)
  qed simp
  from this [of n] assms show ?thesis by (simp add: count_rows_def)
qed

text \<open>What \<open>LAC\<close> leaves behind, engine by engine.\<close>

lemma LAC_ok:
  assumes g: "row_ptr p = [rp]" "col_idx p = [ci]" "csr_wf rp ci" and n: "0 < n_of_engine (arch_info p)"
    and lw: "lac_width_of p = Inr lw" "0 < lw" and ds: "length (data_index p) = n_eng p"
  defines "R \<equiv> lac_rows lw (n_of_engine (arch_info p)) (row_of_csr rp ci) (length rp - 1)"
  shows "LAC p = Inr (upd_arch (\<lambda>a. a\<lparr>lac_width := lw\<rparr>) (p\<lparr>row_ptr := map (\<lambda>e. fst (csr_of (R e))) [0..<n_eng p],
      col_idx := map (\<lambda>e. snd (csr_of (R e))) [0..<n_eng p],
      data_index := map2 (row_counts (total_urb (data_info p))) (map (\<lambda>e. fst (csr_of (R e))) [0..<n_eng p]) (data_index p)\<rparr>))"
proof -
  have "rp \<noteq> []" using g(3) by (simp add: csr_wf_def)
  with lac_loop [OF g(3) lw(2) n, of "length rp - 1"] count_rows_ok [of _ "n_eng p" "data_index p"] ds n g(1,2) lw(1)
  show ?thesis by (simp add: LAC_def R_def Let_def)
qed

section \<open>What Tiling computes\<close>

definition tile_filter :: "int \<Rightarrow> nat \<Rightarrow> int list \<Rightarrow> int list" where
  "tile_filter uv l r = filter (\<lambda>c. nat (c div uv) = l) r"

lemma find_upt_less:
  assumes "t < n"
  shows "find (\<lambda>l. int t < int l + 1) [0..<n] = Some t"
  using assms by (auto simp: find_Some_iff intro!: exI [of _ t])

lemma tile_of_ok:
  assumes "0 < uv" and "0 \<le> c" and "c < uv * int nt"
  shows "tile_of nt (c sdiv uv) = Some (nat (c div uv)) \<and> nat (c div uv) < nt"
proof -
  have "uv * (c div uv) \<le> c" using assms(1) pos_mod_sign [of uv c] mult_div_mod_eq [of uv c] by linarith
  then have "uv * (c div uv) < uv * int nt" using assms(3) by linarith
  then have "c div uv < int nt" using assms(1) by simp
  moreover have "0 \<le> c div uv" using assms by (simp add: pos_imp_zdiv_nonneg_iff)
  ultimately have q: "nat (c div uv) < nt" "int (nat (c div uv)) = c div uv" by auto
  then show ?thesis
    using find_upt_less [of "nat (c div uv)" nt] assms by (simp add: tile_of_def sdiv_nonneg)
qed

lemma map_upt_add:
  assumes "k < N"
  shows "(map f [0..<N])[k := v] = map (f(k := v)) [0..<N]"
  using assms by (intro nth_equalityI) (auto simp: nth_list_update)

lemma tile_edges_ok:
  assumes "0 < uv" and "\<forall>c \<in> set cs. 0 \<le> c \<and> c < uv * int nt"
  shows "res_fold (tile_edge uv nt) cs (map A [0..<nt], map E [0..<nt]) =
    Inr (map (\<lambda>l. A l + int (length (tile_filter uv l cs))) [0..<nt], map (\<lambda>l. E l @ tile_filter uv l cs) [0..<nt])"
  using assms(2)
proof (induction cs arbitrary: A E)
  case Nil
  then show ?case by (simp add: tile_filter_def)
next
  case (Cons c cs)
  let ?l = "nat (c div uv)"
  have t: "tile_of nt (c sdiv uv) = Some ?l" "?l < nt" using tile_of_ok [OF assms(1)] Cons.prems by auto
  have "tile_edge uv nt c (map A [0..<nt], map E [0..<nt]) =
      Inr (map (A(?l := A ?l + 1)) [0..<nt], map (E(?l := E ?l @ [c])) [0..<nt])"
    using t assms(1) by (simp add: tile_edge_def cdiv_def map_upt_add)
  moreover have "(A(?l := A ?l + 1)) l + int (length (tile_filter uv l cs)) = A l + int (length (tile_filter uv l (c # cs)))"
    "(E(?l := E ?l @ [c])) l @ tile_filter uv l cs = E l @ tile_filter uv l (c # cs)" for l
    by (auto simp: tile_filter_def)
  ultimately show ?case using Cons.IH [of "A(?l := A ?l + 1)" "E(?l := E ?l @ [c])"] Cons.prems
    by (simp del: fun_upd_apply)
qed

lemma res_fold_vgeti:
  assumes "0 \<le> a" and "a \<le> b" and "b \<le> int (length ci)"
  shows "res_fold (\<lambda>k s. res_bind (vgeti ci k) (\<lambda>c. f c s)) [a..b - 1] s = res_fold f (take (nat (b - a)) (drop (nat a) ci)) s"
  using assms
proof (induction "nat (b - a)" arbitrary: a s)
  case 0
  then show ?case by simp
next
  case (Suc m)
  then have a: "a < b" "m = nat (b - (a + 1))" by auto
  have u: "[a..b - 1] = a # [a + 1..b - 1]" using a(1) by (simp add: upto_rec1)
  have "nat (b - a) = Suc (nat (b - (a + 1)))" "nat (a + 1) = Suc (nat a)" "nat a < length ci"
    using a(1) Suc.prems by auto
  then have t: "take (nat (b - a)) (drop (nat a) ci) = ci ! nat a # take (nat (b - (a + 1))) (drop (nat (a + 1)) ci)"
    by (simp add: Cons_nth_drop_Suc [symmetric])
  have "vgeti ci a = Inr (ci ! nat a)" using a Suc.prems by simp
  with Suc.hyps(1) [OF a(2)] Suc.prems a(1) show ?case unfolding u t by (cases "f (ci ! nat a) s") auto
qed

text \<open>The tiled rows of an engine: tile by tile, every row restricted to the columns of the tile.\<close>

definition tiled_rows :: "int \<Rightarrow> nat \<Rightarrow> int list list \<Rightarrow> int list list" where
  "tiled_rows uv nt rows = concat (map (\<lambda>l. map (tile_filter uv l) rows) [0..<nt])"

lemma tile_loop:
  assumes w: "csr_wf rp ci" and uv: "0 < uv" and c: "\<forall>c \<in> set ci. 0 \<le> c \<and> c < uv * int nt" and "m \<le> length rp - 1"
  shows "res_fold (tile_row uv nt rp ci) [0..<m] (replicate nt [], replicate nt []) =
    Inr (map (\<lambda>l. map (\<lambda>j. int (length (tile_filter uv l (row_of_csr rp ci j)))) [0..<m]) [0..<nt],
         map (\<lambda>l. concat (map (\<lambda>j. tile_filter uv l (row_of_csr rp ci j)) [0..<m])) [0..<nt])"
  using assms(4)
proof (induction m)
  case 0
  then show ?case by (simp add: map_replicate_const)
next
  case (Suc m)
  have b: "Suc m < length rp" "0 \<le> rp ! m" "rp ! m \<le> rp ! Suc m" "rp ! Suc m \<le> int (length ci)"
    using csr_wf_le [OF w] csr_wf_Suc [OF w] Suc.prems by auto
  have "\<forall>c \<in> set (row_of_csr rp ci m). 0 \<le> c \<and> c < uv * int nt"
    using c by (auto simp: row_of_csr_def dest: in_set_takeD in_set_dropD)
  from tile_edges_ok [OF uv this, of "\<lambda>_. 0"]
  have e: "res_fold (tile_edge uv nt) (row_of_csr rp ci m) (replicate nt 0, map E [0..<nt]) =
    Inr (map (\<lambda>l. int (length (tile_filter uv l (row_of_csr rp ci m)))) [0..<nt],
         map (\<lambda>l. E l @ tile_filter uv l (row_of_csr rp ci m)) [0..<nt])" for E
    by (simp add: map_replicate_const)
  have z: "map2 (\<lambda>v a. v @ [a]) (map F [0..<nt]) (map H [0..<nt]) = map (\<lambda>l. F l @ [H l]) [0..<nt]" for F :: "nat \<Rightarrow> int list" and H
    by (simp add: zip_map_map zip_same_conv_map o_def)
  from Suc show ?case
    using b e by (simp add: res_fold_snoc tile_row_def res_fold_vgeti row_of_csr_def z)
qed

lemma concat_concat_map: "concat (concat xss) = concat (map concat xss)"
  by (induction xss) auto

lemma tile_engine_ok:
  assumes w: "csr_wf rp ci" and uv: "0 < uv" and c: "\<forall>c \<in> set ci. 0 \<le> c \<and> c < uv * int nt"
  shows "tile_engine uv nt rp ci = Inr (csr_of (tiled_rows uv nt (csr_rows rp ci)))"
proof -
  have "rp \<noteq> []" using w by (simp add: csr_wf_def)
  with tile_loop [OF assms, of "length rp - 1"] show ?thesis
    by (simp add: tile_engine_def csr_of_def tiled_rows_def csr_rows_def map_concat concat_concat_map o_def)
qed

lemma mset_tiles:
  assumes "\<forall>c \<in> set cs. nat (c div uv) < nt"
  shows "mset (concat (map (\<lambda>l. tile_filter uv l cs) [0..<nt])) = mset cs"
  using assms
proof (induction cs)
  case Nil
  then show ?case by (simp add: tile_filter_def concat_replicate_trivial map_replicate_const)
next
  case (Cons c cs)
  let ?l = "nat (c div uv)"
  have "mset (concat (map (\<lambda>l. tile_filter uv l (c # cs)) ls)) =
      (if ?l \<in> set ls then {#c#} else {#}) + mset (concat (map (\<lambda>l. tile_filter uv l cs) ls))" if "distinct ls" for ls
    using that by (induction ls) (auto simp: tile_filter_def)
  from this [of "[0..<nt]"] Cons show ?case by simp
qed

lemma mset_tiled_rows:
  assumes "\<forall>r \<in> set rows. \<forall>c \<in> set r. nat (c div uv) < nt"
  shows "mset (concat (tiled_rows uv nt rows)) = mset (concat rows)"
proof -
  have "concat (tiled_rows uv nt rows) = concat (map (\<lambda>l. tile_filter uv l (concat rows)) [0..<nt])"
    by (simp add: tiled_rows_def concat_concat_map o_def tile_filter_def [abs_def] filter_concat)
  then show ?thesis using mset_tiles [of "concat rows" uv nt] assms by auto
qed

text \<open>\<open>Tiling\<close> applied to every engine, for the tile width \<open>uv\<close>.\<close>

lemma Tiling_ok:
  assumes nt: "1 < n_tiles (data_info p)" and uv: "ceil_fdiv (a_w (data_info p)) (n_tiles (data_info p)) = Inr uv" "0 < uv"
    and l: "length (row_ptr p) = n_eng p" "length (col_idx p) = n_eng p" "length (data_index p) = n_eng p"
    and e: "\<forall>e < n_eng p. csr_wf (row_ptr p ! e) (col_idx p ! e) \<and>
      (\<forall>c \<in> set (col_idx p ! e). 0 \<le> c \<and> c < uv * n_tiles (data_info p))"
  defines "R \<equiv> \<lambda>e. tiled_rows uv (nat (n_tiles (data_info p))) (csr_rows (row_ptr p ! e) (col_idx p ! e))"
  shows "Tiling p = Inr (upd_log (\<lambda>l. l\<lparr>tiling_info := to_string (n_tiles (data_info p))\<rparr>)
     (p\<lparr>row_ptr := map (\<lambda>e. fst (csr_of (R e))) [0..<n_eng p], col_idx := map (\<lambda>e. snd (csr_of (R e))) [0..<n_eng p],
        data_index := map2 (row_counts (total_urb (data_info p))) (map (\<lambda>e. fst (csr_of (R e))) [0..<n_eng p]) (data_index p)\<rparr>))"
proof -
  let ?f = "\<lambda>i (rps, cis). res_bind (vget (row_ptr p) i) (\<lambda>rp. res_bind (vget (col_idx p) i) (\<lambda>ci.
      res_bind (tile_engine uv (nat (n_tiles (data_info p))) rp ci) (\<lambda>(rp', ci'). Inr (rps @ [rp'], cis @ [ci']))))"
  have t: "tile_engine uv (nat (n_tiles (data_info p))) (row_ptr p ! i) (col_idx p ! i) = Inr (csr_of (R i))" if "i < n_eng p" for i
    using tile_engine_ok [OF _ uv(2), of "row_ptr p ! i" "col_idx p ! i" "nat (n_tiles (data_info p))"] e that nt by (simp add: R_def)
  have "res_fold ?f [0..<m] ([], []) = Inr (map (\<lambda>e. fst (csr_of (R e))) [0..<m], map (\<lambda>e. snd (csr_of (R e))) [0..<m])"
    if "m \<le> n_eng p" for m
    using that
  proof (induction m)
    case (Suc m)
    have "m < length (row_ptr p)" "m < length (col_idx p)" using Suc.prems l by auto
    with Suc t [of m] show ?case by (simp add: res_fold_snoc split_beta)
  qed simp
  from this [of "n_eng p"] count_rows_ok [of _ "n_eng p" "data_index p"] nt uv(1) l(3) show ?thesis
    by (simp add: Tiling_def Let_def)
qed

section \<open>The properties\<close>

text \<open>The rows and the empty rows of an engine are counted.\<close>

lemma zero_rows_scan: "zero_rows (a # scan_acm a (map (\<lambda>r. int (length r)) R)) = int (length (filter (\<lambda>r. r = []) R))"
  by (induction R arbitrary: a) auto

lemma row_counts_of:
  "row_counts tu (fst (csr_of R)) d = d\<lparr>di_row := int (length R), zero_row := int (length (filter (\<lambda>r. r = []) R)),
     di_total_write := int (length (filter (\<lambda>r. r \<noteq> []) R)) * tu\<rparr>"
proof -
  have "length (filter (\<lambda>r. r = []) R) + length (filter (\<lambda>r. r \<noteq> []) R) = length R" by (rule sum_length_filter_compl)
  then have "int (length R) - int (length (filter (\<lambda>r. r = []) R)) = int (length (filter (\<lambda>r. r \<noteq> []) R))" by linarith
  moreover have "length (scan_acm a xs) = length xs" for a xs by (induction xs arbitrary: a) auto
  ultimately show ?thesis by (simp add: row_counts_def csr_of_def zero_rows_scan)
qed


text \<open>
  C12. Tiling keeps the edges. With more than one tile \<open>Tiling\<close> does not fail, leaves well-formed
  compressed rows for every engine, whose rows are, tile by tile, the old rows restricted to the
  columns of the tile; the edges of the engine are the old ones, each exactly once.
\<close>

theorem tiling_keeps_edges:
  assumes "1 < n_tiles (data_info p)" and "n_tiles (data_info p) < 2 ^ 24"
    and "0 < a_w (data_info p)" and "a_w (data_info p) < 2 ^ 24"
    and "length (row_ptr p) = n_eng p" and "length (col_idx p) = n_eng p" and "length (data_index p) = n_eng p"
    and "\<forall>e < n_eng p. csr_wf (row_ptr p ! e) (col_idx p ! e) \<and> (\<forall>c \<in> set (col_idx p ! e). 0 \<le> c \<and> c < a_w (data_info p))"
  shows "\<exists>p' uv. Tiling p = Inr p' \<and> ceil_fdiv (a_w (data_info p)) (n_tiles (data_info p)) = Inr uv \<and>
    (\<forall>e < n_eng p. csr_wf (row_ptr p' ! e) (col_idx p' ! e) \<and> mset (col_idx p' ! e) = mset (col_idx p ! e) \<and>
       csr_rows (row_ptr p' ! e) (col_idx p' ! e) =
         tiled_rows uv (nat (n_tiles (data_info p))) (csr_rows (row_ptr p ! e) (col_idx p ! e)))"
proof -
  let ?nt = "n_tiles (data_info p)"
  define uv where "uv = ceil_div (a_w (data_info p)) ?nt"
  have uv: "ceil_fdiv (a_w (data_info p)) ?nt = Inr uv" "0 < uv" "a_w (data_info p) \<le> uv * ?nt"
    using assms(1-4) ceil_div_pos [of "a_w (data_info p)" ?nt] ceil_div_upper [of ?nt "a_w (data_info p)"]
    by (auto simp: uv_def ceil_fdiv_exact)
  have e: "\<forall>e < n_eng p. csr_wf (row_ptr p ! e) (col_idx p ! e) \<and> (\<forall>c \<in> set (col_idx p ! e). 0 \<le> c \<and> c < uv * ?nt)"
    using assms(8) uv(3) by (meson less_le_trans)
  have m: "mset (concat (tiled_rows uv (nat ?nt) (csr_rows (row_ptr p ! e) (col_idx p ! e)))) = mset (col_idx p ! e)"
    if i: "e < n_eng p" for e
  proof -
    have c: "concat (csr_rows (row_ptr p ! e) (col_idx p ! e)) = col_idx p ! e"
      using csr_of_rows [of "row_ptr p ! e" "col_idx p ! e"] snd_csr_of assms(8) i by (metis snd_conv)
    have "nat (c div uv) < nat ?nt" if "c \<in> set (col_idx p ! e)" for c
      using tile_of_ok [OF uv(2), of c "nat ?nt"] e i that assms(1) by auto
    then have "\<forall>r \<in> set (csr_rows (row_ptr p ! e) (col_idx p ! e)). \<forall>c \<in> set r. nat (c div uv) < nat ?nt"
      using c by (metis (no_types, lifting) UN_I set_concat)
    from mset_tiled_rows [OF this] c show ?thesis by simp
  qed
  from Tiling_ok [OF assms(1) uv(1,2) assms(5-7) e] uv(1) m show ?thesis
    using csr_wf_of csr_rows_of [unfolded snd_csr_of] by auto
qed

end
