(* ===== verification/Prep_Format.thy ===== *)
theory Prep_Format
  imports Prep_Graph
begin

text \<open>
  The text formats of the input: numbers and lines of numbers are read back as they are printed, and the
  two string splitters of the program agree.
\<close>

section \<open>Numbers\<close>

lemma char_digit [simp]:
  assumes "k < 10"
  shows "(of_char (char_of (48 + k) :: char) :: nat) = 48 + k" and "(of_char (char_of (48 + k) :: char) :: int) = 48 + int k"
proof -
  have "(48 + k) mod 256 = 48 + k" using assms by simp
  then show 1: "(of_char (char_of (48 + k) :: char) :: nat) = 48 + k" by simp
  have "(of_char (char_of (48 + k) :: char) :: int) = int (of_char (char_of (48 + k) :: char))"
    by (simp only: of_nat_of_char)
  then show "(of_char (char_of (48 + k) :: char) :: int) = 48 + int k" unfolding 1 by simp
qed

lemma digit_char: "k < 10 \<Longrightarrow> is_digit (char_of (48 + k :: nat))"
  by (simp add: is_digit_def del: of_char_of)

lemma digits_val_snoc: "digits_val (ds @ [c]) = 10 * digits_val ds + (of_char c - 48)"
  by (simp add: digits_val_def)

lemma digits_of_digits: "\<forall>c \<in> set (digits_of n). is_digit c"
proof (induction n rule: digits_of.induct)
  case (1 n)
  then show ?case by (subst digits_of.simps) (auto simp: digit_char)
qed

lemma digits_of_nonempty: "digits_of n \<noteq> []"
  by (subst digits_of.simps) simp

lemma digits_of_val: "digits_val (digits_of n) = int n"
proof (induction n rule: digits_of.induct)
  case (1 n)
  show ?case
  proof (cases "n < 10")
    case True
    then show ?thesis by (subst digits_of.simps) (simp add: digits_val_def del: of_char_of)
  next
    case False
    then have "digits_val (digits_of n) = 10 * int (n div 10) + int (n mod 10)"
      using 1 by (subst digits_of.simps) (simp add: digits_val_snoc del: of_char_of)
    then show ?thesis by (simp add: zmod_int zdiv_int)
  qed
qed

lemma takeWhile_digits: "takeWhile is_digit (digits_of n) = digits_of n"
  using digits_of_digits by (simp add: takeWhile_eq_all_conv)

lemma not_digit: "\<not> is_digit (CHR ''-'')" "\<not> is_digit (CHR ''+'')" "\<not> is_digit (CHR '' '')" "\<not> is_space (CHR ''-'')"
  by (simp_all add: is_digit_def is_space_def)

lemma digit_no_space: "is_digit c \<Longrightarrow> \<not> is_space c"
  by (auto simp: is_digit_def is_space_def)

text \<open>\<open>stoi\<close> of the decimal representation of an \<open>int\<close> is that number.\<close>

lemma stoi_to_string:
  assumes "- (2 ^ 31) \<le> i" and "i < 2 ^ 31"
  shows "stoi (to_string i) = Inr i"
proof (cases "i < 0")
  case True
  let ?ds = "digits_of (nat (- i))"
  have "to_string i = CHR ''-'' # ?ds" using True by (simp add: to_string_def)
  then show ?thesis using assms True digits_of_nonempty [of "nat (- i)"]
    by (simp add: stoi_def Let_def not_digit takeWhile_digits digits_of_val)
next
  case False
  let ?ds = "digits_of (nat i)"
  obtain c cs where d: "?ds = c # cs" using digits_of_nonempty [of "nat i"] by (cases ?ds) auto
  have c: "is_digit c" using digits_of_digits [of "nat i"] by (simp add: d)
  then have "c \<noteq> CHR ''-''" "c \<noteq> CHR ''+''" "\<not> is_space c" using not_digit digit_no_space by auto
  moreover have "to_string i = c # cs" using False d by (simp add: to_string_def)
  moreover have "takeWhile is_digit cs = cs" "digits_val (c # cs) = i"
    using takeWhile_digits [of "nat i"] digits_of_val [of "nat i"] False c unfolding d by simp_all
  ultimately show ?thesis using assms c by (simp add: stoi_def Let_def del: takeWhile_eq_all_conv)
qed

section \<open>Lines\<close>

fun join :: "char \<Rightarrow> string list \<Rightarrow> string" where
  "join d [] = []"
| "join d [x] = x"
| "join d (x # y # xs) = x @ d # join d (y # xs)"

lemma getline_item: "d \<notin> set x \<Longrightarrow> getline_items d acc (x @ d # s) = (rev acc @ x) # getline_items d [] s"
  by (induction x arbitrary: acc) auto

lemma getline_last: "d \<notin> set x \<Longrightarrow> acc @ x \<noteq> [] \<Longrightarrow> getline_items d acc x = [rev acc @ x]"
  by (induction x arbitrary: acc) auto

lemma getline_join:
  assumes "\<forall>x \<in> set xs. x \<noteq> [] \<and> d \<notin> set x"
  shows "getline_items d [] (join d xs) = xs"
  using assms
proof (induction d xs rule: join.induct)
  case (2 d x)
  then show ?case using getline_last [of d x "[]"] by simp
next
  case (3 d x y xs)
  then show ?case using getline_item [of d x "[]"] by simp
qed simp

lemma to_string_chars: "to_string i \<noteq> [] \<and> CHR '' '' \<notin> set (to_string i)"
  using digits_of_digits [of "nat i"] digits_of_digits [of "nat (- i)"] digits_of_nonempty not_digit(3)
  by (auto simp: to_string_def)

text \<open>
  C33. Lines of numbers are read back: the reader of a line of the graph or feature file returns exactly
  the numbers printed with single spaces between them.
\<close>

theorem line_roundtrip:
  assumes "\<forall>i \<in> set xs. - (2 ^ 31) \<le> i \<and> i < 2 ^ 31"
  shows "line_ints (join (CHR '' '') (map to_string xs)) = Inr xs"
proof -
  let ?f = "\<lambda>temp v. res_bind (stoi temp) (\<lambda>n. Inr (v @ [n]))"
  have "getline_items (CHR '' '') [] (join (CHR '' '') (map to_string xs)) = map to_string xs"
    by (rule getline_join) (use to_string_chars in auto)
  moreover have "res_fold ?f (map to_string xs) ys = Inr (ys @ xs)" for ys
    using assms
  proof (induction xs arbitrary: ys)
    case (Cons x xs)
    have "stoi (to_string x) = Inr x" using Cons.prems by (intro stoi_to_string) auto
    with Cons show ?case by simp
  qed simp
  ultimately show ?thesis by (simp add: line_ints_def)
qed

theorem line_roundtrip_witness: "line_ints (join (CHR '' '') (map to_string [0, 2, 3, 4])) = Inr [0, 2, 3, 4]"
  by (rule line_roundtrip) simp

section \<open>The two splitters\<close>

lemma find_sub_char: "find_sub [d] xs = (if d \<in> set xs then Some (length (takeWhile (\<lambda>c. c \<noteq> d) xs)) else None)"
  by (induction xs) auto

lemma getline_first:
  "getline_items d [] xs = (case find_sub [d] xs of None \<Rightarrow> if xs = [] then [] else [xs]
     | Some p \<Rightarrow> take p xs # getline_items d [] (drop (p + 1) xs))"
proof (cases "d \<in> set xs")
  case True
  then obtain x r where xs: "xs = x @ d # r" "d \<notin> set x" by (metis split_list_first)
  then have "find_sub [d] xs = Some (length x)" by (auto simp: find_sub_char takeWhile_append)
  moreover have "getline_items d [] xs = x # getline_items d [] r" using getline_item [of d x "[]" r] xs by simp
  ultimately show ?thesis using xs(1) by simp
next
  case False
  then show ?thesis using getline_last [of d xs "[]"] by (simp add: find_sub_char)
qed

lemma split_loop_items:
  assumes "prev \<le> length str"
  shows "split_loop str [d] prev toks = toks @ filter (\<lambda>x. x \<noteq> []) (getline_items d [] (drop prev str))"
  using assms
proof (induction "length str - prev" arbitrary: prev toks rule: less_induct)
  case less
  show ?case
  proof (cases "find_sub [d] (drop prev str)")
    case None
    then show ?thesis using less.prems
      by (subst split_loop.simps, subst getline_first) simp
  next
    case (Some p)
    let ?t = "take p (drop prev str)"
    have p: "p < length (drop prev str)"
    proof -
      from Some have "d \<in> set (drop prev str)" "p = length (takeWhile (\<lambda>c. c \<noteq> d) (drop prev str))"
        by (auto simp: find_sub_char split: if_splits)
      moreover from this(1) obtain x r where "drop prev str = x @ d # r" "d \<notin> set x" by (metis split_list_first)
      ultimately show ?thesis by (auto simp: takeWhile_append simp del: length_drop)
    qed
    have IH: "split_loop str [d] (prev + p + 1) ts = ts @ filter (\<lambda>x. x \<noteq> []) (getline_items d [] (drop (prev + p + 1) str))" for ts
      by (rule less.hyps) (use p in auto)
    have "split_loop str [d] prev toks = (if prev + p + 1 < length str
        then split_loop str [d] (prev + p + 1) (if ?t \<noteq> [] then toks @ [?t] else toks) else if ?t \<noteq> [] then toks @ [?t] else toks)"
      using p Some by (subst split_loop.simps) (simp add: Let_def)
    moreover have "getline_items d [] (drop prev str) = ?t # getline_items d [] (drop (prev + p + 1) str)"
      using Some by (subst getline_first) (simp add: add.commute add.left_commute)
    moreover have "drop (prev + p + 1) str = []" if "\<not> prev + p + 1 < length str" using that by simp
    ultimately show ?thesis using IH by (auto split: if_splits)
  qed
qed

text \<open>
  C34. The splitters agree. \<open>split\<close> of the preprocessor with a one-character delimiter returns what
  \<open>StringSplit\<close> of the DRAM simulator returns: the non-empty items between the delimiters, in order.
\<close>

theorem splitters_agree: "split str [d] = StringSplit str d"
  using split_loop_items [of 0 str d "[]"] by (simp add: split_def StringSplit_def)

end
