(* ===== verification/Prep_Address.thy ===== *)
theory Prep_Address
  imports Prep_Graph
begin

text \<open>
  The features in memory, \<open>TransXW\<close> and \<open>AddressMapping\<close> of \<open>src/src/preprocessor.cc\<close>, and the
  constructor that runs all steps. \<open>TransXW\<close> marks the cache lines of every feature row for the four
  storage modes; \<open>AddressMapping\<close> lays the graph arrays and the feature lines out one after the other.
\<close>

section \<open>TransXW\<close>

text \<open>
  The elements of the feature matrix are read with the checked access \<open>vgeti\<close>: the code also reads one
  element past the end of a row (in the mode \<open>X_CMP\<close>), which the language leaves undefined.
\<close>

text \<open>The marks of a block: a line is marked while some of the \<open>count\<close> elements are left.\<close>

fun push_units :: "nat \<Rightarrow> int \<Rightarrow> u64 list \<Rightarrow> u64 list" where
  "push_units 0 cnt row = row"
| "push_units (Suc k) cnt row = push_units k (cnt - CACHE_LINE_COUNT) (row @ [if cnt > 0 then 1 else 0])"

definition x_cmp_step :: "prep \<Rightarrow> int \<Rightarrow> int list \<Rightarrow> int \<Rightarrow> u64 list \<times> int \<Rightarrow> (u64 list \<times> int) res" where
  "x_cmp_step p count0 xr j = (\<lambda>(row, count).
     let u = urb (arch_info p); w = x_w (data_info p) in
     res_bind (cmod j (x_unit (arch_info p))) (\<lambda>m.
     let (row1, count1) = (if m = 0 \<or> j = w
           then (push_units (nat (if j = w then total_urb (data_info p) - (bf (arch_info p) - 1) * u else u)) count row, count0)
           else (row, count))
     in res_bind (vgeti xr j) (\<lambda>v. Inr (row1, if v \<noteq> 0 then count1 + 1 else count1))))"

text \<open>The rows of the feature matrix are converted one by one.\<close>

definition each_row :: "prep \<Rightarrow> (int list \<Rightarrow> u64 list \<Rightarrow> u64 list res) \<Rightarrow> prep res" where
  "each_row p f = res_bind (res_fold (\<lambda>i xs. res_bind (vget xs i) (\<lambda>row. res_bind (if 0 < x_w (data_info p) then vget (xw p) i else Inr []) (\<lambda>xr.
       res_bind (f xr row) (\<lambda>row'. vset xs i row')))) [0..<nat (x_h (data_info p))] (x_to_addr p)) (\<lambda>xs.
     Inr (p\<lparr>x_to_addr := xs\<rparr>))"

definition x_cmp_row :: "prep \<Rightarrow> int list \<Rightarrow> u64 list \<Rightarrow> u64 list res" where
  "x_cmp_row p xr row =
     res_bind (ceil_fdiv (x_unit (arch_info p)) 32) (\<lambda>count0.
     res_bind (res_fold (x_cmp_step p count0 xr) [1..x_w (data_info p)] (row, count0)) (\<lambda>(row', _). Inr row'))"

definition recount :: "prep \<Rightarrow> prep res" where
  "recount p = res_bind (res_fold (\<lambda>i ds. res_bind (vget ds i) (\<lambda>d. res_bind (vget (row_ptr p) i) (\<lambda>rp.
       vset ds i (d\<lparr>di_total_write := (int (length rp) - 1 - zero_row d) * total_urb (data_info p)\<rparr>)))) [0..<n_eng p] (data_index p)) (\<lambda>ds.
     Inr (p\<lparr>data_index := ds\<rparr>))"

definition trans_x_cmp :: "prep \<Rightarrow> prep res" where
  "trans_x_cmp p =
     res_bind (ceil_fdiv (x_unit (arch_info p)) CACHE_LINE_COUNT) (\<lambda>u.
     res_bind (ceil_fdiv (x_w (data_info p)) (x_unit (arch_info p))) (\<lambda>b.
     let p1 = upd_data (\<lambda>d. d\<lparr>total_urb := b * u\<rparr>) (upd_arch (\<lambda>a. a\<lparr>urb := u, bf := b\<rparr>) p)
     in res_bind (each_row p1 (x_cmp_row p1)) recount))"

definition trans_mat :: "prep \<Rightarrow> prep res" where
  "trans_mat p = res_bind (ceil_fdiv (x_w (data_info p)) CACHE_LINE_COUNT) (\<lambda>unit.
     res_bind (res_fold (\<lambda>i xs. res_bind (vget xs i) (\<lambda>row. vset xs i (row @ replicate (nat unit) 1)))
       [0..<nat (x_h (data_info p))] (x_to_addr p)) (\<lambda>xs. Inr (p\<lparr>x_to_addr := xs\<rparr>)))"

text \<open>The number of non-zero elements of a row, added to \<open>n\<close>.\<close>

definition count_nonzero :: "int list \<Rightarrow> int \<Rightarrow> int \<Rightarrow> int res" where
  "count_nonzero xr w n = res_fold (\<lambda>j n. res_bind (vgeti xr j) (\<lambda>v. Inr (if v \<noteq> 0 then n + 1 else n))) [0..w - 1] n"

definition csr_row :: "prep \<Rightarrow> int list \<Rightarrow> u64 list \<Rightarrow> u64 list res" where
  "csr_row p xr row = res_bind (count_nonzero xr (x_w (data_info p)) 0) (\<lambda>x_acm.
     res_bind (ceil_fdiv x_acm CACHE_LINE_COUNT) (\<lambda>block.
     Inr (row @ [1] @ replicate (2 * nat block) 1 @ [of_int x_acm])))"

definition x_full_cmp_row :: "prep \<Rightarrow> int list \<Rightarrow> u64 list \<Rightarrow> u64 list res" where
  "x_full_cmp_row p xr row = res_bind (ceil_fdiv (x_w (data_info p)) 32) (\<lambda>c0.
     res_bind (count_nonzero xr (x_w (data_info p)) c0) (\<lambda>count.
     res_bind (ceil_fdiv count CACHE_LINE_COUNT) (\<lambda>block.
     Inr (row @ [1] @ replicate (nat block) 1))))"

definition TransXW :: "prep \<Rightarrow> prep res" where
  "TransXW p = res_bind (case mode (arch_info p) of X_CMP \<Rightarrow> trans_x_cmp p | MAT \<Rightarrow> trans_mat p
     | CSR \<Rightarrow> each_row p (csr_row p) | X_FULL_CMP \<Rightarrow> each_row p (x_full_cmp_row p)) (\<lambda>p'. Inr (p'\<lparr>xw := []\<rparr>))"

section \<open>AddressMapping\<close>

text \<open>The lines of the row and column arrays of an engine.\<close>

definition frags :: "int list list \<Rightarrow> nat \<Rightarrow> int list res" where
  "frags xss n = res_fold (\<lambda>i fs. res_bind (vget xss i) (\<lambda>xs. res_bind (ceil_fdiv (int (length xs)) CACHE_LINE_COUNT) (\<lambda>f.
     Inr (fs @ [f])))) [0..<n] []"

text \<open>One array after the other: engine \<open>i\<close> gets the next \<open>frags ! i\<close> lines.\<close>

definition place :: "(u64 \<Rightarrow> u64 \<Rightarrow> DataIndex \<Rightarrow> DataIndex) \<Rightarrow> int list \<Rightarrow> nat \<Rightarrow> DataIndex list \<times> u64 \<Rightarrow> (DataIndex list \<times> u64) res" where
  "place upd fs n s = res_fold (\<lambda>i (ds, a). res_bind (vget ds i) (\<lambda>d. res_bind (vget fs i) (\<lambda>f.
     let b = a + of_int (f * 64) in res_bind (vset ds i (upd a b d)) (\<lambda>ds'. Inr (ds', b))))) [0..<n] s"

text \<open>The feature lines of the modes \<open>X_CMP\<close> and \<open>MAT\<close>; only a column equal to \<open>total_urb\<close> ends the loop.\<close>

fun map_cols :: "int \<Rightarrow> nat \<Rightarrow> int list \<Rightarrow> u64 list list \<times> u64 \<Rightarrow> (u64 list list \<times> u64) res" where
  "map_cols tu j [] s = Inr s"
| "map_cols tu j (c # cs) (xs, a) =
     (if c = tu then Inr (xs, a)
      else res_bind (vget xs j) (\<lambda>row. res_bind (vgeti row c) (\<lambda>v.
           map_cols tu j cs (if v = 1 then xs[j := row[nat c := a]] else xs, a + CACHE_LINE_BYTE))))"

definition map_blocks :: "prep \<Rightarrow> u64 list list \<times> u64 \<Rightarrow> (u64 list list \<times> u64) res" where
  "map_blocks p s = (let u = urb (arch_info p) in
     res_fold (\<lambda>i. res_fold (\<lambda>j. map_cols (total_urb (data_info p)) j [int i * u..int i * u + u - 1]) [0..<nat (x_h (data_info p))])
       [0..<nat (bf (arch_info p))] s)"

text \<open>The row pointers (\<open>CSR\<close>) or bitmaps (\<open>X_FULL_CMP\<close>): \<open>per\<close> rows share a line.\<close>

definition map_heads :: "int \<Rightarrow> nat \<Rightarrow> u64 list list \<times> u64 \<Rightarrow> (u64 list list \<times> u64) res" where
  "map_heads per h s = res_fold (\<lambda>i (xs, a). res_bind (vget xs i) (\<lambda>row. res_bind (vset row 0 a) (\<lambda>row'.
     res_bind (cmod (int i + 1) per) (\<lambda>m. Inr (xs[i := row'], if m = 0 then a + CACHE_LINE_BYTE else a))))) [0..<h] s"

text \<open>The column or value lines of a \<open>CSR\<close> row: every second entry from \<open>off\<close> on; rows share lines.\<close>

definition csr_lines :: "nat \<Rightarrow> bool \<Rightarrow> nat \<Rightarrow> u64 list list \<times> u64 \<times> int \<Rightarrow> (u64 list list \<times> u64 \<times> int) res" where
  "csr_lines off pop i = (\<lambda>(xs, a, x_acm). res_bind (vget xs i) (\<lambda>row.
     if length row < 2 then Inl OutOfRange
     else let cnt = (length row - 2) div 2;
              row' = fold (\<lambda>j r. r[j * 2 + off := a + CACHE_LINE_BYTE * of_nat j]) [0..<cnt] row;
              a' = a + CACHE_LINE_BYTE * of_nat cnt; x_acm' = x_acm + uint (last row);
              row'' = (if pop then butlast row' else row')
          in Inr (xs[i := row''], if x_acm' smod CACHE_LINE_COUNT \<noteq> 0 then a' - CACHE_LINE_BYTE else a', x_acm')))"

definition map_csr :: "prep \<Rightarrow> u64 list list \<times> u64 \<Rightarrow> (u64 list list \<times> u64) res" where
  "map_csr p s = (let h = nat (x_h (data_info p)) in
     res_bind (map_heads CACHE_LINE_COUNT h s) (\<lambda>(xs, a).
     res_bind (res_fold (csr_lines 1 False) [0..<h] (xs, a, 0)) (\<lambda>(xs1, a1, _).
     res_bind (res_fold (csr_lines 2 True) [0..<h] (xs1, a1, 0)) (\<lambda>(xs2, a2, _). Inr (xs2, a2)))))"

definition map_full :: "prep \<Rightarrow> u64 list list \<times> u64 \<Rightarrow> (u64 list list \<times> u64) res" where
  "map_full p s = (let h = nat (x_h (data_info p)) in
     res_bind (ceil_fdiv (x_w (data_info p)) 32) (\<lambda>c.
     if c = 0 then Inl BadConv else
     res_bind (map_heads (CACHE_LINE_COUNT sdiv c) h s) (\<lambda>(xs, a).
     res_fold (\<lambda>i (xs, a). res_bind (vget xs i) (\<lambda>row.
       Inr (xs[i := map (\<lambda>j. a + CACHE_LINE_BYTE * of_nat j) [0..<length row]], a + CACHE_LINE_BYTE * of_nat (length row)))) [0..<h] (xs, a))))"

definition AddressMapping :: "prep \<Rightarrow> prep res" where
  "AddressMapping p = (let n = n_eng p in
     res_bind (frags (row_ptr p) n) (\<lambda>row_frags. res_bind (frags (col_idx p) n) (\<lambda>col_frags.
     res_bind (place (\<lambda>a b d. d\<lparr>value_addr_start := a, value_addr_end := b\<rparr>) col_frags n (data_index p, 0)) (\<lambda>(ds1, a1).
     res_bind (place (\<lambda>a b d. d\<lparr>row_addr_start := a, row_addr_end := b\<rparr>) row_frags n (ds1, a1)) (\<lambda>(ds2, a2).
     res_bind (place (\<lambda>a b d. d\<lparr>col_addr_start := a, col_addr_end := b\<rparr>) col_frags n (ds2, a2)) (\<lambda>(ds3, a3).
     res_bind (case mode (arch_info p) of X_CMP \<Rightarrow> map_blocks p (x_to_addr p, a3) | MAT \<Rightarrow> map_blocks p (x_to_addr p, a3)
        | CSR \<Rightarrow> map_csr p (x_to_addr p, a3) | X_FULL_CMP \<Rightarrow> map_full p (x_to_addr p, a3)) (\<lambda>(xs, a4).
     Inr (upd_arch (\<lambda>ar. ar\<lparr>d_value_addr_start := 0, a_row_addr_start := a1, a_col_addr_start := a2,
        xw_ele_addr_start := a3, axw_addr_start := a4\<rparr>) (p\<lparr>data_index := ds3, x_to_addr := xs\<rparr>)))))))))"

section \<open>The constructor\<close>

definition DataIndex_zero :: DataIndex where
  "DataIndex_zero = \<lparr>value_addr_start = 0, value_addr_end = 0, row_addr_start = 0, row_addr_end = 0,
     col_addr_start = 0, col_addr_end = 0, di_row = 0, zero_row = 0, di_total_write = 0\<rparr>"

text \<open>The input files by role; the paths select them.\<close>

record input_files =
  f_ini :: text_file
  f_a :: text_file
  f_xw :: text_file
  f_davc :: text_file

definition grow :: "prep \<Rightarrow> prep" where
  "grow p = p\<lparr>x_to_addr := x_to_addr p @ replicate (nat (x_h (data_info p))) []\<rparr>"

definition write_sum :: "DataIndex list \<Rightarrow> u64" where
  "write_sum ds = fold (\<lambda>d t. t + of_int (di_total_write d)) ds 0"

text \<open>The steps after reading: distribute the graph, mark the feature lines, lay everything out.\<close>

definition prepare :: "prep \<Rightarrow> (prep \<times> u64) res" where
  "prepare p4 =
     res_bind (LAC (p4\<lparr>data_index := data_index p4 @ replicate (n_eng p4) DataIndex_zero\<rparr>)) (\<lambda>p5.
     res_bind (Tiling p5) (\<lambda>p6.
     res_bind (TransXW (grow p6)) (\<lambda>p7.
     res_bind (AddressMapping p7) (\<lambda>p8. Inr (p8, write_sum (data_index p8))))))"

definition Preprocessor_new :: "F_PATH \<Rightarrow> input_files \<Rightarrow> prep \<Rightarrow> (prep \<times> u64) res" where
  "Preprocessor_new paths files p0 =
     res_bind (ReadIni (f_ini files) p0) (\<lambda>p1. res_bind (ParseIni p1) (\<lambda>p2.
     res_bind (ReadData (f_a files) (f_xw files) p2) (\<lambda>p3.
     res_bind (ReadDAVC (davc_path paths) (f_davc files) p3) (prepare))))"

end
