(* ===== verification/Prep_Layout.thy ===== *)
theory Prep_Layout
  imports Prep_Address
begin

text \<open>
  What the address mapping establishes: the value, row and column arrays of the engines and the lines
  of the features occupy consecutive cache lines, in this order, without overlap.
\<close>

section \<open>Line addresses\<close>

definition line_addr :: "nat \<Rightarrow> u64" where
  "line_addr x = of_nat (64 * x)"

lemma unat_line_addr: "x < 2 ^ 58 \<Longrightarrow> unat (line_addr x) = 64 * x"
  unfolding line_addr_def by (simp only: unat_of_nat) (simp add: take_bit_nat_eq_self)

lemma line_addr_le: "x < 2 ^ 58 \<Longrightarrow> y < 2 ^ 58 \<Longrightarrow> line_addr x \<le> line_addr y \<longleftrightarrow> x \<le> y"
  by (simp add: word_le_nat_alt unat_line_addr)

lemma line_addr_eq: "x < 2 ^ 58 \<Longrightarrow> y < 2 ^ 58 \<Longrightarrow> line_addr x = line_addr y \<longleftrightarrow> x = y"
  by (metis line_addr_le order_antisym order_refl)

lemma line_addr_0 [simp]: "line_addr 0 = 0"
  by (simp add: line_addr_def)

lemma line_addr_nonzero: "0 < x \<Longrightarrow> x < 2 ^ 58 \<Longrightarrow> line_addr x \<noteq> 0"
  using line_addr_eq [of x 0] by simp

lemma line_addr_not_max: "x < 2 ^ 58 \<Longrightarrow> line_addr x \<noteq> - 1"
proof
  assume "x < 2 ^ 58" "line_addr x = - 1"
  then have "64 * x = 2 ^ 64 - 1" using unat_line_addr [of x] by (simp add: unat_eq_nat_uint uint_word_ariths mask_eq_exp_minus_1)
  then have "64 * x = 18446744073709551615" by simp
  then show False by presburger
qed

lemma line_addr_step: "line_addr x + of_nat f * 64 = line_addr (x + f)"
  by (simp add: line_addr_def algebra_simps)

lemma line_addr_Suc: "line_addr x + CACHE_LINE_BYTE = line_addr (Suc x)"
  by (simp add: line_addr_def CACHE_LINE_BYTE_def algebra_simps)

section \<open>The arrays of the engines\<close>

lemma ceil_lines: "length xs < 2 ^ 24 \<Longrightarrow> ceil_fdiv (int (length xs)) CACHE_LINE_COUNT = Inr (int (lines_for xs))"
  by (simp add: ceil_fdiv_exact CACHE_LINE_COUNT_def ceil_div_def lines_for_def zdiv_int)

lemma lines_for_pos: "xs \<noteq> [] \<Longrightarrow> 0 < lines_for xs"
proof -
  assume "xs \<noteq> []"
  then have "16 \<le> length xs + 15" by (cases xs) auto
  then show ?thesis by (simp add: lines_for_def div_greater_zero_iff)
qed

lemma frags_ok:
  assumes "n \<le> length xss" and "\<forall>i < n. length (xss ! i) < 2 ^ 24"
  shows "frags xss n = Inr (map (\<lambda>i. int (lines_for (xss ! i))) [0..<n])"
  using assms by (induction n) (auto simp: frags_def res_fold_snoc ceil_lines)

text \<open>The first line of array \<open>i\<close>, when the arrays start at line \<open>b\<close> and have \<open>f k\<close> lines each.\<close>

definition start_line :: "nat \<Rightarrow> (nat \<Rightarrow> nat) \<Rightarrow> nat \<Rightarrow> nat" where
  "start_line b f i = b + sum f {..<i}"

lemma start_line_simps [simp]: "start_line b f 0 = b" "start_line b f (Suc i) = start_line b f i + f i"
  by (simp_all add: start_line_def)

lemma start_line_mono: "i \<le> j \<Longrightarrow> start_line b f i \<le> start_line b f j"
  unfolding start_line_def by (intro add_left_mono sum_mono2) auto

lemma place_ok:
  assumes "m \<le> length ds"
  shows "place upd (map (\<lambda>i. int (f i)) [0..<m]) m (ds, line_addr b) =
    Inr (map (\<lambda>i. upd (line_addr (start_line b f i)) (line_addr (start_line b f (Suc i))) (ds ! i)) [0..<m] @ drop m ds,
         line_addr (start_line b f m))"
proof -
  have "res_fold (\<lambda>i (ds, a). res_bind (vget ds i) (\<lambda>d. res_bind (vget (map (\<lambda>i. int (f i)) [0..<m]) i) (\<lambda>f.
     let b = a + of_int (f * 64) in res_bind (vset ds i (upd a b d)) (\<lambda>ds'. Inr (ds', b))))) [0..<k] (ds, line_addr b) =
    Inr (map (\<lambda>i. upd (line_addr (start_line b f i)) (line_addr (start_line b f (Suc i))) (ds ! i)) [0..<k] @ drop k ds,
         line_addr (start_line b f k))" if "k \<le> m" for k
    using that
  proof (induction k)
    case (Suc k)
    let ?xs = "map (\<lambda>i. upd (line_addr (start_line b f i)) (line_addr (start_line b f (Suc i))) (ds ! i)) [0..<k]"
    have k: "k < length ds" "k < m" using Suc.prems assms by auto
    have "(?xs @ drop k ds) ! k = ds ! k" "(?xs @ drop k ds)[k := v] = ?xs @ v # drop (Suc k) ds" for v
      using k by (auto simp: nth_append list_update_append Cons_nth_drop_Suc [symmetric])
    with Suc k show ?case by (simp add: res_fold_snoc Let_def line_addr_step)
  qed simp
  then show ?thesis by (simp add: place_def)
qed

section \<open>The lines of the features\<close>

text \<open>
  The order in which the mapping visits the lines: fold by fold, row by row; \<open>tu\<close> lines per row, \<open>u\<close>
  of them per fold.
\<close>

definition fold_cols :: "nat \<Rightarrow> nat \<Rightarrow> nat \<Rightarrow> nat list" where
  "fold_cols tu u i = [i * u..<min (i * u + u) tu]"

definition visits :: "nat \<Rightarrow> nat \<Rightarrow> nat \<Rightarrow> nat \<Rightarrow> (nat \<times> nat) list" where
  "visits tu u B h = concat (map (\<lambda>i. concat (map (\<lambda>j. map (Pair j) (fold_cols tu u i)) [0..<h])) [0..<B])"

definition visit :: "nat \<times> nat \<Rightarrow> u64 list list \<times> u64 \<Rightarrow> u64 list list \<times> u64" where
  "visit jc s = (let (j, c) = jc; (xs, a) = s
     in (if xs ! j ! c = 1 then xs[j := (xs ! j)[c := a]] else xs, a + CACHE_LINE_BYTE))"

definition table :: "nat \<Rightarrow> nat \<Rightarrow> u64 list list \<Rightarrow> bool" where
  "table h tu xs \<longleftrightarrow> length xs = h \<and> (\<forall>r \<in> set xs. length r = tu)"

lemma table_visit: "table h tu (fst s) \<Longrightarrow> j < h \<Longrightarrow> table h tu (fst (visit (j, c) s))"
  by (auto simp: table_def visit_def split_beta dest!: set_update_subset_insert [THEN subsetD])

lemma table_visits: "table h tu (fst s) \<Longrightarrow> \<forall>jc \<in> set V. fst jc < h \<Longrightarrow> table h tu (fst (fold visit V s))"
proof (induction V arbitrary: s)
  case (Cons jc V)
  then have "table h tu (fst (visit jc s))" using table_visit [of h tu s "fst jc" "snd jc"] by simp
  with Cons show ?case by simp
qed simp

lemma map_cols_visits:
  assumes "table h tu xs" and "j < h" and "c \<le> tu"
  shows "map_cols (int tu) j [int c..int c + int k - 1] (xs, a) = Inr (fold visit (map (Pair j) [c..<min (c + k) tu]) (xs, a))"
  using assms
proof (induction k arbitrary: c xs a)
  case 0
  then show ?case by simp
next
  case (Suc k)
  have u: "[int c..int c + int (Suc k) - 1] = int c # [int (Suc c)..int (Suc c) + int k - 1]"
    by (simp add: upto_rec1 algebra_simps)
  show ?case
  proof (cases "c = tu")
    case True
    then show ?thesis unfolding u by simp
  next
    case False
    then have c: "c < tu" using Suc.prems by simp
    then have v: "[c..<min (c + Suc k) tu] = c # [Suc c..<min (Suc c + k) tu]" by (simp add: upt_conv_Cons)
    have l: "j < length xs" "c < length (xs ! j)" using Suc.prems c by (auto simp: table_def)
    let ?s = "visit (j, c) (xs, a)"
    have "map_cols (int tu) j [int c..int c + int (Suc k) - 1] (xs, a) =
        map_cols (int tu) j [int (Suc c)..int (Suc c) + int k - 1] ?s"
      unfolding u using l c by (simp add: visit_def)
    also have "\<dots> = Inr (fold visit (map (Pair j) [Suc c..<min (Suc c + k) tu]) ?s)"
      using Suc.IH [of "fst ?s" "Suc c" "snd ?s"] table_visit [of h tu "(xs, a)" j c] Suc.prems c by simp
    finally show ?thesis unfolding v by simp
  qed
qed

lemma res_fold_visits:
  assumes "\<And>x s. x \<in> set L \<Longrightarrow> table h tu (fst s) \<Longrightarrow> f x s = Inr (fold visit (V x) s)"
    and "\<And>x jc. x \<in> set L \<Longrightarrow> jc \<in> set (V x) \<Longrightarrow> fst jc < h" and "table h tu (fst s)"
  shows "res_fold f L s = Inr (fold visit (concat (map V L)) s)"
  using assms
proof (induction L arbitrary: s)
  case (Cons x L)
  have f: "f x s = Inr (fold visit (V x) s)" using Cons.prems by simp
  have t: "table h tu (fst (fold visit (V x) s))" using Cons.prems table_visits by (metis list.set_intros(1))
  have "res_fold f L (fold visit (V x) s) = Inr (fold visit (concat (map V L)) (fold visit (V x) s))"
  proof (rule Cons.IH [OF _ _ t])
    show "f y s = Inr (fold visit (V y) s)" if "y \<in> set L" "table h tu (fst s)" for y s
      using Cons.prems(1) that by simp
    show "fst jc < h" if "y \<in> set L" "jc \<in> set (V y)" for y jc
      using Cons.prems(2) [of y jc] that by simp
  qed
  with f show ?case by simp
qed simp

text \<open>As long as no fold starts beyond the row, the mapping is the sequence of visits.\<close>

lemma map_blocks_visits:
  assumes "urb (arch_info p) = int u" and "total_urb (data_info p) = int tu" and "bf (arch_info p) = int B"
    and "x_h (data_info p) = int h" and "(B - 1) * u \<le> tu" and "table h tu (fst s)"
  shows "map_blocks p s = Inr (fold visit (visits tu u B h) s)"
proof -
  have 1: "res_fold (\<lambda>j. map_cols (int tu) j [int i * int u..int i * int u + int u - 1]) [0..<h] s =
      Inr (fold visit (concat (map (\<lambda>j. map (Pair j) (fold_cols tu u i)) [0..<h])) s)"
    if i: "i < B" and t: "table h tu (fst s)" for i s
  proof (rule res_fold_visits [where h = h and tu = tu])
    have "i * u \<le> (B - 1) * u" using i by (intro mult_right_mono) auto
    then have iu: "i * u \<le> tu" using assms(5) by linarith
    show "map_cols (int tu) j [int i * int u..int i * int u + int u - 1] s = Inr (fold visit (map (Pair j) (fold_cols tu u i)) s)"
      if "j \<in> set [0..<h]" "table h tu (fst s)" for j s
      using map_cols_visits [of h tu "fst s" j "i * u" u "snd s"] that iu by (simp add: fold_cols_def)
  qed (use t in auto)
  show ?thesis unfolding map_blocks_def Let_def visits_def assms(1-4) nat_int
    by (rule res_fold_visits [where h = h and tu = tu, OF _ _ assms(6)]) (use 1 in auto)
qed

text \<open>A sequence of visits to distinct places hands out consecutive lines to the marked ones.\<close>

lemma visit_other: "(j, c) \<noteq> (j', c') \<Longrightarrow> j' < length (fst s) \<Longrightarrow> fst (visit (j, c) s) ! j' ! c' = fst s ! j' ! c'"
  by (cases "j = j'") (auto simp: visit_def split_beta nth_list_update)

lemma visits_other:
  assumes "(j, c) \<notin> set V" and "table h tu (fst s)" and "\<forall>jc \<in> set V. fst jc < h" and "j < h"
  shows "fst (fold visit V s) ! j ! c = fst s ! j ! c"
  using assms
proof (induction V arbitrary: s)
  case (Cons jc V)
  have t: "table h tu (fst (visit jc s))" using table_visit [of h tu s "fst jc" "snd jc"] Cons.prems by simp
  have "fst (visit jc s) ! j ! c = fst s ! j ! c"
    using visit_other [of "fst jc" "snd jc" j c s] Cons.prems by (auto simp: table_def)
  with Cons.IH [OF _ t] Cons.prems show ?case by simp
qed simp

lemma visits_value:
  assumes "distinct V" and "table h tu (fst s)" and "\<forall>(j, c) \<in> set V. j < h \<and> c < tu" and "snd s = line_addr b"
  shows "snd (fold visit V s) = line_addr (b + length V)"
    and "m < length V \<Longrightarrow> V ! m = (j, c) \<Longrightarrow>
      fst (fold visit V s) ! j ! c = (if fst s ! j ! c = 1 then line_addr (b + m) else fst s ! j ! c)"
proof -
  have "snd (fold visit V s) = line_addr (b + length V) \<and> (\<forall>m j c. m < length V \<longrightarrow> V ! m = (j, c) \<longrightarrow>
      fst (fold visit V s) ! j ! c = (if fst s ! j ! c = 1 then line_addr (b + m) else fst s ! j ! c))"
    using assms
  proof (induction V arbitrary: s b)
    case (Cons jc V)
    obtain j0 c0 where jc: "jc = (j0, c0)" by force
    let ?s = "visit jc s"
    have b: "j0 < h" "c0 < tu" "\<forall>jc \<in> set V. fst jc < h" "(j0, c0) \<notin> set V" using Cons.prems jc by auto
    have t: "table h tu (fst ?s)" using table_visit Cons.prems(2) b(1) jc by blast
    have a: "snd ?s = line_addr (Suc b)" using Cons.prems(4) by (simp add: jc visit_def split_beta line_addr_Suc)
    have IH: "snd (fold visit V ?s) = line_addr (Suc b + length V)"
      "\<And>m j c. m < length V \<Longrightarrow> V ! m = (j, c) \<Longrightarrow>
         fst (fold visit V ?s) ! j ! c = (if fst ?s ! j ! c = 1 then line_addr (Suc b + m) else fst ?s ! j ! c)"
      using Cons.IH [OF _ t _ a] Cons.prems by auto
    have "length (fst s) = h" "length (fst s ! j0) = tu" using Cons.prems(2) b(1) by (auto simp: table_def)
    then have z: "fst ?s ! j0 ! c0 = (if fst s ! j0 ! c0 = 1 then line_addr b else fst s ! j0 ! c0)"
      using b Cons.prems(4) by (auto simp: jc visit_def split_beta)
    have "fst (fold visit (jc # V) s) ! j ! c = (if fst s ! j ! c = 1 then line_addr (b + m) else fst s ! j ! c)"
      if m: "m < length (jc # V)" "(jc # V) ! m = (j, c)" for m j c
    proof (cases m)
      case 0
      then show ?thesis using m jc z visits_other [OF b(4) t b(3,1)] by auto
    next
      case (Suc k)
      then have k: "k < length V" "V ! k = (j, c)" using m by auto
      then have "(j, c) \<in> set V" by (metis nth_mem)
      then have "fst ?s ! j ! c = fst s ! j ! c"
        using visit_other [of j0 c0 j c s] b(4) Cons.prems(2,3) jc by (auto simp: table_def)
      with IH(2) [OF k] Suc show ?thesis by simp
    qed
    with IH(1) show ?case by auto
  qed simp
  then show "snd (fold visit V s) = line_addr (b + length V)"
    and "m < length V \<Longrightarrow> V ! m = (j, c) \<Longrightarrow>
      fst (fold visit V s) ! j ! c = (if fst s ! j ! c = 1 then line_addr (b + m) else fst s ! j ! c)" by auto
qed

text \<open>The visits cover the table, every place once.\<close>

lemma fold_block:
  "distinct (concat (map (\<lambda>j. map (Pair j) cs) [0..<h]))" if "distinct cs" for cs :: "nat list"
  using that by (induction h) (auto simp: distinct_map inj_on_def)

lemma set_visits: "set (visits tu u B h) = {(j, c). j < h \<and> c < min (B * u) tu}"
proof (induction B)
  case (Suc B)
  have "set (visits tu u (Suc B) h) = set (visits tu u B h) \<union> {(j, c). j < h \<and> c \<in> set (fold_cols tu u B)}"
    by (auto simp: visits_def)
  also have "set (visits tu u B h) = {(j, c). j < h \<and> c < min (B * u) tu}" by (rule Suc)
  also have "set (fold_cols tu u B) = {B * u..<min (B * u + u) tu}" by (simp only: fold_cols_def set_upt)
  also have "{(j, c). j < h \<and> c < min x tu} \<union> {(j, c). j < h \<and> c \<in> {x..<min (x + u) tu}} =
      {(j, c). j < h \<and> c < min (x + u) tu}" for x by auto
  finally show ?case by (simp add: add.commute)
qed (simp add: visits_def)

lemma distinct_visits: "distinct (visits tu u B h)"
proof (induction B)
  case (Suc B)
  let ?V = "concat (map (\<lambda>j. map (Pair j) (fold_cols tu u B)) [0..<h])"
  have "visits tu u (Suc B) h = visits tu u B h @ ?V" by (simp add: visits_def)
  moreover have "distinct ?V" by (rule fold_block) (simp add: fold_cols_def)
  moreover have "set (visits tu u B h) \<inter> set ?V = {}" by (auto simp: set_visits fold_cols_def)
  ultimately show ?case using Suc by simp
qed (simp add: visits_def)

lemma length_visits:
  assumes "tu \<le> B * u"
  shows "length (visits tu u B h) = h * tu"
proof -
  have "set (visits tu u B h) = {..<h} \<times> {..<tu}" using assms by (auto simp: set_visits)
  with distinct_card [OF distinct_visits, of tu u B h] show ?thesis by (simp add: card_cartesian_product)
qed

section \<open>The whole layout\<close>

text \<open>
  The layout in lines: the values, the row pointers and the columns of the engines, then the features.
\<close>

definition val_line :: "prep \<Rightarrow> nat \<Rightarrow> nat" where
  "val_line p = start_line 0 (\<lambda>i. lines_for (col_idx p ! i))"

definition row_line :: "prep \<Rightarrow> nat \<Rightarrow> nat" where
  "row_line p = start_line (val_line p (n_eng p)) (\<lambda>i. lines_for (row_ptr p ! i))"

definition col_line :: "prep \<Rightarrow> nat \<Rightarrow> nat" where
  "col_line p = start_line (row_line p (n_eng p)) (\<lambda>i. lines_for (col_idx p ! i))"

definition xw_line :: "prep \<Rightarrow> nat" where
  "xw_line p = col_line p (n_eng p)"

lemma val_line_simps [simp]: "val_line p 0 = 0" "val_line p (Suc i) = val_line p i + lines_for (col_idx p ! i)"
  and row_line_simps [simp]: "row_line p 0 = val_line p (n_eng p)" "row_line p (Suc i) = row_line p i + lines_for (row_ptr p ! i)"
  and col_line_simps [simp]: "col_line p 0 = row_line p (n_eng p)" "col_line p (Suc i) = col_line p i + lines_for (col_idx p ! i)"
  by (simp_all add: val_line_def row_line_def col_line_def)

lemma line_mono:
  "i \<le> j \<Longrightarrow> val_line p i \<le> val_line p j" "i \<le> j \<Longrightarrow> row_line p i \<le> row_line p j" "i \<le> j \<Longrightarrow> col_line p i \<le> col_line p j"
  by (simp_all add: val_line_def row_line_def col_line_def start_line_mono)

definition placed :: "prep \<Rightarrow> nat \<Rightarrow> DataIndex \<Rightarrow> DataIndex" where
  "placed p i d = d\<lparr>value_addr_start := line_addr (val_line p i), value_addr_end := line_addr (val_line p (Suc i)),
     row_addr_start := line_addr (row_line p i), row_addr_end := line_addr (row_line p (Suc i)),
     col_addr_start := line_addr (col_line p i), col_addr_end := line_addr (col_line p (Suc i))\<rparr>"

text \<open>The state with these arrays, a table of feature lines \<open>xs\<close> and the output from address \<open>a\<close> on.\<close>

definition laid :: "prep \<Rightarrow> u64 list list \<Rightarrow> u64 \<Rightarrow> prep" where
  "laid p xs a = upd_arch (\<lambda>ar. ar\<lparr>d_value_addr_start := 0, a_row_addr_start := line_addr (val_line p (n_eng p)),
       a_col_addr_start := line_addr (row_line p (n_eng p)), xw_ele_addr_start := line_addr (xw_line p), axw_addr_start := a\<rparr>)
     (p\<lparr>data_index := map (\<lambda>i. placed p i (data_index p ! i)) [0..<n_eng p], x_to_addr := xs\<rparr>)"

text \<open>Arrays for every engine, of a size for which the line counts are exact.\<close>

definition arrays_ok :: "prep \<Rightarrow> bool" where
  "arrays_ok p \<longleftrightarrow> length (row_ptr p) = n_eng p \<and> length (col_idx p) = n_eng p \<and> length (data_index p) = n_eng p \<and>
     (\<forall>i < n_eng p. length (row_ptr p ! i) < 2 ^ 24 \<and> length (col_idx p ! i) < 2 ^ 24)"

definition map_features :: "prep \<Rightarrow> (u64 list list \<times> u64) res" where
  "map_features p = (let s = (x_to_addr p, line_addr (xw_line p)) in
     case mode (arch_info p) of X_CMP \<Rightarrow> map_blocks p s | MAT \<Rightarrow> map_blocks p s | CSR \<Rightarrow> map_csr p s | X_FULL_CMP \<Rightarrow> map_full p s)"

lemma AddressMapping_laid:
  assumes "arrays_ok p" and "map_features p = Inr (xs, a)"
  shows "AddressMapping p = Inr (laid p xs a)"
proof -
  let ?n = "n_eng p" and ?cf = "\<lambda>i. lines_for (col_idx p ! i)" and ?rf = "\<lambda>i. lines_for (row_ptr p ! i)"
  note m = assms(1) [unfolded arrays_ok_def]
  have f: "frags (row_ptr p) ?n = Inr (map (\<lambda>i. int (?rf i)) [0..<?n])" "frags (col_idx p) ?n = Inr (map (\<lambda>i. int (?cf i)) [0..<?n])"
    using m by (simp_all add: frags_ok)
  have v: "place upd (map (\<lambda>i. int (?cf i)) [0..<?n]) ?n (ds, 0) =
      Inr (map (\<lambda>i. upd (line_addr (val_line p i)) (line_addr (val_line p (Suc i))) (ds ! i)) [0..<?n], line_addr (val_line p ?n))"
    if "length ds = ?n" for ds upd
    using place_ok [of ?n ds upd ?cf 0] that by (simp add: val_line_def)
  have r: "place upd (map (\<lambda>i. int (?rf i)) [0..<?n]) ?n (ds, line_addr (val_line p ?n)) =
      Inr (map (\<lambda>i. upd (line_addr (row_line p i)) (line_addr (row_line p (Suc i))) (ds ! i)) [0..<?n], line_addr (row_line p ?n))"
    if "length ds = ?n" for ds upd
    using place_ok [of ?n ds upd ?rf "val_line p ?n"] that by (simp add: row_line_def)
  have c: "place upd (map (\<lambda>i. int (?cf i)) [0..<?n]) ?n (ds, line_addr (row_line p ?n)) =
      Inr (map (\<lambda>i. upd (line_addr (col_line p i)) (line_addr (col_line p (Suc i))) (ds ! i)) [0..<?n], line_addr (col_line p ?n))"
    if "length ds = ?n" for ds upd
    using place_ok [of ?n ds upd ?cf "row_line p ?n"] that by (simp add: col_line_def)
  show ?thesis
    unfolding AddressMapping_def Let_def f
    using m assms(2) [unfolded map_features_def Let_def xw_line_def] by (simp add: v r c laid_def placed_def xw_line_def cong: map_cong)
qed

text \<open>What the mapping of the modes \<open>MAT\<close> and \<open>X_CMP\<close> needs: a table of marks that the folds cover.\<close>

definition mappable :: "prep \<Rightarrow> nat \<Rightarrow> nat \<Rightarrow> nat \<Rightarrow> nat \<Rightarrow> bool" where
  "mappable p tu u B h \<longleftrightarrow> (mode (arch_info p) = MAT \<or> mode (arch_info p) = X_CMP) \<and>
     urb (arch_info p) = int u \<and> total_urb (data_info p) = int tu \<and> bf (arch_info p) = int B \<and> x_h (data_info p) = int h \<and>
     (B - 1) * u \<le> tu \<and> tu \<le> B * u \<and> table h tu (x_to_addr p) \<and> arrays_ok p"

definition mapped :: "prep \<Rightarrow> nat \<Rightarrow> nat \<Rightarrow> nat \<Rightarrow> nat \<Rightarrow> prep" where
  "mapped p tu u B h = laid p (fst (fold visit (visits tu u B h) (x_to_addr p, line_addr (xw_line p)))) (line_addr (xw_line p + h * tu))"

lemma AddressMapping_ok:
  assumes "mappable p tu u B h"
  shows "AddressMapping p = Inr (mapped p tu u B h)"
proof -
  note m = assms [unfolded mappable_def]
  let ?V = "visits tu u B h" and ?s = "(x_to_addr p, line_addr (xw_line p))"
  have b: "map_blocks p ?s = Inr (fold visit ?V ?s)" using m by (intro map_blocks_visits) auto
  have "snd (fold visit ?V ?s) = line_addr (xw_line p + length ?V)"
    using m by (intro visits_value(1) [OF distinct_visits, of h tu]) (auto simp: set_visits)
  then have e: "fold visit ?V ?s = (fst (fold visit ?V ?s), line_addr (xw_line p + h * tu))"
    using m length_visits by (simp add: prod_eq_iff)
  have "map_features p = Inr (fst (fold visit ?V ?s), line_addr (xw_line p + h * tu))"
    using m b e by (auto simp: map_features_def Let_def)
  then show ?thesis using AddressMapping_laid [of p] m by (simp add: mapped_def)
qed

end
