(* ===== verification/Prep_Marks.thy ===== *)
theory Prep_Marks
  imports Prep_Layout
begin

text \<open>
  The marks \<open>TransXW\<close> leaves in the address table: in the mode \<open>MAT\<close> a full table of ones; in the mode
  \<open>X_CMP\<close> the marks that the loop over the columns of a row has made before it reads past the end of the row.
\<close>

section \<open>One row after the other\<close>

lemma each_row_ok:
  assumes "length (x_to_addr p) = nat (x_h (data_info p))" and "nat (x_h (data_info p)) \<le> length (xw p)" and "0 < x_w (data_info p)"
    and "\<And>i. i < nat (x_h (data_info p)) \<Longrightarrow> f (xw p ! i) (x_to_addr p ! i) = Inr (g i)"
  shows "each_row p f = Inr (p\<lparr>x_to_addr := map g [0..<nat (x_h (data_info p))]\<rparr>)"
proof -
  have "res_fold (\<lambda>i xs. res_bind (vget xs i) (\<lambda>row. res_bind (if 0 < x_w (data_info p) then vget (xw p) i else Inr []) (\<lambda>xr.
       res_bind (f xr row) (\<lambda>row'. vset xs i row')))) [0..<m] (x_to_addr p) = Inr (map g [0..<m] @ drop m (x_to_addr p))"
    if "m \<le> nat (x_h (data_info p))" for m
    using that
  proof (induction m)
    case (Suc m)
    have m: "m < length (x_to_addr p)" "m < length (xw p)" using Suc.prems assms by auto
    have "(map g [0..<m] @ drop m (x_to_addr p)) ! m = x_to_addr p ! m"
      "(map g [0..<m] @ drop m (x_to_addr p))[m := v] = map g [0..<m] @ v # drop (Suc m) (x_to_addr p)" for v
      using m by (auto simp: nth_append list_update_append Cons_nth_drop_Suc [symmetric])
    with Suc m assms(3) assms(4) [of m] show ?case by (simp add: res_fold_snoc)
  qed simp
  from this [of "nat (x_h (data_info p))"] assms(1) show ?thesis by (simp add: each_row_def)
qed

lemma trans_mat_ok:
  assumes "x_to_addr p = replicate (nat (x_h (data_info p))) []" and "0 \<le> x_w (data_info p)" and "x_w (data_info p) < 2 ^ 24"
  shows "trans_mat p = Inr (p\<lparr>x_to_addr := replicate (nat (x_h (data_info p))) (replicate (nat (ceil_div (x_w (data_info p)) 16)) 1)\<rparr>)"
proof -
  let ?r = "replicate (nat (ceil_div (x_w (data_info p)) 16)) (1::u64)"
  have "res_fold (\<lambda>i xs. res_bind (vget xs i) (\<lambda>row. vset xs i (row @ ?r))) [0..<m] (replicate h []) =
      Inr (replicate m ?r @ replicate (h - m) [])" if "m \<le> h" for m h
    using that
  proof (induction m)
    case (Suc m)
    then have "h - m = Suc (h - Suc m)" by simp
    moreover have "(replicate m ?r @ replicate (h - m) []) ! m = []"
      "(replicate m ?r @ replicate (Suc (h - Suc m)) [])[m := v] = replicate m ?r @ v # replicate (h - Suc m) []" for v
      using Suc.prems by (auto simp: nth_append list_update_append)
    moreover have "replicate (Suc m) ?r = replicate m ?r @ [?r]" by (simp only: replicate_append_same replicate_Suc)
    ultimately show ?case using Suc by (simp add: res_fold_snoc del: replicate_Suc)
  qed simp
  from this [of "nat (x_h (data_info p))" "nat (x_h (data_info p))"] assms show ?thesis
    by (simp add: trans_mat_def ceil_fdiv_exact CACHE_LINE_COUNT_def)
qed

section \<open>Compressed rows in the mode \<open>X_CMP\<close>\<close>

lemma push_units_eq: "push_units k n row = row @ map (\<lambda>i. if n - 16 * int i > 0 then 1 else 0) [0..<k]"
proof (induction k arbitrary: n row)
  case (Suc k)
  have "map (\<lambda>i. if n - 16 * int i > 0 then 1 else 0) [0..<Suc k] =
      (if n > 0 then 1 else 0) # map (\<lambda>i. if n - 16 - 16 * int i > 0 then 1 else (0::u64)) [0..<k]"
    by (simp add: upt_conv_Cons map_Suc_upt [symmetric] del: upt_Suc)
  then show ?case by (simp add: Suc CACHE_LINE_COUNT_def del: upt_Suc)
qed simp

text \<open>A row of marks: \<open>N\<close> blocks of \<open>u\<close> lines, the first line of every block marked.\<close>

definition marks :: "nat \<Rightarrow> nat \<Rightarrow> u64 list \<Rightarrow> bool" where
  "marks u N row \<longleftrightarrow> length row = N * u \<and> set row \<subseteq> {0, 1} \<and> (\<forall>v < N. row ! (v * u) = 1)"

lemma marks_push:
  assumes "marks u N row" and "0 < n" and "0 < u"
  shows "marks u (Suc N) (push_units u n row)"
proof -
  let ?new = "map (\<lambda>i. if n - 16 * int i > 0 then 1 else (0::u64)) [0..<u]"
  have l: "length row = N * u" using assms(1) by (simp add: marks_def)
  have "(row @ ?new) ! (v * u) = 1" if "v < Suc N" for v
  proof (cases "v < N")
    case True
    then have "v * u < length row" using l assms(3) by simp
    with True assms(1) show ?thesis by (simp add: nth_append marks_def)
  next
    case False
    with that have "v = N" by simp
    then show ?thesis using l assms(2,3) by (simp add: nth_append)
  qed
  with assms(1) l show ?thesis by (auto simp: marks_def push_units_eq)
qed

text \<open>The number of blocks after column \<open>j\<close> of \<open>w\<close>, with \<open>X\<close> columns per block.\<close>

definition blocks :: "int \<Rightarrow> int \<Rightarrow> int \<Rightarrow> nat" where
  "blocks X w j = nat (if j = w then (w - 1) div X + 1 else j div X)"

lemma blocks_step:
  assumes "0 < X" and "1 \<le> j" and "j \<le> w"
  shows "blocks X w j = (if j mod X = 0 \<or> j = w then Suc (blocks X w (j - 1)) else blocks X w (j - 1))"
proof -
  have p: "blocks X w (j - 1) = nat ((j - 1) div X)" "0 \<le> (j - 1) div X"
    using assms by (auto simp: blocks_def pos_imp_zdiv_nonneg_iff)
  show ?thesis
  proof (cases "j = w")
    case True
    then show ?thesis using p by (simp add: blocks_def nat_add_distrib)
  next
    case False
    have "j div X = (if j mod X = 0 then (j - 1) div X + 1 else (j - 1) div X)"
    proof (cases "j mod X = 0")
      case True
      then obtain q where j: "j = X * q" by auto
      have "(X * q - 1) div X = q - 1"
        using assms(1) by (intro int_div_pos_eq [where r = "X - 1"]) (auto simp: algebra_simps)
      then show ?thesis using True assms(1) by (simp add: j)
    next
      case False
      have "1 \<le> j mod X" "j mod X < X" using assms(1) False pos_mod_sign [of X j] pos_mod_bound [of X j] by linarith+
      moreover have "j - 1 = X * (j div X) + (j mod X - 1)" by simp
      ultimately have "(j - 1) div X = j div X" by (intro int_div_pos_eq [where r = "j mod X - 1"]) auto
      then show ?thesis using False by simp
    qed
    then show ?thesis using False p by (simp add: blocks_def nat_add_distrib)
  qed
qed

lemma x_cmp_loop:
  assumes X: "x_unit (arch_info p) = X" "0 < X" and w: "x_w (data_info p) = w" and u: "urb (arch_info p) = int u" "0 < u"
    and tu: "total_urb (data_info p) - (bf (arch_info p) - 1) * int u = int u" and c0: "0 < c0"
    and "0 \<le> j" "j \<le> w" "nat j < length xr" and "0 < w"
  shows "\<exists>row n. res_fold (x_cmp_step p c0 xr) [1..j] ([], c0) = Inr (row, n) \<and> marks u (blocks X w j) row \<and> 0 < n"
  using assms(8-10)
proof (induction "nat j" arbitrary: j)
  case 0
  then have "j = 0" by simp
  then show ?case using c0 assms(11) by (auto simp: marks_def blocks_def)
next
  case (Suc k)
  then have k: "k = nat (j - 1)" "0 \<le> j - 1" "j - 1 \<le> w" "1 \<le> j" by auto
  from Suc.hyps(1) [OF k(1-3)] Suc.prems(3) k(2) obtain row n where
    IH: "res_fold (x_cmp_step p c0 xr) [1..j - 1] ([], c0) = Inr (row, n)" "marks u (blocks X w (j - 1)) row" "0 < n" by fastforce
  have v: "vgeti xr j = Inr (xr ! nat j)" using Suc.prems(3) k(4) by (simp add: vgeti_def)
  have m: "cmod j X = Inr (j mod X)" using X(2) k(4) by (simp add: cmod_def smod_nonneg)
  have b: "blocks X w j = (if j mod X = 0 \<or> j = w then Suc (blocks X w (j - 1)) else blocks X w (j - 1))"
    by (rule blocks_step [OF X(2) k(4) Suc.prems(2)])
  have s: "[1..j] = [1..j - 1] @ [j]" using k(4) by (simp add: upto_rec2)
  have "x_cmp_step p c0 xr j (row, n) =
      (if j mod X = 0 \<or> j = w then Inr (push_units u n row, if xr ! nat j \<noteq> 0 then c0 + 1 else c0) else Inr (row, if xr ! nat j \<noteq> 0 then n + 1 else n))"
    using X(1) w u(1) tu v m by (simp add: x_cmp_step_def Let_def)
  then show ?case
    using IH b marks_push [OF IH(2,3) u(2)] c0 unfolding s res_fold_snoc by auto
qed

section \<open>The table of marks\<close>

lemma TransXW_mat:
  assumes "mode (arch_info p) = MAT" and "x_to_addr p = replicate (nat (x_h (data_info p))) []"
    and "0 \<le> x_w (data_info p)" and "x_w (data_info p) < 2 ^ 24"
  shows "TransXW p = Inr (p\<lparr>x_to_addr := replicate (nat (x_h (data_info p))) (replicate (nat (ceil_div (x_w (data_info p)) 16)) 1), xw := []\<rparr>)"
  using assms trans_mat_ok [OF assms(2-4)] by (simp add: TransXW_def)

end
