(* ===== verification/Prep_Rows.thy ===== *)
theory Prep_Rows
  imports Prep_Marks
begin

text \<open>
  The modes \<open>CSR\<close> and \<open>X_FULL_CMP\<close>: the rows \<open>TransXW\<close> leaves in the address table, whose lengths follow from
  the numbers of non-zero elements, and the addresses \<open>AddressMapping\<close> gives to all their entries.
\<close>

section \<open>The rows\<close>

definition nonzeros :: "int \<Rightarrow> int list \<Rightarrow> nat" where
  "nonzeros w xr = length (filter (\<lambda>v. v \<noteq> 0) (take (nat w) xr))"

lemma nonzeros_le: "nonzeros w xr \<le> nat w"
  unfolding nonzeros_def using length_filter_le [of "\<lambda>v. v \<noteq> 0" "take (nat w) xr"] by simp

lemma count_nonzero_ok:
  assumes "0 \<le> w" and "nat w \<le> length xr"
  shows "count_nonzero xr w n = Inr (n + int (nonzeros w xr))"
proof -
  have "res_fold (\<lambda>j n. res_bind (vgeti xr j) (\<lambda>v. Inr (if v \<noteq> 0 then n + 1 else n))) [0..int k - 1] n =
      Inr (n + int (length (filter (\<lambda>v. v \<noteq> 0) (take k xr))))" if "k \<le> length xr" for k
    using that
  proof (induction k)
    case (Suc k)
    have "[0..int (Suc k) - 1] = [0..int k - 1] @ [int k]" using upto_rec2 [of 0 "int k"] by simp
    moreover have "vgeti xr (int k) = Inr (xr ! k)" using Suc.prems by (simp add: vgeti_def)
    moreover have "take (Suc k) xr = take k xr @ [xr ! k]" using Suc.prems by (simp add: take_Suc_conv_app_nth)
    ultimately show ?case using Suc by (simp add: res_fold_snoc)
  qed simp
  from this [of "nat w"] assms show ?thesis by (simp add: count_nonzero_def nonzeros_def)
qed

lemma csr_row_ok:
  assumes "0 < x_w (data_info p)" and "x_w (data_info p) < 2 ^ 16" and "nat (x_w (data_info p)) \<le> length xr"
    and "0 < nonzeros (x_w (data_info p)) xr"
  shows "\<exists>r n. csr_row p xr [] = Inr r \<and> 0 < n \<and> n \<le> 2 ^ 16 \<and> length r = 2 * n + 2"
proof -
  let ?n = "nonzeros (x_w (data_info p)) xr"
  have b: "int ?n < 2 ^ 24" "?n \<le> 2 ^ 16" using nonzeros_le [of "x_w (data_info p)" xr] assms(1,2) by auto
  have "ceil_fdiv (int ?n) CACHE_LINE_COUNT = Inr (ceil_div (int ?n) 16)"
    using b by (simp add: ceil_fdiv_exact CACHE_LINE_COUNT_def)
  moreover have "0 < ceil_div (int ?n) 16" using assms(4) by (simp add: ceil_div_pos)
  moreover have "ceil_div (int ?n) 16 \<le> 2 ^ 16" using b(2) unfolding ceil_div_def by simp
  ultimately show ?thesis using count_nonzero_ok [OF _ assms(3), of 0] assms(1)
    by (intro exI [of _ "[1] @ replicate (2 * nat (ceil_div (int ?n) 16)) 1 @ [of_int (int ?n)]"] exI [of _ "nat (ceil_div (int ?n) 16)"])
      (simp add: csr_row_def)
qed

lemma x_full_cmp_row_ok:
  assumes "0 < x_w (data_info p)" and "x_w (data_info p) < 2 ^ 16" and "nat (x_w (data_info p)) \<le> length xr"
  shows "\<exists>r. x_full_cmp_row p xr [] = Inr r \<and> 2 \<le> length r \<and> length r \<le> 2 ^ 17"
proof -
  let ?w = "x_w (data_info p)" and ?n = "nonzeros (x_w (data_info p)) xr"
  let ?c = "ceil_div ?w 32 + int ?n"
  have c0: "ceil_fdiv ?w 32 = Inr (ceil_div ?w 32)" "0 < ceil_div ?w 32" "ceil_div ?w 32 \<le> 2 ^ 16"
    using assms(1,2) by (simp_all add: ceil_fdiv_exact ceil_div_pos) (simp add: ceil_div_def)
  have b: "int ?n \<le> ?w" using nonzeros_le [of ?w xr] assms(1) by linarith
  have "ceil_fdiv ?c CACHE_LINE_COUNT = Inr (ceil_div ?c 16)"
    using b c0 assms(1,2) by (simp add: ceil_fdiv_exact CACHE_LINE_COUNT_def)
  moreover have "0 < ceil_div ?c 16" using c0(2) by (intro ceil_div_pos) simp_all
  moreover have "ceil_div ?c 16 \<le> 2 ^ 16" using b c0(3) assms(2) unfolding ceil_div_def by linarith
  ultimately show ?thesis using count_nonzero_ok [OF _ assms(3), of "ceil_div ?w 32"] assms(1) c0(1)
    by (intro exI [of _ "[1] @ replicate (nat (ceil_div ?c 16)) 1"]) (auto simp: x_full_cmp_row_def)
qed

text \<open>The table after \<open>TransXW\<close>: nothing else is changed.\<close>

lemma each_row_exists:
  assumes "x_to_addr p = replicate (nat (x_h (data_info p))) []" and "nat (x_h (data_info p)) \<le> length (xw p)" and "0 < x_w (data_info p)"
    and "\<And>i. i < nat (x_h (data_info p)) \<Longrightarrow> \<exists>r. f (xw p ! i) [] = Inr r \<and> P r"
  shows "\<exists>t. each_row p f = Inr (p\<lparr>x_to_addr := t\<rparr>) \<and> length t = nat (x_h (data_info p)) \<and> (\<forall>r \<in> set t. P r)"
proof -
  obtain g where g: "\<And>i. i < nat (x_h (data_info p)) \<Longrightarrow> f (xw p ! i) [] = Inr (g i) \<and> P (g i)" using assms(4) by metis
  from each_row_ok [of p f g] assms(1-3) g have "each_row p f = Inr (p\<lparr>x_to_addr := map g [0..<nat (x_h (data_info p))]\<rparr>)" by simp
  with g show ?thesis by (intro exI [of _ "map g [0..<nat (x_h (data_info p))]"]) auto
qed

section \<open>The addresses of the heads\<close>

definition in_lines :: "nat \<Rightarrow> nat \<Rightarrow> u64 \<Rightarrow> bool" where
  "in_lines lo hi a \<longleftrightarrow> (\<exists>x. lo \<le> x \<and> x \<le> hi \<and> a = line_addr x)"

lemma in_lines_mono: "in_lines lo hi a \<Longrightarrow> lo' \<le> lo \<Longrightarrow> hi \<le> hi' \<Longrightarrow> in_lines lo' hi' a"
  unfolding in_lines_def by (metis order_trans)

lemma map_heads_ok:
  assumes "0 < per" and "\<forall>r \<in> set xs. r \<noteq> []"
  shows "\<exists>ys k. map_heads per (length xs) (xs, line_addr b) = Inr (ys, line_addr (b + k)) \<and> k \<le> length xs \<and> length ys = length xs \<and>
    (\<forall>i < length xs. \<exists>a. in_lines b (b + k) a \<and> ys ! i = (xs ! i)[0 := a])"
proof -
  let ?f = "\<lambda>i (xs, a). res_bind (vget xs i) (\<lambda>row. res_bind (vset row 0 a) (\<lambda>row'.
     res_bind (cmod (int i + 1) per) (\<lambda>m. Inr (xs[i := row'], if m = 0 then a + CACHE_LINE_BYTE else a))))"
  have "\<exists>ys k. res_fold ?f [0..<m] (xs, line_addr b) = Inr (ys, line_addr (b + k)) \<and> k \<le> m \<and> length ys = length xs \<and>
      (\<forall>i < m. \<exists>a. in_lines b (b + k) a \<and> ys ! i = (xs ! i)[0 := a]) \<and> (\<forall>i. m \<le> i \<longrightarrow> i < length xs \<longrightarrow> ys ! i = xs ! i)"
    if "m \<le> length xs" for m
    using that
  proof (induction m)
    case (Suc m)
    then obtain ys k where y: "res_fold ?f [0..<m] (xs, line_addr b) = Inr (ys, line_addr (b + k))" "k \<le> m" "length ys = length xs"
      "\<And>i. i < m \<Longrightarrow> \<exists>a. in_lines b (b + k) a \<and> ys ! i = (xs ! i)[0 := a]" "\<And>i. m \<le> i \<Longrightarrow> i < length xs \<Longrightarrow> ys ! i = xs ! i" by auto
    have m: "m < length xs" "ys ! m = xs ! m" "xs ! m \<noteq> []" using Suc.prems y(5) assms(2) by auto
    obtain r where r: "cmod (int m + 1) per = Inr r" using assms(1) by (auto simp: cmod_def)
    define k' where "k' = (if r = 0 then Suc k else k)"
    have "?f m (ys, line_addr (b + k)) = Inr (ys[m := (xs ! m)[0 := line_addr (b + k)]], line_addr (b + k'))"
      using m y(3) r by (simp add: k'_def line_addr_Suc)
    then have "res_fold ?f [0..<Suc m] (xs, line_addr b) = Inr (ys[m := (xs ! m)[0 := line_addr (b + k)]], line_addr (b + k'))"
      using y(1) by (simp add: res_fold_snoc)
    moreover have "k \<le> k'" "k' \<le> Suc m" using y(2) by (auto simp: k'_def)
    moreover have "in_lines b (b + k') (line_addr (b + k))" using \<open>k \<le> k'\<close> unfolding in_lines_def by (intro exI [of _ "b + k"]) simp
    moreover have "\<exists>a. in_lines b (b + k') a \<and> ys[m := (xs ! m)[0 := line_addr (b + k)]] ! i = (xs ! i)[0 := a]" if "i < Suc m" for i
    proof (cases "i = m")
      case True
      with \<open>in_lines b (b + k') (line_addr (b + k))\<close> m(1) y(3) show ?thesis by auto
    next
      case False
      with y(4) [of i] that obtain a where "in_lines b (b + k) a" "ys ! i = (xs ! i)[0 := a]" by auto
      with False in_lines_mono [of b "b + k" a b "b + k'"] \<open>k \<le> k'\<close> show ?thesis by auto
    qed
    ultimately show ?case using y(3,5) by (intro exI [of _ "ys[m := (xs ! m)[0 := line_addr (b + k)]]"] exI [of _ k']) auto
  qed auto
  from this [of "length xs"] show ?thesis unfolding map_heads_def by auto
qed

section \<open>The lines of X_FULL_CMP\<close>

lemma line_addr_add: "line_addr x + CACHE_LINE_BYTE * of_nat n = line_addr (x + n)"
  using line_addr_step [of x n] by (simp add: CACHE_LINE_BYTE_def mult.commute)

lemma full_rows_ok:
  assumes "\<forall>r \<in> set xs. length r \<le> K"
  shows "\<exists>ys k. res_fold (\<lambda>i (xs, a). res_bind (vget xs i) (\<lambda>row.
       Inr (xs[i := map (\<lambda>j. a + CACHE_LINE_BYTE * of_nat j) [0..<length row]], a + CACHE_LINE_BYTE * of_nat (length row))))
       [0..<length xs] (xs, line_addr b) = Inr (ys, line_addr (b + k)) \<and> k \<le> length xs * K \<and> length ys = length xs \<and>
    (\<forall>i < length xs. length (ys ! i) = length (xs ! i) \<and> (\<forall>a \<in> set (ys ! i). in_lines b (b + k) a))"
proof -
  let ?f = "\<lambda>i (xs, a). res_bind (vget xs i) (\<lambda>row.
     Inr (xs[i := map (\<lambda>j. a + CACHE_LINE_BYTE * of_nat j) [0..<length row]], a + CACHE_LINE_BYTE * of_nat (length row)))"
  have "\<exists>ys k. res_fold ?f [0..<m] (xs, line_addr b) = Inr (ys, line_addr (b + k)) \<and> k \<le> m * K \<and> length ys = length xs \<and>
      (\<forall>i < m. length (ys ! i) = length (xs ! i) \<and> (\<forall>a \<in> set (ys ! i). in_lines b (b + k) a)) \<and>
      (\<forall>i. m \<le> i \<longrightarrow> i < length xs \<longrightarrow> ys ! i = xs ! i)"
    if "m \<le> length xs" for m
    using that
  proof (induction m)
    case (Suc m)
    then obtain ys k where y: "res_fold ?f [0..<m] (xs, line_addr b) = Inr (ys, line_addr (b + k))" "k \<le> m * K" "length ys = length xs"
      "\<And>i. i < m \<Longrightarrow> length (ys ! i) = length (xs ! i) \<and> (\<forall>a \<in> set (ys ! i). in_lines b (b + k) a)"
      "\<And>i. m \<le> i \<Longrightarrow> i < length xs \<Longrightarrow> ys ! i = xs ! i" by auto
    let ?n = "length (xs ! m)" and ?r = "map (\<lambda>j. line_addr (b + k + j)) [0..<length (xs ! m)]"
    have m: "m < length xs" "ys ! m = xs ! m" "?n \<le> K" using Suc.prems y(5) assms by auto
    have "?f m (ys, line_addr (b + k)) = Inr (ys[m := ?r], line_addr (b + (k + ?n)))"
      using m y(3) by (simp add: line_addr_add add.assoc)
    then have "res_fold ?f [0..<Suc m] (xs, line_addr b) = Inr (ys[m := ?r], line_addr (b + (k + ?n)))"
      using y(1) by (simp add: res_fold_snoc)
    moreover have "k + ?n \<le> Suc m * K" using y(2) m(3) by simp
    moreover have "in_lines b (b + (k + ?n)) a" if a: "a \<in> set ?r" for a
    proof -
      from a obtain j where "j < ?n" "a = line_addr (b + k + j)" by auto
      then show ?thesis unfolding in_lines_def by (intro exI [of _ "b + k + j"]) simp
    qed
    moreover have "in_lines b (b + (k + ?n)) a" if "i < m" "a \<in> set (ys ! i)" for i a
      using y(4) [OF that(1)] that(2) by (auto intro: in_lines_mono)
    ultimately show ?case using y(3-5) m(1)
      by (intro exI [of _ "ys[m := ?r]"] exI [of _ "k + ?n"]) (auto simp: nth_list_update less_Suc_eq)
  qed auto
  from this [of "length xs"] show ?thesis by auto
qed

lemma map_full_ok:
  assumes "x_h (data_info p) = int (length xs)" and "0 < x_w (data_info p)" and "x_w (data_info p) \<le> 512"
    and "\<forall>r \<in> set xs. 2 \<le> length r \<and> length r \<le> K"
  shows "\<exists>ys k. map_full p (xs, line_addr b) = Inr (ys, line_addr (b + k)) \<and> k \<le> length xs * (K + 1) \<and> length ys = length xs \<and>
    (\<forall>r \<in> set ys. 2 \<le> length r \<and> (\<forall>a \<in> set r. in_lines b (b + k) a))"
proof -
  let ?c = "ceil_div (x_w (data_info p)) 32"
  have c: "ceil_fdiv (x_w (data_info p)) 32 = Inr ?c" "0 < ?c" "?c \<le> 16"
    using assms(2,3) by (simp_all add: ceil_fdiv_exact ceil_div_pos) (simp add: ceil_div_def)
  have "\<forall>r \<in> set xs. r \<noteq> []" using assms(4) by force
  moreover have "0 < CACHE_LINE_COUNT sdiv ?c"
    using c(2,3) by (simp add: CACHE_LINE_COUNT_def sdiv_nonneg pos_imp_zdiv_pos_iff)
  ultimately obtain ys k where y: "map_heads (CACHE_LINE_COUNT sdiv ?c) (length xs) (xs, line_addr b) = Inr (ys, line_addr (b + k))"
    "k \<le> length xs" "length ys = length xs" "\<And>i. i < length xs \<Longrightarrow> length (ys ! i) = length (xs ! i)"
    using map_heads_ok [of "CACHE_LINE_COUNT sdiv ?c" xs b] by (metis length_list_update)
  have "2 \<le> length (ys ! i) \<and> length (ys ! i) \<le> K" if "i < length ys" for i using y(3,4) that assms(4) by simp
  then have len: "\<forall>r \<in> set ys. length r \<le> K" "\<forall>r \<in> set ys. 2 \<le> length r" by (auto simp: in_set_conv_nth)
  from full_rows_ok [OF len(1), of "b + k"] obtain zs l where
    z: "res_fold (\<lambda>i (xs, a). res_bind (vget xs i) (\<lambda>row.
       Inr (xs[i := map (\<lambda>j. a + CACHE_LINE_BYTE * of_nat j) [0..<length row]], a + CACHE_LINE_BYTE * of_nat (length row))))
       [0..<length ys] (ys, line_addr (b + k)) = Inr (zs, line_addr (b + k + l))" "l \<le> length ys * K" "length zs = length ys"
    "\<And>i. i < length ys \<Longrightarrow> length (zs ! i) = length (ys ! i) \<and> (\<forall>a \<in> set (zs ! i). in_lines (b + k) (b + k + l) a)" by blast
  have "map_full p (xs, line_addr b) = Inr (zs, line_addr (b + (k + l)))"
    using c(1,2) y(1) z(1) assms(1) y(3) by (simp add: map_full_def Let_def add.assoc)
  moreover have "k + l \<le> length xs * (K + 1)" using y(2,3) z(2) by simp
  moreover have "2 \<le> length r \<and> (\<forall>a \<in> set r. in_lines b (b + (k + l)) a)" if "r \<in> set zs" for r
  proof -
    from that obtain i where "i < length ys" "r = zs ! i" using z(3) by (auto simp: in_set_conv_nth)
    with z(4) [of i] len(2) show ?thesis by (auto intro: in_lines_mono)
  qed
  ultimately show ?thesis using y(3) z(3) by (intro exI [of _ zs] exI [of _ "k + l"]) simp
qed

section \<open>The lines of CSR\<close>

text \<open>One pass over a row writes every second entry from \<open>off\<close> on; the second pass also drops the count at the end.\<close>

lemma length_every_second: "length (fold (\<lambda>j r. r[j * 2 + off := f j]) [0..<n] row) = length row"
  by (induction n) auto

lemma nth_every_second:
  "k < length row \<Longrightarrow> fold (\<lambda>j r. r[j * 2 + off := f j]) [0..<n] row ! k =
     (if off \<le> k \<and> even (k - off) \<and> k < off + 2 * n then f ((k - off) div 2) else row ! k)"
proof (induction n)
  case (Suc n)
  have e: "fold (\<lambda>j r. r[j * 2 + off := f j]) [0..<Suc n] row = (fold (\<lambda>j r. r[j * 2 + off := f j]) [0..<n] row)[n * 2 + off := f n]" by simp
  show ?case
  proof (cases "k = n * 2 + off")
    case True
    with Suc.prems show ?thesis unfolding e by (simp add: length_every_second)
  next
    case False
    then have "(off \<le> k \<and> even (k - off) \<and> k < off + 2 * Suc n) = (off \<le> k \<and> even (k - off) \<and> k < off + 2 * n)" by presburger
    with False Suc show ?thesis unfolding e by simp
  qed
qed auto

definition csr_done :: "nat \<Rightarrow> bool \<Rightarrow> nat \<Rightarrow> nat \<Rightarrow> u64 list \<Rightarrow> u64 list \<Rightarrow> bool" where
  "csr_done off pop lo hi row row' \<longleftrightarrow> length row' = (if pop then length row - 1 else length row) \<and>
     (\<forall>k < length row'. if off \<le> k \<and> even (k - off) \<and> k < off + length row - 2 then in_lines lo hi (row' ! k) else row' ! k = row ! k)"

lemma csr_lines_ok:
  assumes "i < length xs" and "length (xs ! i) = 2 * n + 2" and "0 < n"
  shows "\<exists>row' x' acm'. csr_lines off pop i (xs, line_addr x, acm) = Inr (xs[i := row'], line_addr x', acm') \<and>
    x \<le> x' \<and> x' \<le> x + n \<and> csr_done off pop x (x + n) (xs ! i) row'"
proof -
  let ?row = "xs ! i" and ?f = "\<lambda>j. line_addr x + CACHE_LINE_BYTE * of_nat j"
  let ?r = "fold (\<lambda>j r. r[j * 2 + off := ?f j]) [0..<n] (xs ! i)" and ?acm = "acm + uint (last (xs ! i))"
  let ?x = "if ?acm smod CACHE_LINE_COUNT \<noteq> 0 then x + n - 1 else x + n"
  have prev: "line_addr (x + n) - CACHE_LINE_BYTE = line_addr (x + n - 1)" using assms(3) line_addr_Suc [of "x + n - 1"] by (simp add: algebra_simps)
  have c: "csr_lines off pop i (xs, line_addr x, acm) = Inr (xs[i := if pop then butlast ?r else ?r], line_addr ?x, ?acm)"
    using assms(1,2) prev by (simp add: csr_lines_def Let_def line_addr_add)
  have "csr_done off pop x (x + n) ?row (if pop then butlast ?r else ?r)"
    unfolding csr_done_def
  proof (intro conjI allI impI)
    show "length (if pop then butlast ?r else ?r) = (if pop then length ?row - 1 else length ?row)"
      by (simp add: length_every_second)
    fix k
    assume "k < length (if pop then butlast ?r else ?r)"
    then have k: "k < length ?row" "(if pop then butlast ?r else ?r) ! k = ?r ! k"
      by (auto simp: length_every_second nth_butlast split: if_splits)
    have "in_lines x (x + n) (?f ((k - off) div 2))" if "k < off + 2 * n" "off \<le> k"
      unfolding in_lines_def line_addr_add using that by (intro exI [of _ "x + (k - off) div 2"]) simp
    then show "if off \<le> k \<and> even (k - off) \<and> k < off + length ?row - 2 then in_lines x (x + n) ((if pop then butlast ?r else ?r) ! k)
        else (if pop then butlast ?r else ?r) ! k = ?row ! k"
      using assms(2) unfolding k(2) nth_every_second [OF k(1)] by auto
  qed
  with c show ?thesis using assms(3) by (intro exI [of _ "if pop then butlast ?r else ?r"] exI [of _ ?x] exI [of _ ?acm]) auto
qed

definition csr_shape :: "nat \<Rightarrow> u64 list \<Rightarrow> bool" where
  "csr_shape K r \<longleftrightarrow> (\<exists>n. 0 < n \<and> n \<le> K \<and> length r = 2 * n + 2)"

lemma csr_done_mono: "csr_done off pop lo hi r r' \<Longrightarrow> lo' \<le> lo \<Longrightarrow> hi \<le> hi' \<Longrightarrow> csr_done off pop lo' hi' r r'"
  unfolding csr_done_def using in_lines_mono [of lo hi _ lo' hi'] by metis

lemma csr_pass_ok:
  assumes "\<forall>r \<in> set xs. csr_shape K r"
  shows "\<exists>ys x' acm. res_fold (csr_lines off pop) [0..<length xs] (xs, line_addr x, 0) = Inr (ys, line_addr x', acm) \<and>
    x \<le> x' \<and> x' \<le> x + length xs * K \<and> length ys = length xs \<and>
    (\<forall>i < length xs. csr_done off pop x (x + length xs * K) (xs ! i) (ys ! i))"
proof -
  have "\<exists>ys x' acm. res_fold (csr_lines off pop) [0..<m] (xs, line_addr x, 0) = Inr (ys, line_addr x', acm) \<and>
      x \<le> x' \<and> x' \<le> x + m * K \<and> length ys = length xs \<and> (\<forall>i < m. csr_done off pop x (x + m * K) (xs ! i) (ys ! i)) \<and>
      (\<forall>i. m \<le> i \<longrightarrow> i < length xs \<longrightarrow> ys ! i = xs ! i)" if "m \<le> length xs" for m
    using that
  proof (induction m)
    case (Suc m)
    then obtain ys x1 acm where y: "res_fold (csr_lines off pop) [0..<m] (xs, line_addr x, 0) = Inr (ys, line_addr x1, acm)"
      "x \<le> x1" "x1 \<le> x + m * K" "length ys = length xs" "\<And>i. i < m \<Longrightarrow> csr_done off pop x (x + m * K) (xs ! i) (ys ! i)"
      "\<And>i. m \<le> i \<Longrightarrow> i < length xs \<Longrightarrow> ys ! i = xs ! i" by auto
    have "csr_shape K (xs ! m)" using Suc.prems assms by simp
    then obtain n where n: "0 < n" "n \<le> K" "length (xs ! m) = 2 * n + 2" by (auto simp: csr_shape_def)
    have m: "m < length ys" "ys ! m = xs ! m" using Suc.prems y(4,6) by auto
    with csr_lines_ok [of m ys n off pop x1 acm] n obtain r' x2 acm' where
      r: "csr_lines off pop m (ys, line_addr x1, acm) = Inr (ys[m := r'], line_addr x2, acm')" "x1 \<le> x2" "x2 \<le> x1 + n"
        "csr_done off pop x1 (x1 + n) (xs ! m) r'" by auto
    have b: "x2 \<le> x + Suc m * K" "x1 + n \<le> x + Suc m * K" using r(3) y(3) n(2) by simp_all
    have "csr_done off pop x (x + Suc m * K) (xs ! m) r'" by (rule csr_done_mono [OF r(4) y(2) b(2)])
    moreover have "csr_done off pop x (x + Suc m * K) (xs ! i) (ys ! i)" if "i < m" for i
      by (rule csr_done_mono [OF y(5) [OF that]]) simp_all
    ultimately have "\<forall>i < Suc m. csr_done off pop x (x + Suc m * K) (xs ! i) (ys[m := r'] ! i)"
      using m(1) by (auto simp: less_Suc_eq)
    moreover have "res_fold (csr_lines off pop) [0..<Suc m] (xs, line_addr x, 0) = Inr (ys[m := r'], line_addr x2, acm')"
      using y(1) r(1) by (simp add: res_fold_snoc)
    moreover have "x \<le> x2" using y(2) r(2) by simp
    ultimately show ?case using b(1) y(4,6)
      by (intro exI [of _ "ys[m := r']"] exI [of _ x2] exI [of _ acm']) (auto simp del: mult_Suc)
  qed auto
  from this [of "length xs"] show ?thesis by auto
qed

text \<open>The three passes: heads, columns, values.\<close>

lemma csr_row_final:
  assumes "csr_shape K r" and "in_lines lo hi a" and "csr_done 1 False lo hi (r[0 := a]) r1" and "csr_done 2 True lo hi r1 r2"
  shows "2 \<le> length r2 \<and> (\<forall>b \<in> set r2. in_lines lo hi b)"
proof -
  from assms(1) obtain n where n: "0 < n" "length r = 2 * n + 2" by (auto simp: csr_shape_def)
  have l: "length r1 = 2 * n + 2" "length r2 = 2 * n + 1" using assms(3,4) n by (auto simp: csr_done_def)
  have "in_lines lo hi (r2 ! k)" if k: "k < 2 * n + 1" for k
  proof -
    have 1: "if odd k then in_lines lo hi (r1 ! k) else r1 ! k = r[0 := a] ! k"
    proof -
      have "(1 \<le> k \<and> even (k - 1) \<and> k < 1 + length (r[0 := a]) - 2) = odd k" using k n(2) by (auto elim: oddE)
      then show ?thesis using assms(3) k n(2) l(1) unfolding csr_done_def by (metis (full_types) add_2_eq_Suc' less_SucI Suc_eq_plus1 add_Suc_right)
    qed
    have 2: "if 2 \<le> k \<and> even k then in_lines lo hi (r2 ! k) else r2 ! k = r1 ! k"
    proof -
      have "(2 \<le> k \<and> even (k - 2) \<and> k < 2 + length r1 - 2) = (2 \<le> k \<and> even k)" using k l(1) by auto
      then show ?thesis using assms(4) k l(2) unfolding csr_done_def by metis
    qed
    show ?thesis
    proof (cases "k = 0")
      case True
      with 1 2 assms(2) n(2) show ?thesis by (cases r) auto
    next
      case False
      with 1 2 show ?thesis by (cases "odd k") (auto elim!: evenE)
    qed
  qed
  then show ?thesis using l(2) n(1) by (auto simp: in_set_conv_nth)
qed

lemma map_csr_ok:
  assumes "x_h (data_info p) = int (length xs)" and "\<forall>r \<in> set xs. csr_shape K r"
  shows "\<exists>ys k. map_csr p (xs, line_addr b) = Inr (ys, line_addr (b + k)) \<and> k \<le> length xs * (2 * K + 1) \<and> length ys = length xs \<and>
    (\<forall>r \<in> set ys. 2 \<le> length r \<and> (\<forall>a \<in> set r. in_lines b (b + length xs * (2 * K + 1)) a))"
proof -
  let ?h = "length xs" and ?hi = "b + length xs * (2 * K + 1)"
  have "\<forall>r \<in> set xs. r \<noteq> []" using assms(2) by (fastforce simp: csr_shape_def)
  from map_heads_ok [OF _ this, of CACHE_LINE_COUNT b] obtain y0 k0 where
    y0: "map_heads CACHE_LINE_COUNT ?h (xs, line_addr b) = Inr (y0, line_addr (b + k0))" "k0 \<le> ?h" "length y0 = ?h"
      "\<And>i. i < ?h \<Longrightarrow> \<exists>a. in_lines b (b + k0) a \<and> y0 ! i = (xs ! i)[0 := a]" by (auto simp: CACHE_LINE_COUNT_def)
  have "csr_shape K (y0 ! i)" if "i < ?h" for i using y0(4) [OF that] assms(2) that by (auto simp: csr_shape_def)
  then have s0: "\<forall>r \<in> set y0. csr_shape K r" using y0(3) by (auto simp: in_set_conv_nth)
  from csr_pass_ok [OF s0, of 1 False "b + k0"] obtain y1 x1 acm1 where
    y1: "res_fold (csr_lines 1 False) [0..<length y0] (y0, line_addr (b + k0), 0) = Inr (y1, line_addr x1, acm1)" "b + k0 \<le> x1"
      "x1 \<le> b + k0 + length y0 * K" "length y1 = length y0"
      "\<And>i. i < length y0 \<Longrightarrow> csr_done 1 False (b + k0) (b + k0 + length y0 * K) (y0 ! i) (y1 ! i)" by blast
  have "csr_shape K (y1 ! i)" if "i < ?h" for i using y1(5) [of i] s0 that y0(3) by (auto simp: csr_shape_def csr_done_def)
  then have s1: "\<forall>r \<in> set y1. csr_shape K r" using y0(3) y1(4) by (auto simp: in_set_conv_nth)
  from csr_pass_ok [OF s1, of 2 True x1] obtain y2 x2 acm2 where
    y2: "res_fold (csr_lines 2 True) [0..<length y1] (y1, line_addr x1, 0) = Inr (y2, line_addr x2, acm2)" "x1 \<le> x2"
      "x2 \<le> x1 + length y1 * K" "length y2 = length y1"
      "\<And>i. i < length y1 \<Longrightarrow> csr_done 2 True x1 (x1 + length y1 * K) (y1 ! i) (y2 ! i)" by blast
  have hi: "b + k0 + length y0 * K \<le> ?hi" "x1 + length y1 * K \<le> ?hi" "x2 \<le> ?hi"
    using y0(2,3) y1(3,4) y2(3) by (simp_all add: algebra_simps)
  have "map_csr p (xs, line_addr b) = Inr (y2, line_addr x2)"
    using y0(1,3) y1(1,4) y2(1) assms(1) by (simp add: map_csr_def Let_def)
  moreover have "2 \<le> length (y2 ! i) \<and> (\<forall>a \<in> set (y2 ! i). in_lines b ?hi a)" if i: "i < ?h" for i
  proof -
    obtain a where a: "in_lines b (b + k0) a" "y0 ! i = (xs ! i)[0 := a]" using y0(4) [OF i] by blast
    have "csr_done 1 False b ?hi ((xs ! i)[0 := a]) (y1 ! i)"
      using csr_done_mono [OF y1(5) _ hi(1), of i b] i y0(3) a(2) by simp
    moreover have "csr_done 2 True b ?hi (y1 ! i) (y2 ! i)"
      using csr_done_mono [OF y2(5) _ hi(2), of i b] i y0(3) y1(2,4) by simp
    moreover have "in_lines b ?hi a" by (rule in_lines_mono [OF a(1)]) (use hi(1) in simp_all)
    ultimately show ?thesis using csr_row_final [of K "xs ! i"] assms(2) i by simp
  qed
  then have "\<forall>r \<in> set y2. 2 \<le> length r \<and> (\<forall>a \<in> set r. in_lines b ?hi a)" using y0(3) y1(4) y2(4) by (metis in_set_conv_nth)
  moreover have "x2 = b + (x2 - b)" "x2 - b \<le> ?h * (2 * K + 1)" using y1(2) y2(2) hi(3) by linarith+
  ultimately show ?thesis using y0(3) y1(4) y2(4) by (intro exI [of _ y2] exI [of _ "x2 - b"]) auto
qed

end
