(* ===== verification/Prep_Env.thy ===== *)
theory Prep_Env
  imports Prep_Rows Sim_System
begin

text \<open>
  The preprocessor establishes what the simulation relies on: the predicate \<open>env_ok\<close> of the main loop,
  for every mode but \<open>X_CMP\<close>, and the number of output lines the loop waits for.
\<close>

section \<open>The address layout\<close>

abbreviation env_of :: "prep \<Rightarrow> sim_env" where
  "env_of p \<equiv> sim_env.truncate p"

lemma env_of_fields [simp]:
  "arch_info (env_of p) = arch_info p" "data_info (env_of p) = data_info p" "row_ptr (env_of p) = row_ptr p"
  "col_idx (env_of p) = col_idx p" "x_to_addr (env_of p) = x_to_addr p" "data_index (env_of p) = data_index p"
  "davc_list (env_of p) = davc_list p"
  by (simp_all add: sim_env.truncate_def)

lemma laid_fields [simp]:
  "n_of_engine (arch_info (laid p xs a)) = n_of_engine (arch_info p)" "bf (arch_info (laid p xs a)) = bf (arch_info p)"
  "urb (arch_info (laid p xs a)) = urb (arch_info p)" "mode (arch_info (laid p xs a)) = mode (arch_info p)"
  "gnn_mode (arch_info (laid p xs a)) = gnn_mode (arch_info p)" "mem_type (arch_info (laid p xs a)) = mem_type (arch_info p)"
  "mem_output (arch_info (laid p xs a)) = mem_output (arch_info p)" "davc_list (laid p xs a) = davc_list p"
  "cache_ok (arch_info (laid p xs a)) = cache_ok (arch_info p)" "x_to_addr (laid p xs a) = xs"
  "data_info (laid p xs a) = data_info p" "row_ptr (laid p xs a) = row_ptr p" "col_idx (laid p xs a) = col_idx p"
  "xw_ele_addr_start (arch_info (laid p xs a)) = line_addr (xw_line p)"
  by (simp_all add: laid_def cache_ok_def)

lemma mapped_fields [simp]:
  "urb (arch_info (mapped p tu u B h)) = urb (arch_info p)" "data_info (mapped p tu u B h) = data_info p"
  by (simp_all add: mapped_def)

lemma region_lines:
  assumes "\<And>i. i < n \<Longrightarrow> st (d i) = line_addr (f i) \<and> en (d i) = line_addr (f (Suc i))"
    and "\<And>i j. i \<le> j \<Longrightarrow> f i \<le> f j" and "f n < 2 ^ 58"
  shows "region_chain st en (line_addr (f 0)) (line_addr (f n)) (map d [0..<n])"
proof -
  have b: "f i < 2 ^ 58" if "i \<le> n" for i using assms(2) [OF that] assms(3) by linarith
  have "line_addr (f 0) \<le> line_addr (f i) \<and> line_addr (f i) \<le> line_addr (f (Suc i)) \<and> line_addr (f (Suc i)) \<le> line_addr (f n)"
    if "i < n" for i
    using that b assms(2) [of 0 i] assms(2) [of i "Suc i"] assms(2) [of "Suc i" n] by (simp add: line_addr_le)
  moreover have "line_addr (f (Suc i)) \<le> line_addr (f j)" if "i < j" "j < n" for i j
    using that b assms(2) [of "Suc i" j] by (simp add: line_addr_le)
  ultimately show ?thesis unfolding region_chain_def using assms(1) by auto
qed

lemma layout_laid:
  assumes "xw_line p < 2 ^ 58"
  shows "layout_ok (env_of (laid p xs a))"
proof -
  let ?n = "n_eng p" and ?d = "\<lambda>i. placed p i (data_index p ! i)"
  have m: "val_line p ?n \<le> row_line p ?n" "row_line p ?n \<le> col_line p ?n"
    using line_mono(2) [of 0 ?n p] line_mono(3) [of 0 ?n p] by simp_all
  then have b: "val_line p ?n < 2 ^ 58" "row_line p ?n < 2 ^ 58" "col_line p ?n < 2 ^ 58"
    using assms by (auto simp: xw_line_def)
  have "region_chain value_addr_start value_addr_end (line_addr (val_line p 0)) (line_addr (val_line p ?n)) (map ?d [0..<?n])"
    "region_chain row_addr_start row_addr_end (line_addr (row_line p 0)) (line_addr (row_line p ?n)) (map ?d [0..<?n])"
    "region_chain col_addr_start col_addr_end (line_addr (col_line p 0)) (line_addr (col_line p ?n)) (map ?d [0..<?n])"
    using b line_mono by (intro region_lines; simp add: placed_def)+
  then show ?thesis using b m
    by (simp add: layout_ok_def laid_def Let_def xw_line_def line_addr_le)
qed

section \<open>The entries of the address table\<close>

lemma mapped_entry:
  assumes "mappable p tu u B h" and "j < h" and "c < tu"
  shows "\<exists>m < h * tu. visits tu u B h ! m = (j, c) \<and> x_to_addr (mapped p tu u B h) ! j ! c =
    (if x_to_addr p ! j ! c = 1 then line_addr (xw_line p + m) else x_to_addr p ! j ! c)"
proof -
  note m = assms(1) [unfolded mappable_def]
  have "(j, c) \<in> set (visits tu u B h)" using assms(2,3) m by (simp add: set_visits)
  then obtain k where k: "k < length (visits tu u B h)" "visits tu u B h ! k = (j, c)" by (metis in_set_conv_nth)
  have "fst (fold visit (visits tu u B h) (x_to_addr p, line_addr (xw_line p))) ! j ! c =
      (if x_to_addr p ! j ! c = 1 then line_addr (xw_line p + k) else x_to_addr p ! j ! c)"
    using visits_value(2) [where h = h and tu = tu and s = "(x_to_addr p, line_addr (xw_line p))" and b = "xw_line p",
        OF distinct_visits _ _ _ k] m
    by (simp add: set_visits)
  with k show ?thesis using m length_visits by (auto simp: mapped_def)
qed

lemma table_mapped:
  assumes "mappable p tu u B h"
  shows "table h tu (x_to_addr (mapped p tu u B h))"
  using table_visits [of h tu "(x_to_addr p, line_addr (xw_line p))" "visits tu u B h"] assms
  by (auto simp: mapped_def mappable_def set_visits)

text \<open>
  C10. The address layout. \<open>AddressMapping\<close> does not fail as long as no fold starts beyond the row; it
  lays out the value, row and column arrays of the engines one after the other below the features, and
  gives every marked feature line a line of its own between the start of the features and the start of
  the output; unmarked entries are left alone.
\<close>

theorem address_layout:
  assumes "mappable p tu u B h" and "xw_line p + h * tu < 2 ^ 58"
  shows "\<exists>p'. AddressMapping p = Inr p' \<and> layout_ok (env_of p') \<and>
    (\<forall>j < h. \<forall>c < tu. if x_to_addr p ! j ! c = 1
       then xw_ele_addr_start (arch_info p') \<le> x_to_addr p' ! j ! c \<and> x_to_addr p' ! j ! c < axw_addr_start (arch_info p')
       else x_to_addr p' ! j ! c = x_to_addr p ! j ! c) \<and>
    (\<forall>j < h. \<forall>c < tu. \<forall>j' < h. \<forall>c' < tu. x_to_addr p ! j ! c = 1 \<longrightarrow> x_to_addr p ! j' ! c' = 1 \<longrightarrow>
       x_to_addr p' ! j ! c = x_to_addr p' ! j' ! c' \<longrightarrow> j = j' \<and> c = c')"
proof (intro exI conjI allI impI)
  show "AddressMapping p = Inr (mapped p tu u B h)" by (rule AddressMapping_ok [OF assms(1)])
  show "layout_ok (env_of (mapped p tu u B h))" unfolding mapped_def by (rule layout_laid) (use assms(2) in simp)
  fix j c
  assume jc: "j < h" "c < tu"
  from mapped_entry [OF assms(1) jc] obtain m where m: "m < h * tu" "visits tu u B h ! m = (j, c)"
    "x_to_addr (mapped p tu u B h) ! j ! c = (if x_to_addr p ! j ! c = 1 then line_addr (xw_line p + m) else x_to_addr p ! j ! c)"
    by blast
  then show "if x_to_addr p ! j ! c = 1
       then xw_ele_addr_start (arch_info (mapped p tu u B h)) \<le> x_to_addr (mapped p tu u B h) ! j ! c \<and>
         x_to_addr (mapped p tu u B h) ! j ! c < axw_addr_start (arch_info (mapped p tu u B h))
       else x_to_addr (mapped p tu u B h) ! j ! c = x_to_addr p ! j ! c"
    using assms(2) by (simp add: mapped_def laid_def line_addr_le less_le line_addr_eq)
  fix j' c'
  assume jc': "j' < h" "c' < tu" "x_to_addr p ! j ! c = 1" "x_to_addr p ! j' ! c' = 1"
    and eq: "x_to_addr (mapped p tu u B h) ! j ! c = x_to_addr (mapped p tu u B h) ! j' ! c'"
  from mapped_entry [OF assms(1) jc'(1,2)] obtain m' where m': "m' < h * tu" "visits tu u B h ! m' = (j', c')"
    "x_to_addr (mapped p tu u B h) ! j' ! c' = line_addr (xw_line p + m')" using jc'(4) by auto
  have "m = m'" using eq m m' jc'(3) assms(2) by (simp add: line_addr_eq)
  then show "j = j'" "c = c'" using m(2) m'(2) by auto
qed

section \<open>The environment of the simulation\<close>

definition marked :: "F_MODE \<Rightarrow> prep \<Rightarrow> nat \<Rightarrow> nat \<Rightarrow> bool" where
  "marked md p u B \<longleftrightarrow> (\<forall>r \<in> set (x_to_addr p). set r \<subseteq> {0, 1} \<and> (\<forall>v < B. r ! (v * u) = 1) \<and> (md = MAT \<longrightarrow> set r \<subseteq> {1}))"

text \<open>The graph as \<open>LAC\<close> and \<open>Tiling\<close> leave it: compressed rows for every engine, none without edges.\<close>

definition engine_graph :: "prep \<Rightarrow> nat \<Rightarrow> nat \<Rightarrow> bool" where
  "engine_graph p h e \<longleftrightarrow> csr_wf (row_ptr p ! e) (col_idx p ! e) \<and> col_idx p ! e \<noteq> [] \<and>
     (\<forall>c \<in> set (col_idx p ! e). 0 \<le> c \<and> c < int h) \<and>
     di_row (data_index p ! e) = int (length (row_ptr p ! e)) - 1 \<and> zero_row (data_index p ! e) = zero_rows (row_ptr p ! e) \<and>
     di_total_write (data_index p ! e) = (di_row (data_index p ! e) - zero_row (data_index p ! e)) * total_urb (data_info p)"

lemma zero_rows_count: "rp \<noteq> [] \<Longrightarrow> int (length rp) - 1 - zero_rows rp = int (nonzero_rows rp)"
proof (induction rp rule: zero_rows.induct)
  case (1 a b r)
  have "nonzero_rows (a # b # r) = (if b = a then 0 else 1) + nonzero_rows (b # r)"
    by (simp add: nonzero_rows_def upt_conv_Cons map_Suc_upt [symmetric] filter_map o_def del: upt_Suc)
  with 1 show ?case by (cases "b = a") auto
qed (simp_all add: nonzero_rows_def)

lemma mapped_value:
  assumes "mappable p tu u B h" and "marked md p u B" and "xw_line p + h * tu < 2 ^ 58" and "0 < xw_line p"
    and "j < h" and "c < tu"
  shows "x_to_addr (mapped p tu u B h) ! j ! c \<noteq> 0 \<longleftrightarrow> x_to_addr p ! j ! c = 1"
    and "x_to_addr (mapped p tu u B h) ! j ! c \<noteq> 0 \<Longrightarrow> line_addr (xw_line p) \<le> x_to_addr (mapped p tu u B h) ! j ! c \<and>
      x_to_addr (mapped p tu u B h) ! j ! c \<noteq> - 1"
proof -
  have "x_to_addr p ! j \<in> set (x_to_addr p)" "length (x_to_addr p ! j) = tu"
    using assms(1,5) by (auto simp: mappable_def table_def)
  then have v: "x_to_addr p ! j ! c = 0 \<or> x_to_addr p ! j ! c = 1"
    using assms(2,6) by (auto simp: marked_def dest!: nth_mem)
  from mapped_entry [OF assms(1,5,6)] obtain m where m: "m < h * tu"
    "x_to_addr (mapped p tu u B h) ! j ! c = (if x_to_addr p ! j ! c = 1 then line_addr (xw_line p + m) else x_to_addr p ! j ! c)"
    by blast
  have b: "xw_line p + m < 2 ^ 58" using m(1) assms(3) by simp
  from v m(2) show "x_to_addr (mapped p tu u B h) ! j ! c \<noteq> 0 \<longleftrightarrow> x_to_addr p ! j ! c = 1"
    using line_addr_nonzero [OF _ b] assms(4) by auto
  from v m(2) show "x_to_addr (mapped p tu u B h) ! j ! c \<noteq> 0 \<Longrightarrow> line_addr (xw_line p) \<le> x_to_addr (mapped p tu u B h) ! j ! c \<and>
      x_to_addr (mapped p tu u B h) ! j ! c \<noteq> - 1"
    using b line_addr_not_max [OF b] by (auto simp: line_addr_le)
qed

lemma lines_mapped:
  assumes m: "mappable p tu u B h" "marked md p u B" "xw_line p + h * tu < 2 ^ 58" "0 < xw_line p"
    and md: "mode (arch_info p) = md" and u: "0 < u" "(B - 1) * u < tu" and c: "0 \<le> c" "c < int h" and v: "0 \<le> v" "v < int B"
  shows "lines_ok md (env_of (mapped p tu u B h)) c v"
proof -
  let ?row = "x_to_addr (mapped p tu u B h) ! nat c"
  have md': "md = MAT \<or> md = X_CMP" using m(1) md by (simp add: mappable_def)
  have f: "urb (arch_info p) = int u" "total_urb (data_info p) = int tu" "length (x_to_addr p ! nat c) = tu"
    "x_to_addr p ! nat c \<in> set (x_to_addr p)" using m(1) c by (auto simp: mappable_def table_def)
  have t: "length (x_to_addr (mapped p tu u B h)) = h" "length ?row = tu"
    using table_mapped [OF m(1)] c by (auto simp: table_def)
  have "nat v * u \<le> (B - 1) * u" using v by (intro mult_right_mono) auto
  then have vu: "nat v * u < tu" using u by linarith
  then have "int (nat v * u) < int tu" by (simp only: of_nat_less_iff)
  then have viu: "v * int u < int tu" "nat (v * int u) = nat v * u" using v by (simp_all add: nat_mult_distrib)
  have nz: "?row ! k \<noteq> 0 \<longleftrightarrow> x_to_addr p ! nat c ! k = 1" if "k < tu" for k
    using mapped_value(1) [OF m _ that] c by simp
  have fl: "fold_lines (env_of (mapped p tu u B h)) c v = take u (drop (nat v * u) ?row)"
    using f t viu by (simp add: fold_lines_def)
  have "0 \<notin> set (edge_lines md (env_of (mapped p tu u B h)) c v)"
  proof (cases "md = MAT")
    case True
    have "x \<noteq> 0" if x: "x \<in> set ?row" for x
    proof -
      from x t(2) obtain k where k: "k < tu" "x = ?row ! k" by (metis in_set_conv_nth)
      have "x_to_addr p ! nat c ! k \<in> set (x_to_addr p ! nat c)" using k(1) f(3) by simp
      then have "x_to_addr p ! nat c ! k = 1" using m(2) f(4) True unfolding marked_def by blast
      with nz [OF k(1)] k(2) show ?thesis by simp
    qed
    moreover have "set (take u (drop (nat v * u) ?row)) \<subseteq> set ?row" using set_take_subset set_drop_subset by fast
    ultimately have "0 \<notin> set (take u (drop (nat v * u) ?row))" by blast
    with True fl show ?thesis by simp
  next
    case False
    then have X: "md = X_CMP" using md' by simp
    obtain a as where a: "take u (drop (nat v * u) ?row) = a # as" "a = ?row ! (nat v * u)"
      using vu u(1) t(2) by (cases u) (auto simp: Cons_nth_drop_Suc [symmetric])
    have "x_to_addr p ! nat c ! (nat v * u) = 1" using m(2) f(4) v by (simp add: marked_def nat_less_iff)
    then have "a \<noteq> 0" using nz [OF vu] a(2) by simp
    then show ?thesis using X fl a(1) by (auto dest: set_takeWhileD)
  qed
  with md' f t c v u viu show ?thesis by (auto simp: lines_ok_def)
qed

lemma array_line:
  assumes "0 < n" and "x + n < 2 ^ 58"
  shows "array_ok (line_addr x) (line_addr (x + n)) n"
proof -
  have "64 * n < 2 ^ 64" using assms by simp
  moreover have "line_addr (x + n) = line_addr x + CACHE_LINE_BYTE * of_nat n"
    by (simp add: line_addr_step [symmetric] CACHE_LINE_BYTE_def mult.commute)
  ultimately show ?thesis using assms(1) by (simp add: array_ok_def)
qed

text \<open>The environment of an engine, when the table gives every edge its lines.\<close>

lemma engine_laid:
  assumes m: "arrays_ok p" "xw_line p < 2 ^ 58" "1 \<le> bf (arch_info p)" and e: "e < n_eng p" "engine_graph p h e"
    and lines: "\<And>c v. 0 \<le> c \<Longrightarrow> c < int h \<Longrightarrow> 0 \<le> v \<Longrightarrow> v < bf (arch_info p) \<Longrightarrow> lines_ok md (env_of (laid p xs a)) c v"
  shows "engine_env md (env_of (laid p xs a)) e"
proof -
  let ?G = "env_of (laid p xs a)" and ?cl = "lines_for (col_idx p ! e)" and ?rl = "lines_for (row_ptr p ! e)"
  note g = e(2) [unfolded engine_graph_def] and mm = m(1) [unfolded arrays_ok_def]
  have d: "data_index ?G ! e = placed p e (data_index p ! e)" "length (data_index ?G) = n_eng p" using e(1) by (simp_all add: laid_def)
  have pos: "0 < ?cl" "0 < ?rl" using g by (auto intro!: lines_for_pos simp: csr_wf_def)
  have le: "val_line p (Suc e) \<le> xw_line p" "row_line p (Suc e) \<le> xw_line p" "col_line p (Suc e) \<le> xw_line p"
    using line_mono(1) [of "Suc e" "n_eng p" p] line_mono(2) [of "Suc e" "n_eng p" p] line_mono(3) [of "Suc e" "n_eng p" p]
      line_mono(2) [of 0 "n_eng p" p] line_mono(3) [of 0 "n_eng p" p] e(1) by (auto simp: xw_line_def)
  have "engine_ok ?G e"
    using g e(1) mm d m(3) by (auto simp: engine_ok_def csr_ok_def csr_wf_def)
  moreover have "array_ok (row_addr_start (data_index ?G ! e)) (row_addr_end (data_index ?G ! e)) ?rl"
    "array_ok (col_addr_start (data_index ?G ! e)) (col_addr_end (data_index ?G ! e)) ?cl"
    "array_ok (value_addr_start (data_index ?G ! e)) (value_addr_end (data_index ?G ! e)) ?cl"
    using pos le m(2) unfolding d(1) by (simp_all add: placed_def array_line)
  moreover have "\<forall>c \<in> set (col_idx ?G ! e). \<forall>v. 0 \<le> v \<and> v < bf (arch_info ?G) \<longrightarrow> lines_ok md ?G c v"
    using g lines by simp
  moreover have "di_row (data_index ?G ! e) - zero_row (data_index ?G ! e) = int (nonzero_rows (row_ptr ?G ! e))"
    using zero_rows_count [of "row_ptr p ! e"] g unfolding d(1) by (simp add: placed_def csr_wf_def)
  ultimately show ?thesis unfolding engine_env_def Let_def by (simp del: all_simps)
qed

lemma xw_line_pos:
  assumes "engine_graph p h 0" and "0 < n_eng p"
  shows "0 < xw_line p"
proof -
  have "val_line p 1 \<le> val_line p (n_eng p)" using assms(2) by (intro line_mono(1)) simp
  moreover have "0 < lines_for (col_idx p ! 0)" using assms(1) by (intro lines_for_pos) (simp add: engine_graph_def)
  ultimately show ?thesis
    using line_mono(2) [of 0 "n_eng p" p] line_mono(3) [of 0 "n_eng p" p] by (simp add: xw_line_def)
qed

text \<open>The folds: \<open>B\<close> folds of \<open>u\<close> lines, the last of which is not empty.\<close>

definition fold_shape :: "prep \<Rightarrow> nat \<Rightarrow> nat \<Rightarrow> nat \<Rightarrow> bool" where
  "fold_shape p tu u B \<longleftrightarrow> urb (arch_info p) = int u \<and> total_urb (data_info p) = int tu \<and> bf (arch_info p) = int B \<and>
     0 < u \<and> (B - 1) * u < tu \<and> 1 \<le> B \<and> (B = 1 \<longrightarrow> u = tu)"

lemma fold_shape_folds:
  assumes "fold_shape p tu u B" and "arch_info G = A" "bf A = bf (arch_info p)" "urb A = urb (arch_info p)" "data_info G = data_info p"
  shows "folds_ok G" and "written_folds G = nat (bf (arch_info G))"
proof -
  note f = assms(1) [unfolded fold_shape_def]
  have "int ((B - 1) * u) < int tu" using f by (simp only: of_nat_less_iff)
  then have lt: "int u * (int B - 1) < int tu" using f by (simp add: of_nat_diff mult.commute)
  then show "folds_ok G" "written_folds G = nat (bf (arch_info G))"
    using f assms(2-5) by (auto simp: folds_ok_def written_folds_def Let_def)
qed

lemma env_laid:
  assumes m: "arrays_ok p" "xw_line p < 2 ^ 58" and f: "fold_shape p tu u B" and e: "\<And>e. e < n_eng p \<Longrightarrow> engine_graph p h e"
    and c: "cache_ok (arch_info p)"
    and lines: "\<And>c v. 0 \<le> c \<Longrightarrow> c < int h \<Longrightarrow> 0 \<le> v \<Longrightarrow> v < bf (arch_info p) \<Longrightarrow> lines_ok md (env_of (laid p xs a)) c v"
    and addr: "\<And>r b. r \<in> set xs \<Longrightarrow> b \<in> set r \<Longrightarrow> b \<noteq> 0 \<Longrightarrow> line_addr (xw_line p) \<le> b \<and> b \<noteq> - 1"
  shows "env_ok md (env_of (laid p xs a))"
proof -
  let ?G = "env_of (laid p xs a)"
  have "addr_ok ?G" using addr by (simp add: addr_ok_def)
  moreover have "folds_ok ?G" using fold_shape_folds(1) [OF f] by simp
  moreover have "layout_ok ?G" by (rule layout_laid [OF m(2)])
  moreover have "\<forall>i < engines ?G. engine_env md ?G i" using engine_laid [OF m _ _ e lines] f by (simp add: fold_shape_def)
  ultimately show ?thesis using c by (simp add: env_ok_def)
qed

lemma env_mapped:
  assumes m: "mappable p tu u B h" "marked md p u B" "xw_line p + h * tu < 2 ^ 58" "mode (arch_info p) = md"
    and f: "fold_shape p tu u B" and e: "\<And>e. e < n_eng p \<Longrightarrow> engine_graph p h e"
    and n: "0 < n_eng p" and c: "cache_ok (arch_info p)"
  shows "env_ok md (env_of (mapped p tu u B h))"
  unfolding mapped_def
proof (rule env_laid [OF _ _ f e c])
  have pos: "0 < xw_line p" by (rule xw_line_pos [OF e [OF n] n])
  show "arrays_ok p" "xw_line p < 2 ^ 58" using m(1,3) by (simp_all add: mappable_def)
  note F = f [unfolded fold_shape_def]
  fix c v :: int
  assume "0 \<le> c" "c < int h" "0 \<le> v" "v < bf (arch_info p)"
  then show "lines_ok md (env_of (laid p (fst (fold visit (visits tu u B h) (x_to_addr p, line_addr (xw_line p)))) (line_addr (xw_line p + h * tu)))) c v"
    using lines_mapped [OF m(1-3) pos m(4)] F unfolding mapped_def by simp
next
  have pos: "0 < xw_line p" by (rule xw_line_pos [OF e [OF n] n])
  fix r b
  assume b: "r \<in> set (fst (fold visit (visits tu u B h) (x_to_addr p, line_addr (xw_line p))))" "b \<in> set r" "b \<noteq> 0"
  have "table h tu (x_to_addr (mapped p tu u B h))" by (rule table_mapped [OF m(1)])
  with b obtain j k where "j < h" "k < tu" "b = x_to_addr (mapped p tu u B h) ! j ! k"
    by (auto simp: table_def mapped_def in_set_conv_nth)
  with mapped_value(2) [OF m(1-3) pos] b(3) show "line_addr (xw_line p) \<le> b \<and> b \<noteq> - 1" by auto
qed simp_all

lemma writes_laid:
  assumes "total_urb (data_info p) = int tu" and "length (data_index p) = n_eng p" and "\<And>e. e < n_eng p \<Longrightarrow> engine_graph p h e"
  shows "write_sum (data_index (laid p xs a)) = of_nat (total_writes (env_of (laid p xs a)))"
proof -
  let ?G = "env_of (laid p xs a)"
  have f: "fold (\<lambda>d t. t + of_int (di_total_write d)) ds t = t + of_int (\<Sum>d\<leftarrow>ds. di_total_write d)" for ds and t :: u64
    by (induction ds arbitrary: t) (simp_all add: algebra_simps)
  have w: "di_total_write (placed p e (data_index p ! e)) = int (engine_writes ?G e)" if "e < n_eng p" for e
  proof -
    have "row_ptr p ! e \<noteq> []" using assms(3) [OF that] by (simp add: engine_graph_def csr_wf_def)
    with zero_rows_count [of "row_ptr p ! e"] assms(3) [OF that] assms(1) show ?thesis
      by (simp add: placed_def engine_writes_def engine_graph_def)
  qed
  have d: "data_index (laid p xs a) = map (\<lambda>i. placed p i (data_index p ! i)) [0..<n_eng p]" by (simp add: laid_def)
  have "map di_total_write (data_index (laid p xs a)) = map (\<lambda>e. int (engine_writes ?G e)) [0..<n_eng p]"
    unfolding d map_map using w by (intro map_cong) simp_all
  then have "(\<Sum>d\<leftarrow>data_index (laid p xs a). di_total_write d) = (\<Sum>e\<leftarrow>[0..<n_eng p]. int (engine_writes ?G e))" by simp
  also have "\<dots> = int (total_writes ?G)"
    by (simp add: total_writes_def interv_sum_list_conv_sum_set_nat lessThan_atLeast0)
  finally show ?thesis unfolding write_sum_def f by simp
qed

section \<open>From the graph file to the engines\<close>

text \<open>
  What the input files and options have to satisfy: a well-formed compressed graph whose columns are
  vertices, a positive chunk width and number of engines, sizes for which the single-precision block
  counts are exact, and at least one edge for every engine.
\<close>

definition input_ok :: "prep \<Rightarrow> int list \<Rightarrow> int list \<Rightarrow> int \<Rightarrow> bool" where
  "input_ok p rp ci lw \<longleftrightarrow> (let h = length rp - 1; n = n_of_engine (arch_info p); nt = n_tiles (data_info p) in
     row_ptr p = [rp] \<and> col_idx p = [ci] \<and> csr_wf rp ci \<and> (\<forall>c \<in> set ci. 0 \<le> c \<and> c < int h) \<and> 0 < h \<and>
     a_h (data_info p) = int h \<and> a_w (data_info p) = int h \<and> x_h (data_info p) = int h \<and>
     lac_width_of p = Inr lw \<and> 0 < lw \<and> 0 < n \<and> n < 2 ^ 16 \<and> length (data_index p) = nat n \<and> 1 \<le> nt \<and> nat nt * h + 1 < 2 ^ 24 \<and>
     length ci < 2 ^ 24 \<and> (\<forall>e < nat n. \<exists>k < h. lac_engine lw n k = e \<and> row_of_csr rp ci k \<noteq> []))"

text \<open>What is left of the state: the options, the features and the pinned vertices.\<close>

definition same_rest :: "int \<Rightarrow> prep \<Rightarrow> prep \<Rightarrow> bool" where
  "same_rest lw p p' \<longleftrightarrow> arch_info p' = (arch_info p)\<lparr>lac_width := lw\<rparr> \<and> data_info p' = data_info p \<and> x_to_addr p' = x_to_addr p \<and>
     xw p' = xw p \<and> davc_list p' = davc_list p"

definition engines_ok :: "prep \<Rightarrow> nat \<Rightarrow> bool" where
  "engines_ok p h \<longleftrightarrow> length (row_ptr p) = n_eng p \<and> length (col_idx p) = n_eng p \<and> length (data_index p) = n_eng p \<and>
     (\<forall>e < n_eng p. engine_graph p h e \<and> length (row_ptr p ! e) < 2 ^ 24 \<and> length (col_idx p ! e) < 2 ^ 24)"

lemma engine_graph_of:
  assumes "row_ptr p ! e = fst (csr_of R)" and "col_idx p ! e = concat R"
    and "data_index p ! e = row_counts (total_urb (data_info p)) (row_ptr p ! e) d"
    and "concat R \<noteq> []" and "\<forall>c \<in> set (concat R). 0 \<le> c \<and> c < int h"
  shows "engine_graph p h e"
  using assms csr_wf_of [of R] unfolding engine_graph_def by (simp add: row_counts_def)

lemma length_filter_rows:
  "length (concat (map f (filter P xs))) \<le> length (concat (map f xs))"
  by (induction xs) auto

lemma lac_rows_cols:
  assumes "csr_wf rp ci"
  shows "set (concat (lac_rows lw n (row_of_csr rp ci) (length rp - 1) e)) \<subseteq> set ci"
    and "length (concat (lac_rows lw n (row_of_csr rp ci) (length rp - 1) e)) \<le> length ci"
    and "length (lac_rows lw n (row_of_csr rp ci) (length rp - 1) e) \<le> length rp - 1"
proof -
  have c: "concat (map (row_of_csr rp ci) [0..<length rp - 1]) = ci"
    using csr_of_rows [OF assms] snd_csr_of by (metis csr_rows_def snd_conv)
  show "set (concat (lac_rows lw n (row_of_csr rp ci) (length rp - 1) e)) \<subseteq> set ci"
    by (auto simp: lac_rows_def row_of_csr_def dest: in_set_takeD in_set_dropD)
  show "length (concat (lac_rows lw n (row_of_csr rp ci) (length rp - 1) e)) \<le> length ci"
    using length_filter_rows [of "row_of_csr rp ci" "\<lambda>k. lac_engine lw n k = e" "[0..<length rp - 1]"] c
    by (simp add: lac_rows_def)
  show "length (lac_rows lw n (row_of_csr rp ci) (length rp - 1) e) \<le> length rp - 1"
    using length_filter_le [of "\<lambda>k. lac_engine lw n k = e" "[0..<length rp - 1]"] by (simp add: lac_rows_def)
qed

lemma LAC_engines:
  assumes i: "input_ok p rp ci lw"
  shows "\<exists>p'. LAC p = Inr p' \<and> same_rest lw p p' \<and> engines_ok p' (length rp - 1) \<and>
    (\<forall>e < n_eng p. length (row_ptr p' ! e) \<le> length rp)"
proof -
  let ?n = "n_of_engine (arch_info p)"
  let ?R = "lac_rows lw ?n (row_of_csr rp ci) (length rp - 1)"
  note I = i [unfolded input_ok_def Let_def]
  have w: "csr_wf rp ci" using I by blast
  let ?p' = "upd_arch (\<lambda>a. a\<lparr>lac_width := lw\<rparr>) (p\<lparr>row_ptr := map (\<lambda>e. fst (csr_of (?R e))) [0..<n_eng p],
      col_idx := map (\<lambda>e. snd (csr_of (?R e))) [0..<n_eng p],
      data_index := map2 (row_counts (total_urb (data_info p))) (map (\<lambda>e. fst (csr_of (?R e))) [0..<n_eng p]) (data_index p)\<rparr>)"
  have "LAC p = Inr ?p'" using I by (intro LAC_ok) auto
  moreover have "same_rest lw p ?p'" by (simp add: same_rest_def)
  moreover have "engine_graph ?p' (length rp - 1) e" if e: "e < n_eng p" for e
  proof (rule engine_graph_of [where R = "?R e" and d = "data_index p ! e"])
    obtain k where k: "k < length rp - 1" "lac_engine lw ?n k = e" "row_of_csr rp ci k \<noteq> []" using I e by blast
    then show "concat (?R e) \<noteq> []" by (force simp: lac_rows_def)
    show "\<forall>c \<in> set (concat (?R e)). 0 \<le> c \<and> c < int (length rp - 1)" using lac_rows_cols(1) [OF w] I by blast
  qed (use e I in simp_all)
  moreover have "length (row_ptr ?p' ! e) \<le> length rp" "length (row_ptr ?p' ! e) < 2 ^ 24" "length (col_idx ?p' ! e) < 2 ^ 24" if "e < n_eng p" for e
  proof -
    have "0 < length rp - 1" using I by blast
    then show r: "length (row_ptr ?p' ! e) \<le> length rp" using that lac_rows_cols(3) [OF w, of lw ?n e] by simp
    have "length rp \<le> nat (n_tiles (data_info p)) * (length rp - 1) + 1"
    proof -
      have "1 * (length rp - 1) \<le> nat (n_tiles (data_info p)) * (length rp - 1)" using I by (intro mult_right_mono) auto
      then show ?thesis unfolding mult_1 by linarith
    qed
    with r I show "length (row_ptr ?p' ! e) < 2 ^ 24" by linarith
    show "length (col_idx ?p' ! e) < 2 ^ 24" using that lac_rows_cols(2) [OF w, of lw ?n e] I by simp
  qed
  ultimately show ?thesis using I by (intro exI [of _ ?p']) (simp add: engines_ok_def)
qed

lemma length_tiled_rows: "length (tiled_rows uv nt rs) = nt * length rs"
  by (induction nt) (simp_all add: tiled_rows_def)

lemma tiles_edges:
  assumes w: "csr_wf rp ci" and uv: "0 < uv" and c: "\<forall>c \<in> set ci. 0 \<le> c \<and> c < uv * int nt"
  shows "mset (concat (tiled_rows uv nt (csr_rows rp ci))) = mset ci"
proof -
  have cc: "concat (csr_rows rp ci) = ci" using csr_of_rows [OF w] snd_csr_of by (metis snd_conv)
  have "nat (c div uv) < nt" if "c \<in> set (concat (csr_rows rp ci))" for c
    using tile_of_ok [OF uv, of c nt] assms(3) that cc by auto
  then have "mset (concat (tiled_rows uv nt (csr_rows rp ci))) = mset (concat (csr_rows rp ci))"
    by (intro mset_tiled_rows) auto
  with cc show ?thesis by simp
qed

lemma Tiling_engines:
  assumes e: "engines_ok p h" and n: "1 \<le> n_tiles (data_info p)" "nat (n_tiles (data_info p)) * h + 1 < 2 ^ 24"
    and a: "a_w (data_info p) = int h" "0 < h" and l: "\<And>e. e < n_eng p \<Longrightarrow> length (row_ptr p ! e) \<le> Suc h"
  shows "\<exists>p'. Tiling p = Inr p' \<and> arch_info p' = arch_info p \<and> data_info p' = data_info p \<and> x_to_addr p' = x_to_addr p \<and>
    xw p' = xw p \<and> davc_list p' = davc_list p \<and> engines_ok p' h"
proof (cases "1 < n_tiles (data_info p)")
  case False
  then show ?thesis using e by (simp add: Tiling_def engines_ok_def engine_graph_def Let_def)
next
  case True
  let ?nt = "n_tiles (data_info p)"
  have h: "h < 2 ^ 24" "?nt < 2 ^ 24"
  proof -
    have "1 * h \<le> nat ?nt * h" "nat ?nt * 1 \<le> nat ?nt * h" using n(1) a(2) by (intro mult_le_mono; simp)+
    with n(2) have "h < 2 ^ 24" "nat ?nt < 2 ^ 24" by linarith+
    then show "h < 2 ^ 24" "?nt < 2 ^ 24" using n(1) by simp_all
  qed
  define uv where "uv = ceil_div (int h) ?nt"
  have uv: "ceil_fdiv (a_w (data_info p)) ?nt = Inr uv" "0 < uv" "int h \<le> uv * ?nt"
    using True a h ceil_div_pos [of "int h" ?nt] ceil_div_upper [of ?nt "int h"]
    by (auto simp: uv_def ceil_fdiv_exact)
  have g: "csr_wf (row_ptr p ! i) (col_idx p ! i) \<and> (\<forall>c \<in> set (col_idx p ! i). 0 \<le> c \<and> c < uv * ?nt)" if "i < n_eng p" for i
    using e that uv(3) unfolding engines_ok_def engine_graph_def by fastforce
  let ?R = "\<lambda>i. tiled_rows uv (nat ?nt) (csr_rows (row_ptr p ! i) (col_idx p ! i))"
  let ?p' = "upd_log (\<lambda>l. l\<lparr>tiling_info := to_string ?nt\<rparr>)
     (p\<lparr>row_ptr := map (\<lambda>e. fst (csr_of (?R e))) [0..<n_eng p], col_idx := map (\<lambda>e. snd (csr_of (?R e))) [0..<n_eng p],
        data_index := map2 (row_counts (total_urb (data_info p))) (map (\<lambda>e. fst (csr_of (?R e))) [0..<n_eng p]) (data_index p)\<rparr>)"
  have len: "length (row_ptr p) = n_eng p" "length (col_idx p) = n_eng p" "length (data_index p) = n_eng p"
    using e by (auto simp: engines_ok_def)
  have "Tiling p = Inr ?p'" using g by (intro Tiling_ok [OF True uv(1,2) len]) blast
  moreover have ms: "mset (concat (?R i)) = mset (col_idx p ! i)" if "i < n_eng p" for i
    using tiles_edges [OF _ uv(2), of "row_ptr p ! i" "col_idx p ! i" "nat ?nt"] g [OF that] True by simp
  have gi: "engine_graph p h i" "length (col_idx p ! i) < 2 ^ 24" if "i < n_eng p" for i using e that by (auto simp: engines_ok_def)
  have "engine_graph ?p' h i" if i: "i < n_eng p" for i
  proof (rule engine_graph_of [where R = "?R i" and d = "data_index p ! i"])
    have "set (concat (?R i)) = set (col_idx p ! i)" "length (concat (?R i)) = length (col_idx p ! i)"
      using ms [OF i] mset_eq_setD mset_eq_length by blast+
    with gi(1) [OF i] show "concat (?R i) \<noteq> []" "\<forall>c \<in> set (concat (?R i)). 0 \<le> c \<and> c < int h"
      unfolding engine_graph_def by (metis length_0_conv)+
  qed (use i len in simp_all)
  moreover have "length (col_idx ?p' ! i) < 2 ^ 24" if "i < n_eng p" for i
    using that gi(2) [OF that] mset_eq_length [OF ms [OF that]] by simp
  moreover have "length (row_ptr ?p' ! i) < 2 ^ 24" if i: "i < n_eng p" for i
  proof -
    have "length (csr_rows (row_ptr p ! i) (col_idx p ! i)) \<le> h" using l [OF i] by (simp add: csr_rows_def)
    then have "nat ?nt * length (csr_rows (row_ptr p ! i) (col_idx p ! i)) \<le> nat ?nt * h" by (rule mult_le_mono2)
    then have "nat ?nt * length (csr_rows (row_ptr p ! i) (col_idx p ! i)) + 1 < 2 ^ 24" using n(2) by linarith
    then show ?thesis using i by (simp add: length_tiled_rows)
  qed
  ultimately show ?thesis using len by (intro exI [of _ ?p']) (simp add: engines_ok_def)
qed

section \<open>Preprocessing as a whole\<close>

text \<open>
  What the features have to satisfy. The folds of \<open>urb\<close> lines must not start beyond the row, which the number
  of folds in the ini file can violate. In the mode \<open>CSR\<close> no row may be empty, and in the mode \<open>X_FULL_CMP\<close> a bitmap
  has to fit into a cache line. \<open>X_CMP\<close> is left out: it reads past the end of the first row.
\<close>

definition rows_long :: "prep \<Rightarrow> bool" where
  "rows_long p \<longleftrightarrow> (let w = x_w (data_info p); h = nat (x_h (data_info p)) in
     h \<le> length (xw p) \<and> (\<forall>i < h. nat w \<le> length (xw p ! i) \<and> (mode (arch_info p) = CSR \<longrightarrow> 0 < nonzeros w (xw p ! i))))"

definition features_ok :: "prep \<Rightarrow> bool" where
  "features_ok p \<longleftrightarrow> (let w = x_w (data_info p); A = arch_info p in 0 < w \<and> w < 2 ^ 16 \<and> 1 \<le> bf A \<and>
     total_urb (data_info p) = ceil_div w 16 \<and> urb A = ceil_div w (bf A * 16) \<and> urb A * (bf A - 1) < total_urb (data_info p) \<and>
     (case mode A of MAT \<Rightarrow> True | X_CMP \<Rightarrow> False | CSR \<Rightarrow> rows_long p | X_FULL_CMP \<Rightarrow> w \<le> 512 \<and> rows_long p))"

lemma start_line_bound:
  assumes "\<And>i. i < n \<Longrightarrow> f i \<le> K"
  shows "start_line b f n \<le> b + n * K"
  unfolding start_line_def using sum_bounded_above [of "{..<n}" f K] assms by simp

lemma xw_line_bound:
  assumes "\<And>e. e < n_eng p \<Longrightarrow> length (row_ptr p ! e) < 2 ^ 24 \<and> length (col_idx p ! e) < 2 ^ 24" and "n_eng p < 2 ^ 24"
  shows "xw_line p < 2 ^ 50"
proof -
  have b: "lines_for (col_idx p ! e) \<le> 2 ^ 20" "lines_for (row_ptr p ! e) \<le> 2 ^ 20" if "e < n_eng p" for e
    using assms(1) [OF that] by (auto simp: lines_for_def)
  have "val_line p (n_eng p) \<le> 0 + n_eng p * 2 ^ 20" "row_line p (n_eng p) \<le> val_line p (n_eng p) + n_eng p * 2 ^ 20"
    "col_line p (n_eng p) \<le> row_line p (n_eng p) + n_eng p * 2 ^ 20"
    unfolding val_line_def row_line_def col_line_def by (rule start_line_bound; use b in blast)+
  moreover have "n_eng p * 2 ^ 20 \<le> 2 ^ 24 * 2 ^ 20" using assms(2) by (intro mult_right_mono) auto
  ultimately show ?thesis by (simp add: xw_line_def)
qed

lemma nonzero_rows_le: "nonzero_rows rp \<le> length rp"
  using length_filter_le unfolding nonzero_rows_def by (metis diff_le_self dual_order.trans length_upt minus_nat.diff_0)

lemma ceil_div_le:
  assumes "0 < b" and "a \<le> b * q"
  shows "ceil_div a b \<le> q"
proof -
  have "(ceil_div a b - 1) * b < a" by (rule ceil_div_lower [OF assms(1)])
  then have "(ceil_div a b - 1) * b < q * b" using assms(2) by (simp add: mult.commute)
  then have "ceil_div a b - 1 < q" using assms(1) by simp
  then show ?thesis by simp
qed

lemma features_shape:
  assumes "features_ok p"
  shows "\<exists>tu u B. fold_shape p tu u B \<and> tu \<le> B * u \<and> tu < 2 ^ 17"
proof -
  let ?w = "x_w (data_info p)" and ?B = "bf (arch_info p)" and ?u = "urb (arch_info p)" and ?tu = "total_urb (data_info p)"
  have F: "0 < ?w" "?w < 2 ^ 16" "1 \<le> ?B" "?tu = ceil_div ?w 16" "?u = ceil_div ?w (?B * 16)" "?u * (?B - 1) < ?tu"
    using assms by (auto simp: features_ok_def Let_def)
  have u: "0 < ?u" "0 < ?tu" using F by (simp_all add: ceil_div_pos)
  have "?w \<le> ?u * (?B * 16)" using F(3) ceil_div_upper [of "?B * 16" ?w] F(5) by simp
  then have cov: "?tu \<le> ?B * ?u" unfolding F(4) by (intro ceil_div_le) (simp_all add: algebra_simps)
  have one: "?u = ?tu" if "?B = 1" using F(4,5) that by simp
  have small: "?tu \<le> 2 ^ 16" unfolding F(4) using F(1,2) by (intro ceil_div_le) simp_all
  have "int ((nat ?B - 1) * nat ?u) < int (nat ?tu)" using F(3,6) u by (simp add: of_nat_diff mult.commute)
  then have "(nat ?B - 1) * nat ?u < nat ?tu" by (simp only: of_nat_less_iff)
  moreover have "int (nat ?tu) \<le> int (nat ?B * nat ?u)" using F(3) cov u by simp
  then have "nat ?tu \<le> nat ?B * nat ?u" by (simp only: of_nat_le_iff)
  ultimately have "fold_shape p (nat ?tu) (nat ?u) (nat ?B) \<and> nat ?tu \<le> nat ?B * nat ?u \<and> nat ?tu < 2 ^ 17"
    using F(3) u one small by (auto simp: fold_shape_def nat_eq_iff)
  then show ?thesis by blast
qed

text \<open>The table after \<open>TransXW\<close>.\<close>

definition rows_ready :: "prep \<Rightarrow> bool" where
  "rows_ready q \<longleftrightarrow> length (x_to_addr q) = nat (x_h (data_info q)) \<and> (case mode (arch_info q) of
       MAT \<Rightarrow> \<forall>r \<in> set (x_to_addr q). r = replicate (nat (total_urb (data_info q))) 1
     | X_CMP \<Rightarrow> False
     | CSR \<Rightarrow> \<forall>r \<in> set (x_to_addr q). csr_shape (2 ^ 16) r
     | X_FULL_CMP \<Rightarrow> 0 < x_w (data_info q) \<and> x_w (data_info q) \<le> 512 \<and> (\<forall>r \<in> set (x_to_addr q). 2 \<le> length r \<and> length r \<le> 2 ^ 17))"

lemma TransXW_rows:
  assumes "features_ok p" and "x_to_addr p = replicate (nat (x_h (data_info p))) []"
  shows "\<exists>t. TransXW p = Inr (p\<lparr>x_to_addr := t, xw := []\<rparr>) \<and> rows_ready (p\<lparr>x_to_addr := t, xw := []\<rparr>)"
proof -
  have w: "0 < x_w (data_info p)" "x_w (data_info p) < 2 ^ 16" using assms(1) by (auto simp: features_ok_def Let_def)
  show ?thesis
  proof (cases "mode (arch_info p)")
    case MAT
    have "total_urb (data_info p) = ceil_div (x_w (data_info p)) 16" using assms(1) by (simp add: features_ok_def Let_def)
    with MAT show ?thesis using TransXW_mat [OF MAT assms(2)] w by (auto simp: rows_ready_def)
  next
    case CSR
    have l: "nat (x_h (data_info p)) \<le> length (xw p)" using assms(1) CSR by (simp add: features_ok_def rows_long_def Let_def)
    have "\<exists>r. csr_row p (xw p ! i) [] = Inr r \<and> csr_shape (2 ^ 16) r" if "i < nat (x_h (data_info p))" for i
      using csr_row_ok [OF w, of "xw p ! i"] assms(1) CSR that by (fastforce simp: features_ok_def rows_long_def csr_shape_def Let_def)
    then have "\<exists>t. each_row p (csr_row p) = Inr (p\<lparr>x_to_addr := t\<rparr>) \<and> length t = nat (x_h (data_info p)) \<and> (\<forall>r \<in> set t. csr_shape (2 ^ 16) r)"
      by (rule each_row_exists [OF assms(2) l w(1)])
    with CSR show ?thesis by (auto simp: rows_ready_def TransXW_def)
  next
    case X_FULL_CMP
    have l: "nat (x_h (data_info p)) \<le> length (xw p)" using assms(1) X_FULL_CMP by (simp add: features_ok_def rows_long_def Let_def)
    have "\<exists>r. x_full_cmp_row p (xw p ! i) [] = Inr r \<and> 2 \<le> length r \<and> length r \<le> 2 ^ 17" if "i < nat (x_h (data_info p))" for i
      using x_full_cmp_row_ok [OF w, of "xw p ! i"] assms(1) X_FULL_CMP that by (auto simp: features_ok_def rows_long_def Let_def)
    then have "\<exists>t. each_row p (x_full_cmp_row p) = Inr (p\<lparr>x_to_addr := t\<rparr>) \<and> length t = nat (x_h (data_info p)) \<and>
        (\<forall>r \<in> set t. 2 \<le> length r \<and> length r \<le> 2 ^ 17)"
      by (rule each_row_exists [OF assms(2) l w(1)])
    moreover have "x_w (data_info p) \<le> 512" using assms(1) X_FULL_CMP by (simp add: features_ok_def Let_def)
    ultimately show ?thesis using X_FULL_CMP w(1) by (auto simp: rows_ready_def TransXW_def)
  qed (use assms(1) in \<open>simp add: features_ok_def Let_def\<close>)
qed

text \<open>The table after \<open>AddressMapping\<close> gives the environment.\<close>

lemma env_rows:
  assumes "arrays_ok q" and "fold_shape q tu u B" and "engines_ok q h" and "0 < n_eng q" and "cache_ok (arch_info q)"
    and "md = CSR \<or> md = X_FULL_CMP" and "length xs = h" and "xw_line q + K < 2 ^ 58"
    and "\<forall>r \<in> set xs. 2 \<le> length r \<and> (\<forall>a \<in> set r. in_lines (xw_line q) (xw_line q + K) a)"
  shows "env_ok md (env_of (laid q xs a))"
proof (rule env_laid [OF assms(1) _ assms(2) _ assms(5)])
  have e: "engine_graph q h e" if "e < n_eng q" for e using assms(3) that by (simp add: engines_ok_def)
  have pos: "0 < xw_line q" by (rule xw_line_pos [OF e [OF assms(4)] assms(4)])
  have addr: "b \<noteq> 0 \<and> line_addr (xw_line q) \<le> b \<and> b \<noteq> - 1" if "r \<in> set xs" "b \<in> set r" for r b
  proof -
    from assms(9) that obtain x where x: "xw_line q \<le> x" "x \<le> xw_line q + K" "b = line_addr x" by (auto simp: in_lines_def)
    then have "x < 2 ^ 58" "xw_line q < 2 ^ 58" using assms(8) by simp_all
    with x pos show ?thesis by (simp add: line_addr_nonzero line_addr_le line_addr_not_max)
  qed
  show "lines_ok md (env_of (laid q xs a)) c v" if c: "0 \<le> c" "c < int h" for c v
  proof -
    have r: "xs ! nat c \<in> set xs" using c assms(7) by simp
    then have l: "2 \<le> length (xs ! nat c)" using assms(9) by blast
    then have "xs ! nat c ! 0 \<in> set (xs ! nat c)" by (intro nth_mem) linarith
    moreover have "0 \<notin> set (drop 1 (xs ! nat c))" using addr [OF r] by (metis in_set_dropD)
    ultimately show ?thesis using l addr [OF r] assms(6,7) c by (auto simp: lines_ok_def)
  qed
  show "line_addr (xw_line q) \<le> b \<and> b \<noteq> - 1" if "r \<in> set xs" "b \<in> set r" for r b using addr that by blast
  show "engine_graph q h e" if "e < n_eng q" for e using e that .
qed (use assms(8) in simp)

lemma map_env:
  assumes r: "rows_ready q" and f: "fold_shape q tu u B" "tu \<le> B * u" "tu < 2 ^ 17" and e: "engines_ok q h" and n: "0 < n_eng q" "n_eng q < 2 ^ 16"
    and h: "x_h (data_info q) = int h" "h < 2 ^ 24" and c: "cache_ok (arch_info q)"
  shows "\<exists>xs a. AddressMapping q = Inr (laid q xs a) \<and> env_ok (mode (arch_info q)) (env_of (laid q xs a))"
proof -
  let ?md = "mode (arch_info q)"
  have A: "arrays_ok q" using e by (simp add: engines_ok_def arrays_ok_def)
  have l: "length (x_to_addr q) = h" using r h(1) by (simp add: rows_ready_def)
  have X: "xw_line q < 2 ^ 50" using e n(2) by (intro xw_line_bound) (auto simp: engines_ok_def)
  have eg: "engine_graph q h e" if "e < n_eng q" for e using e that by (simp add: engines_ok_def)
  consider "?md = MAT" | "?md = CSR" | "?md = X_FULL_CMP" using r by (cases ?md) (auto simp: rows_ready_def)
  then show ?thesis
  proof cases
    case 1
    then have t: "r = replicate tu 1" if "r \<in> set (x_to_addr q)" for r
      using r f(1) that by (auto simp: rows_ready_def fold_shape_def)
    have F: "0 < u" "(B - 1) * u < tu" using f(1) by (auto simp: fold_shape_def)
    have "v * u < tu" if "v < B" for v
    proof -
      have "v * u \<le> (B - 1) * u" using that by (intro mult_right_mono) auto
      with F(2) show ?thesis by linarith
    qed
    then have mk: "marked MAT q u B" by (auto simp: marked_def dest: t)
    have mp: "mappable q tu u B h" using 1 A f h(1) l F by (auto simp: mappable_def fold_shape_def table_def dest: t)
    have "h * tu \<le> 2 ^ 24 * 2 ^ 17" using h(2) f(3) by (intro mult_le_mono) auto
    with X have b: "xw_line q + h * tu < 2 ^ 58" by simp
    show ?thesis using AddressMapping_ok [OF mp] env_mapped [OF mp mk b 1 f(1) eg n(1) c] 1 unfolding mapped_def by auto
  next
    case 2
    let ?K = "length (x_to_addr q) * (2 * 2 ^ 16 + 1)"
    have "\<forall>r \<in> set (x_to_addr q). csr_shape (2 ^ 16) r" using r 2 by (simp add: rows_ready_def)
    from map_csr_ok [OF _ this, of q "xw_line q"] l h(1) obtain ys k where
      y: "map_csr q (x_to_addr q, line_addr (xw_line q)) = Inr (ys, line_addr (xw_line q + k))" "length ys = h"
        "\<forall>r \<in> set ys. 2 \<le> length r \<and> (\<forall>a \<in> set r. in_lines (xw_line q) (xw_line q + ?K) a)" by auto
    have "xw_line q + ?K < 2 ^ 58" using X l h(2) by simp
    from env_rows [OF A f(1) e n(1) c _ y(2) this y(3)] 2 have "env_ok CSR (env_of (laid q ys (line_addr (xw_line q + k))))" by blast
    moreover have "map_features q = Inr (ys, line_addr (xw_line q + k))" using y(1) 2 by (simp add: map_features_def Let_def)
    ultimately show ?thesis using AddressMapping_laid [OF A] 2 by auto
  next
    case 3
    have w: "0 < x_w (data_info q)" "x_w (data_info q) \<le> 512" "\<forall>r \<in> set (x_to_addr q). 2 \<le> length r \<and> length r \<le> 2 ^ 17"
      using r 3 by (auto simp: rows_ready_def)
    from map_full_ok [OF _ w, of "xw_line q"] l h(1) obtain ys k where
      y: "map_full q (x_to_addr q, line_addr (xw_line q)) = Inr (ys, line_addr (xw_line q + k))" "k \<le> h * (2 ^ 17 + 1)" "length ys = h"
        "\<forall>r \<in> set ys. 2 \<le> length r \<and> (\<forall>a \<in> set r. in_lines (xw_line q) (xw_line q + k) a)" by auto
    have "xw_line q + k < 2 ^ 58" using X y(2) h(2) by simp
    from env_rows [OF A f(1) e n(1) c _ y(3) this y(4)] 3 have "env_ok X_FULL_CMP (env_of (laid q ys (line_addr (xw_line q + k))))" by blast
    moreover have "map_features q = Inr (ys, line_addr (xw_line q + k))" using y(1) 3 by (simp add: map_features_def Let_def)
    ultimately show ?thesis using AddressMapping_laid [OF A] 3 by auto
  qed
qed

lemma writes_bound:
  assumes "engines_ok q h" and "n_eng q < 2 ^ 16" and "total_urb (data_info q) = int tu" and "tu < 2 ^ 17"
  shows "total_writes (env_of (laid q xs a)) < 2 ^ 64"
proof -
  let ?G = "env_of (laid q xs a)"
  have "engine_writes ?G i \<le> 2 ^ 24 * 2 ^ 17" if "i < n_eng q" for i
    using assms that nonzero_rows_le [of "row_ptr q ! i"] unfolding engine_writes_def engines_ok_def by (intro mult_le_mono) fastforce+
  then have "total_writes ?G \<le> n_eng q * (2 ^ 24 * 2 ^ 17)"
    using sum_bounded_above [of "{..<n_eng q}" "engine_writes ?G" "2 ^ 24 * 2 ^ 17"] by (simp add: total_writes_def)
  also have "\<dots> \<le> 2 ^ 16 * (2 ^ 24 * 2 ^ 17)" using assms(2) by (intro mult_right_mono) auto
  finally show ?thesis by simp
qed

lemma prepare_env:
  assumes "data_index p = []" and "x_to_addr p = []" and "features_ok p" and "cache_ok (arch_info p)"
    and "input_ok (p\<lparr>data_index := replicate (n_eng p) DataIndex_zero\<rparr>) rp ci lw"
  shows "\<exists>p'. prepare p = Inr (p', of_nat (total_writes (env_of p'))) \<and> env_ok (mode (arch_info p)) (env_of p') \<and>
    total_writes (env_of p') < 2 ^ 64 \<and> n_eng p' = n_eng p \<and> davc_list p' = davc_list p \<and> mode (arch_info p') = mode (arch_info p) \<and>
    mem_type (arch_info p') = mem_type (arch_info p) \<and> mem_output (arch_info p') = mem_output (arch_info p) \<and>
    written_folds (env_of p') = nat (bf (arch_info p'))"
proof -
  let ?p = "p\<lparr>data_index := replicate (n_eng p) DataIndex_zero\<rparr>" and ?h = "length rp - 1"
  note I = assms(5) [unfolded input_ok_def Let_def, simplified]
  from LAC_engines [OF assms(5)] obtain p5 where
    5: "LAC ?p = Inr p5" "same_rest lw ?p p5" "engines_ok p5 ?h" "\<And>e. e < n_eng p \<Longrightarrow> length (row_ptr p5 ! e) \<le> length rp" by auto
  have s5: "arch_info p5 = (arch_info p)\<lparr>lac_width := lw\<rparr>" "data_info p5 = data_info p" "x_to_addr p5 = []" "xw p5 = xw p"
    "davc_list p5 = davc_list p" using 5(2) assms(2) by (auto simp: same_rest_def)
  have h: "0 < ?h" "Suc ?h = length rp" using I by auto
  have "\<exists>p'. Tiling p5 = Inr p' \<and> arch_info p' = arch_info p5 \<and> data_info p' = data_info p5 \<and> x_to_addr p' = x_to_addr p5 \<and>
    xw p' = xw p5 \<and> davc_list p' = davc_list p5 \<and> engines_ok p' ?h"
  proof (rule Tiling_engines [OF 5(3)])
    show "1 \<le> n_tiles (data_info p5)" "nat (n_tiles (data_info p5)) * ?h + 1 < 2 ^ 24" "a_w (data_info p5) = int ?h" "0 < ?h"
      using I h(1) unfolding s5(2) by auto
    show "length (row_ptr p5 ! e) \<le> Suc ?h" if "e < n_eng p5" for e using 5(4) [of e] that s5(1) h(2) by simp
  qed
  then obtain p6 where 6: "Tiling p5 = Inr p6" "arch_info p6 = (arch_info p)\<lparr>lac_width := lw\<rparr>" "data_info p6 = data_info p"
    "x_to_addr p6 = []" "xw p6 = xw p" "davc_list p6 = davc_list p" "engines_ok p6 ?h"
    using s5 by metis
  let ?g = "grow p6"
  have hh: "x_h (data_info p) = int ?h" using I by auto
  have g: "features_ok ?g" "x_to_addr ?g = replicate (nat (x_h (data_info ?g))) []"
    using assms(3) 6(2-5) by (auto simp: grow_def features_ok_def rows_long_def Let_def split: F_MODE.splits)
  from TransXW_rows [OF g] obtain t where t: "TransXW ?g = Inr (?g\<lparr>x_to_addr := t, xw := []\<rparr>)" "rows_ready (?g\<lparr>x_to_addr := t, xw := []\<rparr>)" by blast
  define q where "q = ?g\<lparr>x_to_addr := t, xw := []\<rparr>"
  have qf: "arch_info q = (arch_info p)\<lparr>lac_width := lw\<rparr>" "data_info q = data_info p" "davc_list q = davc_list p" "engines_ok q ?h"
    using 6 by (simp_all add: q_def grow_def engines_ok_def engine_graph_def)
  from features_shape [OF assms(3)] obtain tu u B where "fold_shape p tu u B" "tu \<le> B * u" "tu < 2 ^ 17" by blast
  then have fs: "fold_shape q tu u B" "tu \<le> B * u" "tu < 2 ^ 17" using qf by (simp_all add: fold_shape_def)
  have n: "0 < n_eng q" "n_eng q < 2 ^ 16" "cache_ok (arch_info q)" "x_h (data_info q) = int ?h"
    using I assms(4) hh unfolding qf by (auto simp: cache_ok_def nat_less_iff)
  have "1 * ?h \<le> nat (n_tiles (data_info p)) * ?h" using I by (intro mult_le_mono) auto
  moreover have "nat (n_tiles (data_info p)) * ?h + 1 < 2 ^ 24" using I by auto
  ultimately have "?h < 2 ^ 24" by linarith
  from map_env [OF t(2) [folded q_def] fs qf(4) n(1,2,4) this n(3)] obtain xs a where
    m: "AddressMapping q = Inr (laid q xs a)" "env_ok (mode (arch_info q)) (env_of (laid q xs a))" by blast
  have "prepare p = Inr (laid q xs a, write_sum (data_index (laid q xs a)))"
    using 5(1) 6(1) t(1) [folded q_def] assms(1) m(1) by (simp add: prepare_def)
  moreover have "write_sum (data_index (laid q xs a)) = of_nat (total_writes (env_of (laid q xs a)))"
    using qf(4) fs(1) by (intro writes_laid) (auto simp: engines_ok_def fold_shape_def)
  moreover have "total_writes (env_of (laid q xs a)) < 2 ^ 64"
    using fs by (intro writes_bound [OF qf(4) n(2)]) (auto simp: fold_shape_def)
  moreover have "written_folds (env_of (laid q xs a)) = nat (bf (arch_info (laid q xs a)))"
    using fold_shape_folds(2) [OF fs(1)] by simp
  ultimately show ?thesis using m(2) qf by (intro exI [of _ "laid q xs a"]) simp
qed


end
