(* ===== verification/Main_Program.thy ===== *)
theory Main_Program
  imports Prep_Format Prep_Env
begin

text \<open>
  The main program, \<open>src/src/main.cc\<close>: the command line, the directory of the results, the run from the
  input files to the cycle count, and the line of the result table with its lock file. The file system
  is a function from path names to contents, the DRAM simulator a constructor for a configuration file;
  both, and the option scanner of the C library, are arguments.
\<close>

section \<open>The command line\<close>

text \<open>
  The scanner of the C library, \<open>getopt\<close>, is an argument (\<open>gopt\<close>): for an option string and the words of the
  command line it gives what its calls deliver one after the other, an option with its argument \<open>optarg\<close>,
  or \<open>?\<close> together with the letter in \<open>optopt\<close> when the letter is unknown or its argument is missing.
\<close>

datatype opt = Opt char string | Bad char

definition option_string :: string where
  "option_string = ''i:x:a:t:c:m:l:u:g:d:''"

text \<open>A conversion to an enumeration outside its values is undefined.\<close>

definition F_MODE_of :: "int \<Rightarrow> F_MODE res" where
  "F_MODE_of i = (if i = 0 then Inr X_CMP else if i = 1 then Inr MAT else if i = 2 then Inr CSR
     else if i = 3 then Inr X_FULL_CMP else Inl BadConv)"

definition GNN_MODE_of :: "int \<Rightarrow> GNN_MODE res" where
  "GNN_MODE_of i = (if i = 0 then Inr GCN else if i = 1 then Inr OTHER else Inl BadConv)"

text \<open>The name of the data set in the log: the file name up to its first dot.\<close>

definition dataset_of :: "string \<Rightarrow> string res" where
  "dataset_of path = res_bind (vback (split path ''/'')) (\<lambda>file. vfront (split file ''.''))"

definition GetOption :: "opt \<Rightarrow> F_PATH \<times> prep \<Rightarrow> (F_PATH \<times> prep) res" where
  "GetOption o1 s = (case (o1, s) of
       (Bad c, _) \<Rightarrow> if c \<in> set ''tcmlugd'' then Inr s else Inl ExitCall
     | (Opt c v, f, p) \<Rightarrow>
         if c = CHR ''i'' then Inr (f\<lparr>ini := v\<rparr>, p)
         else if c = CHR ''x'' then Inr (f\<lparr>xw_data := v\<rparr>, p)
         else if c = CHR ''a'' then res_bind (dataset_of v) (\<lambda>n. Inr (f\<lparr>a_data := v\<rparr>, upd_log (\<lambda>l. l\<lparr>dataset := n\<rparr>) p))
         else if c = CHR ''t'' then res_bind (stoi v) (\<lambda>i. Inr (f, upd_data (\<lambda>d. d\<lparr>n_tiles := i\<rparr>) p))
         else if c = CHR ''c'' then Inr (f\<lparr>csv_path := v\<rparr>, p)
         else if c = CHR ''m'' then res_bind (stoi v) (\<lambda>i. res_bind (F_MODE_of i) (\<lambda>md.
           Inr (f, upd_log (\<lambda>l. l\<lparr>log_mode := i\<rparr>) (upd_arch (\<lambda>a. a\<lparr>mode := md\<rparr>) p))))
         else if c = CHR ''l'' then res_bind (stoi v) (\<lambda>i. Inr (f, upd_arch (\<lambda>a. a\<lparr>lac_width := i\<rparr>) p))
         else if c = CHR ''u'' then res_bind (stoi v) (\<lambda>i.
           Inr (f, upd_log (\<lambda>l. l\<lparr>log_x_unit := i\<rparr>) (upd_arch (\<lambda>a. a\<lparr>x_unit := i\<rparr>) p)))
         else if c = CHR ''g'' then res_bind (stoi v) (\<lambda>i. res_bind (GNN_MODE_of i) (\<lambda>g.
           Inr (f, upd_arch (\<lambda>a. a\<lparr>gnn_mode := g\<rparr>) p)))
         else if c = CHR ''d'' then Inr (f\<lparr>davc_path := v\<rparr>, p)
         else Inr s)"

text \<open>The process-wide variables are zero when \<open>main\<close> starts; it then sets the defaults.\<close>

definition ArchInfo_zero :: ArchInfo where
  "ArchInfo_zero = \<lparr>n_of_engine = 0, cache_size = 0, cache_way = 0, cache_set = 0, urb = 0, bf = 0, lac_width = 0, x_unit = 0,
     mode = X_CMP, gnn_mode = GCN, d_value_addr_start = 0, a_row_addr_start = 0, a_col_addr_start = 0, xw_ele_addr_start = 0,
     axw_addr_start = 0, mem_type = [], mem_output = []\<rparr>"

definition DataInfo_zero :: DataInfo where
  "DataInfo_zero = \<lparr>a_h = 0, a_w = 0, x_h = 0, x_w = 0, w_h = 0, w_w = 0, n_tiles = 0, total_urb = 0, num_e = 0, num_v = 0\<rparr>"

definition LogInfo_zero :: LogInfo where
  "LogInfo_zero = \<lparr>log_mode = 0, log_x_unit = 0, engine_n = 0, log_mem_type = [], log_cache_size = 0, dataset = [], log_lac_width = 0,
     feature_length = 0, log_urb = 0, log_bf = 0, tiling_info = [], log_cycle = 0, log_f_frag_access = 0, log_f_ele_access = 0,
     log_o_access = 0, log_g_access = 0\<rparr>"

definition prep_zero :: prep where
  "prep_zero = \<lparr>arch_info = ArchInfo_zero, data_info = DataInfo_zero, row_ptr = [], col_idx = [], x_to_addr = [], data_index = [],
     davc_list = [], log_info = LogInfo_zero, xw = [], m_table = Map.empty\<rparr>"

definition main_defaults :: "F_PATH \<times> prep" where
  "main_defaults = (\<lparr>ini = [], a_data = [], xw_data = [], csv_path = [], davc_path = []\<rparr>,
     upd_data (\<lambda>d. d\<lparr>n_tiles := 1\<rparr>)
       (upd_arch (\<lambda>a. a\<lparr>lac_width := 32, x_unit := 32, mode := X_CMP, gnn_mode := GCN\<rparr>) prep_zero))"

definition main_options :: "(string \<Rightarrow> string list \<Rightarrow> opt list) \<Rightarrow> string list \<Rightarrow> (F_PATH \<times> prep) res" where
  "main_options gopt argv = res_fold GetOption (gopt option_string argv) main_defaults"

section \<open>The directory of the results\<close>

declare digits_of.simps [simp del]

definition result_path :: "nat \<Rightarrow> string" where
  "result_path idx = ''results/result_'' @ to_string (int idx)"

text \<open>The first index whose directory does not exist; \<open>dirs\<close> are the existing paths.\<close>

partial_function (option) result_index :: "string list \<Rightarrow> nat \<Rightarrow> nat option" where
  "result_index dirs idx = (if result_path idx \<in> set dirs then result_index dirs (idx + 1) else Some idx)"

declare result_index.simps [code]

definition make_result_dir :: "string list \<Rightarrow> (string \<times> string list) option" where
  "make_result_dir dirs =
     (let dirs1 = (if ''results'' \<in> set dirs then dirs else ''results'' # dirs)
      in case result_index dirs1 0 of None \<Rightarrow> None | Some idx \<Rightarrow> Some (result_path idx, result_path idx # dirs1))"

section \<open>The run\<close>

definition open_files :: "(string \<Rightarrow> text_file) \<Rightarrow> F_PATH \<Rightarrow> input_files" where
  "open_files fs f = \<lparr>f_ini = fs (ini f), f_a = fs (a_data f), f_xw = fs (xw_data f), f_davc = fs (davc_path f)\<rparr>"

text \<open>\<open>PrintMemoryStats\<close> copies the access counters into the log, \<open>main\<close> the cycle count and the chunk width.\<close>

definition PrintMemoryStats :: "'d sim \<Rightarrow> prep \<Rightarrow> prep" where
  "PrintMemoryStats st = upd_log (\<lambda>l. l\<lparr>log_g_access := g_access (ms (c_mem st)), log_f_frag_access := f_frag_access (ms (c_mem st)),
     log_f_ele_access := f_ele_access (ms (c_mem st)), log_o_access := o_access (ms (c_mem st))\<rparr>)"

definition log_run :: "u64 \<Rightarrow> 'd sim \<Rightarrow> prep \<Rightarrow> prep" where
  "log_run cyc st p = PrintMemoryStats st (upd_log (\<lambda>l. l\<lparr>log_cycle := cyc, log_lac_width := lac_width (arch_info p)\<rparr>) p)"

definition simulate :: "(string \<Rightarrow> string \<Rightarrow> ('d dram_ops \<times> 'd) res) \<Rightarrow> prep \<times> u64 \<Rightarrow> (u64 \<times> prep \<times> 'd sim) res option" where
  "simulate mem_new pt = (case pt of (p, tw) \<Rightarrow>
     (case mem_new (mem_type (arch_info p)) (mem_output (arch_info p)) of Inl e \<Rightarrow> Some (Inl e) | Inr (D, d) \<Rightarrow>
     (case Controller_new (env_of p) d tw of Inl e \<Rightarrow> Some (Inl e) | Inr st \<Rightarrow>
     (case GCNInference (env_of p) D (mode (arch_info p)) st of None \<Rightarrow> None | Some (Inl e) \<Rightarrow> Some (Inl e)
      | Some (Inr (cyc, st')) \<Rightarrow> Some (Inr (cyc, log_run cyc st' p, st'))))))"

definition sgcn_main :: "(string \<Rightarrow> string list \<Rightarrow> opt list) \<Rightarrow> (string \<Rightarrow> text_file) \<Rightarrow> (string \<Rightarrow> string \<Rightarrow> ('d dram_ops \<times> 'd) res) \<Rightarrow>
    string list \<Rightarrow> string list \<Rightarrow> (u64 \<times> prep \<times> 'd sim) res option" where
  "sgcn_main gopt fs mem_new dirs argv =
     (case main_options gopt argv of Inl e \<Rightarrow> Some (Inl e) | Inr (f, p0) \<Rightarrow>
     (case make_result_dir dirs of None \<Rightarrow> None | Some (out, _) \<Rightarrow>
     (case Preprocessor_new f (open_files fs f) (upd_arch (\<lambda>a. a\<lparr>mem_output := out\<rparr>) p0) of Inl e \<Rightarrow> Some (Inl e)
      | Inr pt \<Rightarrow> simulate mem_new pt)))"

section \<open>The line of the result table\<close>

definition u64_string :: "u64 \<Rightarrow> string" where
  "u64_string a = digits_of (unat a)"

text \<open>The fields in the order they are written; bandwidth and energy come from the DRAM simulator's report.\<close>

definition csv_fields :: "string \<Rightarrow> string \<Rightarrow> LogInfo \<Rightarrow> string list" where
  "csv_fields bandwidth energy l =
     [to_string (engine_n l), to_string (log_mode l), log_mem_type l, to_string (log_cache_size l), tiling_info l,
      if log_mode l = 0 then to_string (log_x_unit l) else ''-1'',
      dataset l, to_string (log_lac_width l), to_string (feature_length l), to_string (log_urb l), to_string (log_bf l),
      u64_string (log_cycle l), u64_string (log_g_access l + log_f_ele_access l + log_o_access l), u64_string (log_g_access l),
      u64_string (log_f_frag_access l), u64_string (log_f_ele_access l - log_f_frag_access l), u64_string (log_o_access l),
      bandwidth, energy]"

text \<open>Every field is followed by a comma; the \<open>endl\<close> in front ends the previous line and flushes the stream.\<close>

definition csv_line :: "string \<Rightarrow> string \<Rightarrow> LogInfo \<Rightarrow> string" where
  "csv_line bandwidth energy l = concat (map (\<lambda>x. x @ '','') (csv_fields bandwidth energy l))"

section \<open>The lock file\<close>

text \<open>
  Several simulations append to one table. A process tests whether the lock file exists, creates it,
  appends the line break (flushed by \<open>endl\<close>) and the fields (flushed by \<open>close\<close>), and removes the lock
  file. Test and creation are two system calls.
\<close>

datatype lock_pc = Testing | Creating | Breaking | Writing | Removing | Leaving

record lock_state =
  lock_file :: bool
  csv_file :: string
  pcs :: "lock_pc list"

definition lock_step :: "(nat \<Rightarrow> string) \<Rightarrow> nat \<Rightarrow> lock_state \<Rightarrow> lock_state" where
  "lock_step row i s = (case pcs s ! i of
       Testing \<Rightarrow> if lock_file s then s else s\<lparr>pcs := (pcs s)[i := Creating]\<rparr>
     | Creating \<Rightarrow> s\<lparr>lock_file := True, pcs := (pcs s)[i := Breaking]\<rparr>
     | Breaking \<Rightarrow> s\<lparr>csv_file := csv_file s @ [CHR 0x0A], pcs := (pcs s)[i := Writing]\<rparr>
     | Writing \<Rightarrow> s\<lparr>csv_file := csv_file s @ row i, pcs := (pcs s)[i := Removing]\<rparr>
     | Removing \<Rightarrow> s\<lparr>lock_file := False, pcs := (pcs s)[i := Leaving]\<rparr>
     | Leaving \<Rightarrow> s)"

inductive lock_run :: "(nat \<Rightarrow> string) \<Rightarrow> nat \<Rightarrow> nat list \<Rightarrow> lock_state \<Rightarrow> bool" for row n where
  start: "lock_run row n [] \<lparr>lock_file = False, csv_file = [], pcs = replicate n Testing\<rparr>"
| step: "lock_run row n is s \<Longrightarrow> i < n \<Longrightarrow> lock_run row n (is @ [i]) (lock_step row i s)"

end
