(* ===== verification/Main_Correct.thy ===== *)
theory Main_Correct
  imports Main_Program
begin

text \<open>
  Properties of the main program: what the options set, that the directory of the results is fresh, and
  that the lock file of the result table does not exclude.
\<close>

section \<open>Options\<close>

text \<open>The options the program accepts: their arguments convert. Of the others only some letters are passed over.\<close>

definition converts :: "'a res \<Rightarrow> bool" where
  "converts r = (case r of Inl _ \<Rightarrow> False | Inr _ \<Rightarrow> True)"

definition option_ok :: "opt \<Rightarrow> bool" where
  "option_ok o1 = (case o1 of Bad c \<Rightarrow> c \<in> set ''tcmlugd''
     | Opt c v \<Rightarrow> (c = CHR ''a'' \<longrightarrow> converts (dataset_of v)) \<and> (c \<in> set ''tlu'' \<longrightarrow> converts (stoi v)) \<and>
         (c = CHR ''m'' \<longrightarrow> converts (res_bind (stoi v) F_MODE_of)) \<and> (c = CHR ''g'' \<longrightarrow> converts (res_bind (stoi v) GNN_MODE_of)))"

text \<open>The argument of the last option with a letter.\<close>

fun last_arg :: "char \<Rightarrow> opt list \<Rightarrow> string option" where
  "last_arg c [] = None"
| "last_arg c (o1 # os) = (case last_arg c os of Some v \<Rightarrow> Some v
     | None \<Rightarrow> (case o1 of Opt d v \<Rightarrow> if d = c then Some v else None | Bad _ \<Rightarrow> None))"

lemma last_arg_snoc: "last_arg c (os @ [o1]) = (case o1 of Opt d v \<Rightarrow> if d = c then Some v else last_arg c os | Bad _ \<Rightarrow> last_arg c os)"
  by (induction os) (auto split: opt.splits option.splits)

text \<open>
  What a sequence of options leaves in the paths and in the variables of the program: the last argument of
  every letter, as a text or converted, or the default; nothing else is touched.
\<close>

definition recorded :: "opt list \<Rightarrow> F_PATH \<Rightarrow> prep \<Rightarrow> bool" where
  "recorded os f p \<longleftrightarrow> (let text = (\<lambda>c. case last_arg c os of None \<Rightarrow> [] | Some v \<Rightarrow> v);
       number = (\<lambda>c d. case last_arg c os of None \<Rightarrow> Inr d | Some v \<Rightarrow> stoi v) in
     f = \<lparr>ini = text (CHR ''i''), a_data = text (CHR ''a''), xw_data = text (CHR ''x''), csv_path = text (CHR ''c''),
          davc_path = text (CHR ''d'')\<rparr> \<and>
     (\<exists>t m l u lu md gm g ds.
        number (CHR ''t'') 1 = Inr t \<and> number (CHR ''l'') 32 = Inr l \<and> number (CHR ''u'') 32 = Inr u \<and> number (CHR ''u'') 0 = Inr lu \<and>
        number (CHR ''m'') 0 = Inr m \<and> F_MODE_of m = Inr md \<and> number (CHR ''g'') 0 = Inr gm \<and> GNN_MODE_of gm = Inr g \<and>
        (case last_arg (CHR ''a'') os of None \<Rightarrow> Inr [] | Some v \<Rightarrow> dataset_of v) = Inr ds \<and>
        p = prep_zero\<lparr>arch_info := ArchInfo_zero\<lparr>lac_width := l, x_unit := u, mode := md, gnn_mode := g\<rparr>,
              data_info := DataInfo_zero\<lparr>n_tiles := t\<rparr>,
              log_info := LogInfo_zero\<lparr>log_mode := m, log_x_unit := lu, dataset := ds\<rparr>\<rparr>))"

lemma GetOption_ok: "(\<exists>s'. GetOption o1 s = Inr s') \<longleftrightarrow> option_ok o1"
  by (cases o1; cases s)
    (auto simp: GetOption_def option_ok_def converts_def res_bind_def split: sum.splits)

lemma GetOption_recorded:
  assumes "recorded os f p" and "GetOption o1 (f, p) = Inr (f', p')"
  shows "recorded (os @ [o1]) f' p'"
proof (cases o1)
  case (Bad c)
  with assms show ?thesis by (auto simp: GetOption_def recorded_def last_arg_snoc split: if_splits)
next
  case (Opt c v)
  with assms show ?thesis
    unfolding recorded_def Let_def
    by (auto simp: GetOption_def last_arg_snoc res_bind_def split: if_splits sum.splits)
qed

lemma options_recorded_from: "res_fold GetOption os main_defaults = Inr (f, p) \<Longrightarrow> recorded os f p"
proof (induction os arbitrary: f p rule: rev_induct)
  case Nil
  then show ?case by (simp add: recorded_def main_defaults_def prep_zero_def F_MODE_of_def GNN_MODE_of_def Let_def
        ArchInfo_zero_def DataInfo_zero_def LogInfo_zero_def)
next
  case (snoc o1 os)
  then obtain f1 p1 where "res_fold GetOption os main_defaults = Inr (f1, p1)" "GetOption o1 (f1, p1) = Inr (f, p)"
    by (auto simp: res_fold_snoc res_bind_def split: sum.splits)
  with snoc.IH GetOption_recorded show ?case by blast
qed

lemma options_accepted: "(\<exists>s'. res_fold GetOption os s = Inr s') \<longleftrightarrow> (\<forall>o1 \<in> set os. option_ok o1)"
proof (induction os arbitrary: s)
  case (Cons o1 os)
  show ?case
  proof (cases "GetOption o1 s")
    case (Inl e)
    then have "\<not> option_ok o1" using GetOption_ok [of o1 s] by simp
    with Inl show ?thesis by simp
  next
    case (Inr s1)
    then have "option_ok o1" using GetOption_ok [of o1 s] by blast
    with Inr Cons [of s1] show ?thesis by simp
  qed
qed simp


text \<open>
  A scanner for option strings in which every letter takes an argument: the rest of the word, or the next word.
  Words without a dash are passed over, \<open>--\<close> ends the options, an unknown letter ends the program.
\<close>

fun scan_words :: "string \<Rightarrow> string list \<Rightarrow> opt list" where
  "scan_words letters [] = []"
| "scan_words letters (w # ws) =
     (if w = ''--'' then []
      else case w of d # c # r \<Rightarrow>
          if d \<noteq> CHR ''-'' then scan_words letters ws
          else if c = CHR '':'' \<or> c \<notin> set letters then [Bad c]
          else if r \<noteq> [] then Opt c r # scan_words letters ws
          else (case ws of [] \<Rightarrow> [Bad c] | v # vs \<Rightarrow> Opt c v # scan_words letters vs)
        | _ \<Rightarrow> scan_words letters ws)"

definition scan_argv :: "string \<Rightarrow> string list \<Rightarrow> opt list" where
  "scan_argv letters argv = scan_words letters (drop 1 argv)"

lemma stoi_digits: "stoi ''1'' = Inr 1" "stoi ''2'' = Inr 2" "stoi ''0'' = Inr 0" "stoi ''3'' = Inr 3" "stoi ''4'' = Inr 4"
  by (simp_all add: stoi_def is_space_def is_digit_def digits_val_def)


section \<open>The directory of the results\<close>

lemma digits_of_inj: "digits_of m = digits_of n \<Longrightarrow> m = n"
  using digits_of_val [of m] digits_of_val [of n] by (metis of_nat_eq_iff)

lemma result_path_inj: "inj result_path"
  by (rule injI) (auto simp: result_path_def to_string_def dest: digits_of_inj)

lemma result_index_step:
  "result_path idx \<in> set dirs \<Longrightarrow> result_index dirs idx = result_index dirs (idx + 1)"
  "result_path idx \<notin> set dirs \<Longrightarrow> result_index dirs idx = Some idx"
  by (subst result_index.simps; simp)+

lemma result_index_least:
  assumes "result_path k \<notin> set dirs" and "\<And>j. idx \<le> j \<Longrightarrow> j < k \<Longrightarrow> result_path j \<in> set dirs" and "idx \<le> k"
  shows "result_index dirs idx = Some k"
  using assms(2,3)
proof (induction "k - idx" arbitrary: idx)
  case 0
  with assms(1) show ?case by (simp add: result_index_step)
next
  case (Suc m)
  then have "result_index dirs (idx + 1) = Some k" by simp
  with Suc show ?case by (simp add: result_index_step)
qed

lemma fresh_index: "\<exists>k. result_path k \<notin> set dirs"
proof (rule ccontr)
  assume "\<nexists>k. result_path k \<notin> set dirs"
  then have "range result_path \<subseteq> set dirs" by auto
  then have "finite (range result_path)" by (rule finite_subset) simp
  with result_path_inj show False by (simp add: finite_image_iff)
qed

text \<open>
  C36. The search for a directory of the results ends, whatever exists already, with the first index that
  is free: earlier results are never overwritten.
\<close>

theorem result_dir_fresh:
  "\<exists>k. make_result_dir dirs = Some (result_path k, result_path k # (if ''results'' \<in> set dirs then dirs else ''results'' # dirs)) \<and>
     result_path k \<notin> set dirs \<and> (\<forall>j < k. result_path j \<in> set dirs)"
proof -
  define k where "k = (LEAST k. result_path k \<notin> set dirs)"
  have k: "result_path k \<notin> set dirs" "\<And>j. j < k \<Longrightarrow> result_path j \<in> set dirs"
    unfolding k_def using LeastI_ex [OF fresh_index] not_less_Least by blast+
  have "result_path j \<noteq> ''results''" for j by (simp add: result_path_def)
  then have "result_index (if ''results'' \<in> set dirs then dirs else ''results'' # dirs) 0 = Some k"
    using k by (intro result_index_least) auto
  with k show ?thesis by (intro exI [of _ k]) (simp add: make_result_dir_def Let_def)
qed

theorem result_dir_fresh_witness:
  "\<exists>k dirs. make_result_dir [''results'', ''results/result_0'', ''results/result_2''] = Some (result_path k, dirs) \<and>
     result_path k \<notin> set [''results'', ''results/result_0'', ''results/result_2'']"
  using result_dir_fresh [of "[''results'', ''results/result_0'', ''results/result_2'']"] by blast

section \<open>Lines\<close>

lemma getline_terminated:
  assumes "\<forall>x \<in> set xs. d \<notin> set x"
  shows "getline_items d [] (concat (map (\<lambda>x. x @ [d]) xs)) = xs"
  using assms
proof (induction xs)
  case (Cons x xs)
  then show ?case using getline_item [of d x "[]"] by simp
qed simp

section \<open>The lock file\<close>

text \<open>
  C38. The lock file does not exclude: two processes can both find it absent, because the test and the
  creation are separate. In the run below both enter, and their results end up on one line of the table
  behind an empty one.
\<close>

theorem csv_lock_race:
  "\<exists>is s. lock_run row 2 is s \<and> pcs s = [Leaving, Leaving] \<and> csv_file s = [CHR 0x0A, CHR 0x0A] @ row 0 @ row 1"
proof -
  have run: "lock_run row n is s \<Longrightarrow> list_all (\<lambda>i. i < n) js \<Longrightarrow> lock_run row n (is @ js) (fold (lock_step row) js s)" for n "is" js s
  proof (induction js arbitrary: "is" s)
    case (Cons j js)
    from lock_run.step [OF Cons.prems(1), of j] Cons.IH [of "is @ [j]" "lock_step row j s"] Cons.prems(2) show ?case by simp
  qed simp
  have "lock_run row 2 ([] @ [0, 1, 0, 1, 0, 1, 0, 1, 0, 1])
      (fold (lock_step row) [0, 1, 0, 1, 0, 1, 0, 1, 0, 1] \<lparr>lock_file = False, csv_file = [], pcs = replicate 2 Testing\<rparr>)"
    by (rule run [OF lock_run.start]) simp
  then have "lock_run row 2 [0, 1, 0, 1, 0, 1, 0, 1, 0, 1]
      \<lparr>lock_file = False, csv_file = [CHR 0x0A, CHR 0x0A] @ row 0 @ row 1, pcs = [Leaving, Leaving]\<rparr>"
    by (simp add: lock_step_def numeral_2_eq_2)
  then show ?thesis by fastforce
qed

end
