(* ===== verification/Prep_Issues.thy ===== *)
theory Prep_Issues
  imports Prep_Env
begin

text \<open>
  Inputs on which the preprocessor leaves its arrays or divides by zero, and a small example on which
  all theorems about the preprocessor are applied.
\<close>

section \<open>The read past the end of a row\<close>

lemma x_cmp_prefix:
  assumes "x_unit (arch_info p) = X" "0 < X" and "x_w (data_info p) = w" "0 < w" and "urb (arch_info p) = int u" "0 < u"
    and "total_urb (data_info p) - (bf (arch_info p) - 1) * int u = int u" and "0 < c0" and "length xr = nat w"
  shows "\<exists>s. res_fold (x_cmp_step p c0 xr) [1..w - 1] ([], c0) = Inr s"
  using x_cmp_loop [where xr = xr and j = "w - 1", OF assms(1-3,5-8)] assms(4,9) by force

text \<open>
  C30. The mode \<open>X_CMP\<close> reads past the end of a feature row: with checked accesses the conversion of
  every non-empty feature matrix fails, because the loop runs one column too far.
\<close>

theorem x_cmp_reads_past_row:
  assumes "mode (arch_info p) = X_CMP" and "x_to_addr p = replicate (nat (x_h (data_info p))) []" and "0 < x_h (data_info p)"
    and "0 < x_unit (arch_info p)" and "x_unit (arch_info p) < 2 ^ 24" and "0 < x_w (data_info p)" and "x_w (data_info p) < 2 ^ 24"
    and "xw p = xr # rest" and "length xr = nat (x_w (data_info p))"
  shows "TransXW p = Inl OutOfRange"
proof -
  let ?w = "x_w (data_info p)" and ?X = "x_unit (arch_info p)"
  define u B where "u = ceil_div ?X 16" and "B = ceil_div ?w ?X"
  have c: "ceil_fdiv ?X CACHE_LINE_COUNT = Inr u" "ceil_fdiv ?w ?X = Inr B" "ceil_fdiv ?X 32 = Inr (ceil_div ?X 32)" "0 < u" "0 < ceil_div ?X 32"
    using assms(4-7) by (simp_all add: u_def B_def ceil_fdiv_exact CACHE_LINE_COUNT_def ceil_div_pos)
  let ?p1 = "p\<lparr>arch_info := (arch_info p)\<lparr>urb := u, bf := B\<rparr>, data_info := (data_info p)\<lparr>total_urb := B * u\<rparr>\<rparr>"
  have "total_urb (data_info ?p1) - (bf (arch_info ?p1) - 1) * int (nat u) = int (nat u)"
    using c(4) by (simp add: algebra_simps)
  from x_cmp_prefix [where p = ?p1 and u = "nat u" and xr = xr, OF _ assms(4) _ assms(6) _ _ this c(5)] c(4) assms(9)
  obtain s where s: "res_fold (x_cmp_step ?p1 (ceil_div ?X 32) xr) [1..?w - 1] ([], ceil_div ?X 32) = Inr s" by auto
  have "x_cmp_step ?p1 (ceil_div ?X 32) xr ?w s = Inl OutOfRange"
    using assms(4,9) by (cases s) (simp add: x_cmp_step_def cmod_def vgeti_def vget_def Let_def)
  moreover have "[1..?w] = [1..?w - 1] @ [?w]" using assms(6) by (simp add: upto_rec2)
  ultimately have "x_cmp_row ?p1 xr [] = Inl OutOfRange"
    using s c(3) by (simp add: x_cmp_row_def res_fold_snoc)
  moreover have "[0..<nat (x_h (data_info p))] = 0 # [1..<nat (x_h (data_info p))]" using assms(3) by (simp add: upt_conv_Cons)
  ultimately have "each_row ?p1 (x_cmp_row ?p1) = Inl OutOfRange"
    using assms(2,3,6,8) by (simp add: each_row_def)
  then have "trans_x_cmp p = Inl OutOfRange" using c(1,2) by (simp add: trans_x_cmp_def Let_def)
  then show ?thesis using assms(1) by (simp add: TransXW_def)
qed

section \<open>Folds beyond the row\<close>

text \<open>
  C31. Too many folds. If the folds of \<open>urb\<close> lines start beyond the lines of a row (80 columns in 4 folds,
  for example), the mapping of the features leaves the table.
\<close>

theorem mat_folds_overrun:
  assumes "urb (arch_info p) = int u" and "total_urb (data_info p) = int tu" and "bf (arch_info p) = int B"
    and "x_h (data_info p) = int h" and "0 < u" and "0 < h" and "tu < (B - 1) * u" and "table h tu xs"
  shows "map_blocks p (xs, a) = Inl OutOfRange"
proof -
  let ?f = "\<lambda>i. res_fold (\<lambda>j. map_cols (int tu) j [int i * int u..int i * int u + int u - 1]) [0..<h]"
  define k where "k = (LEAST i. tu < i * u)"
  have k: "tu < k * u" "\<And>i. i < k \<Longrightarrow> i * u \<le> tu" "k \<le> B - 1"
    using LeastI [of "\<lambda>i. tu < i * u" "B - 1"] not_less_Least [of _ "\<lambda>i. tu < i * u"] Least_le [of "\<lambda>i. tu < i * u" "B - 1"] assms(7)
    by (auto simp: k_def not_less)
  have kB: "k < B" using k(3) assms(7) by (cases B) auto
  have pre: "?f i s = Inr (fold visit (concat (map (\<lambda>j. map (Pair j) (fold_cols tu u i)) [0..<h])) s)"
    if "i < k" "table h tu (fst s)" for i s
  proof (rule res_fold_visits [where h = h and tu = tu, OF _ _ that(2)])
    show "map_cols (int tu) j [int i * int u..int i * int u + int u - 1] s = Inr (fold visit (map (Pair j) (fold_cols tu u i)) s)"
      if "j \<in> set [0..<h]" "table h tu (fst s)" for j s
      using map_cols_visits [of h tu "fst s" j "i * u" u "snd s"] that k(2) [OF \<open>i < k\<close>] by (simp add: fold_cols_def)
  qed auto
  let ?V = "visits tu u k h"
  have "res_fold ?f [0..<k] (xs, a) = Inr (fold visit ?V (xs, a))" unfolding visits_def
    by (rule res_fold_visits [where h = h and tu = tu]) (use pre assms(8) in auto)
  moreover have t: "table h tu (fst (fold visit ?V (xs, a)))"
    by (rule table_visits) (use assms(8) in \<open>auto simp: set_visits\<close>)
  have "?f k s = Inl OutOfRange" if "table h tu (fst s)" for s
  proof -
    have "[int k * int u..int k * int u + int u - 1] = int k * int u # [int k * int u + 1..int k * int u + int u - 1]"
      using assms(5) by (simp add: upto_rec1)
    moreover have "int tu < int k * int u" using k(1) by (metis of_nat_less_iff of_nat_mult)
    moreover have "length (fst s ! 0) = tu" "0 < length (fst s)" using that assms(6) by (auto simp: table_def)
    moreover have "[0..<h] = 0 # [1..<h]" using assms(6) by (simp add: upt_conv_Cons)
    ultimately show ?thesis
      by (cases s) (simp add: vgeti_def vget_def nat_less_iff)
  qed
  moreover have "[0..<B] = [0..<k] @ k # [Suc k..<B]" using kB upt_add_eq_append [of 0 k "B - k"] by (simp add: upt_conv_Cons)
  ultimately show ?thesis using t unfolding map_blocks_def Let_def assms(1-4) nat_int by (simp add: res_fold_append)
qed

section \<open>Wide features in the mode \<open>X_FULL_CMP\<close>\<close>

text \<open>
  C32. Wide features. In the mode \<open>X_FULL_CMP\<close> the number of bitmaps per cache line is 16 divided by the
  words of a bitmap, which is zero beyond 512 columns; the mapping then divides by zero.
\<close>

theorem x_full_cmp_divides_by_zero:
  assumes "512 < x_w (data_info p)" and "x_w (data_info p) < 2 ^ 24" and "0 < x_h (data_info p)"
    and "xs = row # rest" and "row \<noteq> []"
  shows "map_full p (xs, a) = Inl DivByZero"
proof -
  define c where "c = ceil_div (x_w (data_info p)) 32"
  have c: "ceil_fdiv (x_w (data_info p)) 32 = Inr c" using assms(1,2) by (simp add: c_def ceil_fdiv_exact)
  have "x_w (data_info p) \<le> c * 32" using ceil_div_upper [of 32] by (simp add: c_def)
  then have c16: "16 < c" using assms(1) by simp
  then have "CACHE_LINE_COUNT sdiv c = 0" by (simp add: CACHE_LINE_COUNT_def sdiv_nonneg)
  moreover have "[0..<nat (x_h (data_info p))] = 0 # [1..<nat (x_h (data_info p))]" using assms(3) by (simp add: upt_conv_Cons)
  ultimately have "map_heads (CACHE_LINE_COUNT sdiv c) (nat (x_h (data_info p))) (xs, a) = Inl DivByZero"
    using assms(4,5) by (simp add: map_heads_def cmod_def)
  with c c16 show ?thesis by (simp add: map_full_def)
qed

section \<open>A small example\<close>

text \<open>Three vertices, four edges, two engines, 64 feature columns in two folds.\<close>

definition prep_small :: prep where
  "prep_small = \<lparr>arch_info = arch_small\<lparr>lac_width := 2\<rparr>,
     data_info = \<lparr>a_h = 3, a_w = 3, x_h = 3, x_w = 64, w_h = 64, w_w = 64, n_tiles = 2, total_urb = 4, num_e = 4, num_v = 3\<rparr>,
     row_ptr = [[0, 2, 3, 4]], col_idx = [[1, 2, 1, 0]], x_to_addr = [], data_index = [], davc_list = [],
     log_info = \<lparr>log_mode = 1, log_x_unit = 32, engine_n = 2, log_mem_type = ''HBM2'', log_cache_size = 0, dataset = ''small'',
       log_lac_width = 2, feature_length = 64, log_urb = 2, log_bf = 2, tiling_info = [], log_cycle = 0,
       log_f_frag_access = 0, log_f_ele_access = 0, log_o_access = 0, log_g_access = 0\<rparr>,
     xw = replicate 3 (replicate 64 1), m_table = Map.empty\<rparr>"

definition prep_engines :: prep where
  "prep_engines = prep_small\<lparr>data_index := replicate (n_eng prep_small) DataIndex_zero\<rparr>"

lemma small_fields:
  "row_ptr prep_engines = [[0, 2, 3, 4]]" "col_idx prep_engines = [[1, 2, 1, 0]]" "n_of_engine (arch_info prep_engines) = 2"
  "lac_width_of prep_engines = Inr 2" "length (data_index prep_engines) = 2" "csr_wf [0, 2, 3, 4] [1, 2, 1, 0]"
  by (simp_all add: prep_engines_def prep_small_def arch_small_def lac_width_of_def csr_wf_def eval_nat_numeral)


definition prep_dealt :: prep where
  "prep_dealt = prep_engines\<lparr>row_ptr := [[0, 2, 3], [0, 1]], col_idx := [[1, 2, 1], [0]]\<rparr>"

theorem tiling_keeps_edges_witness:
  "\<exists>p'. Tiling prep_dealt = Inr p' \<and> mset (col_idx p' ! 0) = mset [1, 2, 1]"
proof -
  have "csr_wf [0, 2, 3] [1, 2, 1]" "csr_wf [0, 1] [0]" by (simp_all add: csr_wf_def)
  then have "\<forall>e < n_eng prep_dealt. csr_wf (row_ptr prep_dealt ! e) (col_idx prep_dealt ! e) \<and>
      (\<forall>c \<in> set (col_idx prep_dealt ! e). 0 \<le> c \<and> c < a_w (data_info prep_dealt))"
    by (auto simp: prep_dealt_def prep_engines_def prep_small_def arch_small_def less_Suc_eq numeral_2_eq_2)
  from tiling_keeps_edges [OF _ _ _ _ _ _ _ this] show ?thesis
    by (fastforce simp: prep_dealt_def prep_engines_def prep_small_def arch_small_def)
qed

text \<open>The example after \<open>LAC\<close> and \<open>TransXW\<close>.\<close>

definition prep_marked :: prep where
  "prep_marked = prep_dealt\<lparr>x_to_addr := replicate 3 (replicate 4 1), xw := []\<rparr>"

lemma all_less_two: "(\<forall>i < 2. P i) \<longleftrightarrow> P (0::nat) \<and> P 1"
  by (auto simp: less_2_cases_iff)

lemma marked_mappable: "mappable prep_marked 4 2 2 3"
  by (simp add: mappable_def arrays_ok_def table_def prep_marked_def prep_dealt_def prep_engines_def prep_small_def arch_small_def
      all_less_two)

theorem address_layout_witness:
  "\<exists>p'. AddressMapping prep_marked = Inr p' \<and> layout_ok (env_of p') \<and> x_to_addr p' ! 0 ! 1 \<noteq> x_to_addr p' ! 2 ! 3"
proof -
  have "xw_line prep_marked < 2 ^ 50"
    by (rule xw_line_bound) (auto simp: prep_marked_def prep_dealt_def prep_engines_def prep_small_def arch_small_def
        all_less_two less_2_cases_iff)
  then have "xw_line prep_marked + 3 * 4 < 2 ^ 58" by simp
  from address_layout [OF marked_mappable this] obtain p' where
    p: "AddressMapping prep_marked = Inr p'" "layout_ok (env_of p')"
      "\<forall>j < 3. \<forall>c < 4. \<forall>j' < 3. \<forall>c' < 4. x_to_addr prep_marked ! j ! c = 1 \<longrightarrow> x_to_addr prep_marked ! j' ! c' = 1 \<longrightarrow>
         x_to_addr p' ! j ! c = x_to_addr p' ! j' ! c' \<longrightarrow> j = j' \<and> c = c'" by blast
  from p(3) [rule_format, of 0 1 2 3] p(1,2) show ?thesis by (auto simp: prep_marked_def)
qed

text \<open>The example in the three modes.\<close>

definition prep_mode :: "F_MODE \<Rightarrow> prep" where
  "prep_mode md = upd_arch (\<lambda>a. a\<lparr>mode := md\<rparr>) prep_small"

lemma nonzeros_ones: "nonzeros 64 (replicate 64 1) = 64"
  by (simp add: nonzeros_def)

lemma prep_mode_ok:
  assumes "md \<noteq> X_CMP"
  shows "features_ok (prep_mode md)" "cache_ok (arch_info (prep_mode md))" "data_index (prep_mode md) = []" "x_to_addr (prep_mode md) = []"
    "input_ok ((prep_mode md)\<lparr>data_index := replicate (n_eng (prep_mode md)) DataIndex_zero\<rparr>) [0, 2, 3, 4] [1, 2, 1, 0] 2"
proof -
  let ?p = "(prep_mode md)\<lparr>data_index := replicate (n_eng (prep_mode md)) DataIndex_zero\<rparr>"
  have "rows_long (prep_mode md)"
    by (simp add: rows_long_def Let_def prep_mode_def prep_small_def nonzeros_ones)
  then show "features_ok (prep_mode md)" using assms
    by (cases md) (simp_all add: features_ok_def Let_def prep_mode_def prep_small_def arch_small_def ceil_div_def)
  show "cache_ok (arch_info (prep_mode md))" "data_index (prep_mode md) = []" "x_to_addr (prep_mode md) = []"
    by (simp_all add: prep_mode_def prep_small_def arch_small_def cache_ok_def)
  have r: "\<exists>k < 3. lac_engine 2 2 k = e \<and> row_of_csr [0, 2, 3, 4] [1, 2, 1, 0] k \<noteq> []" if "e < 2" for e
    using that by (auto intro!: exI [of _ "2 * e"] simp: lac_engine_def row_of_csr_def less_2_cases_iff)
  have "lac_width_of ?p = Inr 2" by (simp add: prep_mode_def prep_small_def arch_small_def lac_width_of_def)
  then show "input_ok ?p [0, 2, 3, 4] [1, 2, 1, 0] 2"
    using small_fields(6) r [unfolded numeral_3_eq_3]
    by (simp add: input_ok_def Let_def) (simp add: prep_mode_def prep_small_def arch_small_def)
qed


theorem x_cmp_reads_past_row_witness:
  "TransXW (prep_small\<lparr>arch_info := arch_small\<lparr>mode := X_CMP\<rparr>, x_to_addr := [[], [], []]\<rparr>) = Inl OutOfRange"
  by (rule x_cmp_reads_past_row [where xr = "replicate 64 1" and rest = "replicate 2 (replicate 64 1)"])
    (simp_all add: prep_small_def arch_small_def eval_nat_numeral)

theorem mat_folds_overrun_witness:
  "map_blocks (prep_small\<lparr>arch_info := arch_small\<lparr>urb := 2, bf := 4\<rparr>, data_info := (data_info prep_small)\<lparr>x_w := 80, total_urb := 5\<rparr>\<rparr>)
     (replicate 3 (replicate 5 1), 0) = Inl OutOfRange"
  by (rule mat_folds_overrun [where u = 2 and tu = 5 and B = 4 and h = 3])
    (simp_all add: prep_small_def arch_small_def table_def)

theorem x_full_cmp_divides_by_zero_witness:
  "map_full (prep_small\<lparr>data_info := (data_info prep_small)\<lparr>x_w := 1433\<rparr>\<rparr>) ([[1, 1], [1, 1], [1, 1]], 0) = Inl DivByZero"
  by (rule x_full_cmp_divides_by_zero [where row = "[1, 1]" and rest = "[[1, 1], [1, 1]]"])
    (simp_all add: prep_small_def)

end
