(* ===== verification/Sim_Full.thy ===== *)
theory Sim_Full
  imports Sim_Correct Main_Correct Prep_Issues
begin

text \<open>
  The whole program: from the command line and the input files through preprocessing to the main loop
  on the DRAM model.
\<close>

section \<open>The memory system\<close>

text \<open>
  \<open>MemorySystem::MemorySystem\<close> of \<open>src/DRAMsim3/src/memory_system.cc\<close>: the configuration decides between
  the HMC system, an argument here (\<open>Sim_Hmc\<close> supplies it), and the JEDEC system. Its other members forward the call.
\<close>

definition jedec_memory :: "Config \<Rightarrow> (JedecDRAMSystem dram_ops \<times> JedecDRAMSystem) res" where
  "jedec_memory C = res_bind (Jedec_new C) (\<lambda>d. Inr (jedec_ops C, d))"

definition MemorySystem_new :: "(Config \<Rightarrow> ('d dram_ops \<times> 'd) res) \<Rightarrow> (Config \<Rightarrow> ('d dram_ops \<times> 'd) res) \<Rightarrow> (string \<Rightarrow> ini_reader) \<Rightarrow>
    Config \<Rightarrow> string \<Rightarrow> string \<Rightarrow> ('d dram_ops \<times> 'd) res" where
  "MemorySystem_new hmc jedec R c0 config_file output_dir =
     res_bind (Config_new (R config_file) c0) (\<lambda>C. if IsHMC C then hmc C else jedec C)"

section \<open>The loop\<close>

text \<open>When no cycle fails, the loop returns after the first cycle that leaves no write outstanding, or runs forever.\<close>

lemma inference_loop_returns:
  assumes "inference_loop G D c st = Some r"
  shows "(\<exists>n s. cycles G D (Suc n) st = Inr s \<and> total_write (c_mem s) = 0) \<or> (\<exists>n e. cycles G D n st = Inl e)"
proof (rule inference_loop.raw_induct [OF _ assms])
  fix loop G D c st r
  assume 1: "\<And>G D c st r. loop G D c st = Some r \<Longrightarrow>
      (\<exists>n s. cycles G D (Suc n) st = Inr s \<and> total_write (c_mem s) = 0) \<or> (\<exists>n e. cycles G D n st = Inl e)"
    "(case cycle_step G D st of Inl e \<Rightarrow> Some (Inl e) | Inr st1 \<Rightarrow> if total_write (c_mem st1) = 0 then Some (Inr (c + 1, st1))
        else loop G D (c + 1) st1) = Some r"
  show "(\<exists>n s. cycles G D (Suc n) st = Inr s \<and> total_write (c_mem s) = 0) \<or> (\<exists>n e. cycles G D n st = Inl e)"
  proof (cases "cycle_step G D st")
    case (Inl e)
    then have "cycles G D 1 st = Inl e" by simp
    then show ?thesis by blast
  next
    case (Inr s1)
    show ?thesis
    proof (cases "total_write (c_mem s1) = 0")
      case True
      with Inr have "cycles G D (Suc 0) st = Inr s1" by simp
      with True show ?thesis by blast
    next
      case False
      with Inr 1(2) have "loop G D (c + 1) s1 = Some r" by simp
      from 1(1) [OF this] show ?thesis
      proof
        assume "\<exists>n s. cycles G D (Suc n) s1 = Inr s \<and> total_write (c_mem s) = 0"
        then obtain n s where "cycles G D (Suc n) s1 = Inr s" "total_write (c_mem s) = 0" by blast
        with Inr have "cycles G D (Suc (Suc n)) st = Inr s" "total_write (c_mem s) = 0" by simp_all
        then show ?thesis by blast
      next
        assume "\<exists>n e. cycles G D n s1 = Inl e"
        then obtain n e where "cycles G D n s1 = Inl e" by blast
        with Inr have "cycles G D (Suc n) st = Inl e" by simp
        then show ?thesis by blast
      qed
    qed
  qed
qed

lemma inference_loop_outcome:
  assumes ok: "\<And>n. \<exists>s. cycles G D n st = Inr s"
  shows "inference_loop G D c st = None \<and> (\<forall>n s. cycles G D (Suc n) st = Inr s \<longrightarrow> total_write (c_mem s) \<noteq> 0) \<or>
    (\<exists>n s. inference_loop G D c st = Some (Inr (c + 1 + of_nat n, s)) \<and> ends_at G D st n s)"
proof (cases "\<exists>n s. cycles G D (Suc n) st = Inr s \<and> total_write (c_mem s) = 0")
  case True
  define n where "n = (LEAST n. \<exists>s. cycles G D (Suc n) st = Inr s \<and> total_write (c_mem s) = 0)"
  have "\<exists>s. cycles G D (Suc n) st = Inr s \<and> total_write (c_mem s) = 0" unfolding n_def by (rule LeastI_ex [OF True])
  then obtain s where s: "cycles G D (Suc n) st = Inr s" "total_write (c_mem s) = 0" by blast
  have l: "m < n \<Longrightarrow> cycles G D (Suc m) st = Inr s' \<Longrightarrow> total_write (c_mem s') \<noteq> 0" for m s'
    using not_less_Least [of m] unfolding n_def by blast
  then have "ends_at G D st n s" using s by (auto simp: ends_at_def)
  moreover have "inference_loop G D c st = Some (Inr (c + 1 + of_nat n, s))" by (rule inference_loop_at [OF s]) (rule l)
  ultimately show ?thesis by blast
next
  case False
  have "inference_loop G D c st \<noteq> Some r" for r
  proof
    assume "inference_loop G D c st = Some r"
    from inference_loop_returns [OF this] False ok show False by (metis sum.distinct(1))
  qed
  with False show ?thesis by (cases "inference_loop G D c st") auto
qed

section \<open>From the command line to the result\<close>

text \<open>Reading the files leaves the tables that preprocessing builds empty.\<close>

definition read_files :: "(string \<Rightarrow> text_file) \<Rightarrow> F_PATH \<Rightarrow> prep \<Rightarrow> prep res" where
  "read_files fs f p = res_bind (ReadIni (fs (ini f)) p) (\<lambda>p1. res_bind (ParseIni p1) (ReadData (fs (a_data f)) (fs (xw_data f))))"

lemma read_files_frame:
  assumes "read_files fs f p = Inr q"
  shows "data_index q = data_index p \<and> x_to_addr q = x_to_addr p \<and> davc_list q = davc_list p \<and> mem_output (arch_info q) = mem_output (arch_info p)"
  using assms
  by (auto simp: read_files_def ReadIni_def ParseIni_def ReadData_def res_bind_def Let_def split: option.splits sum.splits prod.splits if_splits)

lemma main_options_frame:
  assumes "main_options gopt argv = Inr (f, p)"
  shows "data_index p = []" "x_to_addr p = []" "davc_list p = []"
  using options_recorded_from [of "gopt option_string argv" f p] assms
  by (auto simp: main_options_def recorded_def prep_zero_def Let_def)

lemma GCNInference_no_davc:
  assumes "davc_list G = []"
  shows "GCNInference G D md st = inference_loop G D 0 (started md st)"
  using assms by (cases st) (simp add: GCNInference_def DAVCRead_def started_def)


section \<open>A run\<close>

text \<open>The graph of three vertices and four edges, with 32 feature columns, as input files.\<close>

definition text_lines :: "string list \<Rightarrow> string" where
  "text_lines ls = concat (map (\<lambda>l. l @ [CHR 0x0A]) ls)"

lemma lines_of_text: "\<forall>l \<in> set ls. CHR 0x0A \<notin> set l \<Longrightarrow> lines_of (text_lines ls) = ls"
  unfolding lines_of_def text_lines_def by (rule getline_terminated) auto

lemma read_line_text:
  assumes "CHR 0x0A \<notin> set l"
  shows "read_line (text_lines (l # ls), False) old = (l, text_lines ls, False)"
  using assms by (simp add: text_lines_def find_sub_char takeWhile_append)

definition files_small :: "string \<Rightarrow> text_file" where
  "files_small path =
     (if path = ''sim.ini'' then Some (text_lines [''CacheSize=1'', ''UnitSize=KB'', ''CacheWay=2'', ''NumberOfEngine=2'', ''BF=2'', ''MemoryType=configs/HBM2.ini''])
      else if path = ''small.txt'' then Some (text_lines [''0 2 3 4'', ''1 2 1 0''])
      else if path = ''x.txt'' then Some (text_lines (replicate 3 (join (CHR '' '') (replicate 32 ''1''))))
      else None)"

definition argv_small :: "string list" where
  "argv_small = [''./sim'', ''-i'', ''sim.ini'', ''-a'', ''small.txt'', ''-x'', ''x.txt'', ''-m'', ''1'', ''-l'', ''2'', ''-t'', ''2'']"

lemma options_small:
  "main_options scan_argv argv_small = Inr (\<lparr>ini = ''sim.ini'', a_data = ''small.txt'', xw_data = ''x.txt'', csv_path = [], davc_path = []\<rparr>,
     upd_log (\<lambda>l. l\<lparr>dataset := ''small'', log_mode := 1\<rparr>) (upd_data (\<lambda>d. d\<lparr>n_tiles := 2\<rparr>)
       (upd_arch (\<lambda>a. a\<lparr>mode := MAT, lac_width := 2, x_unit := 32\<rparr>) prep_zero)))"
proof -
  have g: "scan_argv option_string argv_small = [Opt (CHR ''i'') ''sim.ini'', Opt (CHR ''a'') ''small.txt'', Opt (CHR ''x'') ''x.txt'',
      Opt (CHR ''m'') ''1'', Opt (CHR ''l'') ''2'', Opt (CHR ''t'') ''2'']"
    by (simp add: argv_small_def option_string_def scan_argv_def)
  have "dataset_of ''small.txt'' = Inr ''small''" by code_simp
  then show ?thesis unfolding main_options_def g
    by (simp add: GetOption_def main_defaults_def stoi_digits F_MODE_of_def prep_zero_def ArchInfo_zero_def DataInfo_zero_def LogInfo_zero_def)
qed

definition table_small :: "string \<rightharpoonup> string" where
  "table_small = [''CacheSize'' \<mapsto> ''1'', ''UnitSize'' \<mapsto> ''KB'', ''CacheWay'' \<mapsto> ''2'', ''NumberOfEngine'' \<mapsto> ''2'', ''BF'' \<mapsto> ''2'',
     ''MemoryType'' \<mapsto> ''configs/HBM2.ini'']"

lemma ReadIni_small:
  assumes "m_table p = Map.empty"
  shows "ReadIni (files_small ''sim.ini'') p = Inr (p\<lparr>m_table := table_small\<rparr>)"
  using assms by (simp add: ReadIni_def files_small_def lines_of_text ini_entry_def table_small_def)

lemma ParseIni_small:
  assumes "m_table p = table_small"
  shows "ParseIni p = Inr (upd_log (\<lambda>l. l\<lparr>engine_n := 2, log_mem_type := ''HBM2.ini'', log_cache_size := 0, log_bf := 2\<rparr>)
       (upd_arch (\<lambda>a. a\<lparr>cache_size := 1024, cache_way := 2, cache_set := 8, n_of_engine := 2, bf := 2,
          d_value_addr_start := 0, mem_type := ''configs/HBM2.ini''\<rparr>) p))"
proof -
  have t: "m_table p ''CacheSize'' = Some ''1''" "m_table p ''UnitSize'' = Some ''KB''" "m_table p ''CacheWay'' = Some ''2''"
    "m_table p ''NumberOfEngine'' = Some ''2''" "m_table p ''BF'' = Some ''2''" "m_table p ''MemoryType'' = Some ''configs/HBM2.ini''"
    using assms by (simp_all add: table_small_def)
  have "parse_mem ''configs/HBM2.ini'' = Inr ''HBM2.ini''" "cdiv 1024 2 = Inr 512" "cdiv 512 64 = Inr 8" "(1024 :: int) sdiv 1048576 = 0"
    by code_simp+
  then show ?thesis using t by (simp add: ParseIni_def parse_cache_def GetInt_def GetString_def stoi_digits)
qed

lemma ReadData_small:
  assumes "row_ptr p = []" and "col_idx p = []" and "xw p = []" and "bf (arch_info p) = 2"
  shows "ReadData (files_small ''small.txt'') (files_small ''x.txt'') p = Inr (upd_log (\<lambda>l. l\<lparr>feature_length := 32, log_urb := 1\<rparr>)
       (upd_arch (\<lambda>a. a\<lparr>urb := 1\<rparr>)
         (upd_data (\<lambda>d. d\<lparr>num_v := 3, num_e := 4, a_h := 3, a_w := 3, x_h := 3, w_w := 32, w_h := 32, x_w := 32, total_urb := 2\<rparr>)
           (p\<lparr>row_ptr := [[0, 2, 3, 4]], col_idx := [[1, 2, 1, 0]], xw := replicate 3 (replicate 32 1)\<rparr>))))"
proof -
  have l: "line_ints ''0 2 3 4'' = Inr [0, 2, 3, 4]" "line_ints ''1 2 1 0'' = Inr [1, 2, 1, 0]"
    by (simp_all add: line_ints_def stoi_digits)
  have "read_graph (files_small ''small.txt'') = Inr ([0, 2, 3, 4], [1, 2, 1, 0])"
    by (simp add: read_graph_def files_small_def read_line_text l del: read_line.simps)
  moreover have x: "line_ints (join (CHR '' '') (replicate 32 ''1'')) = Inr (replicate 32 1)"
    by (simp add: line_ints_def stoi_digits eval_nat_numeral)
  have "lines_of (text_lines (replicate 3 (join (CHR '' '') (replicate 32 ''1'')))) = replicate 3 (join (CHR '' '') (replicate 32 ''1''))"
    by (rule lines_of_text) (simp add: eval_nat_numeral)
  with x have "read_xw (files_small ''x.txt'') = Inr (replicate 3 (replicate 32 1))"
    by (simp add: read_xw_def files_small_def numeral_3_eq_3)
  moreover have "ceil_fdiv 32 CACHE_LINE_COUNT = Inr 2" "ceil_fdiv2 32 2 CACHE_LINE_COUNT = Inr 1" by code_simp+
  ultimately show ?thesis using assms by (simp add: ReadData_def)
qed

text \<open>The state after reading the files, and that it is well formed.\<close>

definition prep_read :: prep where
  "prep_read = prep_zero\<lparr>
     arch_info := ArchInfo_zero\<lparr>n_of_engine := 2, cache_size := 1024, cache_way := 2, cache_set := 8, urb := 1, bf := 2, lac_width := 2,
       x_unit := 32, mode := MAT, mem_type := ''configs/HBM2.ini'', mem_output := ''results/result_0''\<rparr>,
     data_info := \<lparr>a_h = 3, a_w = 3, x_h = 3, x_w = 32, w_h = 32, w_w = 32, n_tiles = 2, total_urb = 2, num_e = 4, num_v = 3\<rparr>,
     log_info := LogInfo_zero\<lparr>log_mode := 1, engine_n := 2, log_mem_type := ''HBM2.ini'', dataset := ''small'', feature_length := 32,
       log_urb := 1, log_bf := 2\<rparr>,
     row_ptr := [[0, 2, 3, 4]], col_idx := [[1, 2, 1, 0]], xw := replicate 3 (replicate 32 1), m_table := table_small\<rparr>"

lemma prep_read_ok:
  "features_ok prep_read" "cache_ok (arch_info prep_read)"
  "input_ok (prep_read\<lparr>data_index := replicate (n_eng prep_read) DataIndex_zero\<rparr>) [0, 2, 3, 4] [1, 2, 1, 0] 2"
proof -
  show "features_ok prep_read" "cache_ok (arch_info prep_read)"
    by (simp_all add: features_ok_def prep_read_def ceil_div_def cache_ok_def ArchInfo_zero_def)
  have r: "\<exists>k < 3. lac_engine 2 2 k = e \<and> row_of_csr [0, 2, 3, 4] [1, 2, 1, 0] k \<noteq> []" if "e < 2" for e
    using that by (auto intro!: exI [of _ "2 * e"] simp: lac_engine_def row_of_csr_def less_2_cases_iff)
  have "csr_wf [0, 2, 3, 4] [1, 2, 1, 0]" "lac_width_of (prep_read\<lparr>data_index := replicate (n_eng prep_read) DataIndex_zero\<rparr>) = Inr 2"
    by (simp_all add: prep_read_def ArchInfo_zero_def lac_width_of_def csr_wf_def eval_nat_numeral)
  then show "input_ok (prep_read\<lparr>data_index := replicate (n_eng prep_read) DataIndex_zero\<rparr>) [0, 2, 3, 4] [1, 2, 1, 0] 2"
    using r [unfolded numeral_3_eq_3] by (simp add: input_ok_def Let_def) (simp add: prep_read_def ArchInfo_zero_def)
qed


end
