(* ===== verification/Hmc.thy ===== *)
theory Hmc
  imports Dram_System
begin

text \<open>
  The hybrid memory cube, \<open>src/DRAMsim3/src/hmc.cc\<close> and \<open>hmc.h\<close>: requests enter through links, a crossbar
  moves them to the four quadrants, each quadrant feeds its vaults (the channel controllers), and the
  responses take the way back. The crossbar runs on a faster clock than the vaults; both clocks count
  picoseconds. A callback is an element of the list of completions.
\<close>

section \<open>Packets\<close>

datatype HMCReqType =
    RD0 | RD16 | RD32 | RD48 | RD64 | RD80 | RD96 | RD112 | RD128 | RD256
  | WR0 | WR16 | WR32 | WR48 | WR64 | WR80 | WR96 | WR112 | WR128 | WR256
  | P_WR16 | P_WR32 | P_WR48 | P_WR64 | P_WR80 | P_WR96 | P_WR112 | P_WR128 | P_WR256
  | ADD8 | ADD16 | P_2ADD8 | P_ADD16 | ADDS8R | ADDS16R | INC8 | P_INC8
  | XOR16 | OR16 | NOR16 | AND16 | NAND16
  | CASGT8 | CASGT16 | CASLT8 | CASLT16 | CASEQ8 | CASZERO16
  | EQ8 | EQ16 | BWR | P_BWR | BWR8R | SWAP16 | REQ_SIZE

datatype HMCRespType = RESP_NONE | RD_RS | WR_RS | RESP_ERR | RESP_SIZE

record HMCRequest =
  rq_type :: HMCReqType
  mem_operand :: u64
  rq_link :: int
  rq_quad :: int
  vault :: int
  rq_flits :: int
  rq_write :: bool
  rq_exit :: u64

record HMCResponse =
  resp_id :: u64
  rs_type :: HMCRespType
  rs_link :: int
  rs_quad :: int
  rs_flits :: int
  rs_exit :: u64

text \<open>The range \<open>WR0\<close> to \<open>P_WR256\<close> of the enumeration.\<close>

definition writes_from :: "HMCReqType list" where
  "writes_from = [WR0, WR16, WR32, WR48, WR64, WR80, WR96, WR112, WR128, WR256,
     P_WR16, P_WR32, P_WR48, P_WR64, P_WR80, P_WR96, P_WR112, P_WR128, P_WR256]"

definition req_flits :: "HMCReqType \<Rightarrow> int res" where
  "req_flits t =
     (if t \<in> set [RD0, WR0] then Inr 0
      else if t \<in> set [RD16, RD32, RD48, RD64, RD80, RD96, RD112, RD128, RD256] then Inr 1
      else if t \<in> set [WR16, P_WR16] then Inr 2
      else if t \<in> set [WR32, P_WR32] then Inr 3
      else if t \<in> set [WR48, P_WR48] then Inr 4
      else if t \<in> set [WR64, P_WR64] then Inr 5
      else if t \<in> set [WR80, P_WR80] then Inr 6
      else if t \<in> set [WR96, P_WR96] then Inr 7
      else if t \<in> set [WR112, P_WR112] then Inr 8
      else if t \<in> set [WR128, P_WR128] then Inr 9
      else if t \<in> set [WR256, P_WR256] then Inr 17
      else if t \<in> set [ADD8, ADD16, P_2ADD8, P_ADD16, ADDS8R, ADDS16R] then Inr 2
      else if t \<in> set [INC8, P_INC8] then Inr 1
      else if t \<in> set [XOR16, OR16, NOR16, AND16, NAND16, CASGT8, CASGT16, CASLT8, CASLT16, CASEQ8, CASZERO16] then Inr 2
      else if t \<in> set [EQ8, EQ16, BWR, P_BWR, BWR8R, SWAP16] then Inr 2
      else Inl Abrupt)"

text \<open>
  \<open>link\<close> and \<open>exit_time\<close> are not initialised by the constructors; they are assigned when a packet enters
  a queue in which they are read.
\<close>

definition HMCRequest_new :: "HMCReqType \<Rightarrow> u64 \<Rightarrow> int \<Rightarrow> HMCRequest res" where
  "HMCRequest_new t a v = res_bind (req_flits t) (\<lambda>fl.
     Inr \<lparr>rq_type = t, mem_operand = a, rq_link = 0, rq_quad = v smod 4, vault = v, rq_flits = fl,
          rq_write = (t \<in> set writes_from), rq_exit = 0\<rparr>)"

definition resp_kind :: "HMCReqType \<Rightarrow> (HMCRespType \<times> int) res" where
  "resp_kind t =
     (if t = RD0 then Inr (RD_RS, 0)
      else if t = RD16 then Inr (RD_RS, 2)
      else if t = RD32 then Inr (RD_RS, 3)
      else if t = RD48 then Inr (RD_RS, 4)
      else if t = RD64 then Inr (RD_RS, 5)
      else if t = RD80 then Inr (RD_RS, 6)
      else if t = RD96 then Inr (RD_RS, 7)
      else if t = RD112 then Inr (RD_RS, 8)
      else if t = RD128 then Inr (RD_RS, 9)
      else if t = RD256 then Inr (RD_RS, 17)
      else if t = WR0 then Inr (WR_RS, 0)
      else if t \<in> set [WR16, WR32, WR48, WR64, WR80, WR96, WR112, WR128, WR256] then Inr (WR_RS, 1)
      else if t \<in> set [P_WR16, P_WR32, P_WR48, P_WR64, P_WR80, P_WR96, P_WR112, P_WR128, P_WR256] then Inr (RESP_NONE, 0)
      else if t \<in> set [ADD8, ADD16] then Inr (WR_RS, 1)
      else if t \<in> set [P_2ADD8, P_ADD16] then Inr (RESP_NONE, 0)
      else if t \<in> set [ADDS8R, ADDS16R] then Inr (RD_RS, 2)
      else if t = INC8 then Inr (WR_RS, 1)
      else if t = P_INC8 then Inr (RESP_NONE, 0)
      else if t \<in> set [XOR16, OR16, NOR16, AND16, NAND16, CASGT8, CASGT16, CASLT8, CASLT16, CASEQ8, CASZERO16] then Inr (RD_RS, 2)
      else if t \<in> set [EQ8, EQ16, BWR] then Inr (WR_RS, 1)
      else if t = P_BWR then Inr (RESP_NONE, 0)
      else if t \<in> set [BWR8R, SWAP16] then Inr (RD_RS, 2)
      else Inl Abrupt)"

definition HMCResponse_new :: "u64 \<Rightarrow> HMCReqType \<Rightarrow> int \<Rightarrow> int \<Rightarrow> HMCResponse res" where
  "HMCResponse_new i t dest_link src_quad = res_bind (resp_kind t) (\<lambda>(ty, fl).
     Inr \<lparr>resp_id = i, rs_type = ty, rs_link = dest_link, rs_quad = src_quad, rs_flits = fl, rs_exit = 0\<rparr>)"

section \<open>The state\<close>

text \<open>\<open>resp_lookup_table_\<close>, a multimap, lists its entries in the order of insertion.\<close>

record HMCMemorySystem =
  hm_clk :: u64
  hm_last_req_clk :: u64
  hm_ctrls :: "DController list"
  logic_clk :: u64
  ps_per_dram :: u64
  ps_per_logic :: u64
  logic_ps :: u64
  dram_ps :: u64
  next_link :: int
  links :: int
  queue_depth :: u64
  resp_lookup_table :: "(u64 \<times> HMCResponse) list"
  link_req_queues :: "HMCRequest list list"
  link_resp_queues :: "HMCResponse list list"
  quad_req_queues :: "HMCRequest list list"
  quad_resp_queues :: "HMCResponse list list"
  link_busy :: "int list"
  quad_busy :: "int list"
  link_age_counter :: "int list"
  quad_age_counter :: "int list"

text \<open>
  The quotient of \<open>1000000\<close> and a speed is computed in double precision and truncated; for operands of
  32 bits that is the truncated integer quotient. The conversion is undefined for a zero speed and
  for a negative quotient.
\<close>

definition SetClockRatio :: "Config \<Rightarrow> (u64 \<times> u64) res" where
  "SetClockRatio C =
     res_bind (cdiv 128 (link_width C)) (\<lambda>link_cycles_per_flit.
     res_bind (cdiv (link_speed C) link_cycles_per_flit) (\<lambda>logic_speed.
     if logic_speed = 0 \<or> 1000000 sdiv logic_speed < 0 then Inl BadConv
     else let per_logic = (of_int (1000000 sdiv logic_speed) :: u64)
          in Inr (800, if 800 < per_logic then 800 else per_logic)))"

definition Hmc_new :: "Config \<Rightarrow> HMCMemorySystem res" where
  "Hmc_new C =
     (if \<not> IsHMC C then Inl Abrupt
      else res_bind (SetClockRatio C) (\<lambda>(per_dram, per_logic).
        if channels C < 0 then Inl (Thrown ''length_error'')
        else res_bind (res_fold (\<lambda>i cts. res_bind (DController_new C i) (\<lambda>ct. Inr (cts @ [ct]))) (iota (channels C)) [])
          (\<lambda>cts.
            if num_links C < 0 then Inl (Thrown ''length_error'')
            else let n = nat (num_links C)
              in Inr \<lparr>hm_clk = 0, hm_last_req_clk = 0, hm_ctrls = cts, logic_clk = 0, ps_per_dram = per_dram,
                   ps_per_logic = per_logic, logic_ps = 0, dram_ps = 0, next_link = 0, links = num_links C,
                   queue_depth = of_int (xbar_queue_depth C), resp_lookup_table = [],
                   link_req_queues = replicate n [], link_resp_queues = replicate n [],
                   quad_req_queues = replicate 4 [], quad_resp_queues = replicate 4 [],
                   link_busy = replicate n 0, quad_busy = [0, 0, 0, 0],
                   link_age_counter = replicate n 0, quad_age_counter = [0, 0, 0, 0]\<rparr>)))"

definition IterateNextLink :: "HMCMemorySystem \<Rightarrow> HMCMemorySystem res" where
  "IterateNextLink s = res_bind (cmod (next_link s + 1) (links s)) (\<lambda>l. Inr (s\<lparr>next_link := l\<rparr>))"

section \<open>Requests\<close>

definition has_room :: "HMCMemorySystem \<Rightarrow> 'a list \<Rightarrow> bool" where
  "has_room s q \<longleftrightarrow> length q < unat (queue_depth s)"

definition Hmc_WillAcceptTransaction :: "HMCMemorySystem \<Rightarrow> u64 \<Rightarrow> bool \<Rightarrow> bool" where
  "Hmc_WillAcceptTransaction s a w \<longleftrightarrow> list_ex (has_room s) (link_req_queues s)"

definition InsertReqToLink :: "HMCRequest \<Rightarrow> int \<Rightarrow> HMCMemorySystem \<Rightarrow> (bool \<times> HMCMemorySystem) res" where
  "InsertReqToLink req l s =
     res_bind (vgeti (link_req_queues s) l) (\<lambda>q.
     if has_room s q then
       res_bind (HMCResponse_new (mem_operand req) (rq_type req) l (rq_quad req)) (\<lambda>resp.
       res_bind (vseti (link_age_counter s) l 1) (\<lambda>ages.
       Inr (True, s\<lparr>link_req_queues := (link_req_queues s)[nat l := q @ [req\<lparr>rq_link := l\<rparr>]],
                    resp_lookup_table := resp_lookup_table s @ [(resp_id resp, resp)],
                    link_age_counter := ages, hm_last_req_clk := hm_clk s\<rparr>)))
     else Inr (False, s))"

text \<open>Insertion at the current link; the code moves on to the next link whether it succeeds or not.\<close>

definition insert_next :: "HMCRequest \<Rightarrow> HMCMemorySystem \<Rightarrow> (bool \<times> HMCMemorySystem) res" where
  "insert_next req s =
     res_bind (InsertReqToLink req (next_link s) s) (\<lambda>(ok, s1). res_bind (IterateNextLink s1) (\<lambda>s2. Inr (ok, s2)))"

text \<open>The loop over the other links; it ends when it is back at the link it started from.\<close>

partial_function (option) insert_loop :: "int \<Rightarrow> HMCRequest \<Rightarrow> HMCMemorySystem \<Rightarrow> (bool \<times> HMCMemorySystem) res option" where
  "insert_loop start_link req s =
     (if start_link = next_link s then Some (Inr (False, s))
      else (case insert_next req s of
        Inl e \<Rightarrow> Some (Inl e)
      | Inr (ok, s2) \<Rightarrow> if ok then Some (Inr (True, s2)) else insert_loop start_link req s2))"

definition InsertHMCReq :: "HMCRequest \<Rightarrow> HMCMemorySystem \<Rightarrow> (bool \<times> HMCMemorySystem) res option" where
  "InsertHMCReq req s =
     (case insert_next req s of
        Inl e \<Rightarrow> Some (Inl e)
      | Inr (ok, s2) \<Rightarrow> if ok then Some (Inr (True, s2)) else insert_loop (next_link s) req s2)"

definition block_type :: "Config \<Rightarrow> bool \<Rightarrow> HMCReqType res" where
  "block_type C w =
     (if block_size C = 0 then Inr (if w then WR0 else RD0)
      else if block_size C = 32 then Inr (if w then WR32 else RD32)
      else if block_size C = 64 then Inr (if w then WR64 else RD64)
      else if block_size C = 128 then Inr (if w then WR128 else RD128)
      else if block_size C = 256 then Inr (if w then WR256 else RD256)
      else Inl Abrupt)"

definition Hmc_AddTransaction :: "Config \<Rightarrow> HMCMemorySystem \<Rightarrow> u64 \<Rightarrow> bool \<Rightarrow> (bool \<times> HMCMemorySystem) res option" where
  "Hmc_AddTransaction C s a w =
     (case res_bind (block_type C w) (\<lambda>t. res_bind (GetChannel C a) (HMCRequest_new t a)) of
        Inl e \<Rightarrow> Some (Inl e)
      | Inr req \<Rightarrow> InsertHMCReq req s)"

section \<open>The crossbar\<close>

text \<open>
  \<open>BuildAgeQueue\<close>: the ports with a positive age, from a start position that moves with the clock. The
  insertion compares the age of a port with the \<^emph>\<open>index\<close> of a port already in the queue.
\<close>

fun insert_age :: "int \<Rightarrow> nat \<Rightarrow> nat list \<Rightarrow> nat list" where
  "insert_age age pos [] = [pos]"
| "insert_age age pos (it # q) = (if int it < age then pos # it # q else it # insert_age age pos q)"

definition age_step :: "int list \<Rightarrow> nat \<Rightarrow> nat list \<Rightarrow> nat list" where
  "age_step ages pos q = (if 0 < ages ! pos then insert_age (ages ! pos) pos q else q)"

definition BuildAgeQueue :: "u64 \<Rightarrow> int list \<Rightarrow> nat list res" where
  "BuildAgeQueue clk ages =
     (if ages = [] then Inl DivByZero
      else let n = length ages; start_pos = unat (clk mod of_nat n)
        in Inr (fold (\<lambda>i. age_step ages ((i + start_pos) mod n)) [0..<n] []))"

definition InsertReqToDRAM :: "HMCRequest \<Rightarrow> HMCMemorySystem \<Rightarrow> HMCMemorySystem res" where
  "InsertReqToDRAM req s =
     res_bind (vgeti (hm_ctrls s) (vault req)) (\<lambda>ct.
     Inr (s\<lparr>hm_ctrls := (hm_ctrls s)[nat (vault req) := ct_AddTransaction (DTransaction_new (mem_operand req) (rq_write req)) ct]\<rparr>))"

definition drain_quad :: "Config \<Rightarrow> nat \<Rightarrow> HMCMemorySystem \<Rightarrow> HMCMemorySystem res" where
  "drain_quad C i s =
     res_bind (vget (quad_req_queues s) i) (\<lambda>q. res_bind (vget (quad_resp_queues s) i) (\<lambda>rq.
     case q of
       [] \<Rightarrow> Inr s
     | req # rest \<Rightarrow>
         if has_room s rq \<and> rq_exit req \<le> logic_clk s then
           res_bind (vgeti (hm_ctrls s) (vault req)) (\<lambda>ct.
           if ct_WillAcceptTransaction C ct (rq_write req) then
             res_bind (InsertReqToDRAM req s) (\<lambda>s1. Inr (s1\<lparr>quad_req_queues := (quad_req_queues s1)[i := rest]\<rparr>))
           else Inr s)
         else Inr s))"

definition drain_busy :: "int list \<Rightarrow> int list" where
  "drain_busy = map (\<lambda>i. if 0 < i then i - 2 else i)"

definition route_request :: "nat \<Rightarrow> HMCMemorySystem \<Rightarrow> HMCMemorySystem res" where
  "route_request src s =
     res_bind (vget (link_req_queues s) src) (\<lambda>q.
     case q of
       [] \<Rightarrow> Inl EmptyPop
     | req # rest \<Rightarrow>
         let dest = rq_quad req in
         res_bind (vgeti (quad_req_queues s) dest) (\<lambda>dq.
         res_bind (if has_room s dq then vgeti (quad_busy s) dest else Inr 1) (\<lambda>busy.
         if has_room s dq \<and> busy \<le> 0 then
           res_bind (vset (link_age_counter s) src (if rest = [] then 0 else 1)) (\<lambda>ages.
           Inr (s\<lparr>link_req_queues := (link_req_queues s)[src := rest],
                  quad_req_queues := (quad_req_queues s)[nat dest := dq @ [req\<lparr>rq_exit := logic_clk s + of_int (rq_flits req)\<rparr>]],
                  quad_busy := (quad_busy s)[nat dest := rq_flits req],
                  link_age_counter := ages\<rparr>))
         else
           res_bind (vget (link_age_counter s) src) (\<lambda>age.
           Inr (s\<lparr>link_age_counter := (link_age_counter s)[src := age + 1]\<rparr>)))))"

definition DrainRequests :: "Config \<Rightarrow> HMCMemorySystem \<Rightarrow> HMCMemorySystem res" where
  "DrainRequests C s =
     res_bind (res_fold (drain_quad C) [0..<4] s) (\<lambda>s1.
     let s2 = s1\<lparr>quad_busy := drain_busy (quad_busy s1)\<rparr>
     in res_bind (BuildAgeQueue (logic_clk s2) (link_age_counter s2)) (\<lambda>age_queue. res_fold route_request age_queue s2))"

section \<open>Responses\<close>

definition resp_event :: "HMCResponse \<Rightarrow> u64 \<times> bool" where
  "resp_event r = (resp_id r, rs_type r \<noteq> RD_RS)"

definition drain_link :: "nat \<Rightarrow> HMCMemorySystem \<times> (u64 \<times> bool) list \<Rightarrow> (HMCMemorySystem \<times> (u64 \<times> bool) list) res" where
  "drain_link i = (\<lambda>(s, evs).
     res_bind (vget (link_resp_queues s) i) (\<lambda>q.
     case q of
       [] \<Rightarrow> Inr (s, evs)
     | resp # rest \<Rightarrow>
         if rs_exit resp \<le> logic_clk s
         then Inr (s\<lparr>link_resp_queues := (link_resp_queues s)[i := rest]\<rparr>, evs @ [resp_event resp])
         else Inr (s, evs)))"

definition route_response :: "nat \<Rightarrow> HMCMemorySystem \<Rightarrow> HMCMemorySystem res" where
  "route_response src s =
     res_bind (vget (quad_resp_queues s) src) (\<lambda>q.
     case q of
       [] \<Rightarrow> Inl EmptyPop
     | resp # rest \<Rightarrow>
         let dest = rs_link resp in
         res_bind (vgeti (link_resp_queues s) dest) (\<lambda>dq.
         res_bind (if has_room s dq then vgeti (link_busy s) dest else Inr 1) (\<lambda>busy.
         if has_room s dq \<and> busy \<le> 0 then
           res_bind (vset (quad_age_counter s) src (if rest = [] then 0 else 1)) (\<lambda>ages.
           Inr (s\<lparr>quad_resp_queues := (quad_resp_queues s)[src := rest],
                  link_resp_queues := (link_resp_queues s)[nat dest := dq @ [resp\<lparr>rs_exit := logic_clk s + of_int (rs_flits resp)\<rparr>]],
                  link_busy := (link_busy s)[nat dest := rs_flits resp],
                  quad_age_counter := ages\<rparr>))
         else
           res_bind (vget (quad_age_counter s) src) (\<lambda>age.
           Inr (s\<lparr>quad_age_counter := (quad_age_counter s)[src := age + 1]\<rparr>)))))"

definition DrainResponses :: "HMCMemorySystem \<Rightarrow> (HMCMemorySystem \<times> (u64 \<times> bool) list) res" where
  "DrainResponses s =
     res_bind (res_fold drain_link [0..<nat (links s)] (s, [])) (\<lambda>(s1, evs).
     let s2 = s1\<lparr>link_busy := drain_busy (link_busy s1)\<rparr>
     in res_bind (BuildAgeQueue (logic_clk s2) (quad_age_counter s2)) (\<lambda>age_queue.
        res_bind (res_fold route_response age_queue s2) (\<lambda>s3. Inr (s3, evs))))"

text \<open>
  \<open>multimap::find\<close> returns an entry with the key; with several, the GNU library returns the oldest one. A
  missing entry is a dereferenced end iterator.
\<close>

fun take_key :: "u64 \<Rightarrow> (u64 \<times> 'a) list \<Rightarrow> ('a \<times> (u64 \<times> 'a) list) option" where
  "take_key k [] = None"
| "take_key k (e # es) = (if fst e = k then Some (snd e, es)
     else map_option (\<lambda>(x, r). (x, e # r)) (take_key k es))"

definition VaultCallback :: "u64 \<Rightarrow> HMCMemorySystem \<Rightarrow> HMCMemorySystem res" where
  "VaultCallback req_id s = (case take_key req_id (resp_lookup_table s) of
     None \<Rightarrow> Inl OutOfRange
   | Some (resp, tab) \<Rightarrow>
       res_bind (vgeti (quad_resp_queues s) (rs_quad resp)) (\<lambda>q.
       res_bind (vseti (quad_age_counter s) (rs_quad resp) 1) (\<lambda>ages.
       Inr (s\<lparr>resp_lookup_table := tab, quad_resp_queues := (quad_resp_queues s)[nat (rs_quad resp) := q @ [resp]],
              quad_age_counter := ages\<rparr>))))"

section \<open>The clocks\<close>

definition DRAMClockTick :: "Config \<Rightarrow> HMCMemorySystem \<Rightarrow> HMCMemorySystem res" where
  "DRAMClockTick C s =
     (case drain_all (hm_clk s) (hm_ctrls s) of (evs, cts) \<Rightarrow>
      res_bind (res_fold VaultCallback (map fst evs) (s\<lparr>hm_ctrls := cts\<rparr>)) (\<lambda>s1.
      res_bind (res_map (ct_ClockTick C (Timing_new C)) (hm_ctrls s1)) (\<lambda>cts1.
      let clk = hm_clk s1 + 1; period = (of_int (epoch_period C) :: u64)
      in if period = 0 then Inl DivByZero
         else res_bind (if clk mod period = 0 then res_map ct_PrintEpochStats cts1 else Inr cts1) (\<lambda>cts2.
           Inr (s1\<lparr>hm_clk := clk, hm_ctrls := cts2\<rparr>)))))"

definition logic_tick :: "HMCMemorySystem \<Rightarrow> HMCMemorySystem" where
  "logic_tick s = s\<lparr>logic_ps := logic_ps s + ps_per_logic s, logic_clk := logic_clk s + 1\<rparr>"

definition logic_cycle :: "Config \<Rightarrow> HMCMemorySystem \<Rightarrow> (HMCMemorySystem \<times> (u64 \<times> bool) list) res" where
  "logic_cycle C s = res_bind (DrainResponses s) (\<lambda>(s1, evs).
     res_bind (DrainRequests C s1) (\<lambda>s2. Inr (logic_tick s2, evs)))"

text \<open>The crossbar catches up with the vaults.\<close>

partial_function (option) logic_loop :: "Config \<Rightarrow> HMCMemorySystem \<Rightarrow> (u64 \<times> bool) list \<Rightarrow>
    (HMCMemorySystem \<times> (u64 \<times> bool) list) res option" where
  "logic_loop C s evs =
     (if logic_ps s < dram_ps s + ps_per_dram s then
        (case logic_cycle C s of Inl e \<Rightarrow> Some (Inl e) | Inr (s1, es) \<Rightarrow> logic_loop C s1 (evs @ es))
      else Some (Inr (s, evs)))"

definition first_cycle :: "Config \<Rightarrow> HMCMemorySystem \<Rightarrow> (HMCMemorySystem \<times> (u64 \<times> bool) list) res" where
  "first_cycle C s =
     (if dram_ps s = logic_ps s then
        res_bind (DrainResponses s) (\<lambda>(s1, evs). res_bind (DRAMClockTick C s1) (\<lambda>s2.
        res_bind (DrainRequests C s2) (\<lambda>s3. Inr (logic_tick s3, evs))))
      else res_bind (DRAMClockTick C s) (\<lambda>s1. Inr (s1, [])))"

definition Hmc_ClockTick :: "Config \<Rightarrow> HMCMemorySystem \<Rightarrow> (HMCMemorySystem \<times> (u64 \<times> bool) list) res option" where
  "Hmc_ClockTick C s = (case first_cycle C s of Inl e \<Rightarrow> Some (Inl e) | Inr (s1, evs) \<Rightarrow>
     map_option (\<lambda>r. res_bind r (\<lambda>(s2, evs'). Inr (s2\<lparr>dram_ps := dram_ps s2 + ps_per_dram s2\<rparr>, evs')))
       (logic_loop C s1 evs))"

text \<open>The operations as the memory front end calls them; it does not look at the result of \<open>AddTransaction\<close>.\<close>

definition returned :: "'a res option \<Rightarrow> 'a res" where
  "returned r = (case r of None \<Rightarrow> Inl NoReturn | Some x \<Rightarrow> x)"

definition hmc_ops :: "Config \<Rightarrow> HMCMemorySystem dram_ops" where
  "hmc_ops C = \<lparr>d_accept = (\<lambda>s a w. Inr (Hmc_WillAcceptTransaction s a w)),
     d_add = (\<lambda>s a w. res_bind (returned (Hmc_AddTransaction C s a w)) (\<lambda>(ok, s'). Inr s')),
     d_tick = (\<lambda>s. returned (Hmc_ClockTick C s))\<rparr>"

end
