(* ===== verification/Hmc_Inv.thy ===== *)
theory Hmc_Inv
  imports Hmc
begin

text \<open>
  The memory cube keeps every transaction: the addresses of the requests on their way to the vaults and
  in the vaults are, as a multiset, the keys of the table of responses, so a vault that completes a
  transaction finds a response, and a response is delivered exactly once.
\<close>

section \<open>Queues\<close>

lemma queue_pop:
  "i < length xss \<Longrightarrow> xss ! i = x # xs \<Longrightarrow> mset (concat xss) = add_mset x (mset (concat (xss[i := xs])))"
proof (induction xss arbitrary: i)
  case (Cons ys xss)
  then show ?case by (cases i) auto
qed simp

lemma queue_push: "i < length xss \<Longrightarrow> mset (concat (xss[i := xss ! i @ [x]])) = add_mset x (mset (concat xss))"
  using concat_upd_mset [of i xss "[x]"] by simp

lemma queue_pop_set: "i < length xss \<Longrightarrow> xss ! i = x # xs \<Longrightarrow> set (concat xss) = insert x (set (concat (xss[i := xs])))"
  using arg_cong [OF queue_pop, of i xss x xs set_mset] by simp

lemma queue_push_set: "i < length xss \<Longrightarrow> set (concat (xss[i := xss ! i @ [x]])) = insert x (set (concat xss))"
  using arg_cong [OF queue_push, of i xss set_mset] by simp

lemma take_key_found:
  "k \<in> fst ` set es \<Longrightarrow> \<exists>x r. take_key k es = Some (x, r) \<and> mset es = add_mset (k, x) (mset r)"
proof (induction es)
  case (Cons e es)
  show ?case
  proof (cases "fst e = k")
    case True
    then show ?thesis by (cases e) auto
  next
    case False
    with Cons obtain x r where "take_key k es = Some (x, r)" "mset es = add_mset (k, x) (mset r)" by auto
    with False show ?thesis by simp
  qed
qed simp

section \<open>The invariant\<close>

definition req_ok :: "Config \<Rightarrow> HMCRequest \<Rightarrow> bool" where
  "req_ok C r \<longleftrightarrow> 0 \<le> vault r \<and> vault r < channels C \<and> 0 \<le> rq_quad r \<and> rq_quad r < 4"

definition resp_ok :: "HMCMemorySystem \<Rightarrow> HMCResponse \<Rightarrow> bool" where
  "resp_ok s r \<longleftrightarrow> 0 \<le> rs_link r \<and> rs_link r < links s \<and> 0 \<le> rs_quad r \<and> rs_quad r < 4"

definition hmc_shape :: "HMCMemorySystem \<Rightarrow> bool" where
  "hmc_shape s \<longleftrightarrow> 0 \<le> next_link s \<and> next_link s < links s \<and> length (link_req_queues s) = nat (links s) \<and>
     length (link_resp_queues s) = nat (links s) \<and> length (link_busy s) = nat (links s) \<and>
     length (link_age_counter s) = nat (links s) \<and> length (quad_req_queues s) = 4 \<and> length (quad_resp_queues s) = 4 \<and>
     length (quad_busy s) = 4 \<and> length (quad_age_counter s) = 4"

definition hmc_clocks :: "HMCMemorySystem \<Rightarrow> bool" where
  "hmc_clocks s \<longleftrightarrow> ps_per_dram s = 800 \<and> 0 < ps_per_logic s \<and> ps_per_logic s \<le> 800"

definition ages_ok :: "int list \<Rightarrow> 'a list list \<Rightarrow> bool" where
  "ages_ok ages qs \<longleftrightarrow> (\<forall>i < length ages. 0 < ages ! i \<longrightarrow> qs ! i \<noteq> [])"

definition packets_ok :: "Config \<Rightarrow> HMCMemorySystem \<Rightarrow> bool" where
  "packets_ok C s \<longleftrightarrow> (\<forall>r \<in> set (concat (link_req_queues s)) \<union> set (concat (quad_req_queues s)). req_ok C r) \<and>
     (\<forall>r \<in> snd ` set (resp_lookup_table s) \<union> set (concat (quad_resp_queues s)). resp_ok s r) \<and>
     (\<forall>e \<in> set (resp_lookup_table s). fst e = resp_id (snd e))"

text \<open>The addresses of transactions the vaults have not yet completed.\<close>

definition waiting :: "HMCMemorySystem \<Rightarrow> u64 multiset" where
  "waiting s = image_mset fst (\<Sum>ct\<leftarrow>hm_ctrls s. ct_pending ct) + image_mset mem_operand (mset (concat (link_req_queues s))) +
     image_mset mem_operand (mset (concat (quad_req_queues s)))"

definition keys_of :: "HMCMemorySystem \<Rightarrow> u64 multiset" where
  "keys_of s = image_mset fst (mset (resp_lookup_table s))"

definition vaults_ok :: "Config \<Rightarrow> HMCMemorySystem \<Rightarrow> bool" where
  "vaults_ok C s \<longleftrightarrow> length (hm_ctrls s) = nat (channels C) \<and> (\<forall>ct \<in> set (hm_ctrls s). ct_inv C ct)"

definition block_ok :: "Config \<Rightarrow> bool" where
  "block_ok C \<longleftrightarrow> block_size C \<in> {0, 32, 64, 128, 256}"

text \<open>The invariant while the completions with addresses \<open>X\<close> are being turned into responses.\<close>

definition hmc_ok :: "Config \<Rightarrow> u64 multiset \<Rightarrow> HMCMemorySystem \<Rightarrow> bool" where
  "hmc_ok C X s \<longleftrightarrow> jedec_cfg C \<and> block_ok C \<and> hmc_shape s \<and> hmc_clocks s \<and> vaults_ok C s \<and> packets_ok C s \<and>
     ages_ok (link_age_counter s) (link_req_queues s) \<and> ages_ok (quad_age_counter s) (quad_resp_queues s) \<and>
     waiting s + X = keys_of s"

definition hmc_pending :: "HMCMemorySystem \<Rightarrow> (u64 \<times> bool) multiset" where
  "hmc_pending s = image_mset (\<lambda>e. resp_event (snd e)) (mset (resp_lookup_table s)) +
     image_mset resp_event (mset (concat (quad_resp_queues s))) + image_mset resp_event (mset (concat (link_resp_queues s)))"

definition same_clocks :: "HMCMemorySystem \<Rightarrow> HMCMemorySystem \<Rightarrow> bool" where
  "same_clocks s s' \<longleftrightarrow> logic_ps s' = logic_ps s \<and> dram_ps s' = dram_ps s \<and> ps_per_dram s' = ps_per_dram s \<and>
     ps_per_logic s' = ps_per_logic s"

named_theorems hmc_parts \<open>the parts of the invariant of the memory cube\<close>

lemmas [hmc_parts] = hmc_shape_def hmc_clocks_def vaults_ok_def packets_ok_def waiting_def keys_of_def resp_ok_def

lemma ages_set: "ages_ok ages qs \<Longrightarrow> i < length ages \<Longrightarrow> length ages \<le> length qs \<Longrightarrow> ages_ok (ages[i := a]) (qs[i := q @ [x]])"
  by (auto simp: ages_ok_def nth_list_update)

lemma ages_pop:
  "ages_ok ages qs \<Longrightarrow> i < length ages \<Longrightarrow> length ages \<le> length qs \<Longrightarrow> ages_ok (ages[i := if q = [] then 0 else 1]) (qs[i := q])"
  by (auto simp: ages_ok_def nth_list_update)

lemma ages_older: "ages_ok ages qs \<Longrightarrow> i < length ages \<Longrightarrow> qs ! i \<noteq> [] \<Longrightarrow> ages_ok (ages[i := a]) qs"
  by (auto simp: ages_ok_def nth_list_update)

section \<open>Requests enter\<close>

lemma smod_quad: "0 \<le> v \<Longrightarrow> 0 \<le> v smod 4 \<and> v smod (4 :: int) < 4"
  by (cases "v = 0") (simp_all add: signed_modulo_int_def signed_divide_int_def minus_div_mult_eq_mod sgn_if)

lemma block_request:
  assumes "block_ok C"
  shows "\<exists>t fl ty fl'. block_type C w = Inr t \<and> req_flits t = Inr fl \<and> resp_kind t = Inr (ty, fl') \<and> (ty \<noteq> RD_RS) = w \<and>
    (t \<in> set writes_from) = w"
  using assms unfolding block_ok_def by (cases w) (auto simp: block_type_def req_flits_def resp_kind_def writes_from_def)

lemma insert_ok:
  assumes ok: "hmc_ok C {#} s" and l: "0 \<le> l" "l < links s" and req: "req_ok C req" "resp_kind (rq_type req) = Inr (ty, fl)"
  shows "\<exists>s'. InsertReqToLink req l s = Inr (has_room s (link_req_queues s ! nat l), s') \<and>
    (if has_room s (link_req_queues s ! nat l) then hmc_ok C {#} s' \<and> links s' = links s \<and> next_link s' = next_link s \<and>
       same_clocks s s' \<and> hmc_pending s' = add_mset (mem_operand req, ty \<noteq> RD_RS) (hmc_pending s) else s' = s)"
proof (cases "has_room s (link_req_queues s ! nat l)")
  case True
  let ?q = "link_req_queues s ! nat l" and ?r = "\<lparr>resp_id = mem_operand req, rs_type = ty, rs_link = l, rs_quad = rq_quad req,
    rs_flits = fl, rs_exit = 0\<rparr>"
  let ?s = "s\<lparr>link_req_queues := (link_req_queues s)[nat l := ?q @ [req\<lparr>rq_link := l\<rparr>]],
     resp_lookup_table := resp_lookup_table s @ [(mem_operand req, ?r)], link_age_counter := (link_age_counter s)[nat l := 1],
     hm_last_req_clk := hm_clk s\<rparr>"
  note sh = ok [unfolded hmc_ok_def]
  have n: "nat l < length (link_req_queues s)" "nat l < length (link_age_counter s)" using sh l by (auto simp: hmc_shape_def)
  have e: "InsertReqToLink req l s = Inr (True, ?s)"
    using True n l req(2) by (simp add: InsertReqToLink_def HMCResponse_new_def vseti_def)
  have "packets_ok C ?s" using sh req(1) l queue_push_set [OF n(1)] by (auto simp: packets_ok_def resp_ok_def req_ok_def)
  moreover have "hmc_shape ?s" "hmc_clocks ?s" "vaults_ok C ?s" using sh by (simp_all add: hmc_parts)
  moreover have "ages_ok (link_age_counter ?s) (link_req_queues ?s)" using sh n by (simp add: ages_set hmc_shape_def)
  moreover have "waiting ?s = keys_of ?s" using sh by (simp add: waiting_def keys_of_def queue_push [OF n(1)])
  ultimately have "hmc_ok C {#} ?s" using sh by (simp add: hmc_ok_def)
  moreover have "hmc_pending ?s = add_mset (mem_operand req, ty \<noteq> RD_RS) (hmc_pending s)"
    by (simp add: hmc_pending_def resp_event_def)
  ultimately show ?thesis using True e by (simp add: same_clocks_def)
next
  case False
  have "nat l < length (link_req_queues s)" using ok l by (auto simp: hmc_ok_def hmc_shape_def)
  with False l show ?thesis by (simp add: InsertReqToLink_def)
qed

lemma next_link_ok:
  assumes "hmc_ok C X s"
  shows "IterateNextLink s = Inr (s\<lparr>next_link := (next_link s + 1) mod links s\<rparr>)"
    and "hmc_ok C X (s\<lparr>next_link := (next_link s + 1) mod links s\<rparr>)"
proof -
  have l: "0 \<le> next_link s" "next_link s < links s" using assms by (simp_all add: hmc_ok_def hmc_shape_def)
  then have "(next_link s + 1) smod links s = (next_link s + 1) mod links s"
    by (simp add: signed_modulo_int_def signed_divide_int_def minus_div_mult_eq_mod)
  then show "IterateNextLink s = Inr (s\<lparr>next_link := (next_link s + 1) mod links s\<rparr>)"
    using l by (simp add: IterateNextLink_def cmod_def)
  show "hmc_ok C X (s\<lparr>next_link := (next_link s + 1) mod links s\<rparr>)"
    using assms l by (simp add: hmc_ok_def hmc_parts)
qed

text \<open>A request is accepted by the first link with room, in the order of the loop.\<close>

definition entered :: "Config \<Rightarrow> (u64 \<times> bool) \<Rightarrow> HMCMemorySystem \<Rightarrow> HMCMemorySystem \<Rightarrow> bool" where
  "entered C t s s' \<longleftrightarrow> hmc_ok C {#} s' \<and> same_clocks s s' \<and> hmc_pending s' = add_mset t (hmc_pending s)"

lemma insert_next_ok:
  assumes ok: "hmc_ok C {#} s" and req: "req_ok C req" "resp_kind (rq_type req) = Inr (ty, fl)"
  defines "room \<equiv> has_room s (link_req_queues s ! nat (next_link s))"
  shows "\<exists>s'. insert_next req s = Inr (room, s') \<and>
    (if room then entered C (mem_operand req, ty \<noteq> RD_RS) s s' else s' = s\<lparr>next_link := (next_link s + 1) mod links s\<rparr>)"
proof -
  have "0 \<le> next_link s" "next_link s < links s" using ok by (simp_all add: hmc_ok_def hmc_shape_def)
  from insert_ok [OF ok this req] obtain s1 where s1: "InsertReqToLink req (next_link s) s = Inr (room, s1)"
    "if room then hmc_ok C {#} s1 \<and> links s1 = links s \<and> next_link s1 = next_link s \<and>
       same_clocks s s1 \<and> hmc_pending s1 = add_mset (mem_operand req, ty \<noteq> RD_RS) (hmc_pending s) else s1 = s"
    unfolding room_def by blast
  then have ok1: "hmc_ok C {#} s1" using ok by (auto split: if_splits)
  show ?thesis using s1 next_link_ok [OF ok1] ok by (auto simp: insert_next_def entered_def same_clocks_def hmc_pending_def split: if_splits)
qed

lemma mod_step: "((n + 1) mod l + e) mod l = (n + (e + 1)) mod (l :: int)"
  unfolding mod_add_left_eq by (simp add: ac_simps)

lemma mod_shift_ne:
  assumes "0 \<le> n" and "n < l" and "0 < e" and "e < (l :: int)"
  shows "(n + e) mod l \<noteq> n"
proof (cases "n + e < l")
  case True
  then have "(n + e) mod l = n + e" using assms by (intro mod_pos_pos_trivial) simp_all
  with assms show ?thesis by simp
next
  case False
  then have "(n + e - l) mod l = n + e - l" using assms by (intro mod_pos_pos_trivial) simp_all
  then have "(n + e) mod l = n + e - l" by simp
  with assms show ?thesis by simp
qed

lemma insert_loop_ok:
  assumes "hmc_ok C {#} s" and req: "req_ok C req" "resp_kind (rq_type req) = Inr (ty, fl)"
    and "has_room s (link_req_queues s ! nat ((next_link s + int d) mod links s))"
    and "\<And>e. e \<le> d \<Longrightarrow> (next_link s + int e) mod links s \<noteq> start"
  shows "\<exists>s'. insert_loop start req s = Some (Inr (True, s')) \<and> entered C (mem_operand req, ty \<noteq> RD_RS) s s'"
  using assms(1,4,5)
proof (induction d arbitrary: s)
  case (0 s)
  have "next_link s mod links s = next_link s" using 0(1) by (simp add: hmc_ok_def hmc_shape_def)
  with 0(2) 0(3) [of 0] insert_next_ok [OF 0(1) req] show ?case by (subst insert_loop.simps) auto
next
  case (Suc d s)
  let ?n = "(next_link s + 1) mod links s" and ?room = "has_room s (link_req_queues s ! nat (next_link s))"
  have "next_link s mod links s = next_link s" using Suc(2) by (simp add: hmc_ok_def hmc_shape_def)
  then have ne: "start \<noteq> next_link s" using Suc(4) [of 0] by auto
  from insert_next_ok [OF Suc(2) req] obtain s' where
    s': "insert_next req s = Inr (?room, s')"
      "if ?room then entered C (mem_operand req, ty \<noteq> RD_RS) s s' else s' = s\<lparr>next_link := ?n\<rparr>" by blast
  show ?case
  proof (cases ?room)
    case True
    with s' ne show ?thesis by (subst insert_loop.simps) simp
  next
    case False
    have m: "(?n + int e) mod links s = (next_link s + int (Suc e)) mod links s" for e
      by (simp add: mod_step add.commute [of 1])
    have "\<exists>s''. insert_loop start req s' = Some (Inr (True, s'')) \<and> entered C (mem_operand req, ty \<noteq> RD_RS) s' s''"
    proof (rule Suc.IH)
      show "hmc_ok C {#} s'" using False s'(2) next_link_ok(2) [OF Suc(2)] by simp
      show "has_room s' (link_req_queues s' ! nat ((next_link s' + int d) mod links s'))"
        using False s'(2) Suc(3) by (simp add: m has_room_def del: of_nat_Suc)
      show "(next_link s' + int e) mod links s' \<noteq> start" if "e \<le> d" for e
        using False s'(2) Suc(4) [of "Suc e"] that by (simp add: m del: of_nat_Suc)
    qed
    then show ?thesis using s' ne False by (subst insert_loop.simps) (auto simp: entered_def same_clocks_def hmc_pending_def)
  qed
qed

lemma Insert_ok:
  assumes ok: "hmc_ok C {#} s" and req: "req_ok C req" "resp_kind (rq_type req) = Inr (ty, fl)"
    and room: "list_ex (has_room s) (link_req_queues s)"
  shows "\<exists>s'. InsertHMCReq req s = Some (Inr (True, s')) \<and> entered C (mem_operand req, ty \<noteq> RD_RS) s s'"
proof -
  let ?room = "has_room s (link_req_queues s ! nat (next_link s))" and ?L = "links s" and ?n = "(next_link s + 1) mod links s"
  have n: "0 \<le> next_link s" "next_link s < ?L" "length (link_req_queues s) = nat ?L" using ok by (simp_all add: hmc_ok_def hmc_shape_def)
  from insert_next_ok [OF ok req] obtain s' where
    s': "insert_next req s = Inr (?room, s')"
      "if ?room then entered C (mem_operand req, ty \<noteq> RD_RS) s s' else s' = s\<lparr>next_link := ?n\<rparr>" by blast
  show ?thesis
  proof (cases ?room)
    case False
    from room n(3) obtain j where j: "j < nat ?L" "has_room s (link_req_queues s ! j)" by (auto simp: list_ex_iff in_set_conv_nth)
    with False have jn: "int j \<noteq> next_link s" by (metis nat_int)
    define d where "d = nat ((int j - next_link s - 1) mod ?L)"
    have d: "int d = (int j - next_link s - 1) mod ?L" using n by (simp add: d_def)
    have m: "(?n + int e) mod ?L = (next_link s + (int e + 1)) mod ?L" for e by (rule mod_step)
    have "(next_link s + (int d + 1)) mod ?L = (int d + (next_link s + 1)) mod ?L" by (simp add: ac_simps)
    also have "\<dots> = (int j - next_link s - 1 + (next_link s + 1)) mod ?L" unfolding d by (rule mod_add_left_eq)
    finally have at: "(next_link s + (int d + 1)) mod ?L = int j" using j(1) by simp
    have "int d + 1 \<noteq> ?L"
    proof
      assume "int d + 1 = ?L"
      with at n show False using jn by simp
    qed
    moreover have "int d < ?L" using n unfolding d by simp
    ultimately have lt: "int d + 1 < ?L" by simp
    have "\<exists>s''. insert_loop (next_link s) req s' = Some (Inr (True, s'')) \<and> entered C (mem_operand req, ty \<noteq> RD_RS) s' s''"
    proof (rule insert_loop_ok [OF _ req])
      show "hmc_ok C {#} s'" using False s'(2) next_link_ok(2) [OF ok] by simp
      show "has_room s' (link_req_queues s' ! nat ((next_link s' + int d) mod links s'))"
        using False s'(2) j(2) by (simp add: m at has_room_def)
      show "(next_link s' + int e) mod links s' \<noteq> next_link s" if "e \<le> d" for e
        using False s'(2) mod_shift_ne [OF n(1,2), of "int e + 1"] lt that by (simp add: m)
    qed
    then show ?thesis using s' False unfolding InsertHMCReq_def by (auto simp: entered_def same_clocks_def hmc_pending_def)
  qed (use s' in \<open>simp add: InsertHMCReq_def\<close>)
qed

lemma Add_ok:
  assumes ok: "hmc_ok C {#} s" and room: "Hmc_WillAcceptTransaction s a w"
  shows "\<exists>s'. Hmc_AddTransaction C s a w = Some (Inr (True, s')) \<and> entered C (a, w) s s'"
proof -
  have cfg: "ctrl_cfg C" "block_ok C" using ok by (simp_all add: hmc_ok_def jedec_cfg_def)
  from GetChannel_ok [OF cfg(1), of a] obtain ch where ch: "GetChannel C a = Inr ch" "0 \<le> ch" "ch < channels C" by blast
  from block_request [OF cfg(2)] obtain t fl ty fl' where
    t: "block_type C w = Inr t" "req_flits t = Inr fl" "resp_kind t = Inr (ty, fl')" "(ty \<noteq> RD_RS) = w" "(t \<in> set writes_from) = w" by metis
  let ?req = "\<lparr>rq_type = t, mem_operand = a, rq_link = 0, rq_quad = ch smod 4, vault = ch, rq_flits = fl, rq_write = w, rq_exit = 0\<rparr>"
  have "req_ok C ?req" "resp_kind (rq_type ?req) = Inr (ty, fl')" using ch smod_quad [OF ch(2)] t(3) by (simp_all add: req_ok_def)
  from Insert_ok [OF ok this] room have "\<exists>s'. InsertHMCReq ?req s = Some (Inr (True, s')) \<and> entered C (a, w) s s'"
    by (simp add: t(4) Hmc_WillAcceptTransaction_def)
  then show ?thesis using t ch by (simp add: Hmc_AddTransaction_def HMCRequest_new_def)
qed

section \<open>The crossbar\<close>

lemma insert_age_mset: "mset (insert_age a p q) = add_mset p (mset q)"
  by (induction a p q rule: insert_age.induct) auto

lemma age_step_set:
  "set (age_step ages p q) = (if 0 < ages ! p then insert p (set q) else set q)"
  "p \<notin> set q \<Longrightarrow> distinct (age_step ages p q) = distinct q"
proof -
  have m: "mset (insert_age (ages ! p) p q) = mset (p # q)" by (simp add: insert_age_mset)
  show "set (age_step ages p q) = (if 0 < ages ! p then insert p (set q) else set q)"
    using mset_eq_setD [OF m] by (simp add: age_step_def)
  show "distinct (age_step ages p q) = distinct q" if "p \<notin> set q"
    using mset_eq_imp_distinct_iff [OF m] that by (simp add: age_step_def)
qed

lemma age_queue_fold:
  assumes "distinct ps" and "set ps \<inter> set q = {}" and "distinct q"
  shows "distinct (fold (age_step ages) ps q)" and "set (fold (age_step ages) ps q) = set q \<union> {p \<in> set ps. 0 < ages ! p}"
  using assms by (induction ps arbitrary: q) (auto simp: age_step_set)

lemma shift_distinct: "distinct (map (\<lambda>i. (i + k) mod n) [0..<n])"
proof -
  have "i = j" if "i < n" "j < n" "(i + k) mod n = (j + k) mod n" for i j :: nat
  proof -
    have "(int i + int k) mod int n = (int j + int k) mod int n"
      using arg_cong [OF that(3), of int] by (simp add: of_nat_mod)
    then have "int n dvd int i - int j" by (simp add: mod_eq_dvd_iff)
    then have "int n dvd \<bar>int i - int j\<bar>" by simp
    with that(1,2) zdvd_not_zless [of "\<bar>int i - int j\<bar>" "int n"] show ?thesis by linarith
  qed
  then have "inj_on (\<lambda>i. (i + k) mod n) (set [0..<n])" unfolding set_upt by (intro inj_onI) (unfold atLeastLessThan_iff, blast)
  then show ?thesis by (simp only: distinct_map distinct_upt simp_thms)
qed

lemma BuildAgeQueue_eq:
  "ages \<noteq> [] \<Longrightarrow> BuildAgeQueue clk ages = Inr (fold (age_step ages)
     (map (\<lambda>i. (i + unat (clk mod of_nat (length ages))) mod length ages) [0..<length ages]) [])"
  by (simp add: BuildAgeQueue_def Let_def fold_map comp_def)

lemma BuildAgeQueue_ok:
  assumes "ages \<noteq> []"
  shows "\<exists>r. BuildAgeQueue clk ages = Inr r \<and> distinct r \<and> (\<forall>p \<in> set r. p < length ages \<and> 0 < ages ! p)"
  using age_queue_fold [OF shift_distinct, of "unat (clk mod of_nat (length ages))" "length ages" "[]" ages] assms
  by (auto simp: BuildAgeQueue_eq)

text \<open>A step of the crossbar keeps the invariant, what is pending and the clocks.\<close>

definition carried :: "Config \<Rightarrow> u64 multiset \<Rightarrow> HMCMemorySystem \<Rightarrow> HMCMemorySystem \<Rightarrow> bool" where
  "carried C X s s' \<longleftrightarrow> hmc_ok C X s' \<and> hmc_pending s' = hmc_pending s \<and> same_clocks s s'"

lemma carried_refl: "hmc_ok C X s \<Longrightarrow> carried C X s s"
  by (simp add: carried_def same_clocks_def)

lemma carried_trans: "carried C X s s' \<Longrightarrow> carried C X s' s'' \<Longrightarrow> carried C X s s''"
  by (simp add: carried_def same_clocks_def)

lemma route_request_ok:
  assumes ok: "hmc_ok C X s" and src: "src < length (link_req_queues s)" "link_req_queues s ! src \<noteq> []"
  shows "\<exists>s'. route_request src s = Inr s' \<and> carried C X s s' \<and>
    (\<forall>j. j \<noteq> src \<longrightarrow> link_req_queues s' ! j = link_req_queues s ! j) \<and> length (link_req_queues s') = length (link_req_queues s)"
proof -
  note sh = ok [unfolded hmc_ok_def]
  from src(2) obtain req rest where q: "link_req_queues s ! src = req # rest" by (cases "link_req_queues s ! src") auto
  let ?d = "nat (rq_quad req)" let ?dq = "quad_req_queues s ! ?d" let ?req = "req\<lparr>rq_exit := logic_clk s + of_int (rq_flits req)\<rparr>"
  have "req \<in> set (concat (link_req_queues s))" using queue_pop_set [OF src(1) q] by simp
  then have r: "req_ok C req" using sh by (simp add: packets_ok_def)
  then have d: "0 \<le> rq_quad req" "?d < length (quad_req_queues s)" "?d < length (quad_busy s)" "src < length (link_age_counter s)"
    using sh src(1) by (auto simp: req_ok_def hmc_shape_def)
  show ?thesis
  proof (cases "has_room s ?dq \<and> quad_busy s ! ?d \<le> 0")
    case True
    let ?s = "s\<lparr>link_req_queues := (link_req_queues s)[src := rest], quad_req_queues := (quad_req_queues s)[?d := ?dq @ [?req]],
       quad_busy := (quad_busy s)[?d := rq_flits req], link_age_counter := (link_age_counter s)[src := if rest = [] then 0 else 1]\<rparr>"
    have e: "route_request src s = Inr ?s" using True d src q by (simp add: route_request_def Let_def)
    have "req_ok C ?req" using r by (simp add: req_ok_def)
    then have "packets_ok C ?s"
      using sh queue_pop_set [OF src(1) q] queue_push_set [OF d(2), of ?req] by (simp add: packets_ok_def resp_ok_def)
    moreover have "hmc_shape ?s" "hmc_clocks ?s" "vaults_ok C ?s" using sh by (simp_all add: hmc_parts)
    moreover have "ages_ok (link_age_counter ?s) (link_req_queues ?s)"
      using sh d src ages_pop [of "link_age_counter s" "link_req_queues s" src rest] by (simp add: hmc_shape_def)
    moreover have "waiting ?s = waiting s" by (simp add: waiting_def queue_pop [OF src(1) q] queue_push [OF d(2)])
    ultimately have "carried C X s ?s" using sh by (simp add: hmc_ok_def keys_of_def carried_def same_clocks_def hmc_pending_def)
    then show ?thesis using e by simp
  next
    case False
    let ?s = "s\<lparr>link_age_counter := (link_age_counter s)[src := link_age_counter s ! src + 1]\<rparr>"
    have e: "route_request src s = Inr ?s" using False d src q by (auto simp: route_request_def Let_def)
    have "ages_ok (link_age_counter ?s) (link_req_queues ?s)" using sh d src by (simp add: ages_older)
    then have "carried C X s ?s" using sh by (simp add: hmc_ok_def hmc_parts carried_def same_clocks_def hmc_pending_def)
    then show ?thesis using e by simp
  qed
qed

lemma route_requests_ok:
  assumes "hmc_ok C X s" and "distinct is" and "\<forall>i \<in> set is. i < length (link_req_queues s) \<and> link_req_queues s ! i \<noteq> []"
  shows "\<exists>s'. res_fold route_request is s = Inr s' \<and> carried C X s s'"
  using assms
proof (induction "is" arbitrary: s)
  case (Cons i "is")
  from route_request_ok [OF Cons.prems(1), of i] Cons.prems(3) obtain s1 where
    s1: "route_request i s = Inr s1" "carried C X s s1" "\<And>j. j \<noteq> i \<Longrightarrow> link_req_queues s1 ! j = link_req_queues s ! j"
      "length (link_req_queues s1) = length (link_req_queues s)" by auto
  have "j < length (link_req_queues s1) \<and> link_req_queues s1 ! j \<noteq> []" if "j \<in> set is" for j
  proof -
    have "j \<noteq> i" using that Cons.prems(2) by auto
    from s1(3) [OF this] s1(4) Cons.prems(3) that show ?thesis by simp
  qed
  with Cons.IH [of s1] s1 Cons.prems(2) show ?case by (auto simp: carried_def same_clocks_def)
qed (auto intro: carried_refl)

lemma drain_quad_ok:
  assumes ok: "hmc_ok C X s" and i: "i < 4"
  shows "\<exists>s'. drain_quad C i s = Inr s' \<and> carried C X s s'"
proof -
  note sh = ok [unfolded hmc_ok_def]
  have n: "i < length (quad_req_queues s)" "i < length (quad_resp_queues s)" using sh i by (auto simp: hmc_shape_def)
  show ?thesis
  proof (cases "quad_req_queues s ! i")
    case Nil
    with n ok show ?thesis by (simp add: drain_quad_def carried_refl)
  next
    case (Cons req rest)
    have "req \<in> set (concat (quad_req_queues s))" using queue_pop_set [OF n(1) Cons] by simp
    then have r: "req_ok C req" using sh by (simp add: packets_ok_def)
    let ?v = "nat (vault req)" let ?ct = "hm_ctrls s ! ?v" let ?t = "DTransaction_new (mem_operand req) (rq_write req)"
    let ?ct' = "ct_AddTransaction ?t ?ct"
    have v: "0 \<le> vault req" "?v < length (hm_ctrls s)" using r sh by (auto simp: req_ok_def vaults_ok_def)
    show ?thesis
    proof (cases "has_room s (quad_resp_queues s ! i) \<and> rq_exit req \<le> logic_clk s \<and> ct_WillAcceptTransaction C ?ct (rq_write req)")
      case True
      let ?s = "s\<lparr>hm_ctrls := (hm_ctrls s)[?v := ?ct'], quad_req_queues := (quad_req_queues s)[i := rest]\<rparr>"
      have e: "drain_quad C i s = Inr ?s" using True n v Cons by (simp add: drain_quad_def InsertReqToDRAM_def)
      have "ct_inv C ?ct" using sh v(2) by (simp add: vaults_ok_def)
      from ct_Add_ok [OF this, of ?t "mem_operand req" "rq_write req"] have
        a: "ct_inv C ?ct'" "ct_pending ?ct' = add_mset (mem_operand req, rq_write req) (ct_pending ?ct)" by (simp_all add: DTransaction_new_def)
      have "vaults_ok C ?s" using sh a(1) by (auto simp: vaults_ok_def dest!: set_update_subset_insert [THEN subsetD])
      moreover have "hmc_shape ?s" "hmc_clocks ?s" using sh by (simp_all add: hmc_parts)
      moreover have "packets_ok C ?s" using sh queue_pop_set [OF n(1) Cons] by (simp add: packets_ok_def resp_ok_def)
      moreover have "waiting ?s = waiting s"
        by (simp add: waiting_def queue_pop [OF n(1) Cons] sum_pending_update [OF v(2) a(2)])
      ultimately have "carried C X s ?s" using sh by (simp add: hmc_ok_def keys_of_def carried_def same_clocks_def hmc_pending_def)
      then show ?thesis using e by simp
    next
      case False
      then have "drain_quad C i s = Inr s" using n v Cons by (auto simp: drain_quad_def)
      then show ?thesis using ok by (simp add: carried_refl)
    qed
  qed
qed

lemma carried_fold:
  assumes "hmc_ok C X s" and "\<And>i s. i \<in> set is \<Longrightarrow> hmc_ok C X s \<Longrightarrow> \<exists>s'. f i s = Inr s' \<and> carried C X s s'"
  shows "\<exists>s'. res_fold f is s = Inr s' \<and> carried C X s s'"
  using assms
proof (induction "is" arbitrary: s)
  case (Cons i "is")
  from Cons.prems(2) [of i s] Cons.prems(1) obtain s1 where s1: "f i s = Inr s1" "carried C X s s1" by auto
  with Cons.IH [of s1] Cons.prems(2) obtain s2 where "res_fold f is s1 = Inr s2" "carried C X s1 s2" by (auto simp: carried_def)
  with s1 carried_trans show ?case by auto
qed (auto intro: carried_refl)

lemma carried_busy:
  assumes "hmc_ok C X s"
  shows "carried C X s (s\<lparr>quad_busy := drain_busy (quad_busy s)\<rparr>)" "carried C X s (s\<lparr>link_busy := drain_busy (link_busy s)\<rparr>)"
  using assms by (simp_all add: hmc_ok_def hmc_parts carried_def same_clocks_def hmc_pending_def drain_busy_def)

lemma DrainRequests_ok:
  assumes "hmc_ok C X s"
  shows "\<exists>s'. DrainRequests C s = Inr s' \<and> carried C X s s'"
proof -
  have "\<exists>s'. res_fold (drain_quad C) [0..<4] s = Inr s' \<and> carried C X s s'"
    by (rule carried_fold [OF assms]) (rule drain_quad_ok, simp_all)
  then obtain s1 where s1: "res_fold (drain_quad C) [0..<4] s = Inr s1" "carried C X s s1" by blast
  let ?s2 = "s1\<lparr>quad_busy := drain_busy (quad_busy s1)\<rparr>"
  have k: "carried C X s1 ?s2" using s1(2) by (auto simp: carried_def [of C X s] intro: carried_busy)
  then have ok: "hmc_ok C X ?s2" by (simp add: carried_def)
  then have "link_age_counter ?s2 \<noteq> []" by (auto simp: hmc_ok_def hmc_shape_def)
  from BuildAgeQueue_ok [OF this] obtain r where
    r: "BuildAgeQueue (logic_clk ?s2) (link_age_counter ?s2) = Inr r" "distinct r"
      "\<forall>p \<in> set r. p < length (link_age_counter ?s2) \<and> 0 < link_age_counter ?s2 ! p" by blast
  have "\<forall>i \<in> set r. i < length (link_req_queues ?s2) \<and> link_req_queues ?s2 ! i \<noteq> []"
    using r(3) ok by (auto simp: hmc_ok_def hmc_shape_def ages_ok_def)
  from route_requests_ok [OF ok r(2) this] obtain s3 where s3: "res_fold route_request r ?s2 = Inr s3" "carried C X ?s2 s3" by blast
  have "carried C X s s3" using carried_trans [OF carried_trans [OF s1(2) k] s3(2)] .
  then show ?thesis using s1(1) r(1) s3(1) by (simp add: DrainRequests_def Let_def)
qed

section \<open>Responses\<close>

lemma route_response_ok:
  assumes ok: "hmc_ok C X s" and src: "src < 4" "quad_resp_queues s ! src \<noteq> []"
  shows "\<exists>s'. route_response src s = Inr s' \<and> carried C X s s' \<and> (\<forall>j. j \<noteq> src \<longrightarrow> quad_resp_queues s' ! j = quad_resp_queues s ! j)"
proof -
  note sh = ok [unfolded hmc_ok_def]
  have n: "src < length (quad_resp_queues s)" "src < length (quad_age_counter s)" using sh src(1) by (simp_all add: hmc_shape_def)
  from src(2) obtain resp rest where q: "quad_resp_queues s ! src = resp # rest" by (cases "quad_resp_queues s ! src") auto
  let ?d = "nat (rs_link resp)" let ?dq = "link_resp_queues s ! ?d"
  let ?resp = "resp\<lparr>rs_exit := logic_clk s + of_int (rs_flits resp)\<rparr>"
  have "resp \<in> set (concat (quad_resp_queues s))" using queue_pop_set [OF n(1) q] by simp
  then have r: "resp_ok s resp" using sh by (simp add: packets_ok_def)
  then have d: "0 \<le> rs_link resp" "?d < length (link_resp_queues s)" "?d < length (link_busy s)"
    using sh by (auto simp: resp_ok_def hmc_shape_def)
  show ?thesis
  proof (cases "has_room s ?dq \<and> link_busy s ! ?d \<le> 0")
    case True
    let ?s = "s\<lparr>quad_resp_queues := (quad_resp_queues s)[src := rest], link_resp_queues := (link_resp_queues s)[?d := ?dq @ [?resp]],
       link_busy := (link_busy s)[?d := rs_flits resp], quad_age_counter := (quad_age_counter s)[src := if rest = [] then 0 else 1]\<rparr>"
    have e: "route_response src s = Inr ?s" using True d n q by (simp add: route_response_def Let_def)
    have "packets_ok C ?s" using sh queue_pop_set [OF n(1) q] by (simp add: packets_ok_def resp_ok_def)
    moreover have "hmc_shape ?s" "hmc_clocks ?s" "vaults_ok C ?s" "waiting ?s = waiting s" "keys_of ?s = keys_of s"
      using sh by (simp_all add: hmc_parts)
    moreover have "ages_ok (quad_age_counter ?s) (quad_resp_queues ?s)"
      using sh n ages_pop [of "quad_age_counter s" "quad_resp_queues s" src rest] by (simp add: hmc_shape_def)
    moreover have "hmc_pending ?s = hmc_pending s"
      by (simp add: hmc_pending_def queue_pop [OF n(1) q] queue_push [OF d(2)] resp_event_def)
    ultimately have "carried C X s ?s" using sh by (simp add: hmc_ok_def carried_def same_clocks_def)
    then show ?thesis using e by simp
  next
    case False
    let ?s = "s\<lparr>quad_age_counter := (quad_age_counter s)[src := quad_age_counter s ! src + 1]\<rparr>"
    have e: "route_response src s = Inr ?s" using False d n q by (auto simp: route_response_def Let_def)
    have "ages_ok (quad_age_counter ?s) (quad_resp_queues ?s)" using sh n src by (simp add: ages_older)
    then have "carried C X s ?s" using sh by (simp add: hmc_ok_def hmc_parts carried_def same_clocks_def hmc_pending_def)
    then show ?thesis using e by simp
  qed
qed

lemma route_responses_ok:
  assumes "hmc_ok C X s" and "distinct is" and "\<forall>i \<in> set is. i < 4 \<and> quad_resp_queues s ! i \<noteq> []"
  shows "\<exists>s'. res_fold route_response is s = Inr s' \<and> carried C X s s'"
  using assms
proof (induction "is" arbitrary: s)
  case (Cons i "is")
  from route_response_ok [OF Cons.prems(1), of i] Cons.prems(3) obtain s1 where
    s1: "route_response i s = Inr s1" "carried C X s s1" "\<And>j. j \<noteq> i \<Longrightarrow> quad_resp_queues s1 ! j = quad_resp_queues s ! j" by auto
  have "j < 4 \<and> quad_resp_queues s1 ! j \<noteq> []" if "j \<in> set is" for j
  proof -
    have "j \<noteq> i" using that Cons.prems(2) by auto
    from s1(3) [OF this] Cons.prems(3) that show ?thesis by simp
  qed
  with Cons.IH [of s1] s1 Cons.prems(2) show ?case by (auto simp: carried_def same_clocks_def)
qed (auto intro: carried_refl)

text \<open>What leaves the memory cube.\<close>

definition delivered :: "Config \<Rightarrow> HMCMemorySystem \<times> (u64 \<times> bool) list \<Rightarrow> HMCMemorySystem \<times> (u64 \<times> bool) list \<Rightarrow> bool" where
  "delivered C = (\<lambda>(s, evs) (s', evs'). hmc_ok C {#} s' \<and> same_clocks s s' \<and> links s' = links s \<and>
     hmc_pending s + mset evs = hmc_pending s' + mset evs')"

lemma drain_link_ok:
  assumes ok: "hmc_ok C {#} s" and i: "i < nat (links s)"
  shows "\<exists>r. drain_link i (s, evs) = Inr r \<and> delivered C (s, evs) r"
proof -
  note sh = ok [unfolded hmc_ok_def]
  have n: "i < length (link_resp_queues s)" using sh i by (simp add: hmc_shape_def)
  show ?thesis
  proof (cases "link_resp_queues s ! i")
    case Nil
    with n ok show ?thesis by (simp add: drain_link_def delivered_def same_clocks_def)
  next
    case (Cons resp rest)
    let ?s = "s\<lparr>link_resp_queues := (link_resp_queues s)[i := rest]\<rparr>"
    have "hmc_ok C {#} ?s" using sh by (simp add: hmc_ok_def hmc_parts)
    moreover have "hmc_pending s = add_mset (resp_event resp) (hmc_pending ?s)" by (simp add: hmc_pending_def queue_pop [OF n Cons])
    ultimately have "delivered C (s, evs) (?s, evs @ [resp_event resp])" by (simp add: delivered_def same_clocks_def)
    moreover have "delivered C (s, evs) (s, evs)" using ok by (simp add: delivered_def same_clocks_def)
    ultimately show ?thesis using n Cons by (simp add: drain_link_def)
  qed
qed

lemma drain_links_ok:
  assumes "hmc_ok C {#} s" and "\<forall>i \<in> set is. i < nat (links s)"
  shows "\<exists>r. res_fold drain_link is (s, evs) = Inr r \<and> delivered C (s, evs) r"
  using assms
proof (induction "is" arbitrary: s evs)
  case (Cons i "is")
  from drain_link_ok [OF Cons.prems(1), of i evs] Cons.prems(2) obtain s1 evs1 where
    s1: "drain_link i (s, evs) = Inr (s1, evs1)" "delivered C (s, evs) (s1, evs1)" by auto
  then have "hmc_ok C {#} s1" "links s1 = links s" by (simp_all add: delivered_def)
  with Cons.IH [of s1 evs1] Cons.prems(2) obtain r where "res_fold drain_link is (s1, evs1) = Inr r" "delivered C (s1, evs1) r" by auto
  with s1 show ?case by (cases r) (auto simp: delivered_def same_clocks_def)
qed (auto simp: delivered_def same_clocks_def)

lemma DrainResponses_ok:
  assumes "hmc_ok C {#} s"
  shows "\<exists>s' evs. DrainResponses s = Inr (s', evs) \<and> hmc_ok C {#} s' \<and> same_clocks s s' \<and> hmc_pending s = hmc_pending s' + mset evs"
proof -
  from drain_links_ok [OF assms, of "[0..<nat (links s)]" "[]"] obtain s1 evs where
    s1: "res_fold drain_link [0..<nat (links s)] (s, []) = Inr (s1, evs)" "hmc_ok C {#} s1" "same_clocks s s1"
      "hmc_pending s = hmc_pending s1 + mset evs" by (auto simp: delivered_def)
  let ?s2 = "s1\<lparr>link_busy := drain_busy (link_busy s1)\<rparr>"
  note k = carried_busy(2) [OF s1(2)]
  then have ok: "hmc_ok C {#} ?s2" by (simp add: carried_def)
  then have "quad_age_counter ?s2 \<noteq> []" by (auto simp: hmc_ok_def hmc_shape_def)
  from BuildAgeQueue_ok [OF this] obtain r where
    r: "BuildAgeQueue (logic_clk ?s2) (quad_age_counter ?s2) = Inr r" "distinct r"
      "\<forall>p \<in> set r. p < length (quad_age_counter ?s2) \<and> 0 < quad_age_counter ?s2 ! p" by blast
  have "\<forall>i \<in> set r. i < 4 \<and> quad_resp_queues ?s2 ! i \<noteq> []"
    using r(3) ok by (auto simp: hmc_ok_def hmc_shape_def ages_ok_def)
  from route_responses_ok [OF ok r(2) this] obtain s3 where s3: "res_fold route_response r ?s2 = Inr s3" "carried C {#} ?s2 s3" by blast
  have "carried C {#} s1 s3" using carried_trans [OF k s3(2)] .
  then show ?thesis using s1 r(1) s3(1) by (auto simp: DrainResponses_def Let_def carried_def same_clocks_def)
qed

section \<open>The vaults\<close>

lemma VaultCallback_ok:
  assumes ok: "hmc_ok C (add_mset k X) s"
  shows "\<exists>s'. VaultCallback k s = Inr s' \<and> carried C X s s'"
proof -
  note sh = ok [unfolded hmc_ok_def]
  have "k \<in># keys_of s" using sh by (metis union_iff union_single_eq_member add_mset_add_single)
  then have "k \<in> fst ` set (resp_lookup_table s)" by (simp add: keys_of_def)
  from take_key_found [OF this] obtain r tab where
    t: "take_key k (resp_lookup_table s) = Some (r, tab)" "mset (resp_lookup_table s) = add_mset (k, r) (mset tab)" by blast
  have st: "set (resp_lookup_table s) = insert (k, r) (set tab)" using arg_cong [OF t(2), of set_mset] by simp
  then have r: "resp_ok s r" using sh by (auto simp: packets_ok_def)
  let ?q = "nat (rs_quad r)"
  have n: "0 \<le> rs_quad r" "?q < length (quad_resp_queues s)" "?q < length (quad_age_counter s)"
    using r sh by (auto simp: resp_ok_def hmc_shape_def)
  let ?s = "s\<lparr>resp_lookup_table := tab, quad_resp_queues := (quad_resp_queues s)[?q := quad_resp_queues s ! ?q @ [r]],
     quad_age_counter := (quad_age_counter s)[?q := 1]\<rparr>"
  have e: "VaultCallback k s = Inr ?s" using t(1) n by (simp add: VaultCallback_def vseti_def)
  have "packets_ok C ?s" using sh st r queue_push_set [OF n(2), of r] by (auto simp: packets_ok_def resp_ok_def)
  moreover have "hmc_shape ?s" "hmc_clocks ?s" "vaults_ok C ?s" "waiting ?s = waiting s" using sh by (simp_all add: hmc_parts)
  moreover have "ages_ok (quad_age_counter ?s) (quad_resp_queues ?s)" using sh n by (simp add: ages_set hmc_shape_def)
  moreover have "waiting s + X = keys_of ?s" using sh t(2) by (simp add: keys_of_def)
  ultimately have "hmc_ok C X ?s" using sh by (simp add: hmc_ok_def)
  moreover have "hmc_pending ?s = hmc_pending s" by (simp add: hmc_pending_def t(2) queue_push [OF n(2)])
  ultimately show ?thesis using e by (simp add: carried_def same_clocks_def)
qed

lemma VaultCallbacks_ok:
  assumes "hmc_ok C (mset ks + X) s"
  shows "\<exists>s'. res_fold VaultCallback ks s = Inr s' \<and> carried C X s s'"
  using assms
proof (induction ks arbitrary: s)
  case (Cons k ks)
  from VaultCallback_ok [of C k "mset ks + X" s] Cons.prems obtain s1 where
    s1: "VaultCallback k s = Inr s1" "carried C (mset ks + X) s s1" by auto
  with Cons.IH [of s1] obtain s2 where "res_fold VaultCallback ks s1 = Inr s2" "carried C X s1 s2" by (auto simp: carried_def)
  with s1 show ?case by (auto simp: carried_def same_clocks_def)
qed (auto intro: carried_refl)

lemma carried_vaults:
  assumes ok: "hmc_ok C X s" and f: "\<And>ct. ct_inv C ct \<Longrightarrow> \<exists>ct'. f ct = Inr ct' \<and> ct_inv C ct' \<and> ct_pending ct' = ct_pending ct"
  shows "\<exists>cts. res_map f (hm_ctrls s) = Inr cts \<and> carried C X s (s\<lparr>hm_ctrls := cts, hm_clk := clk\<rparr>)"
proof -
  from ok have "\<forall>ct \<in> set (hm_ctrls s). ct_inv C ct" by (simp add: hmc_ok_def vaults_ok_def)
  from res_map_ok [OF this f] obtain cts where "res_map f (hm_ctrls s) = Inr cts" "length cts = length (hm_ctrls s)"
    "\<forall>ct \<in> set cts. ct_inv C ct" "(\<Sum>ct\<leftarrow>cts. ct_pending ct) = (\<Sum>ct\<leftarrow>hm_ctrls s. ct_pending ct)" by blast
  with ok show ?thesis by (simp add: hmc_ok_def hmc_parts carried_def same_clocks_def hmc_pending_def)
qed

lemma DRAMClockTick_ok:
  assumes ok: "hmc_ok C {#} s"
  shows "\<exists>s'. DRAMClockTick C s = Inr s' \<and> carried C {#} s s'"
proof -
  note sh = ok [unfolded hmc_ok_def]
  have cfg: "ctrl_cfg C" "(of_int (epoch_period C) :: u64) \<noteq> 0" using sh by (simp_all add: jedec_cfg_def)
  obtain es cts where a: "drain_all (hm_clk s) (hm_ctrls s) = (es, cts)" by force
  from drain_all_ok [OF a, of C] sh have d: "length cts = length (hm_ctrls s)" "\<forall>ct \<in> set cts. ct_inv C ct"
    "(\<Sum>ct\<leftarrow>hm_ctrls s. ct_pending ct) = (\<Sum>ct\<leftarrow>cts. ct_pending ct) + mset es" by (auto simp: vaults_ok_def)
  let ?s0 = "s\<lparr>hm_ctrls := cts\<rparr>"
  have "waiting s = waiting ?s0 + mset (map fst es)" by (simp add: waiting_def d(3) ac_simps)
  then have "hmc_ok C (mset (map fst es) + {#}) ?s0" using sh d(1,2) by (simp add: hmc_ok_def hmc_shape_def hmc_clocks_def
      vaults_ok_def packets_ok_def keys_of_def resp_ok_def)
  from VaultCallbacks_ok [OF this] obtain s1 where s1: "res_fold VaultCallback (map fst es) ?s0 = Inr s1" "carried C {#} ?s0 s1" by blast
  then have ok1: "hmc_ok C {#} s1" by (simp add: carried_def)
  from carried_vaults [OF ok1 ct_tick_ok [OF cfg(1), where T = "Timing_new C"]] obtain cts1 where
    c1: "res_map (ct_ClockTick C (Timing_new C)) (hm_ctrls s1) = Inr cts1" "carried C {#} s1 (s1\<lparr>hm_ctrls := cts1, hm_clk := hm_clk s1 + 1\<rparr>)"
    by metis
  let ?s2 = "s1\<lparr>hm_ctrls := cts1, hm_clk := hm_clk s1 + 1\<rparr>"
  have "hmc_ok C {#} ?s2" using c1(2) by (simp add: carried_def)
  from carried_vaults [OF this ct_epoch_ok] obtain cts2 where
    c2: "res_map ct_PrintEpochStats cts1 = Inr cts2" "carried C {#} ?s2 (s1\<lparr>hm_ctrls := cts2, hm_clk := hm_clk s1 + 1\<rparr>)" by fastforce
  let ?s3 = "\<lambda>cts. s1\<lparr>hm_clk := hm_clk s1 + 1, hm_ctrls := cts\<rparr>"
  have k: "carried C {#} ?s0 (?s3 cts1)" "carried C {#} ?s0 (?s3 cts2)"
    using carried_trans [OF carried_trans [OF s1(2) c1(2)] c2(2)] carried_trans [OF s1(2) c1(2)] by (cases s1; simp)+
  have "carried C {#} s s'" if "carried C {#} ?s0 s'" for s' using that by (simp add: carried_def same_clocks_def hmc_pending_def)
  moreover have "DRAMClockTick C s = Inr (?s3 (if (hm_clk s1 + 1) mod of_int (epoch_period C) = 0 then cts2 else cts1))"
    using a s1(1) c1(1) c2(1) cfg(2) by (simp add: DRAMClockTick_def Let_def)
  ultimately show ?thesis using k by simp
qed

section \<open>The clocks\<close>

lemma logic_tick_ok:
  "hmc_ok C X s \<Longrightarrow> hmc_ok C X (logic_tick s)" "hmc_pending (logic_tick s) = hmc_pending s"
  "dram_ps (logic_tick s) = dram_ps s" "logic_ps (logic_tick s) = logic_ps s + ps_per_logic s"
  by (simp_all add: logic_tick_def hmc_ok_def hmc_parts hmc_pending_def)

lemma logic_cycle_ok:
  assumes "hmc_ok C {#} s"
  shows "\<exists>s' evs. logic_cycle C s = Inr (s', evs) \<and> hmc_ok C {#} s' \<and> hmc_pending s = hmc_pending s' + mset evs \<and>
    dram_ps s' = dram_ps s \<and> logic_ps s' = logic_ps s + ps_per_logic s"
proof -
  from DrainResponses_ok [OF assms] obtain s1 evs where s1: "DrainResponses s = Inr (s1, evs)" "hmc_ok C {#} s1" "same_clocks s s1"
    "hmc_pending s = hmc_pending s1 + mset evs" by blast
  from DrainRequests_ok [OF s1(2)] obtain s2 where s2: "DrainRequests C s1 = Inr s2" "carried C {#} s1 s2" by blast
  with s1 show ?thesis by (simp add: logic_cycle_def logic_tick_ok carried_def same_clocks_def)
qed

lemma first_cycle_ok:
  assumes "hmc_ok C {#} s"
  shows "\<exists>s' evs. first_cycle C s = Inr (s', evs) \<and> hmc_ok C {#} s' \<and> hmc_pending s = hmc_pending s' + mset evs \<and> dram_ps s' = dram_ps s"
proof (cases "dram_ps s = logic_ps s")
  case True
  from DrainResponses_ok [OF assms] obtain s1 evs where s1: "DrainResponses s = Inr (s1, evs)" "hmc_ok C {#} s1" "same_clocks s s1"
    "hmc_pending s = hmc_pending s1 + mset evs" by blast
  from DRAMClockTick_ok [OF s1(2)] obtain s2 where s2: "DRAMClockTick C s1 = Inr s2" "carried C {#} s1 s2" by blast
  then have "hmc_ok C {#} s2" by (simp add: carried_def)
  from DrainRequests_ok [OF this] obtain s3 where s3: "DrainRequests C s2 = Inr s3" "carried C {#} s2 s3" by blast
  with s1 s2 True show ?thesis by (simp add: first_cycle_def logic_tick_ok carried_def same_clocks_def)
next
  case False
  with DRAMClockTick_ok [OF assms] show ?thesis by (auto simp: first_cycle_def carried_def same_clocks_def)
qed

text \<open>Before the picosecond counters reach 2^63 the crossbar always catches up.\<close>

lemma logic_loop_ok:
  assumes "hmc_ok C {#} s" and "unat (dram_ps s) < 2 ^ 63"
  shows "\<exists>s' evs'. logic_loop C s evs = Some (Inr (s', evs')) \<and> hmc_ok C {#} s' \<and> dram_ps s' = dram_ps s \<and>
    hmc_pending s + mset evs = hmc_pending s' + mset evs'"
  using assms
proof (induction "unat (dram_ps s) + 800 - unat (logic_ps s)" arbitrary: s evs rule: less_induct)
  case less
  have p: "ps_per_dram s = 800" "0 < ps_per_logic s" "ps_per_logic s \<le> 800" using less.prems(1) by (simp_all add: hmc_ok_def hmc_clocks_def)
  show ?case
  proof (cases "logic_ps s < dram_ps s + ps_per_dram s")
    case True
    from logic_cycle_ok [OF less.prems(1)] obtain s1 es where s1: "logic_cycle C s = Inr (s1, es)" "hmc_ok C {#} s1"
      "hmc_pending s = hmc_pending s1 + mset es" "dram_ps s1 = dram_ps s" "logic_ps s1 = logic_ps s + ps_per_logic s" by blast
    have "unat (dram_ps s + 800) = unat (dram_ps s) + 800" using less.prems(2) by (subst unat_add_lem [THEN iffD1]) simp_all
    moreover have "unat (logic_ps s) < unat (dram_ps s + 800)" using True p(1) by (simp add: word_less_nat_alt)
    moreover have q: "0 < unat (ps_per_logic s)" "unat (ps_per_logic s) \<le> 800" using p(2,3) by (simp_all add: word_less_nat_alt word_le_nat_alt)
    ultimately have l: "unat (logic_ps s) < unat (dram_ps s) + 800"
      "unat (logic_ps s + ps_per_logic s) = unat (logic_ps s) + unat (ps_per_logic s)"
      using less.prems(2) by (simp, subst unat_add_lem [THEN iffD1], simp_all)
    then have "unat (dram_ps s1) + 800 - unat (logic_ps s1) < unat (dram_ps s) + 800 - unat (logic_ps s)" using s1(4,5) q by simp
    from less.hyps [OF this s1(2), of "evs @ es"] less.prems(2) s1(4) obtain s2 evs2 where
      s2: "logic_loop C s1 (evs @ es) = Some (Inr (s2, evs2))" "hmc_ok C {#} s2" "dram_ps s2 = dram_ps s1"
        "hmc_pending s1 + mset (evs @ es) = hmc_pending s2 + mset evs2" by auto
    have "hmc_pending s + mset evs = hmc_pending s2 + mset evs2" unfolding s1(3) s2(4) [symmetric] by (simp add: ac_simps)
    then show ?thesis using s1(1,4) s2(1-3) True by (subst logic_loop.simps) simp
  next
    case False
    with less.prems(1) show ?thesis by (subst logic_loop.simps) simp
  qed
qed

lemma Tick_ok:
  assumes "hmc_ok C {#} s" and "unat (dram_ps s) < 2 ^ 63"
  shows "\<exists>s' evs. Hmc_ClockTick C s = Some (Inr (s', evs)) \<and> hmc_ok C {#} s' \<and> dram_ps s' = dram_ps s + 800 \<and>
    hmc_pending s = hmc_pending s' + mset evs"
proof -
  from first_cycle_ok [OF assms(1)] obtain s1 evs where s1: "first_cycle C s = Inr (s1, evs)" "hmc_ok C {#} s1"
    "hmc_pending s = hmc_pending s1 + mset evs" "dram_ps s1 = dram_ps s" by blast
  from logic_loop_ok [OF s1(2), of evs] assms(2) s1(4) obtain s2 evs2 where
    s2: "logic_loop C s1 evs = Some (Inr (s2, evs2))" "hmc_ok C {#} s2" "dram_ps s2 = dram_ps s1"
      "hmc_pending s1 + mset evs = hmc_pending s2 + mset evs2" by auto
  have "hmc_ok C {#} (s2\<lparr>dram_ps := dram_ps s2 + ps_per_dram s2\<rparr>)" "ps_per_dram s2 = 800"
    using s2(2) by (simp_all add: hmc_ok_def hmc_parts)
  then show ?thesis using s1 s2 by (simp add: Hmc_ClockTick_def hmc_pending_def)
qed

section \<open>The contract\<close>

text \<open>
  The picosecond counters wrap around after 2^64 picoseconds, and the crossbar may then stall. The
  contract holds for the operations up to that time: \<open>hmc_until\<close> stops the clock at 2^63 picoseconds, and
  until then it is the memory cube.
\<close>

definition hmc_until :: "Config \<Rightarrow> HMCMemorySystem dram_ops" where
  "hmc_until C = (hmc_ops C)\<lparr>d_tick := \<lambda>s. if unat (dram_ps s) < 2 ^ 63 then d_tick (hmc_ops C) s else Inr (s, [])\<rparr>"

interpretation hmc: dram_contract "hmc_until C" hmc_pending "hmc_ok C {#}" for C
proof (unfold_locales, goal_cases)
  case (1 d a w)
  then show ?case by (simp add: hmc_until_def hmc_ops_def)
next
  case (2 d a w)
  then have "Hmc_WillAcceptTransaction d a w" by (simp add: hmc_until_def hmc_ops_def)
  from Add_ok [OF 2(1) this] show ?case by (auto simp: hmc_until_def hmc_ops_def returned_def entered_def)
next
  case (3 d)
  then show ?case using Tick_ok [OF 3] by (auto simp: hmc_until_def hmc_ops_def returned_def)
qed

section \<open>The order of arbitration\<close>

lemma age_fold_rev:
  assumes "\<forall>i < n. int n \<le> ages ! i" and "\<forall>i \<in> set L. i < n" and "\<forall>i \<in> set q. i < n"
  shows "fold (age_step ages) L q = rev L @ q"
  using assms(2,3)
proof (induction L arbitrary: q)
  case (Cons i L)
  then have a: "int n \<le> ages ! i" "0 < ages ! i" using assms(1) by (auto dest: spec [of _ i])
  then have "insert_age (ages ! i) i q = i # q" using Cons.prems(2) by (cases q) auto
  with Cons a show ?case by (simp add: age_step_def)
qed simp

text \<open>
  C39. The arbitration of the crossbar does not serve the oldest port first: when every port has waited
  for at least as many cycles as there are ports, the queue holds the ports in the reverse of the
  round-robin order from the start position of the cycle, whatever their ages are, although it is
  documented to be in descending order of age.
\<close>

theorem age_queue_ignores_age:
  assumes "ages \<noteq> []" and "\<forall>i < length ages. int (length ages) \<le> ages ! i"
  shows "BuildAgeQueue clk ages =
    Inr (rev (map (\<lambda>i. (i + unat (clk mod of_nat (length ages))) mod length ages) [0..<length ages]))"
  unfolding BuildAgeQueue_eq [OF assms(1)] using age_fold_rev [OF assms(2), of _ "[]"] assms(1) by simp

theorem age_queue_ignores_age_witness:
  "BuildAgeQueue 8 [9, 4, 4, 4] = Inr [3, 2, 1, 0] \<and> BuildAgeQueue 9 [4, 4, 4, 9] = Inr [0, 3, 2, 1]"
proof -
  have "\<forall>i < length [9, 4, 4, 4 :: int]. int (length [9, 4, 4, 4 :: int]) \<le> [9, 4, 4, 4] ! i"
    "\<forall>i < length [4, 4, 4, 9 :: int]. int (length [4, 4, 4, 9 :: int]) \<le> [4, 4, 4, 9] ! i" by (simp_all add: nth_Cons')
  from age_queue_ignores_age [OF _ this(1), of 8] age_queue_ignores_age [OF _ this(2), of 9] show ?thesis by (simp add: upt_rec)
qed

end
