(* ===== verification/Sim_Hmc.thy ===== *)
theory Sim_Hmc
  imports Hmc_Inv Sim_Full
begin

text \<open>
  The accelerator on the memory cube. For the first 2^53 cycles the memory cube is \<open>hmc_until\<close>, which
  provides the contract, so everything shown for the main loop holds there.
\<close>

section \<open>Construction\<close>

definition logic_speed_of :: "Config \<Rightarrow> int" where
  "logic_speed_of C = link_speed C sdiv (128 sdiv link_width C)"

text \<open>What the file of a memory cube has to satisfy: links, a block size of the code, and a speed of the logic in MHz.\<close>

definition hmc_file_ok :: "Config \<Rightarrow> bool" where
  "hmc_file_ok C \<longleftrightarrow> device_file_ok C \<and> IsHMC C \<and> block_ok C \<and> 0 < num_links C \<and> 1 \<le> link_width C \<and> link_width C \<le> 128 \<and>
     1 \<le> logic_speed_of C \<and> logic_speed_of C \<le> 1000000"

lemma SetClockRatio_ok:
  assumes "hmc_file_ok C"
  shows "\<exists>p. SetClockRatio C = Inr (800, p) \<and> 0 < p \<and> p \<le> 800"
proof -
  note f = assms [unfolded hmc_file_ok_def]
  have w: "128 sdiv link_width C = 128 div link_width C" "1 \<le> 128 div link_width C"
    using f by (simp_all add: signed_divide_int_def div_pos_pos_trivial pos_imp_zdiv_pos_iff int_one_le_iff_zero_less)
  let ?s = "logic_speed_of C"
  have s: "1000000 sdiv ?s = 1000000 div ?s" using f by (simp add: signed_divide_int_def)
  have q: "1 \<le> 1000000 div ?s" using f by (simp add: pos_imp_zdiv_pos_iff int_one_le_iff_zero_less)
  have "1000000 div ?s \<le> 1000000" using f int_div_less_self [of 1000000 ?s] by (cases "?s = 1") simp_all
  with q have "0 < (of_int (1000000 div ?s) :: u64)"
    using zdvd_not_zless [of "1000000 div ?s" "2 ^ 64"] by (simp add: word_gt_0 word_of_int_eq_0_iff)
  moreover have "SetClockRatio C = (let p = of_int (1000000 div ?s) :: u64 in Inr (800, if 800 < p then 800 else p))"
  proof -
    have "cdiv 128 (link_width C) = Inr (128 sdiv link_width C)" "cdiv (link_speed C) (128 sdiv link_width C) = Inr ?s" "?s \<noteq> 0"
      using f w by (auto simp: cdiv_def logic_speed_of_def)
    with q show ?thesis by (simp add: SetClockRatio_def s)
  qed
  ultimately show ?thesis by (auto simp: Let_def not_less)
qed

lemma Hmc_new_ok:
  assumes "Config_new R c0 = Inr C" and "hmc_file_ok C"
  shows "\<exists>d. Hmc_new C = Inr d \<and> hmc_ok C {#} d \<and> hmc_pending d = {#} \<and> dram_ps d = 0"
proof -
  have f: "device_file_ok C" "IsHMC C" "0 < num_links C" "0 \<le> channels C" "block_ok C"
    using assms(2) by (simp_all add: hmc_file_ok_def device_file_ok_def)
  from SetClockRatio_ok [OF assms(2)] obtain p where p: "SetClockRatio C = Inr (800, p)" "0 < p" "p \<le> 800" by blast
  from controllers_new_ok [OF assms(1) f(1)] obtain cts where
    cts: "res_fold (\<lambda>i cts. res_bind (DController_new C i) (\<lambda>ct. Inr (cts @ [ct]))) (iota (channels C)) [] = Inr cts"
      "length cts = nat (channels C)" "\<forall>ct \<in> set cts. ct_inv C ct" "(\<Sum>ct\<leftarrow>cts. ct_pending ct) = {#}" by blast
  have z: "[0, 0, 0, 0] = replicate 4 (0 :: int)" by (simp add: eval_nat_numeral)
  obtain d where d: "Hmc_new C = Inr d" using f p cts by (simp add: Hmc_new_def Let_def)
  then have "hmc_shape d" "hmc_clocks d" "vaults_ok C d" "packets_ok C d" "waiting d = keys_of d"
    "ages_ok (link_age_counter d) (link_req_queues d)" "ages_ok (quad_age_counter d) (quad_resp_queues d)"
    "hmc_pending d = {#}" "dram_ps d = 0"
    using f p cts by (auto simp: Hmc_new_def Let_def hmc_parts hmc_pending_def ages_ok_def z)
  then show ?thesis using d f(5) jedec_cfg_file [OF assms(1) f(1)] by (simp add: hmc_ok_def)
qed

section \<open>The first cycles\<close>

text \<open>The lemmas on the main loop, for the memory cube.\<close>

context dram_contract
begin

lemmas loop_parts = cycle_step_parts
lemmas loop_ok = cycles_ok

end

lemma hmc_until_eq:
  "d_accept (hmc_until C) = d_accept (hmc_ops C)" "d_add (hmc_until C) = d_add (hmc_ops C)"
  "unat (dram_ps s) < 2 ^ 63 \<Longrightarrow> d_tick (hmc_until C) s = d_tick (hmc_ops C) s"
  by (simp_all add: hmc_until_def)

lemma consume_same:
  assumes "d_accept D = d_accept D'" and "d_add D = d_add D'"
  shows "consume_loop D d ts = consume_loop D' d ts"
proof (induction ts arbitrary: d)
  case (Cons t ts)
  show ?case unfolding consume_loop.simps assms Cons.IH ..
qed simp

lemma cycle_end_same:
  assumes ops: "d_accept D = d_accept D'" "d_add D = d_add D'"
    and c: "consume_loop D (dram (c_mem st)) (tq (c_mem st)) = Inr (d2, q)" and t: "d_tick D d2 = d_tick D' d2"
  shows "cycle_end G D st = cycle_end G D' st"
proof (cases "FeatureReceive G (c_fr st, c_cah st, c_mem st)")
  case (Inr r)
  obtain fr c1 m where r: "r = (fr, c1, m)" by (cases r) auto
  have m: "dram m = dram (c_mem st)" "tq m = tq (c_mem st)" using Inr unfolding r by (auto simp: FeatureReceive_def)
  have "ConsumeTransaction D m = Inr (m\<lparr>dram := d2, tq := q\<rparr>)" "ConsumeTransaction D' m = Inr (m\<lparr>dram := d2, tq := q\<rparr>)"
    using c consume_same [OF ops] m by (simp_all add: ConsumeTransaction_def)
  then show ?thesis using Inr r t by (simp add: cycle_end_def UpdateCycle_def)
qed (simp add: cycle_end_def)

lemma hmc_consume_clock:
  assumes "hmc_ok C {#} d" and "consume_loop (hmc_until C) d ts = Inr (d', ts')"
  shows "dram_ps d' = dram_ps d"
  using assms
proof (induction ts arbitrary: d)
  case (Cons t ts)
  show ?case
  proof (cases "Hmc_WillAcceptTransaction d (address t) (is_write t)")
    case True
    from Add_ok [OF Cons.prems(1) this] obtain d1 where
      d1: "Hmc_AddTransaction C d (address t) (is_write t) = Some (Inr (True, d1))" "entered C (address t, is_write t) d d1" by blast
    then have "consume_loop (hmc_until C) d1 ts = Inr (d', ts')"
      using Cons.prems(2) True by (simp add: hmc_until_def hmc_ops_def returned_def)
    with Cons.IH [of d1] d1(2) show ?thesis by (simp add: entered_def same_clocks_def)
  next
    case False
    with Cons.prems(2) show ?thesis by (simp add: hmc_until_def hmc_ops_def)
  qed
qed simp

lemma hmc_cycles:
  assumes env: "env_ok md G" and "hmc_ok C {#} (dram (c_mem st))" and "sys_inv md G tw (hmc_pending (dram (c_mem st))) st ws done"
    and "unat (dram_ps (dram (c_mem st))) + 800 * n \<le> 2 ^ 63"
  shows "cycles G (hmc_ops C) n st = cycles G (hmc_until C) n st"
  using assms(2-)
proof (induction n arbitrary: st ws "done")
  case (Suc n)
  let ?d = "dram (c_mem st)"
  from hmc.loop_parts [OF env Suc.prems(2,1)] obtain st1 st' ws' done' d2 evs where
    s: "res_fold (engine_step G) [0..<engines G] st = Inr st1" "cycle_end G (hmc_until C) st1 = Inr st'"
      "hmc_ok C {#} (dram (c_mem st'))" "sys_inv md G tw (hmc_pending (dram (c_mem st'))) st' ws' done'" "dram (c_mem st1) = ?d"
      "consume_loop (hmc_until C) ?d (tq (c_mem st1)) = Inr (d2, tq (c_mem st'))" "d_tick (hmc_until C) d2 = Inr (dram (c_mem st'), evs)" by blast
  have p: "dram_ps d2 = dram_ps ?d" by (rule hmc_consume_clock [OF Suc.prems(1) s(6)])
  then have lt: "unat (dram_ps d2) < 2 ^ 63" using Suc.prems(3) by simp
  have "hmc_ok C {#} d2" using hmc.consume_loop_spec [OF Suc.prems(1), of "tq (c_mem st1)"] s(6) by auto
  from Tick_ok [OF this lt] s(7) lt have "dram_ps (dram (c_mem st')) = dram_ps ?d + 800"
    by (auto simp: hmc_until_eq(3) hmc_ops_def returned_def p)
  moreover have "unat (dram_ps ?d + 800) = unat (dram_ps ?d) + 800" using Suc.prems(3) by (subst unat_add_lem [THEN iffD1]) simp_all
  ultimately have "unat (dram_ps (dram (c_mem st'))) + 800 * n \<le> 2 ^ 63" using Suc.prems(3) by simp
  from Suc.IH [OF s(3,4) this] have "cycles G (hmc_ops C) n st' = cycles G (hmc_until C) n st'" .
  moreover have "cycle_end G (hmc_ops C) st1 = Inr st'"
    using cycle_end_same [of "hmc_until C" "hmc_ops C" st1 d2 "tq (c_mem st')" G] s(2,5,6) hmc_until_eq(1,2) hmc_until_eq(3) [OF lt, of C] by simp
  ultimately show ?case using s(1,2) by (simp add: cycle_step_def)
qed simp

text \<open>The other branch of the memory system front end, \<open>src/DRAMsim3/src/memory_system.cc\<close>.\<close>

definition hmc_memory :: "Config \<Rightarrow> (HMCMemorySystem dram_ops \<times> HMCMemorySystem) res" where
  "hmc_memory C = res_bind (Hmc_new C) (\<lambda>d. Inr (hmc_ops C, d))"


section \<open>A memory cube\<close>

text \<open>The getters on \<open>src/DRAMsim3/configs/HMC2_8GB_4Lx16.ini\<close>.\<close>

definition hmc2_integers :: "((string \<times> string) \<times> int) list" where
  "hmc2_integers =
     map (\<lambda>(k, v). ((''hmc'', k), v)) [(''num_links'', 4), (''link_width'', 16), (''link_speed'', 25000), (''block_size'', 64),
       (''xbar_queue_depth'', 32)] @
     map (\<lambda>(k, v). ((''dram_structure'', k), v)) [(''bankgroups'', 1), (''banks_per_group'', 16), (''rows'', 65536), (''columns'', 64),
       (''device_width'', 32), (''num_dies'', 8)] @
     map (\<lambda>(k, v). ((''timing'', k), v)) [(''CL'', 17), (''CWL'', 17), (''tRCD'', 17), (''tRP'', 17), (''tRAS'', 34), (''tRFC'', 420),
       (''tREFI'', 9364), (''tRRD_S'', 6), (''tRRD_L'', 6), (''tWTR_S'', 3), (''tWTR_L'', 3), (''tFAW'', 27), (''tWR'', 19),
       (''tCCD_S'', 6), (''tCCD_L'', 6), (''tXS'', 12), (''tCKSRE'', 1), (''tXP'', 8), (''tRTP_L'', 10), (''tRTP_S'', 10), (''tRTRS'', 0)] @
     map (\<lambda>(k, v). ((''system'', k), v)) [(''channel_size'', 256), (''channels'', 32), (''bus_width'', 32), (''cmd_queue_size'', 8),
       (''trans_queue_size'', 32)] @
     [((''other'', ''epoch_period''), 1250000)]"

definition ini_hmc2 :: ini_reader where
  "ini_hmc2 = \<lparr>ini_error = 0,
     ini_string = (\<lambda>s k d. if k = ''protocol'' then ''HMC'' else if k = ''address_mapping'' then ''rocorabgbach''
       else if k = ''queue_structure'' then ''PER_BANK'' else if k = ''row_buf_policy'' then ''CLOSE_PAGE'' else d),
     ini_integer = (\<lambda>s k d. case map_of hmc2_integers (s, k) of None \<Rightarrow> d | Some v \<Rightarrow> v),
     ini_boolean = (\<lambda>s k d. if k = ''unified_queue'' then True else d)\<rparr>"

definition is_hmc_file :: "Config res \<Rightarrow> bool" where
  "is_hmc_file r = (case r of Inl _ \<Rightarrow> False | Inr C \<Rightarrow> hmc_file_ok C)"

lemma hmc2_file: "is_hmc_file (Config_new ini_hmc2 Config_zero)"
  by code_simp


end
