(* ===== verification/Dram_Protocol.thy ===== *)
theory Dram_Protocol
  imports Dram_Channel
begin

text \<open>
  The DRAM protocol as the channel state enforces it: over every sequence of issued commands, the
  minimum distances of the timing tables, the row discipline of the banks and the activation window
  of a rank. The command log has the newest command first.
\<close>

section \<open>Runs of a channel\<close>

type_synonym cmd_log = "(u64 \<times> Command) list"

definition times_before :: "cmd_log \<Rightarrow> u64 \<Rightarrow> bool" where
  "times_before log clk \<longleftrightarrow> (case log of [] \<Rightarrow> True | e # _ \<Rightarrow> fst e \<le> clk)"

text \<open>
  At any time that is not before the last command, a ready command for some requested read, write or
  refresh is issued; between commands the waiting refreshes and the idle counters change.
\<close>

inductive channel_run :: "Config \<Rightarrow> Timing \<Rightarrow> ChannelState \<Rightarrow> cmd_log \<Rightarrow> bool" for C T where
  run_new: "channel_run C T (ChannelState_new C) []"
| run_issue: "channel_run C T cs log \<Longrightarrow> times_before log clk \<Longrightarrow> cmd_in C cmd \<Longrightarrow>
    IsReadWrite cmd \<or> IsRefresh cmd \<Longrightarrow> GetReadyCommand C cs cmd clk = Inr c \<Longrightarrow> IsValid c \<Longrightarrow>
    UpdateTimingAndStates C T c clk cs = Inr cs' \<Longrightarrow> channel_run C T cs' ((clk, c) # log)"
| run_need: "channel_run C T cs log \<Longrightarrow> (\<forall>c \<in> set q. IsRefresh c \<and> cmd_in C c) \<Longrightarrow>
    length idle = nat (ranks C) \<Longrightarrow>
    channel_run C T (cs\<lparr>refresh_q := q, rank_idle_cycles := idle\<rparr>) log"

section \<open>The history determines the rows and bounds the times\<close>

text \<open>The row a bank has open, read off the log.\<close>

fun row_of :: "cmd_log \<Rightarrow> coord \<Rightarrow> int option" where
  "row_of [] q = None"
| "row_of ((t, c) # log) q =
     (if \<not> addressed c q then row_of log q
      else if cmd_type c = ACTIVATE then Some (c_row c)
      else if cmd_type c = READ \<or> cmd_type c = WRITE then row_of log q
      else None)"

definition rows_inv :: "Config \<Rightarrow> ChannelState \<Rightarrow> cmd_log \<Rightarrow> bool" where
  "rows_inv C cs log \<longleftrightarrow> (\<forall>q. in_banks C q \<longrightarrow>
     row_of log q = (if bs_state (cs_bank cs q) = OPEN then Some (open_row (cs_bank cs q)) else None))"

definition times_inv :: "Config \<Rightarrow> Timing \<Rightarrow> ChannelState \<Rightarrow> cmd_log \<Rightarrow> bool" where
  "times_inv C T cs log \<longleftrightarrow> (\<forall>t1 c1 q ty d. (t1, c1) \<in> set log \<longrightarrow> in_banks C q \<longrightarrow>
     (ty, d) \<in> set (delays T c1 q) \<longrightarrow> t1 + of_int d \<le> cmd_timing (cs_bank cs q) ty)"

text \<open>The activations of a rank, newest first, and the window kept for it.\<close>

definition activations :: "cmd_log \<Rightarrow> int \<Rightarrow> u64 list" where
  "activations log r = [fst e. e \<leftarrow> log, cmd_type (snd e) = ACTIVATE \<and> c_rank (snd e) = r]"

definition window_inv :: "int \<Rightarrow> u64 list \<Rightarrow> u64 list \<Rightarrow> bool" where
  "window_inv F acts w \<longleftrightarrow> length w \<le> 4 \<and> length w \<le> length acts \<and>
     w = rev (map (\<lambda>t. t + of_int F) (take (length w) acts)) \<and>
     (\<forall>i. length w \<le> i \<longrightarrow> i < length acts \<longrightarrow> acts ! i + of_int F \<le> acts ! (i - 4))"

lemma window_inv_push:
  assumes w: "window_inv F acts w" and last: "\<forall>t \<in> set acts. t \<le> clk"
    and ok: "\<not> (w \<noteq> [] \<and> clk < hd w \<and> 4 \<le> length w)"
  shows "window_inv F (clk # acts) (push_window clk F w)"
proof -
  have le: "acts ! i \<le> clk" if "i < length acts" for i using last that by simp
  have old: "(clk # acts) ! i + of_int F \<le> (clk # acts) ! (i - 4)"
    if i: "length w < i" "i < Suc (length acts)" for i
  proof -
    obtain k where k: "i = Suc k" using i by (cases i) auto
    have "acts ! k + of_int F \<le> acts ! (k - 4)" using w i k by (simp add: window_inv_def)
    also have "acts ! (k - 4) \<le> (clk # acts) ! (i - 4)"
    proof (cases "4 \<le> k")
      case True
      then have "i - 4 = Suc (k - 4)" using k by simp
      then show ?thesis by simp
    next
      case False
      moreover have "0 < length acts" using i k by linarith
      ultimately show ?thesis using k le [of 0] by (simp add: not_le)
    qed
    finally show ?thesis using k by simp
  qed
  have weq: "w = rev (map (\<lambda>t. t + of_int F) (take (length w) acts))" and len: "length w \<le> 4" "length w \<le> length acts"
    using w by (simp_all add: window_inv_def)
  show ?thesis
  proof (cases "w \<noteq> [] \<and> hd w \<le> clk")
    case True
    define n where "n = length w - 1"
    have n: "length w = Suc n" using True by (cases w) (auto simp: n_def)
    have "w = (acts ! n + of_int F) # rev (map (\<lambda>t. t + of_int F) (take n acts))"
      using weq n len(2) by (simp add: take_Suc_conv_app_nth)
    then have hd: "hd w = acts ! n + of_int F" and tl: "tl w = rev (map (\<lambda>t. t + of_int F) (take n acts))"
      by (metis list.sel(1), metis list.sel(3))
    have "(clk # acts) ! i + of_int F \<le> (clk # acts) ! (i - 4)" if "length w \<le> i" "i < Suc (length acts)" for i
    proof (cases "i = length w")
      case True
      then show ?thesis using hd \<open>w \<noteq> [] \<and> hd w \<le> clk\<close> n len by simp
    next
      case False
      then show ?thesis using old that by simp
    qed
    then show ?thesis using True tl n len by (simp add: window_inv_def push_window_def)
  next
    case False
    with ok have "length w < 4" by auto
    with False old weq len show ?thesis by (auto simp: window_inv_def push_window_def)
  qed
qed


section \<open>Every run satisfies the protocol\<close>

definition run_inv :: "Config \<Rightarrow> Timing \<Rightarrow> ChannelState \<Rightarrow> cmd_log \<Rightarrow> bool" where
  "run_inv C T cs log \<longleftrightarrow> cs_ok C cs \<and> rows_inv C cs log \<and> times_inv C T cs log \<and>
     (\<forall>r. 0 \<le> r \<longrightarrow> r < ranks C \<longrightarrow> window_inv (tFAW C) (activations log r) (four_aw cs ! nat r)) \<and>
     sorted_wrt (\<lambda>x y. fst y \<le> fst x) log"

lemma times_before_all:
  assumes "times_before log clk" and "sorted_wrt (\<lambda>x y. fst y \<le> fst x) log" and "e \<in> set log"
  shows "fst e \<le> clk"
  using assms by (cases log) (auto simp: times_before_def intro: order_trans)

text \<open>The facts about one issued command that the properties below are about.\<close>

definition step_ok :: "Config \<Rightarrow> Timing \<Rightarrow> cmd_log \<Rightarrow> u64 \<Rightarrow> Command \<Rightarrow> bool" where
  "step_ok C T log clk c \<longleftrightarrow>
     (\<forall>t1 c1 q d. (t1, c1) \<in> set log \<longrightarrow> in_banks C q \<longrightarrow> addressed c q \<longrightarrow>
        (cmd_type c, d) \<in> set (delays T c1 q) \<longrightarrow> t1 + of_int d \<le> clk) \<and>
     (IsReadWrite c \<longrightarrow> row_of log (c_rank c, c_bankgroup c, c_bank c) = Some (c_row c))"

lemma row_after:
  assumes "bank_UpdateState c b = Inr b'" and "addressed c q" and "cmd_type c \<noteq> SREF_ENTER" "cmd_type c \<noteq> SREF_EXIT"
    and "row_of log q = (if bs_state b = OPEN then Some (open_row b) else None)"
  shows "row_of ((t, c) # log) q = (if bs_state b' = OPEN then Some (open_row b') else None)"
  using assms by (cases "bs_state b"; cases "cmd_type c") (auto simp: bank_UpdateState_def)

text \<open>What \<open>issue_ok\<close> says about a given successor state.\<close>

definition issued :: "Config \<Rightarrow> Timing \<Rightarrow> u64 \<Rightarrow> Command \<Rightarrow> ChannelState \<Rightarrow> ChannelState \<Rightarrow> bool" where
  "issued C T clk c cs cs' \<longleftrightarrow> cs_ok C cs' \<and> four_aw cs' = four_aw_after C c clk (four_aw cs) \<and>
     (\<forall>q. in_banks C q \<longrightarrow> (\<exists>b. (if addressed c q then bank_UpdateState c (cs_bank cs q) = Inr b else b = cs_bank cs q) \<and>
        cs_bank cs' q = apply_timing (delays T c q) clk b))"

lemma issued_at:
  "cs_ok C cs \<Longrightarrow> ready_for C cs clk c \<Longrightarrow> UpdateTimingAndStates C T c clk cs = Inr cs' \<Longrightarrow> issued C T clk c cs cs'"
  unfolding issued_def using issue_ok [of C cs clk c T] by (metis Inr_inject)

lemma issued_bank:
  assumes "issued C T clk c cs cs'" and "in_banks C q"
  obtains b where "addressed c q \<Longrightarrow> bank_UpdateState c (cs_bank cs q) = Inr b"
    "\<not> addressed c q \<Longrightarrow> b = cs_bank cs q" "cs_bank cs' q = apply_timing (delays T c q) clk b"
    "cmd_timing b = cmd_timing (cs_bank cs q)"
proof -
  from assms obtain b where b: "if addressed c q then bank_UpdateState c (cs_bank cs q) = Inr b else b = cs_bank cs q"
    "cs_bank cs' q = apply_timing (delays T c q) clk b" unfolding issued_def by blast
  with that [of b] show thesis by (auto split: if_splits)
qed

lemma rows_inv_issue:
  assumes "issued C T clk c cs cs'" and "ready_for C cs clk c" and "rows_inv C cs log"
  shows "rows_inv C cs' ((clk, c) # log)"
  unfolding rows_inv_def
proof (intro allI impI)
  fix q
  assume q: "in_banks C q"
  obtain b where b: "addressed c q \<Longrightarrow> bank_UpdateState c (cs_bank cs q) = Inr b" "\<not> addressed c q \<Longrightarrow> b = cs_bank cs q"
    "cs_bank cs' q = apply_timing (delays T c q) clk b" "cmd_timing b = cmd_timing (cs_bank cs q)"
    using issued_bank [OF assms(1) q] by metis
  have r: "row_of log q = (if bs_state (cs_bank cs q) = OPEN then Some (open_row (cs_bank cs q)) else None)"
    using assms(3) q unfolding rows_inv_def by blast
  show "row_of ((clk, c) # log) q = (if bs_state (cs_bank cs' q) = OPEN then Some (open_row (cs_bank cs' q)) else None)"
  proof (cases "addressed c q")
    case True
    from row_after [OF b(1) [OF True] True _ _ r] assms(2) b(3) show ?thesis by (simp add: ready_for_def)
  next
    case False
    with b r show ?thesis by simp
  qed
qed

lemma times_inv_issue:
  assumes "issued C T clk c cs cs'" and "times_inv C T cs log"
  shows "times_inv C T cs' ((clk, c) # log)"
  unfolding times_inv_def
proof (intro allI impI)
  fix t1 c1 q ty d
  assume e: "(t1, c1) \<in> set ((clk, c) # log)" and q: "in_banks C q" and d: "(ty, d) \<in> set (delays T c1 q)"
  obtain b where b: "cs_bank cs' q = apply_timing (delays T c q) clk b" "cmd_timing b = cmd_timing (cs_bank cs q)"
    using issued_bank [OF assms(1) q] by metis
  show "t1 + of_int d \<le> cmd_timing (cs_bank cs' q) ty"
  proof (cases "(t1, c1) \<in> set log")
    case True
    with assms(2) q d have "t1 + of_int d \<le> cmd_timing b ty" unfolding times_inv_def b(2) by blast
    also have "\<dots> \<le> cmd_timing (cs_bank cs' q) ty" unfolding b(1) by (rule apply_timing_mono)
    finally show ?thesis .
  next
    case False
    with e have "t1 = clk" "c1 = c" by auto
    with d b(1) show ?thesis by (simp add: apply_timing_enforces)
  qed
qed

lemma window_inv_issue:
  assumes "issued C T clk c cs cs'" and "cs_ok C cs" and "ready_for C cs clk c" and "0 \<le> r" "r < ranks C"
    and "\<forall>e \<in> set log. fst e \<le> clk" and "window_inv (tFAW C) (activations log r) (four_aw cs ! nat r)"
  shows "window_inv (tFAW C) (activations ((clk, c) # log) r) (four_aw cs' ! nat r)"
proof -
  have faw: "four_aw cs' = four_aw_after C c clk (four_aw cs)" using assms(1) by (simp add: issued_def)
  have rf: "0 \<le> c_rank c" "window_ok C cs clk c" using assms(3) by (simp_all add: ready_for_def cmd_in_def)
  show ?thesis
  proof (cases "cmd_type c = ACTIVATE \<and> c_rank c = r")
    case True
    have len: "nat r < length (four_aw cs)" using assms(2,4,5) by (auto simp: cs_ok_def cs_shape_def)
    have "ActivationWindowOk C cs r clk = Inr True" using rf True by (simp add: window_ok_def)
    then have "\<not> (four_aw cs ! nat r \<noteq> [] \<and> clk < hd (four_aw cs ! nat r) \<and> 4 \<le> length (four_aw cs ! nat r))"
      using len assms(4) by (auto simp: ActivationWindowOk_def IsFAWReady_def split: if_splits)
    moreover have "\<forall>t \<in> set (activations log r). t \<le> clk" using assms(6) by (auto simp: activations_def)
    ultimately have "window_inv (tFAW C) (clk # activations log r) (push_window clk (tFAW C) (four_aw cs ! nat r))"
      using assms(7) by (intro window_inv_push)
    with True len show ?thesis by (simp add: faw four_aw_after_def activations_def)
  next
    case False
    then have "four_aw cs' ! nat r = four_aw cs ! nat r"
      using assms(4) rf by (auto simp: faw four_aw_after_def nth_list_update)
    with False assms(7) show ?thesis by (auto simp: activations_def)
  qed
qed

lemma step_ok_issue:
  assumes "run_inv C T cs log" and rf: "ready_for C cs clk c"
  shows "step_ok C T log clk c"
  unfolding step_ok_def
proof (intro conjI allI impI)
  note inv = assms(1) [unfolded run_inv_def]
  fix t1 c1 q d
  assume a: "(t1, c1) \<in> set log" "in_banks C q" "addressed c q" "(cmd_type c, d) \<in> set (delays T c1 q)"
  then have "t1 + of_int d \<le> cmd_timing (cs_bank cs q) (cmd_type c)" using inv unfolding times_inv_def by blast
  also have "\<dots> \<le> clk" using rf a unfolding ready_for_def by blast
  finally show "t1 + of_int d \<le> clk" .
next
  assume rw: "IsReadWrite c"
  let ?q = "(c_rank c, c_bankgroup c, c_bank c)"
  have "\<not> IsRankCMD c" using rw by (auto simp: cmd_defs)
  then have q: "in_banks C ?q" "addressed c ?q" using rf by (auto simp: ready_for_def cmd_in_def addressed_def)
  then obtain b where b: "bank_UpdateState c (cs_bank cs ?q) = Inr b" "open_row (cs_bank cs ?q) = c_row c"
    using rf rw unfolding ready_for_def by blast
  then have "bs_state (cs_bank cs ?q) = OPEN"
    using rw by (auto simp: bank_UpdateState_def cmd_defs split: bank_st.splits)
  with assms(1) q(1) b(2) show "row_of log ?q = Some (c_row c)" unfolding run_inv_def rows_inv_def by simp
qed

lemma run_inv_issue:
  assumes "run_inv C T cs log" and "times_before log clk" and "ready_for C cs clk c"
    and "UpdateTimingAndStates C T c clk cs = Inr cs'"
  shows "run_inv C T cs' ((clk, c) # log)"
proof -
  note inv = assms(1) [unfolded run_inv_def]
  have ok: "cs_ok C cs" using inv by blast
  note i = issued_at [OF ok assms(3,4)]
  have all: "\<forall>e \<in> set log. fst e \<le> clk" using times_before_all [OF assms(2)] inv by blast
  have "window_inv (tFAW C) (activations ((clk, c) # log) r) (four_aw cs' ! nat r)" if "0 \<le> r" "r < ranks C" for r
    using window_inv_issue [OF i ok assms(3) that all] inv that by blast
  moreover have "cs_ok C cs'" using i by (simp add: issued_def)
  moreover have "rows_inv C cs' ((clk, c) # log)" "times_inv C T cs' ((clk, c) # log)"
    using rows_inv_issue [OF i assms(3)] times_inv_issue [OF i] inv by blast+
  ultimately show ?thesis unfolding run_inv_def using inv all by simp
qed

text \<open>Every recorded command is issued on top of a log that satisfies \<open>step_ok\<close>.\<close>

fun log_ok :: "Config \<Rightarrow> Timing \<Rightarrow> cmd_log \<Rightarrow> bool" where
  "log_ok C T [] = True"
| "log_ok C T ((t, c) # log) = (step_ok C T log t c \<and> log_ok C T log)"

lemma log_ok_append: "log_ok C T (xs @ ys) \<Longrightarrow> log_ok C T ys"
  by (induction xs) auto

lemma channel_run_inv:
  assumes "device_ok C" and "channel_run C T cs log"
  shows "run_inv C T cs log \<and> log_ok C T log"
  using assms(2)
proof induction
  case run_new
  have "cs_bank (ChannelState_new C) q = BankState_new" if "in_banks C q" for q
    using that by (cases q) (auto simp: ChannelState_new_def bank_of_def in_banks_def)
  then show ?case using ChannelState_new_ok [of C]
    by (auto simp: run_inv_def rows_inv_def times_inv_def window_inv_def activations_def BankState_new_def
      ChannelState_new_def)
next
  case (run_issue cs log clk cmd c cs')
  then have "cs_ok C cs" by (simp add: run_inv_def)
  from GetReady_ok [OF assms(1) this run_issue.hyps(3,4), of clk] run_issue.hyps(5,6)
  have rf: "ready_for C cs clk c" by auto
  from run_inv_issue [OF _ run_issue.hyps(2) rf run_issue.hyps(7)] step_ok_issue [OF _ rf] run_issue.IH
  show ?case by auto
next
  case (run_need cs log q idle)
  then show ?case
    by (auto simp: run_inv_def rows_inv_def times_inv_def cs_ok_def cs_shape_def)
qed


section \<open>The properties\<close>

text \<open>
  All the rows of the timing tables that apply from a command to a bank: those of the rank and those of
  the closer relation for the banks of its rank, those of the other ranks for the rest.
\<close>

definition asked :: "Timing \<Rightarrow> Command \<Rightarrow> coord \<Rightarrow> (CommandType \<times> int) list" where
  "asked T c = (\<lambda>(r, j, k). let t = cmd_type c in
     if r \<noteq> c_rank c then other_ranks T t
     else same_rank T t @ (if j \<noteq> c_bankgroup c then other_bankgroups_same_rank T t
       else if k \<noteq> c_bank c then other_banks_same_bankgroup T t else same_bank T t))"

text \<open>The code applies all of them, except after the refresh of a bank.\<close>

lemma asked_delays:
  assumes "cmd_type c \<noteq> REFRESH_BANK"
  shows "asked (Timing_new C) c q = delays (Timing_new C) c q"
  using assms
  by (cases q; cases "cmd_type c")
    (simp_all add: asked_def delays_def cmd_defs Timing_new_def same_rank_table_def other_ranks_table_def
      other_bankgroups_same_rank_table_def other_banks_same_bankgroup_table_def same_bank_table_def)

text \<open>
  C14. Timing. In every run of a channel two commands keep the distances of the timing tables: let \<open>c1\<close> be
  issued at \<open>t1\<close> and \<open>c2\<close> later at \<open>t2\<close>. If the tables of the configuration ask for a distance \<open>d\<close> from \<open>c1\<close> to a
  command of \<open>c2\<close>'s type at some bank \<open>c2\<close> addresses (in the same bank, the same bank group, the same rank or
  another rank), then \<open>t1 + d \<le> t2\<close>. The exception is the refresh of a single bank as \<open>c1\<close>: of its rows the
  code keeps those it applies (\<open>delays\<close>), which leave out the rows for the rank.
\<close>

theorem dram_timing:
  assumes "device_ok C" and "channel_run C (Timing_new C) cs log"
    and "log = xs @ (t2, c2) # ys @ (t1, c1) # zs"
    and "in_banks C q" and "addressed c2 q"
    and "(cmd_type c2, d) \<in> set (if cmd_type c1 = REFRESH_BANK then delays (Timing_new C) c1 q else asked (Timing_new C) c1 q)"
  shows "t1 + of_int d \<le> t2"
proof -
  have "step_ok C (Timing_new C) (ys @ (t1, c1) # zs) t2 c2"
    using channel_run_inv [OF assms(1,2)] log_ok_append [of C _ xs] unfolding assms(3)
    by (metis log_ok.simps(2))
  moreover have "(cmd_type c2, d) \<in> set (delays (Timing_new C) c1 q)"
    using assms(6) asked_delays [of c1 C q] by (simp split: if_splits)
  ultimately show ?thesis using assms(4,5) unfolding step_ok_def by (metis in_set_conv_decomp)
qed

text \<open>
  C15. Row discipline. In every run of a channel a read or write goes to a bank whose last activation,
  not closed since by a precharge or refresh, was for the row of the command; and a bank is open in
  the model exactly when the command history says so, with that row.
\<close>

theorem dram_rows:
  assumes "device_ok C" and "channel_run C (Timing_new C) cs log"
  shows "(\<forall>xs t c ys. log = xs @ (t, c) # ys \<longrightarrow> IsReadWrite c \<longrightarrow>
      row_of ys (c_rank c, c_bankgroup c, c_bank c) = Some (c_row c)) \<and>
    (\<forall>q. in_banks C q \<longrightarrow>
      row_of log q = (if bs_state (cs_bank cs q) = OPEN then Some (open_row (cs_bank cs q)) else None))"
proof (intro conjI allI impI)
  fix xs t c ys
  assume "log = xs @ (t, c) # ys" and rw: "IsReadWrite c"
  then have "log_ok C (Timing_new C) ((t, c) # ys)"
    using channel_run_inv [OF assms] log_ok_append by blast
  then show "row_of ys (c_rank c, c_bankgroup c, c_bank c) = Some (c_row c)"
    using rw by (simp add: step_ok_def)
next
  fix q
  assume "in_banks C q"
  with channel_run_inv [OF assms]
  show "row_of log q = (if bs_state (cs_bank cs q) = OPEN then Some (open_row (cs_bank cs q)) else None)"
    unfolding run_inv_def rows_inv_def by blast
qed

text \<open>
  C16. Activation window. In every run of a channel any five consecutive activations of a rank take at
  least \<open>tFAW\<close> cycles: the fifth is not issued before the first plus \<open>tFAW\<close>.
\<close>

theorem dram_four_activations:
  assumes "device_ok C" and "channel_run C (Timing_new C) cs log" and "0 \<le> r" "r < ranks C"
    and "i + 4 < length (activations log r)"
  shows "activations log r ! (i + 4) + of_int (tFAW C) \<le> activations log r ! i"
proof -
  have "window_inv (tFAW C) (activations log r) (four_aw cs ! nat r)"
    using channel_run_inv [OF assms(1,2)] assms(3,4) unfolding run_inv_def by blast
  then have "length (four_aw cs ! nat r) \<le> i + 4" and w: "\<And>k. length (four_aw cs ! nat r) \<le> k \<Longrightarrow>
      k < length (activations log r) \<Longrightarrow> activations log r ! k + of_int (tFAW C) \<le> activations log r ! (k - 4)"
    unfolding window_inv_def by auto
  with w [of "i + 4"] assms(5) show ?thesis by simp
qed


section \<open>A run of the default device\<close>

text \<open>
  A driver that offers requested commands at given times and issues what is ready; its logs are logs of
  runs. The example activates five rows in one rank, the fifth after a precharge, and reads.
\<close>

fun drive :: "Config \<Rightarrow> Timing \<Rightarrow> (u64 \<times> Command) list \<Rightarrow> ChannelState \<times> cmd_log \<Rightarrow> (ChannelState \<times> cmd_log) option" where
  "drive C T [] s = Some s"
| "drive C T ((clk, cmd) # rs) (cs, log) =
     (if times_before log clk \<and> cmd_in C cmd \<and> (IsReadWrite cmd \<or> IsRefresh cmd) then
        (case GetReadyCommand C cs cmd clk of Inl _ \<Rightarrow> None
         | Inr c \<Rightarrow> if IsValid c then
             (case UpdateTimingAndStates C T c clk cs of Inl _ \<Rightarrow> None
              | Inr cs' \<Rightarrow> drive C T rs (cs', (clk, c) # log))
           else drive C T rs (cs, log))
      else None)"

lemma drive_run:
  "channel_run C T (fst s) (snd s) \<Longrightarrow> drive C T rs s = Some s' \<Longrightarrow> channel_run C T (fst s') (snd s')"
proof (induction C T rs s rule: drive.induct)
  case (1 C T s)
  then show ?case by simp
next
  case (2 C T clk cmd rs cs log)
  then show ?case by (auto split: if_splits sum.splits intro: run_issue)
qed

definition rd :: "int \<Rightarrow> int \<Rightarrow> int \<Rightarrow> Command" where
  "rd j k row = \<lparr>cmd_type = READ, cmd_addr = \<lparr>ad_channel = 0, ad_rank = 0, ad_bankgroup = j, ad_bank = k,
     ad_row = row, ad_column = 0\<rparr>, hex_addr = 0\<rparr>"

definition example_requests :: "(u64 \<times> Command) list" where
  "example_requests = [(0, rd 0 0 3), (4, rd 0 1 3), (8, rd 1 0 3), (10, rd 0 0 3), (12, rd 1 1 3),
     (24, rd 0 0 4), (50, rd 0 0 4)]"

definition example_log :: cmd_log where
  "example_log = [(50, (rd 0 0 4)\<lparr>cmd_type := ACTIVATE\<rparr>), (24, (rd 0 0 4)\<lparr>cmd_type := PRECHARGE\<rparr>),
     (12, (rd 1 1 3)\<lparr>cmd_type := ACTIVATE\<rparr>), (10, rd 0 0 3), (8, (rd 1 0 3)\<lparr>cmd_type := ACTIVATE\<rparr>),
     (4, (rd 0 1 3)\<lparr>cmd_type := ACTIVATE\<rparr>), (0, (rd 0 0 3)\<lparr>cmd_type := ACTIVATE\<rparr>)]"

lemma example_run: "\<exists>cs. channel_run config_default (Timing_new config_default) cs example_log"
proof -
  have "map_option snd (drive config_default (Timing_new config_default) example_requests
      (ChannelState_new config_default, [])) = Some example_log"
    by code_simp
  then obtain s where "drive config_default (Timing_new config_default) example_requests
      (ChannelState_new config_default, []) = Some s" "snd s = example_log" by auto
  with drive_run [of config_default "Timing_new config_default" "(ChannelState_new config_default, [])"]
  show ?thesis using run_new by (metis fst_conv snd_conv)
qed


lemma device_default: "device_ok config_default"
  by (simp add: device_ok_def config_default_def)

theorem dram_timing_witness:
  "\<exists>cs. channel_run config_default (Timing_new config_default) cs example_log \<and>
     example_log ! 3 = (10, rd 0 0 3) \<and> example_log ! 6 = (0, (rd 0 0 3)\<lparr>cmd_type := ACTIVATE\<rparr>) \<and>
     (READ, tRCD config_default - AL config_default) \<in>
       set (asked (Timing_new config_default) ((rd 0 0 3)\<lparr>cmd_type := ACTIVATE\<rparr>) (0, 0, 0)) \<and>
     (0::u64) + of_int (tRCD config_default - AL config_default) \<le> 10"
proof -
  obtain cs where r: "channel_run config_default (Timing_new config_default) cs example_log"
    using example_run by blast
  let ?act = "(rd 0 0 3)\<lparr>cmd_type := ACTIVATE\<rparr>"
  have l: "example_log = take 3 example_log @ (10, rd 0 0 3) # [(8, (rd 1 0 3)\<lparr>cmd_type := ACTIVATE\<rparr>),
     (4, (rd 0 1 3)\<lparr>cmd_type := ACTIVATE\<rparr>)] @ (0, ?act) # []" by (simp add: example_log_def)
  have d: "(cmd_type (rd 0 0 3), tRCD config_default - AL config_default) \<in>
      set (if cmd_type ?act = REFRESH_BANK then delays (Timing_new config_default) ?act (0, 0, 0)
           else asked (Timing_new config_default) ?act (0, 0, 0))"
    by (simp add: asked_def rd_def Timing_new_def same_bank_table_def same_rank_table_def cmd_defs activate_to_read_def
      IsGDDR_def IsHBM_def config_default_def)
  have q: "in_banks config_default (0, 0, 0)" "addressed (rd 0 0 3) (0, 0, 0)"
    by (simp_all add: in_banks_def config_default_def addressed_def rd_def)
  have "(0::u64) + of_int (tRCD config_default - AL config_default) \<le> 10" by (rule dram_timing [OF device_default r l q d])
  moreover have "example_log ! 3 = (10, rd 0 0 3)" "example_log ! 6 = (0, ?act)" by (simp_all add: example_log_def)
  moreover have "(READ, tRCD config_default - AL config_default) \<in> set (asked (Timing_new config_default) ?act (0, 0, 0))"
    using d by (simp add: rd_def)
  ultimately show ?thesis using r by blast
qed

theorem dram_rows_witness:
  "\<exists>cs. channel_run config_default (Timing_new config_default) cs example_log \<and>
     row_of (drop 4 example_log) (0, 0, 0) = Some 3 \<and> row_of example_log (0, 0, 0) = Some 4"
proof -
  obtain cs where r: "channel_run config_default (Timing_new config_default) cs example_log"
    using example_run by blast
  have l: "example_log = take 3 example_log @ (10, rd 0 0 3) # drop 4 example_log" by (simp add: example_log_def)
  have rw: "IsReadWrite (rd 0 0 3)" by (simp add: rd_def cmd_defs)
  have "row_of (drop 4 example_log) (c_rank (rd 0 0 3), c_bankgroup (rd 0 0 3), c_bank (rd 0 0 3)) = Some (c_row (rd 0 0 3))"
    using dram_rows [OF device_default r] l rw by blast
  moreover have "row_of example_log (0, 0, 0) = Some 4"
    by (simp add: example_log_def rd_def addressed_def cmd_defs)
  ultimately show ?thesis using r by (auto simp: rd_def)
qed

theorem dram_four_activations_witness:
  "activations example_log 0 = [50, 12, 8, 4, 0] \<and> (0::u64) + of_int (tFAW config_default) \<le> 50"
proof -
  obtain cs where r: "channel_run config_default (Timing_new config_default) cs example_log"
    using example_run by blast
  have a: "activations example_log 0 = [50, 12, 8, 4, 0]" by (simp add: activations_def example_log_def rd_def)
  have "0 < ranks config_default" by (simp add: config_default_def)
  with dram_four_activations [OF device_default r _ _, of 0 0] a show ?thesis by simp
qed

end
