(* ===== verification/Dram_Issues.thy ===== *)
theory Dram_Issues
  imports Dram_Protocol Dram_System
begin

text \<open>
  Behaviours of the DRAM simulator at the edge of its contract: two commands in one cycle, and four
  places where the code does not do what its comments or its tables say (the self-refresh exit, the
  refresh of all ranks at once, the recovery time of a bank refresh, the ideal memory's skipped
  transaction).
\<close>

section \<open>Two commands in one cycle\<close>

text \<open>
  With \<open>enable_hbm_dual_cmd\<close> the controller asks for a second command after the first was issued. It
  drops that command when both are reads or writes, although the queue has already forgotten it. This
  never happens as long as all delays between reads and writes that the device has are positive; the
  delays to another rank matter only if there are several ranks.
\<close>

definition rw_delays :: "Config \<Rightarrow> int list" where
  "rw_delays C = [read_to_read_l C, read_to_read_s C, read_to_write C, write_to_read_l C, write_to_read_s C,
       write_to_write_l C, write_to_write_s C] @
     (if 1 < ranks C then [read_to_read_o C, read_to_write_o C, write_to_read_o C, write_to_write_o C] else [])"

lemma rw_delay_entry:
  assumes "IsReadWrite c" and "IsReadWrite c2" and "q \<noteq> (c_rank c, c_bankgroup c, c_bank c) \<or> cmd_type c = READ \<or> cmd_type c = WRITE"
    and "cmd_in C c" and "in_banks C q"
  shows "\<exists>d \<in> set (rw_delays C). (cmd_type c2, d) \<in> set (delays (Timing_new C) c q)"
proof -
  obtain r j k where q: "q = (r, j, k)" by (cases q)
  have t: "cmd_type c \<in> {READ, READ_PRECHARGE, WRITE, WRITE_PRECHARGE}"
    "cmd_type c2 \<in> {READ, READ_PRECHARGE, WRITE, WRITE_PRECHARGE}"
    using assms(1,2) by (auto simp: cmd_defs)
  have nr: "\<not> IsRankCMD c" using assms(1) by (auto simp: cmd_defs)
  have several: "1 < ranks C" if "r \<noteq> c_rank c" using that assms(4,5) by (auto simp: q cmd_in_def in_banks_def)
  consider "r \<noteq> c_rank c" "1 < ranks C" | "r = c_rank c" "j \<noteq> c_bankgroup c" | "r = c_rank c" "j = c_bankgroup c" "k \<noteq> c_bank c"
    | "r = c_rank c" "j = c_bankgroup c" "k = c_bank c" "cmd_type c = READ \<or> cmd_type c = WRITE"
    using assms(3) q several by auto
  then show ?thesis
    by cases (use t nr in \<open>elim insertE emptyE; simp add: q delays_def Timing_new_def rw_delays_def other_ranks_table_def
      other_bankgroups_same_rank_table_def other_banks_same_bankgroup_table_def same_bank_table_def\<close>)+
qed

lemma later_time:
  assumes "clk + of_int d \<le> (clk :: u64)" and "unat clk < 2 ^ 63" and "0 < d" and "d < 2 ^ 31"
  shows False
proof -
  have d: "unat (of_int d :: u64) = nat d"
    using assms(3,4) by (simp add: unat_eq_nat_uint uint_word_of_int_eq take_bit_int_eq_self)
  have "unat clk + nat d < 2 ^ 64" using assms(2-4) by auto
  then have "unat (clk + of_int d) = unat clk + nat d" using d by (simp add: unat_add_lem [THEN iffD1])
  with assms(1,3) show False by (simp add: word_le_nat_alt)
qed

text \<open>Two reads or writes are not ready one after the other in the same cycle.\<close>

lemma no_second_rw:
  assumes ok: "cs_ok C cs" and rf: "ready_for C cs clk c" and rw: "IsReadWrite c"
    and u: "UpdateTimingAndStates C (Timing_new C) c clk cs = Inr cs'"
    and rf2: "ready_for C cs' clk c2" and rw2: "IsReadWrite c2"
    and del: "\<forall>d \<in> set (rw_delays C). 0 < d \<and> d < 2 ^ 31" and clk: "unat clk < 2 ^ 63"
  shows False
proof -
  note i = issued_at [OF ok rf u]
  let ?q = "(c_rank c2, c_bankgroup c2, c_bank c2)"
  have q: "in_banks C ?q" "addressed c2 ?q"
    using rf2 rw2 by (auto simp: ready_for_def addressed_def intro: rw_in_banks)
  then have r: "cmd_timing (cs_bank cs' ?q) (cmd_type c2) \<le> clk" "\<exists>b. bank_UpdateState c2 (cs_bank cs' ?q) = Inr b"
    using rf2 unfolding ready_for_def by blast+
  obtain b where b: "addressed c ?q \<Longrightarrow> bank_UpdateState c (cs_bank cs ?q) = Inr b"
    "cs_bank cs' ?q = apply_timing (delays (Timing_new C) c ?q) clk b" using issued_bank [OF i q(1)] by metis
  have ci: "cmd_in C c" using rf by (simp add: ready_for_def)
  show False
  proof (cases "?q \<noteq> (c_rank c, c_bankgroup c, c_bank c) \<or> cmd_type c = READ \<or> cmd_type c = WRITE")
    case True
    from rw_delay_entry [OF rw rw2 True ci q(1)] obtain d where
      d: "d \<in> set (rw_delays C)" "(cmd_type c2, d) \<in> set (delays (Timing_new C) c ?q)" by blast
    have "clk + of_int d \<le> clk" using apply_timing_enforces [OF d(2), of clk b] b(2) r(1) by simp
    then show False by (rule later_time) (use del clk d(1) in auto)
  next
    case False
    then have "addressed c ?q" "cmd_type c = READ_PRECHARGE \<or> cmd_type c = WRITE_PRECHARGE"
      using rw by (auto simp: addressed_def cmd_defs)
    with b(1) have "bs_state b \<noteq> OPEN" by (auto simp: bank_UpdateState_def split: bank_st.splits)
    then have "bs_state (cs_bank cs' ?q) \<noteq> OPEN" using b(2) by simp
    with r(2) rw2 show False by (auto simp: bank_UpdateState_def cmd_defs split: bank_st.splits)
  qed
qed

lemma IssueCommand_channel:
  assumes "IssueCommand C T c ct = Inr ct'"
  shows "UpdateTimingAndStates C T c (ct_clk ct) (ct_channel ct) = Inr (ct_channel ct')"
  using assms
  by (auto simp: IssueCommand_def return_reads_def finish_write_def res_bind_def split: if_splits sum.splits option.splits)

lemma next_command_channel: "next_command C ct = Inr (c, ct') \<Longrightarrow> ct_channel ct' = ct_channel ct \<and> ct_clk ct' = ct_clk ct"
  by (auto simp: next_command_def res_bind_def split: sum.splits)

text \<open>
  C23. Two commands in one cycle. In every state of a controller that satisfies its invariant, let \<open>cmd\<close> be
  the command chosen and issued in this cycle and \<open>c2\<close> the one the queue then hands out. If \<open>c2\<close> is a read or
  write, so that the queue has forgotten it, then \<open>cmd\<close> is neither, and the second command is issued:
  no request is dropped. The premise is that all delays between reads and writes the device has are
  positive, those to another rank only if there are several ranks (the HBM files of the repository have one).
\<close>

theorem second_command_kept:
  assumes "ctrl_cfg C" and "ct_inv C ct" and "choose_command C ct = Inr (cmd, ct1)" and "IsValid cmd"
    and "IssueCommand C (Timing_new C) cmd ct1 = Inr ct2" and "next_command C ct2 = Inr (c2, ct3)" and "IsReadWrite c2"
    and "\<forall>d \<in> set (rw_delays C). 0 < d \<and> d < 2 ^ 31" and "unat (ct_clk ct) < 2 ^ 63"
  shows "\<not> IsReadWrite cmd \<and> (\<exists>ct4. IssueCommand C (Timing_new C) c2 ct3 = Inr ct4 \<and>
    second_command C (Timing_new C) cmd ct2 = Inr (ct4\<lparr>ct_stats := Increment ''hbm_dual_cmds'' (ct_stats ct4)\<rparr>))"
proof -
  let ?T = "Timing_new C"
  from choose_command_ok [OF assms(1,2)] assms(3,4) have
    1: "ct_inv C ct1" "ct_clk ct1 = ct_clk ct" "ready_for C (ct_channel ct1) (ct_clk ct1) cmd" "can_issue ct1 cmd"
    by (auto simp: same_pending_def)
  from IssueCommand_ok [OF 1(1,3,4), of ?T] assms(5) have 2: "ct_inv C ct2" "ct_clk ct2 = ct_clk ct1" by (auto simp: same_pending_def)
  have v2: "IsValid c2" using assms(7) by (auto simp: cmd_defs)
  from next_command_ok [OF assms(1) 2(1)] assms(6) v2 have
    3: "ct_inv C ct3" "ready_for C (ct_channel ct3) (ct_clk ct3) c2" "can_issue ct3 c2" by auto
  have "ready_for C (ct_channel ct2) (ct_clk ct1) c2" using 3(2) next_command_channel [OF assms(6)] 2(2) by simp
  with no_second_rw [OF _ 1(3) _ IssueCommand_channel [OF assms(5)] _ assms(7,8)] 1(1,2) assms(9)
  have rw: "\<not> IsReadWrite cmd" by (auto simp: ct_inv_def)
  from IssueCommand_ok [OF 3, of ?T] obtain ct4 where "IssueCommand C ?T c2 ct3 = Inr ct4" by blast
  with rw v2 assms(6,7) show ?thesis by (simp add: second_command_def)
qed

text \<open>
  The memory that the configurations of the accelerator name, \<open>src/DRAMsim3/configs/HBM2_8Gb_x128.ini\<close>: the
  getters return what is in the file, or the default.
\<close>

definition hbm2_integers :: "((string \<times> string) \<times> int) list" where
  "hbm2_integers =
     map (\<lambda>(k, v). ((''dram_structure'', k), v)) [(''bankgroups'', 4), (''banks_per_group'', 4), (''rows'', 32768), (''columns'', 64),
       (''device_width'', 128), (''BL'', 4), (''num_dies'', 4)] @
     map (\<lambda>(k, v). ((''timing'', k), v)) [(''CL'', 14), (''CWL'', 4), (''tRCDRD'', 14), (''tRCDWR'', 14), (''tRP'', 14), (''tRAS'', 34),
       (''tRFC'', 260), (''tREFI'', 3900), (''tREFIb'', 128), (''tRPRE'', 1), (''tWPRE'', 1), (''tRRD_S'', 4), (''tRRD_L'', 6),
       (''tWTR_S'', 6), (''tWTR_L'', 8), (''tFAW'', 30), (''tWR'', 16), (''tCCD_S'', 1), (''tCCD_L'', 2), (''tXS'', 268), (''tCKE'', 8),
       (''tCKSRE'', 10), (''tXP'', 8), (''tRTP_L'', 6), (''tRTP_S'', 4)] @
     map (\<lambda>(k, v). ((''system'', k), v)) [(''channel_size'', 1024), (''channels'', 8), (''bus_width'', 128), (''cmd_queue_size'', 8),
       (''trans_queue_size'', 32)] @
     [((''other'', ''epoch_period''), 1000000)]"

definition ini_hbm2 :: ini_reader where
  "ini_hbm2 = \<lparr>ini_error = 0,
     ini_string = (\<lambda>s k d. if k = ''protocol'' then ''HBM'' else if k = ''address_mapping'' then ''rorabgbachco''
       else if k = ''queue_structure'' then ''PER_BANK'' else if k = ''row_buf_policy'' then ''OPEN_PAGE'' else d),
     ini_integer = (\<lambda>s k d. case map_of hbm2_integers (s, k) of None \<Rightarrow> d | Some v \<Rightarrow> v),
     ini_boolean = (\<lambda>s k d. if k = ''unified_queue'' then False else d)\<rparr>"

text \<open>
  A read for one bank, and 14 cycles later a read for another: in the next cycle the second bank is activated
  and the first is read.
\<close>

fun ticks :: "Config \<Rightarrow> nat \<Rightarrow> DController \<Rightarrow> DController res" where
  "ticks C 0 ct = Inr ct"
| "ticks C (Suc n) ct = res_bind (ct_ClockTick C (Timing_new C) ct) (ticks C n)"

definition dual_example :: "Config \<Rightarrow> DController res" where
  "dual_example C = res_bind (DController_new C 0) (\<lambda>ct.
     res_bind (ticks C 14 (ct_AddTransaction (DTransaction_new 0 False) ct)) (\<lambda>ct1.
     ticks C 1 (ct_AddTransaction (DTransaction_new 0x10000 False) ct1)))"

definition two_commands :: "Config \<Rightarrow> DController \<Rightarrow> (Command \<times> DController \<times> DController \<times> Command \<times> DController) res" where
  "two_commands C ct = res_bind (choose_command C ct) (\<lambda>(cmd, ct1). res_bind (IssueCommand C (Timing_new C) cmd ct1) (\<lambda>ct2.
     res_bind (next_command C ct2) (\<lambda>(c2, ct3). Inr (cmd, ct1, ct2, c2, ct3))))"

definition dual_ok :: "Config \<Rightarrow> bool" where
  "dual_ok C = (file_ok C \<and> enable_hbm_dual_cmd C \<and> list_all (\<lambda>d. 0 < d \<and> d < 2 ^ 31) (rw_delays C) \<and>
     (case dual_example C of Inl _ \<Rightarrow> False | Inr ct \<Rightarrow> ct_clk ct = 15 \<and>
       (case two_commands C ct of Inl _ \<Rightarrow> False
        | Inr (cmd, ct1, ct2, c2, ct3) \<Rightarrow> cmd_type cmd = ACTIVATE \<and> cmd_type c2 = READ)))"

lemma hbm2_dual: "case Config_new ini_hbm2 Config_zero of Inl _ \<Rightarrow> False | Inr C \<Rightarrow> dual_ok C"
  by code_simp

lemma ticks_inv: "ctrl_cfg C \<Longrightarrow> ct_inv C ct \<Longrightarrow> ticks C n ct = Inr ct' \<Longrightarrow> ct_inv C ct'"
proof (induction n arbitrary: ct)
  case (Suc n)
  from ct_tick_ok [OF Suc.prems(1,2), of "Timing_new C"] obtain s where
    "ct_ClockTick C (Timing_new C) ct = Inr s" "ct_inv C s" by blast
  with Suc show ?case by simp
qed simp

lemma dual_example_inv:
  assumes "Config_new R c0 = Inr C" and "file_ok C" and "dual_example C = Inr ct"
  shows "ctrl_cfg C \<and> ct_inv C ct"
proof -
  have f: "device_file_ok C" using assms(2) by (simp add: file_ok_def)
  have cfg: "ctrl_cfg C" using jedec_cfg_file [OF assms(1) f] by (simp add: jedec_cfg_def)
  then have "device_ok C" "refresh_policy C \<noteq> POLICY_SIZE" by (simp_all add: ctrl_cfg_def)
  from DController_new_ok [OF this f, of 0] obtain c where c: "DController_new C 0 = Inr c" "ct_inv C c" by blast
  have add: "ct_inv C (ct_AddTransaction (DTransaction_new a False) s)" if "ct_inv C s" for a s
    using ct_Add_ok [OF that, of "DTransaction_new a False"] by auto
  from assms(3) c(1) obtain c1 where "ticks C 14 (ct_AddTransaction (DTransaction_new 0 False) c) = Inr c1"
    "ticks C 1 (ct_AddTransaction (DTransaction_new 0x10000 False) c1) = Inr ct"
    unfolding dual_example_def by (auto simp: res_bind_def split: sum.splits)
  with ticks_inv [OF cfg] add c(2) cfg show ?thesis by blast
qed

theorem second_command_kept_witness:
  "\<exists>C ct cmd ct1 ct2 c2 ct3 ct4. Config_new ini_hbm2 Config_zero = Inr C \<and> enable_hbm_dual_cmd C \<and> dual_example C = Inr ct \<and>
     choose_command C ct = Inr (cmd, ct1) \<and> cmd_type cmd = ACTIVATE \<and> IssueCommand C (Timing_new C) cmd ct1 = Inr ct2 \<and>
     next_command C ct2 = Inr (c2, ct3) \<and> cmd_type c2 = READ \<and> IssueCommand C (Timing_new C) c2 ct3 = Inr ct4 \<and>
     second_command C (Timing_new C) cmd ct2 =
       Inr (ct4\<lparr>ct_stats := Increment ''hbm_dual_cmds'' (ct_stats ct4)\<rparr>)"
proof -
  obtain C where C: "Config_new ini_hbm2 Config_zero = Inr C" "dual_ok C" using hbm2_dual by (auto split: sum.splits)
  then obtain ct cmd ct1 ct2 c2 ct3 where e: "file_ok C" "enable_hbm_dual_cmd C" "\<forall>d \<in> set (rw_delays C). 0 < d \<and> d < 2 ^ 31"
    "dual_example C = Inr ct" "ct_clk ct = 15" "two_commands C ct = Inr (cmd, ct1, ct2, c2, ct3)" "cmd_type cmd = ACTIVATE" "cmd_type c2 = READ"
    unfolding dual_ok_def by (auto simp: list_all_iff split: sum.splits prod.splits)
  have t: "choose_command C ct = Inr (cmd, ct1)" "IssueCommand C (Timing_new C) cmd ct1 = Inr ct2" "next_command C ct2 = Inr (c2, ct3)"
    using e(6) unfolding two_commands_def by (auto simp: res_bind_def split: sum.splits prod.splits)
  have "IsValid cmd" "IsReadWrite c2" using e(7,8) by (simp_all add: cmd_defs)
  from second_command_kept [OF _ _ t(1) this(1) t(2,3) this(2) e(3)] dual_example_inv [OF C(1) e(1,4)] e(5)
  obtain ct4 where "IssueCommand C (Timing_new C) c2 ct3 = Inr ct4" "second_command C (Timing_new C) cmd ct2 = Inr (ct4\<lparr>ct_stats := Increment ''hbm_dual_cmds'' (ct_stats ct4)\<rparr>)"
    by auto
  with C(1) e(2,4,7,8) t show ?thesis by blast
qed

section \<open>Behaviours that contradict the comments\<close>

text \<open>
  C26. Self refresh. Waking a rank from self refresh aborts the simulation: when the banks of a rank are
  in self refresh, the controller's request for \<open>SREF_EXIT\<close> is answered by \<open>AbruptExit\<close>, whatever the
  time.
\<close>

theorem sref_exit_aborts:
  assumes "device_ok C" and "banks_shape C (bank_states cs)" and "0 \<le> r" "r < ranks C"
    and "\<forall>q. in_banks C q \<longrightarrow> fst q = r \<longrightarrow> bs_state (cs_bank cs q) = SREF"
  shows "GetReadyCommand C cs \<lparr>cmd_type = SREF_EXIT, cmd_addr = Address_none\<lparr>ad_rank := r\<rparr>, hex_addr = - 1\<rparr> clk = Inl Abrupt"
proof -
  have q: "in_banks C (r, 0, 0)" using assms(1,3,4) by (auto simp: in_banks_def device_ok_def)
  then have st: "bs_state (cs_bank cs (r, 0, 0)) = SREF" using assms(5) by auto
  have "iota n = 0 # map int [1..<nat n]" if "1 \<le> n" for n using that by (simp add: iota_def upt_conv_Cons)
  then obtain ps where ps: "rank_banks C r = (r, 0, 0) # ps"
    using assms(1) unfolding rank_banks_def device_ok_def by simp
  have "bank_at (bank_states cs) r 0 0 = Inr (cs_bank cs (r, 0, 0))" by (rule bank_at_in [OF assms(2) q])
  with st show ?thesis
    by (simp add: GetReadyCommand_def cmd_defs ps bank_GetReadyCommand_def required_type_def)
qed

theorem sref_exit_aborts_witness:
  "GetReadyCommand config_default ((ChannelState_new config_default)\<lparr>bank_states :=
       [[[BankState_new\<lparr>bs_state := SREF\<rparr>, BankState_new\<lparr>bs_state := SREF\<rparr>],
         [BankState_new\<lparr>bs_state := SREF\<rparr>, BankState_new\<lparr>bs_state := SREF\<rparr>]]]\<rparr>)
     \<lparr>cmd_type = SREF_EXIT, cmd_addr = Address_none\<lparr>ad_rank := 0\<rparr>, hex_addr = - 1\<rparr> 500 = Inl Abrupt"
proof (rule sref_exit_aborts [OF device_default])
  show "0 < ranks config_default" by (simp add: config_default_def)
qed (auto simp: banks_shape_def config_default_def in_banks_def bank_of_def nth_Cons' split: if_splits)

text \<open>
  C27. Refresh of all ranks. The policy documented as refreshing all ranks simultaneously puts a single
  refresh into the queue, always for rank 0: the other ranks are never refreshed.
\<close>

theorem simultaneous_refresh_one_rank:
  assumes "device_ok C" and "cs_ok C cs" and "refresh_policy C = RANK_LEVEL_SIMULTANEOUS"
  shows "InsertRefresh C f cs = Inr (f, RankNeedRefresh 0 True cs)"
proof -
  have "length (rank_is_sref cs) = nat (ranks C)" "\<forall>b \<in> set (rank_is_sref cs). \<not> b" "0 < ranks C"
    using assms(1,2) by (auto simp: cs_ok_def cs_shape_def device_ok_def)
  from first_awake_ok [OF this] assms(3) show ?thesis by (simp add: InsertRefresh_def)
qed

theorem simultaneous_refresh_one_rank_witness:
  "let C = config_default\<lparr>ranks := 2, refresh_policy := RANK_LEVEL_SIMULTANEOUS\<rparr>;
       f = \<lparr>r_clk = 7800, refresh_interval = 7800, next_rank = 0, next_bg = 0, next_bank = 0\<rparr>
   in InsertRefresh C f (ChannelState_new C) = Inr (f, RankNeedRefresh 0 True (ChannelState_new C))"
  unfolding Let_def
  by (rule simultaneous_refresh_one_rank [OF _ ChannelState_new_ok]) (simp_all add: device_ok_def config_default_def)

text \<open>
  C37. Recovery of a refreshed bank. The tables ask for \<open>tRFCb\<close> cycles between the refresh of a bank and the
  next activation of that bank. In every run of a channel, issuing such a refresh leaves the times of the
  refreshed bank as they were, so an activation that was possible before is possible at once.
\<close>

theorem refresh_bank_no_recovery:
  assumes "device_ok C" and "channel_run C (Timing_new C) cs log" and "cmd_in C cmd" and "IsRefresh cmd"
    and "GetReadyCommand C cs cmd clk = Inr c" and "cmd_type c = REFRESH_BANK"
    and "UpdateTimingAndStates C (Timing_new C) c clk cs = Inr cs'"
  shows "cmd_timing (cs_bank cs' (c_rank c, c_bankgroup c, c_bank c)) = cmd_timing (cs_bank cs (c_rank c, c_bankgroup c, c_bank c)) \<and>
    (ACTIVATE, tRFCb C) \<in> set (asked (Timing_new C) c (c_rank c, c_bankgroup c, c_bank c))"
proof -
  let ?q = "(c_rank c, c_bankgroup c, c_bank c)"
  have ok: "cs_ok C cs" using channel_run_inv [OF assms(1,2)] by (simp add: run_inv_def)
  have rf: "ready_for C cs clk c" using GetReady_ok [OF assms(1) ok assms(3), of clk] assms(4-6) by (auto simp: cmd_defs)
  then have q: "in_banks C ?q" using assms(6) by (auto simp: ready_for_def cmd_in_def cmd_defs)
  obtain b where b: "cs_bank cs' ?q = apply_timing (delays (Timing_new C) c ?q) clk b" "cmd_timing b = cmd_timing (cs_bank cs ?q)"
    using issued_bank [OF issued_at [OF ok rf assms(7)] q] by metis
  have "delays (Timing_new C) c ?q = []"
    using assms(6) by (simp add: delays_def Timing_new_def same_bank_table_def cmd_defs Let_def)
  moreover have "(ACTIVATE, tRFCb C) \<in> set (asked (Timing_new C) c ?q)"
    using assms(6) by (simp add: asked_def Timing_new_def same_rank_table_def refresh_to_activate_bank_def Let_def)
  ultimately show ?thesis using b by (simp add: apply_timing_def)
qed

text \<open>On the default device the refreshed bank is activated one cycle after its refresh.\<close>

theorem refresh_bank_no_recovery_witness:
  "\<exists>cs cs'. GetReadyCommand config_default cs ((rd 0 1 5)\<lparr>cmd_type := REFRESH_BANK\<rparr>) 0 = Inr ((rd 0 1 5)\<lparr>cmd_type := REFRESH_BANK\<rparr>) \<and>
     UpdateTimingAndStates config_default (Timing_new config_default) ((rd 0 1 5)\<lparr>cmd_type := REFRESH_BANK\<rparr>) 0 cs = Inr cs' \<and>
     cmd_timing (cs_bank cs' (0, 0, 1)) ACTIVATE = 0 \<and> 0 < tRFCb config_default \<and>
     GetReadyCommand config_default cs' (rd 0 1 5) 1 = Inr ((rd 0 1 5)\<lparr>cmd_type := ACTIVATE\<rparr>)"
proof -
  let ?C = "config_default" and ?T = "Timing_new config_default" and ?c = "(rd 0 1 5)\<lparr>cmd_type := REFRESH_BANK\<rparr>"
  have g: "GetReadyCommand ?C (ChannelState_new ?C) ?c 0 = Inr ?c" by code_simp
  have "(case UpdateTimingAndStates ?C ?T ?c 0 (ChannelState_new ?C) of Inl _ \<Rightarrow> Inl Abrupt
      | Inr cs \<Rightarrow> GetReadyCommand ?C cs (rd 0 1 5) 1) = Inr ((rd 0 1 5)\<lparr>cmd_type := ACTIVATE\<rparr>)" by code_simp
  then obtain cs' where cs': "UpdateTimingAndStates ?C ?T ?c 0 (ChannelState_new ?C) = Inr cs'"
    "GetReadyCommand ?C cs' (rd 0 1 5) 1 = Inr ((rd 0 1 5)\<lparr>cmd_type := ACTIVATE\<rparr>)" by (auto split: sum.splits)
  have ci: "cmd_in ?C ?c" "IsRefresh ?c" "cmd_type ?c = REFRESH_BANK"
    by (simp_all add: rd_def cmd_defs cmd_in_def in_banks_def config_default_def)
  from refresh_bank_no_recovery [OF device_default run_new ci(1,2) g ci(3) cs'(1)]
  have "cmd_timing (cs_bank cs' (0, 0, 1)) = cmd_timing (cs_bank (ChannelState_new ?C) (0, 0, 1))" by (simp add: rd_def)
  moreover have "cmd_timing (cs_bank (ChannelState_new ?C) (0, 0, 1)) ACTIVATE = 0" "0 < tRFCb ?C" by code_simp+
  ultimately show ?thesis using g cs' by metis
qed

text \<open>
  C28. Skipped completions of the ideal memory. When the oldest transaction of the ideal memory is due,
  the one behind it is left in the buffer in that cycle even if it is due as well: after an erased
  element the loop steps over its successor.
\<close>

theorem ideal_memory_skips:
  assumes "infinite_buffer_q s = t # u # ts" and "is_clk s - added_cycle t \<ge> of_int (is_latency s)"
    and "is_clk s - added_cycle u \<ge> of_int (is_latency s)" and "tr_req u \<notin> set (map tr_req ts)"
    and "tr_req u \<noteq> tr_req t"
  shows "u \<in> set (infinite_buffer_q (fst (Ideal_ClockTick s))) \<and> tr_req u \<notin> set (snd (Ideal_ClockTick s))"
proof -
  obtain es r where l: "ideal_loop (is_clk s) (of_int (is_latency s)) ts = (es, r)" by force
  have "set es \<subseteq> set (map tr_req ts)"
    using arg_cong [OF ideal_loop_mset [OF l], of set_mset] by auto
  with assms(4) have "tr_req u \<notin> set es" by blast
  with assms(2,5) l show ?thesis by (simp add: Ideal_ClockTick_def assms(1))
qed

theorem ideal_memory_skips_witness:
  "let s = \<lparr>is_clk = 30, is_latency = 10, infinite_buffer_q =
        [(DTransaction_new 0 False)\<lparr>added_cycle := 5\<rparr>, (DTransaction_new 64 False)\<lparr>added_cycle := 5\<rparr>]\<rparr>
   in (DTransaction_new 64 False)\<lparr>added_cycle := 5\<rparr> \<in> set (infinite_buffer_q (fst (Ideal_ClockTick s))) \<and>
      tr_req ((DTransaction_new 64 False)\<lparr>added_cycle := 5\<rparr>) \<notin> set (snd (Ideal_ClockTick s))"
  unfolding Let_def
  by (rule ideal_memory_skips [where t = "(DTransaction_new 0 False)\<lparr>added_cycle := 5\<rparr>" and ts = "[]"])
    (simp_all add: DTransaction_new_def tr_req_def)

end
