(* ===== verification/Spec2Isabelle.thy ===== *)
theory Spec2Isabelle
  imports Sim_Terminates Sim_Hmc Dram_Issues
begin

text \<open>
  A verification development for SGCN, a cycle-level simulator of an accelerator for graph
  convolution networks. The simulator proper is \<open>src/src\<close>; the memory behind it is the DRAM
  simulator DRAMsim3 in \<open>src/DRAMsim3/src\<close>, which is part of the repository.

  \<^bold>\<open>The program.\<close> \<open>main\<close> (\<open>main.cc\<close>) reads the options, and the \<open>Preprocessor\<close> reads the ini file, the
  graph in compressed rows and the feature matrix, distributes the rows over the engines (\<open>LAC\<close>), splits
  them into tiles (\<open>Tiling\<close>), marks the cache lines of the features that exist (\<open>TransXW\<close>) and assigns
  addresses (\<open>AddressMapping\<close>). The \<open>Controller\<close> then runs cycles until no write is outstanding: for every
  engine the \<open>GraphReader\<close> requests and receives the lines of the graph arrays and passes on one edge, the
  \<open>FeatureReader\<close>, shared by the engines, turns edges into feature lines, looks them up in the \<open>Cache\<close> and
  requests the missing ones, and the \<open>SIMD\<close> core counts the lines and writes a row of output after the last
  line of a vertex; at the end of the cycle \<open>Memory\<close> hands queued transactions to the DRAM simulator and
  clocks it, and completed reads come back through callbacks.

  \<^bold>\<open>Conventions.\<close> Structs and classes are records with the fields of the code, enumerations are datatypes,
  \<open>uint64_t\<close> is a 64-bit word (\<open>u64\<close>), \<open>int\<close> is \<open>int\<close>, \<open>vector\<close> and \<open>queue\<close> are lists, \<open>set\<close> and the table of
  requested lines are sets or ordered lists. Fallible code returns \<open>'a res\<close>, a sum with \<open>cpp_error\<close>: every
  access outside a vector, pop of an empty queue, division by zero, use of an undefined conversion,
  failed assertion, \<open>exit\<close> and exception is an \<open>Inl\<close>, so a theorem that a step is \<open>Inr\<close> says that none
  of them happens. Loops over ranges are \<open>res_fold\<close>; the loops that wait for the memory are
  \<open>partial_function (option)\<close>, and what they return is described by the number of cycles (\<open>cycles\<close>), never
  assumed; that the main loop returns is a theorem on the ideal memory (\<open>Sim_Terminates\<close>).

  \<^bold>\<open>Theories of the simulator.\<close>
  \<^item> \<open>Sim_Prelude\<close>: the result type, checked accesses, folds, and the lemmas on lists and words the
    components share, with their simplification collections. \<open>Sim_Types\<close>: \<open>common.h\<close> and the variables that
    preprocessing fixes (\<open>sim_env\<close>), with a small example.
  \<^item> \<open>Float32\<close>: single-precision division and \<open>ceil\<close> as the code uses them for line counts; exact below
    2^22, one line short for many lengths from 2^24 on.
  \<^item> \<open>Cache\<close> (\<open>cache.cc\<close>): \<open>Insert\<close>, \<open>Access\<close>; a refinement of set-associative LRU on recency lists.
  \<^item> \<open>Memory\<close> (\<open>memory.cc\<close>): the transaction queue and the callbacks. The DRAM simulator is reached through
    the record \<open>dram_ops\<close>; the locale \<open>dram_contract\<close> states what it promises (accepted transactions are a
    multiset, a tick returns a part of it) and carries the lemmas on transactions on their way.
  \<^item> \<open>Graph_Reader\<close> and \<open>Graph_Stream\<close> (\<open>g_reader.cc\<close>): the state machine and, over its runs, that the edges
    passed on are the edges of the engine in order, once per fold, and that the requests enumerate the
    lines of the arrays.
  \<^item> \<open>Feature_Reader\<close> and \<open>Feature_Fetch\<close> (\<open>f_reader.cc\<close>): the four feature formats; the signals for the
    SIMD cores and the discipline of requested, cached and awaited lines.
  \<^item> \<open>Simd\<close> (\<open>simd.cc\<close>): output rows, write addresses and their number.
  \<^item> \<open>Sim_Controller\<close> (\<open>controller.cc\<close>): the cycle in the order of the code, \<open>DAVCRead\<close>, \<open>Combination\<close>.
    \<open>Sim_System\<close>: the invariant of a whole cycle, which links the traces of the components of an engine, and
    what it says when no write is outstanding: all output lines are written (\<open>all_written\<close>) and all edges of
    the folds that have output lines are passed on (\<open>all_passed\<close>). If the lines of a row are used up before
    the last fold (\<open>urb * (bf - 1) = total_urb\<close>, possible in the modes \<open>CSR\<close> and \<open>X_FULL_CMP\<close>), the loop ends although
    edges of that fold remain; in the modes \<open>MAT\<close> and \<open>X_CMP\<close> a well-formed input has no such fold.
    \<open>Sim_Correct\<close>: no cycle fails, and when no write is outstanding the work is complete (\<open>finished\<close>).
  \<^item> \<open>Prep_Text\<close>, \<open>Prep_Graph\<close>, \<open>Prep_Address\<close> (\<open>preprocessor.cc\<close>): reading, distribution and tiling,
    marks and addresses. \<open>Prep_Format\<close>: printed numbers and lines are read back, the two splitters
    agree. \<open>Prep_Layout\<close>, \<open>Prep_Marks\<close>, \<open>Prep_Rows\<close>: the address layout, with the marks of the modes \<open>MAT\<close> and \<open>X_CMP\<close> and
    the rows of the modes \<open>CSR\<close> and \<open>X_FULL_CMP\<close>. \<open>Prep_Env\<close>: preprocessing, in every mode but \<open>X_CMP\<close>, establishes what
    the simulation relies on (\<open>env_ok\<close>), for input in which every fold has lines (\<open>features_ok\<close>). \<open>Prep_Issues\<close>: inputs on which it fails (among
    them every input in the mode \<open>X_CMP\<close>, which reads past the end of a row), and the examples.
  \<^item> \<open>Main_Program\<close>, \<open>Main_Correct\<close> (\<open>main.cc\<close>): options, the result directory, the run, the result table
    and its lock file as interleaved steps of processes; what every accepted command line sets. \<open>Sim_Full\<close>: the
    choice of the memory system and the theorem on the whole program.
  \<^item> \<open>Graph_Live\<close>, \<open>Sim_Progress\<close>, \<open>Sim_Quiet\<close>, \<open>Sim_Live\<close>, \<open>Sim_Terminates\<close>: the main loop ends. Every
    transaction is completed; after the last one an engine that still has work can take a step, because
    what it waits for has arrived or is cached, and the work of an engine is bounded by its input. So a
    run on a memory that answers (locale \<open>dram_live\<close>) leaves no write outstanding after finitely many
    cycles. A stall needs a full transaction queue that never drains, which \<open>2 * engines G < REQUEST_LIMIT\<close>
    excludes: at most two lines per engine are awaited when nothing moves.

  \<^bold>\<open>Theories of the DRAM simulator.\<close>
  \<^item> \<open>Dram_Common\<close>, \<open>Dram_Config\<close>, \<open>Dram_Timing\<close> (\<open>common\<close>, \<open>configuration\<close>, \<open>timing\<close>): the address mapping of
    every accepted configuration is total, in range and injective on lines; the five timing tables.
  \<^item> \<open>Dram_Bank\<close>, \<open>Dram_Channel\<close>, \<open>Dram_Protocol\<close> (\<open>bankstate\<close>, \<open>channel_state\<close>): every pair of commands keeps the
    distance of the tables (except after the refresh of a single bank), column commands go to the open row,
    activations respect tFAW.
  \<^item> \<open>Dram_Queue\<close>, \<open>Dram_Stats\<close>, \<open>Dram_Controller\<close>, \<open>Dram_Controller_Inv\<close> (\<open>command_queue\<close>, \<open>refresh\<close>,
    \<open>simple_stats\<close>, \<open>controller\<close>): queues, refresh, statistics and the controller with its invariant: no
    step fails and every accepted transaction is pending until it is returned.
  \<^item> \<open>Dram_System\<close> (\<open>dram_system\<close>): the JEDEC system and the ideal memory; both interpret \<open>dram_contract\<close>.
    \<open>Memory_Live\<close>, \<open>Ideal_Live\<close>: a memory that answers in bounded time (locale \<open>dram_live\<close>) completes every
    queued transaction, and the ideal memory is one. \<open>Dram_Issues\<close>: the second command of a cycle, and behaviour
    that differs from what the code means to do.
  \<^item> \<open>Hmc\<close>, \<open>Hmc_Inv\<close> (\<open>hmc\<close>): the hybrid memory cube with its links, crossbar, quadrants and vaults. The
    requests not yet completed by the vaults are, as a multiset of addresses, the keys of the table of
    responses; with it the cube provides \<open>dram_contract\<close> until its picosecond counters reach 2^63.
    \<open>Sim_Hmc\<close>: the simulator on the cube, for the first 2^53 cycles.

  \<^bold>\<open>Parameters.\<close> The getters of the ini reader of DRAMsim3 (\<open>ini_reader\<close>, third party), the option scanner of the
  C library (\<open>gopt\<close>), the contents of files and the existing directories are arguments. Memory that the
  code leaves uninitialised is an argument as well (\<open>c0\<close> of \<open>Config_new\<close>).

  \<^bold>\<open>Bounds.\<close> \<open>input_ok\<close> and \<open>features_ok\<close> ask for fewer than 2^16 engines, fewer than 2^24 rows and edges and
  fewer than 2^16 columns: single-precision counts are exact there and no address or write count wraps
  around. Signed overflow of \<open>int\<close> is not modelled: the quantities computed in \<open>int\<close> stay below these bounds.

  \<^bold>\<open>Not modelled.\<close> jsoncpp, json.hpp, fmt, args, catch and INIReader are third-party libraries.
  The thermal model and the trace-driven front end of DRAMsim3 (\<open>cpu.cc\<close>, \<open>main.cc\<close>) are not reached with
  the supported configurations. Printing, energies and averages in floating point, and the progress
  messages of the main loop do not influence the simulation. For the JEDEC system it is shown that no cycle
  fails, that no transaction is lost and that the results are right when the loop ends; that its
  controllers answer in bounded time, on which the end of the loop rests there, is not shown.
\<close>

end
